(* ===== verification/Nachos_Prelude.thy ===== *)
theory Nachos_Prelude
  imports Main "HOL-Library.Word" "HOL-Library.Signed_Division"
begin

text \<open>
  What the components share: the ways a Nachos routine can stop short (a failed \<open>ASSERT\<close>, an
  access outside an array or through a bad pointer, a trap of the host processor), the result type
  with its sequencing operator, C arrays with their bounds written out, the arithmetic macros of
  \<open>threads/utility.h\<close>, and the generic list and word lemmas of the component theories.
\<close>

section \<open>Results\<close>

text \<open>
  \<open>AssertFailed\<close> is the call of \<open>Abort()\<close> in the \<open>ASSERT\<close> macro; \<open>BadAccess\<close> is a read or write
  outside an array or through a null or dangling pointer (undefined behaviour in C++);
  \<open>HostTrap\<close> is an arithmetic trap of the host; \<open>Blocked\<close> is a thread that waits for something
  that cannot happen; \<open>OutOfFuel\<close> marks a loop that used up its bound,
  and every use of it comes with a theorem that the bound is enough.
\<close>

datatype fault = AssertFailed | BadAccess | HostTrap | Blocked | OutOfFuel

type_synonym 'a res = "fault + 'a"

definition bindR :: "'e + 'a \<Rightarrow> ('a \<Rightarrow> 'e + 'b) \<Rightarrow> 'e + 'b" where
  "bindR m f = (case m of Inl e \<Rightarrow> Inl e | Inr x \<Rightarrow> f x)"

definition ASSERT :: "bool \<Rightarrow> 'a res \<Rightarrow> 'a res" where
  "ASSERT c k = (if c then k else Inl AssertFailed)"

named_theorems res_simps \<open>unfolding of results\<close>
named_theorems frame_simps \<open>what an operation leaves unchanged\<close>

lemma bindR_Inl [simp]: "bindR (Inl e) f = Inl e"
  by (simp add: bindR_def)

lemma bindR_Inr [simp]: "bindR (Inr x) f = f x"
  by (simp add: bindR_def)

lemma bindR_eq_Inr [res_simps]: "bindR m f = Inr y \<longleftrightarrow> (\<exists>x. m = Inr x \<and> f x = Inr y)"
  by (cases m) auto

lemma bindR_eq_Inl: "bindR m f = Inl e \<longleftrightarrow> m = Inl e \<or> (\<exists>x. m = Inr x \<and> f x = Inl e)"
  by (cases m) auto

lemma bindR_assoc: "bindR (bindR m f) g = bindR m (\<lambda>x. bindR (f x) g)"
  by (cases m) auto

lemma bindR_cong [fundef_cong]:
  "m = m' \<Longrightarrow> (\<And>x. m' = Inr x \<Longrightarrow> f x = f' x) \<Longrightarrow> bindR m f = bindR m' f'"
  by (cases m') auto

lemma ASSERT_True [simp]: "c \<Longrightarrow> ASSERT c k = k"
  by (simp add: ASSERT_def)

lemma ASSERT_False [simp]: "\<not> c \<Longrightarrow> ASSERT c k = Inl AssertFailed"
  by (simp add: ASSERT_def)

lemma ASSERT_eq_Inr [res_simps]: "ASSERT c k = Inr y \<longleftrightarrow> c \<and> k = Inr y"
  by (simp add: ASSERT_def)

lemma ASSERT_cong [fundef_cong]: "c = c' \<Longrightarrow> (c' \<Longrightarrow> k = k') \<Longrightarrow> ASSERT c k = ASSERT c' k'"
  by (simp add: ASSERT_def)

section \<open>C arrays\<close>

definition aget :: "'a list \<Rightarrow> int \<Rightarrow> 'a res" where
  "aget xs i = (if 0 \<le> i \<and> i < int (length xs) then Inr (xs ! nat i) else Inl BadAccess)"

definition aset :: "'a list \<Rightarrow> int \<Rightarrow> 'a \<Rightarrow> 'a list res" where
  "aset xs i v = (if 0 \<le> i \<and> i < int (length xs) then Inr (xs[nat i := v]) else Inl BadAccess)"

lemma aget_ok [simp]: "0 \<le> i \<Longrightarrow> i < int (length xs) \<Longrightarrow> aget xs i = Inr (xs ! nat i)"
  by (simp add: aget_def)

lemma aset_ok [simp]: "0 \<le> i \<Longrightarrow> i < int (length xs) \<Longrightarrow> aset xs i v = Inr (xs[nat i := v])"
  by (simp add: aset_def)

lemma aget_eq_Inr [res_simps]:
  "aget xs i = Inr v \<longleftrightarrow> 0 \<le> i \<and> i < int (length xs) \<and> v = xs ! nat i"
  by (auto simp: aget_def)

lemma aset_eq_Inr [res_simps]:
  "aset xs i v = Inr ys \<longleftrightarrow> 0 \<le> i \<and> i < int (length xs) \<and> ys = xs[nat i := v]"
  by (auto simp: aset_def)

section \<open>The macros of utility.h\<close>

text \<open>The operands are C \<open>int\<close>s, so \<open>/\<close> and \<open>%\<close> truncate towards zero.\<close>

definition divRoundDown :: "int \<Rightarrow> int \<Rightarrow> int" where
  "divRoundDown n s = n sdiv s"

definition divRoundUp :: "int \<Rightarrow> int \<Rightarrow> int" where
  "divRoundUp n s = (n sdiv s) + (if n smod s > 0 then 1 else 0)"

lemma sdiv_nonneg_eq: "0 \<le> a \<Longrightarrow> 0 < b \<Longrightarrow> a sdiv b = a div (b::int)"
  by (simp add: signed_divide_int_def sgn_if)

lemma smod_nonneg_eq: "0 \<le> a \<Longrightarrow> 0 < b \<Longrightarrow> a smod b = a mod (b::int)"
  by (simp add: signed_modulo_int_def sgn_if)

lemma divRoundDown_div [simp]: "0 \<le> n \<Longrightarrow> 0 < s \<Longrightarrow> divRoundDown n s = n div s"
  by (simp add: divRoundDown_def sdiv_nonneg_eq)

lemma divRoundUp_bounds:
  assumes "0 \<le> n" "0 < s"
  shows "n \<le> divRoundUp n s * s" and "divRoundUp n s * s < n + s" and "0 \<le> divRoundUp n s"
proof -
  define q r where "q = n div s" and "r = n mod s"
  have n: "n = q * s + r" by (simp add: q_def r_def)
  have r: "0 \<le> r" "r < s" and q: "0 \<le> q"
    using assms by (simp_all add: q_def r_def pos_imp_zdiv_nonneg_iff)
  have u: "divRoundUp n s = q + (if r > 0 then 1 else 0)"
    using assms by (simp add: divRoundUp_def sdiv_nonneg_eq smod_nonneg_eq q_def r_def)
  show "n \<le> divRoundUp n s * s" "divRoundUp n s * s < n + s" "0 \<le> divRoundUp n s"
    unfolding u using n r q by (auto simp: distrib_right)
qed

section \<open>Bytes and integers in memory\<close>

text \<open>
  The host is little endian (\<open>HOST_IS_BIG_ENDIAN\<close> is not defined in the i386 build): the integer
  at an address is \<open>le_word\<close> of the bytes there, lowest first, and storing one writes
  \<open>le_bytes\<close>. \<open>blit xs p ys\<close> is the array \<open>xs\<close> with \<open>ys\<close> copied to offset \<open>p\<close>, the effect of
  \<open>bcopy\<close>.
\<close>

fun le_word :: "8 word list \<Rightarrow> 32 word" where
  "le_word [] = 0"
| "le_word (b # bs) = or (ucast b) (push_bit 8 (le_word bs))"

fun le_bytes :: "nat \<Rightarrow> 32 word \<Rightarrow> 8 word list" where
  "le_bytes 0 w = []"
| "le_bytes (Suc n) w = ucast w # le_bytes n (drop_bit 8 w)"

definition blit :: "'a list \<Rightarrow> nat \<Rightarrow> 'a list \<Rightarrow> 'a list" where
  "blit xs p ys = take p xs @ ys @ drop (p + length ys) xs"

definition slice :: "'a list \<Rightarrow> nat \<Rightarrow> nat \<Rightarrow> 'a list" where
  "slice xs p n = take n (drop p xs)"

lemma length_le_bytes [simp]: "length (le_bytes n w) = n"
  by (induction n arbitrary: w) auto

lemma le_word_le_bytes: "le_word (le_bytes n w) = take_bit (8 * n) w"
proof (induction n arbitrary: w)
  case (Suc n)
  show ?case
    by (rule bit_word_eqI) (auto simp: Suc.IH bit_simps)
qed simp

lemma le_word_le_bytes_4 [simp]: "le_word (le_bytes 4 w) = w"
  by (simp add: le_word_le_bytes take_bit_word_eq_self)

lemma le_bytes_le_word:
  "length bs = n \<Longrightarrow> n \<le> 4 \<Longrightarrow> le_bytes n (le_word bs) = bs"
proof (induction bs arbitrary: n)
  case (Cons b bs)
  then obtain m where m: "n = Suc m" "length bs = m" "m \<le> 3" by auto
  have hd: "ucast (le_word (b # bs)) = b"
    by (rule bit_word_eqI) (auto simp: bit_simps)
  have small: "bit (le_word cs) k \<Longrightarrow> k < 8 * length cs" for cs k
  proof (induction cs arbitrary: k)
    case (Cons c cs)
    then show ?case by (auto simp: bit_simps dest: bit_imp_le_length dest!: Cons.IH)
  qed simp
  have [simp]: "\<not> bit b (8 + k)" for k by (auto dest: bit_imp_le_length)
  have tl: "drop_bit 8 (le_word (b # bs)) = le_word bs"
  proof (rule bit_word_eqI)
    fix k assume k: "k < LENGTH(32)"
    show "bit (drop_bit 8 (le_word (b # bs))) k = bit (le_word bs) k"
      using small [of bs k] m k by (auto simp: bit_simps)
  qed
  show ?case using Cons.IH [of m] m hd tl by simp
qed simp

lemma blit_Nil [simp]: "blit xs p [] = xs"
  by (simp add: blit_def)

lemma blit_Cons: "p < length xs \<Longrightarrow> blit xs p (y # ys) = blit (xs[p := y]) (Suc p) ys"
  by (simp add: blit_def take_Suc_conv_app_nth drop_update_cancel)

lemma length_blit [simp]: "p + length ys \<le> length xs \<Longrightarrow> length (blit xs p ys) = length xs"
  by (simp add: blit_def)

lemma nth_blit:
  "p + length ys \<le> length xs \<Longrightarrow> i < length xs \<Longrightarrow>
     blit xs p ys ! i = (if p \<le> i \<and> i < p + length ys then ys ! (i - p) else xs ! i)"
  by (auto simp: blit_def nth_append)

lemma length_slice [simp]: "p + n \<le> length xs \<Longrightarrow> length (slice xs p n) = n"
  by (simp add: slice_def)

lemma nth_slice [simp]: "p + n \<le> length xs \<Longrightarrow> i < n \<Longrightarrow> slice xs p n ! i = xs ! (p + i)"
  by (simp add: slice_def)

lemma slice_blit_same [simp]:
  "p + length ys \<le> length xs \<Longrightarrow> slice (blit xs p ys) p (length ys) = ys"
  by (simp add: slice_def blit_def)

lemma slice_blit_disjoint:
  assumes "p + length ys \<le> length xs" "q + n \<le> length xs" "q + n \<le> p \<or> p + length ys \<le> q"
  shows "slice (blit xs p ys) q n = slice xs q n"
  using assms by (intro nth_equalityI) (auto simp: nth_blit)

lemma blit_slice_id: "p + n \<le> length xs \<Longrightarrow> blit xs p (slice xs p n) = xs"
  by (rule nth_equalityI) (auto simp: nth_blit)

text \<open>A C \<open>int\<close> in memory.\<close>

definition int_bytes :: "int \<Rightarrow> 8 word list" where
  "int_bytes k = le_bytes 4 (word_of_int k)"

definition int_of :: "8 word list \<Rightarrow> int" where
  "int_of bs = sint (le_word bs)"

definition int32 :: "int \<Rightarrow> bool" where
  "int32 k \<longleftrightarrow> - (2 ^ 31) \<le> k \<and> k < 2 ^ 31"

lemma int_of_bytes [simp]: "int32 k \<Longrightarrow> int_of (int_bytes k) = k"
  by (simp add: int_of_def int_bytes_def int32_def signed_of_int signed_take_bit_int_eq_self)

lemma length_int_bytes [simp]: "length (int_bytes k) = 4"
  by (simp add: int_bytes_def)

lemma length_concat_ints [simp]: "length (concat (map int_bytes ks)) = 4 * length ks"
  by (induction ks) auto

lemma slice_append2: "length xs \<le> p \<Longrightarrow> slice (xs @ ys) p n = slice ys (p - length xs) n"
  by (simp add: slice_def)

lemma slice_append1: "p + n \<le> length xs \<Longrightarrow> slice (xs @ ys) p n = slice xs p n"
  by (simp add: slice_def)

lemma slice_all: "length xs = n \<Longrightarrow> slice xs 0 n = xs"
  by (simp add: slice_def)

lemma slice_ints: "i < length ks \<Longrightarrow> slice (concat (map int_bytes ks)) (4 * i) 4 = int_bytes (ks ! i)"
proof (induction ks arbitrary: i)
  case (Cons k ks)
  show ?case
  proof (cases i)
    case 0
    then show ?thesis by (simp add: slice_append1 slice_all)
  next
    case (Suc j)
    then show ?thesis using Cons by (simp add: slice_append2)
  qed
qed simp

section \<open>Lists\<close>

lemma takeWhile_dropWhile_last:
  "dropWhile P xs = [] \<Longrightarrow> takeWhile P xs = xs"
  by (metis append_Nil2 takeWhile_dropWhile_id)

lemma sorted_wrt_takeWhile: "sorted_wrt R xs \<Longrightarrow> sorted_wrt R (takeWhile P xs)"
  by (metis sorted_wrt_append takeWhile_dropWhile_id)

lemma sorted_wrt_dropWhile: "sorted_wrt R xs \<Longrightarrow> sorted_wrt R (dropWhile P xs)"
  by (metis sorted_wrt_append takeWhile_dropWhile_id)

section \<open>Runs of operations and their specification\<close>

primrec run_ops :: "('s \<Rightarrow> 'op \<Rightarrow> ('s \<times> 'out) res) \<Rightarrow> 's \<Rightarrow> 'op list \<Rightarrow> ('s \<times> 'out list) res" where
  "run_ops step s [] = Inr (s, [])"
| "run_ops step s (op # ops) =
     bindR (step s op) (\<lambda>(s', out). bindR (run_ops step s' ops) (\<lambda>(s'', outs). Inr (s'', out # outs)))"

primrec spec_ops :: "('a \<Rightarrow> 'op \<Rightarrow> 'a \<times> 'out) \<Rightarrow> 'a \<Rightarrow> 'op list \<Rightarrow> 'a \<times> 'out list" where
  "spec_ops astep a [] = (a, [])"
| "spec_ops astep a (op # ops) =
     (let (a', out) = astep a op; (a'', outs) = spec_ops astep a' ops in (a'', out # outs))"

text \<open>
  The interface of a refinement: every operation that is allowed returns, with a result that matches the
  one the specification gives, and leads to related states again. Then so does every run.
\<close>

locale weak_simulation =
  fixes step :: "'s \<Rightarrow> 'op \<Rightarrow> ('s \<times> 'out) res"
    and astep :: "'a \<Rightarrow> 'op \<Rightarrow> 'a \<times> 'aout"
    and R :: "'s \<Rightarrow> 'a \<Rightarrow> bool"
    and allowed :: "'op \<Rightarrow> bool"
    and matches :: "'out \<Rightarrow> 'aout \<Rightarrow> bool"
  assumes weakly_simulates: "R s a \<Longrightarrow> allowed op \<Longrightarrow>
    \<exists>s' out. step s op = Inr (s', out) \<and> matches out (snd (astep a op)) \<and> R s' (fst (astep a op))"
begin

lemma matching_run:
  "R s a \<Longrightarrow> \<forall>op \<in> set ops. allowed op \<Longrightarrow>
    \<exists>s' outs. run_ops step s ops = Inr (s', outs) \<and> list_all2 matches outs (snd (spec_ops astep a ops)) \<and>
      R s' (fst (spec_ops astep a ops))"
proof (induction ops arbitrary: s a)
  case (Cons op ops)
  obtain a1 aout where a1: "astep a op = (a1, aout)" by fastforce
  obtain s1 out where s1: "step s op = Inr (s1, out)" "matches out aout" "R s1 a1"
    using weakly_simulates [OF Cons.prems(1), of op] Cons.prems(2) a1 by auto
  obtain s2 outs where "run_ops step s1 ops = Inr (s2, outs)" "list_all2 matches outs (snd (spec_ops astep a1 ops))"
      "R s2 (fst (spec_ops astep a1 ops))"
    using Cons.IH [OF s1(3)] Cons.prems(2) by auto
  then show ?case using s1(1,2) a1 by (auto split: prod.splits)
qed simp

end

text \<open>With equality for \<open>matches\<close> the results are those of the specification.\<close>

locale simulation =
  fixes step :: "'s \<Rightarrow> 'op \<Rightarrow> ('s \<times> 'out) res"
    and astep :: "'a \<Rightarrow> 'op \<Rightarrow> 'a \<times> 'out"
    and R :: "'s \<Rightarrow> 'a \<Rightarrow> bool"
    and allowed :: "'op \<Rightarrow> bool"
  assumes simulates: "R s a \<Longrightarrow> allowed op \<Longrightarrow>
    \<exists>s'. step s op = Inr (s', snd (astep a op)) \<and> R s' (fst (astep a op))"

sublocale simulation \<subseteq> exact: weak_simulation step astep R allowed "(=)"
  by unfold_locales (use simulates in fast)

context simulation
begin

lemma simulates_run:
  "R s a \<Longrightarrow> \<forall>op \<in> set ops. allowed op \<Longrightarrow>
    \<exists>s'. run_ops step s ops = Inr (s', snd (spec_ops astep a ops)) \<and> R s' (fst (spec_ops astep a ops))"
  using exact.matching_run by (fastforce simp: list_all2_eq [symmetric])

end

end
