(* ===== verification/LinkedList.thy ===== *)
theory LinkedList
  imports Nachos_Prelude "HOL-Library.Multiset"
begin

text \<open>
  \<open>threads/list.cc\<close>: the singly linked list with \<open>first\<close> and \<open>last\<close> pointers that holds ready
  threads, waiting threads and pending interrupts. The operations run on an explicit store of
  \<open>ListElement\<close>s; the relation \<open>repr\<close> says which list of (key, item) pairs a list object stands
  for, and each operation refines a function on such lists. The locale \<open>ordered_queue\<close> is the
  interface the scheduler and the interrupt simulation use.
\<close>

section \<open>State\<close>

text \<open>An \<open>item\<close> is a \<open>void *\<close>: \<open>None\<close> is the null pointer. Addresses are natural numbers.\<close>

record 'a list_element =
  le_next :: "nat option"
  le_key :: int
  le_item :: "'a option"

text \<open>\<open>new\<close> hands out the address \<open>brk\<close>, which no element has had.\<close>

record 'a heap =
  cells :: "nat \<Rightarrow> 'a list_element option"
  brk :: nat

record llist =
  lfirst :: "nat option"
  llast :: "nat option"

definition deref :: "'a heap \<Rightarrow> nat option \<Rightarrow> 'a list_element res" where
  "deref h p = (case p of None \<Rightarrow> Inl BadAccess
     | Some a \<Rightarrow> (case cells h a of None \<Rightarrow> Inl BadAccess | Some c \<Rightarrow> Inr c))"

definition set_next :: "'a heap \<Rightarrow> nat option \<Rightarrow> nat option \<Rightarrow> 'a heap res" where
  "set_next h p q = (case p of None \<Rightarrow> Inl BadAccess
     | Some a \<Rightarrow> (case cells h a of None \<Rightarrow> Inl BadAccess
        | Some c \<Rightarrow> Inr (h\<lparr>cells := (cells h)(a \<mapsto> c\<lparr>le_next := q\<rparr>)\<rparr>)))"

definition delete_element :: "'a heap \<Rightarrow> nat option \<Rightarrow> 'a heap res" where
  "delete_element h p = (case p of None \<Rightarrow> Inl BadAccess
     | Some a \<Rightarrow> (case cells h a of None \<Rightarrow> Inl BadAccess
        | Some c \<Rightarrow> Inr (h\<lparr>cells := (cells h)(a := None)\<rparr>)))"

definition ListElement :: "'a heap \<Rightarrow> 'a option \<Rightarrow> int \<Rightarrow> nat \<times> 'a heap" where
  "ListElement h itemPtr sortKey =
     (brk h, h\<lparr>cells := (cells h)(brk h \<mapsto> \<lparr>le_next = None, le_key = sortKey, le_item = itemPtr\<rparr>),
              brk := Suc (brk h)\<rparr>)"

definition List_new :: llist where
  "List_new = \<lparr>lfirst = None, llast = None\<rparr>"

section \<open>Operations\<close>

definition IsEmpty :: "llist \<Rightarrow> bool" where
  "IsEmpty l = (lfirst l = None)"

definition Append :: "'a heap \<Rightarrow> llist \<Rightarrow> 'a option \<Rightarrow> ('a heap \<times> llist) res" where
  "Append h l x =
     (let (e, h1) = ListElement h x 0 in
      if IsEmpty l then Inr (h1, l\<lparr>lfirst := Some e, llast := Some e\<rparr>)
      else bindR (set_next h1 (llast l) (Some e)) (\<lambda>h2. Inr (h2, l\<lparr>llast := Some e\<rparr>)))"

definition Prepend :: "'a heap \<Rightarrow> llist \<Rightarrow> 'a option \<Rightarrow> ('a heap \<times> llist) res" where
  "Prepend h l x =
     (let (e, h1) = ListElement h x 0 in
      if IsEmpty l then Inr (h1, l\<lparr>lfirst := Some e, llast := Some e\<rparr>)
      else bindR (set_next h1 (Some e) (lfirst l)) (\<lambda>h2. Inr (h2, l\<lparr>lfirst := Some e\<rparr>)))"

text \<open>
  The loop of \<open>SortedInsert\<close>: \<open>p\<close> is \<open>ptr\<close>. An acyclic list of elements of the store has at most
  \<open>brk\<close> elements, so \<open>brk\<close> rounds are enough (\<open>SortedInsert_refines\<close>).
\<close>

fun sorted_walk :: "nat \<Rightarrow> 'a heap \<Rightarrow> llist \<Rightarrow> nat \<Rightarrow> int \<Rightarrow> nat option \<Rightarrow> ('a heap \<times> llist) res" where
  "sorted_walk 0 h l e k p = Inl OutOfFuel"
| "sorted_walk (Suc n) h l e k p =
     bindR (deref h p) (\<lambda>c.
       if le_next c \<noteq> None then
         bindR (deref h (le_next c)) (\<lambda>nx.
           if k < le_key nx then
             bindR (set_next h (Some e) (le_next c)) (\<lambda>h2.
             bindR (set_next h2 p (Some e)) (\<lambda>h3. Inr (h3, l)))
           else sorted_walk n h l e k (le_next c))
       else bindR (set_next h (llast l) (Some e)) (\<lambda>h2. Inr (h2, l\<lparr>llast := Some e\<rparr>)))"

definition SortedInsert ::
  "'a heap \<Rightarrow> llist \<Rightarrow> 'a option \<Rightarrow> int \<Rightarrow> ('a heap \<times> llist) res" where
  "SortedInsert h l x k =
     (let (e, h1) = ListElement h x k in
      if IsEmpty l then Inr (h1, l\<lparr>lfirst := Some e, llast := Some e\<rparr>)
      else bindR (deref h1 (lfirst l)) (\<lambda>f.
        if k < le_key f then
          bindR (set_next h1 (Some e) (lfirst l)) (\<lambda>h2. Inr (h2, l\<lparr>lfirst := Some e\<rparr>))
        else sorted_walk (brk h1) h1 l e k (lfirst l)))"

text \<open>
  \<open>SortedRemove\<close> returns the item (\<open>None\<close> for the null pointer of an empty list) and what it
  stores through \<open>keyPtr\<close> when that pointer is not null.
\<close>

definition SortedRemove :: "'a heap \<Rightarrow> llist \<Rightarrow> ('a heap \<times> llist \<times> 'a option \<times> int option) res" where
  "SortedRemove h l =
     (if IsEmpty l then Inr (h, l, None, None)
      else bindR (deref h (lfirst l)) (\<lambda>element.
        let l' = (if lfirst l = llast l then \<lparr>lfirst = None, llast = None\<rparr>
                  else l\<lparr>lfirst := le_next element\<rparr>)
        in bindR (delete_element h (lfirst l)) (\<lambda>h'.
             Inr (h', l', le_item element, Some (le_key element)))))"

definition Remove :: "'a heap \<Rightarrow> llist \<Rightarrow> ('a heap \<times> llist \<times> 'a option) res" where
  "Remove h l = bindR (SortedRemove h l) (\<lambda>(h', l', thing, _). Inr (h', l', thing))"

text \<open>\<open>~List\<close> removes until \<open>Remove\<close> returns the null pointer.\<close>

fun List_destroy :: "nat \<Rightarrow> 'a heap \<Rightarrow> llist \<Rightarrow> ('a heap \<times> llist) res" where
  "List_destroy 0 h l = Inl OutOfFuel"
| "List_destroy (Suc n) h l =
     bindR (Remove h l) (\<lambda>(h', l', thing).
       if thing \<noteq> None then List_destroy n h' l' else Inr (h', l'))"

text \<open>\<open>Mapcar\<close> applies \<open>func\<close> to each item in turn; \<open>func\<close> acts on a state \<open>'s\<close>.\<close>

fun Mapcar :: "nat \<Rightarrow> 'a heap \<Rightarrow> nat option \<Rightarrow> ('a option \<Rightarrow> 's \<Rightarrow> 's) \<Rightarrow> 's \<Rightarrow> 's res" where
  "Mapcar n h None func s = Inr s"
| "Mapcar 0 h (Some a) func s = Inl OutOfFuel"
| "Mapcar (Suc n) h (Some a) func s =
     bindR (deref h (Some a)) (\<lambda>c. Mapcar n h (le_next c) func (func (le_item c) s))"

section \<open>Representation\<close>

text \<open>
  \<open>chain h p as\<close>: following \<open>next\<close> from \<open>p\<close> visits exactly the addresses \<open>as\<close> and ends at the
  null pointer. \<open>repr\<close> adds what the operations rely on: no address twice, all of them allocated,
  \<open>last\<close> at the last element, and nothing at or beyond \<open>brk\<close>.
\<close>

fun chain :: "'a heap \<Rightarrow> nat option \<Rightarrow> nat list \<Rightarrow> bool" where
  "chain h p [] = (p = None)"
| "chain h p (a # as) = (p = Some a \<and>
     (case cells h a of None \<Rightarrow> False | Some c \<Rightarrow> chain h (le_next c) as))"

definition entry :: "'a heap \<Rightarrow> nat \<Rightarrow> int \<times> 'a option" where
  "entry h a = (case cells h a of None \<Rightarrow> (0, None) | Some c \<Rightarrow> (le_key c, le_item c))"

definition repr :: "'a heap \<Rightarrow> llist \<Rightarrow> nat list \<Rightarrow> (int \<times> 'a option) list \<Rightarrow> bool" where
  "repr h l as xs \<longleftrightarrow>
     chain h (lfirst l) as \<and> distinct as \<and> (\<forall>a \<in> set as. a < brk h) \<and>
     llast l = (if as = [] then None else Some (last as)) \<and> xs = map (entry h) as"

definition heap_ok :: "'a heap \<Rightarrow> bool" where
  "heap_ok h \<longleftrightarrow> (\<forall>a \<ge> brk h. cells h a = None)"

definition frame :: "'a heap \<Rightarrow> 'a heap \<Rightarrow> nat set \<Rightarrow> bool" where
  "frame h h' A \<longleftrightarrow> (\<forall>a. a \<notin> A \<longrightarrow> cells h' a = cells h a)"

lemma chain_cong:
  "(\<And>a. a \<in> set as \<Longrightarrow> cells h' a = cells h a) \<Longrightarrow> chain h' p as = chain h p as"
  by (induction as arbitrary: p) (auto split: option.splits)

lemma chain_in_cells: "chain h p as \<Longrightarrow> a \<in> set as \<Longrightarrow> cells h a \<noteq> None"
  by (induction as arbitrary: p) (auto split: option.splits)

lemma chain_None [simp]: "chain h None as \<longleftrightarrow> as = []"
  by (cases as) auto

lemma chain_Some: "chain h (Some a) as \<longleftrightarrow>
    (\<exists>bs c. as = a # bs \<and> cells h a = Some c \<and> chain h (le_next c) bs)"
  by (cases as) (auto split: option.splits)

lemma repr_empty_iff: "repr h l as xs \<Longrightarrow> IsEmpty l \<longleftrightarrow> xs = []"
  by (cases as) (auto simp: repr_def IsEmpty_def)

section \<open>The abstract list\<close>

text \<open>The list operations as functions on the sequence of (key, item) pairs.\<close>

definition sorted_ins :: "int \<Rightarrow> 'b \<Rightarrow> (int \<times> 'b) list \<Rightarrow> (int \<times> 'b) list" where
  "sorted_ins k x xs = takeWhile (\<lambda>e. fst e \<le> k) xs @ (k, x) # dropWhile (\<lambda>e. fst e \<le> k) xs"

definition key_sorted :: "(int \<times> 'b) list \<Rightarrow> bool" where
  "key_sorted xs = sorted (map fst xs)"

lemma sorted_ins_Nil [simp]: "sorted_ins k x [] = [(k, x)]"
  by (simp add: sorted_ins_def)

lemma sorted_ins_Cons: "sorted_ins k x (e # xs) =
    (if fst e \<le> k then e # sorted_ins k x xs else (k, x) # e # xs)"
  by (simp add: sorted_ins_def)

lemma sorted_ins_not_Nil [simp]: "sorted_ins k x xs \<noteq> []"
  by (simp add: sorted_ins_def)

lemma mset_sorted_ins: "mset (sorted_ins k x xs) = add_mset (k, x) (mset xs)"
  by (induction xs) (auto simp: sorted_ins_Cons)

lemma set_sorted_ins: "set (sorted_ins k x xs) = insert (k, x) (set xs)"
  by (induction xs) (auto simp: sorted_ins_Cons)

lemma length_sorted_ins [simp]: "length (sorted_ins k x xs) = Suc (length xs)"
  by (induction xs) (auto simp: sorted_ins_Cons)

lemma key_sorted_ins: "key_sorted xs \<Longrightarrow> key_sorted (sorted_ins k x xs)"
  by (induction xs) (auto simp: sorted_ins_Cons key_sorted_def set_sorted_ins)

lemma key_sorted_tl: "key_sorted xs \<Longrightarrow> key_sorted (tl xs)"
  by (cases xs) (auto simp: key_sorted_def)

lemma key_sorted_hd_le: "key_sorted xs \<Longrightarrow> e \<in> set xs \<Longrightarrow> fst (hd xs) \<le> fst e"
  by (cases xs) (auto simp: key_sorted_def)

text \<open>Equal keys keep their order of arrival: the new item goes behind them.\<close>

lemma sorted_ins_stable:
  assumes "key_sorted xs"
  shows "filter (\<lambda>e. fst e = j) (sorted_ins k x xs) =
    filter (\<lambda>e. fst e = j) xs @ (if j = k then [(k, x)] else [])"
  using assms
proof (induction xs)
  case Nil
  then show ?case by simp
next
  case (Cons e xs)
  show ?case
  proof (cases "fst e \<le> k")
    case True
    with Cons show ?thesis by (simp add: sorted_ins_Cons key_sorted_def)
  next
    case False
    with Cons.prems have "\<forall>d \<in> set (e # xs). fst d \<noteq> k"
      by (auto simp: key_sorted_def)
    then have "filter (\<lambda>d. fst d = k) (e # xs) = []"
      by (simp add: filter_empty_conv)
    with False show ?thesis by (auto simp: sorted_ins_Cons)
  qed
qed

section \<open>Refinement\<close>

fun addr_ins :: "'a heap \<Rightarrow> int \<Rightarrow> nat \<Rightarrow> nat list \<Rightarrow> nat list" where
  "addr_ins h k e [] = [e]"
| "addr_ins h k e (a # as) =
     (if fst (entry h a) \<le> k then a # addr_ins h k e as else e # a # as)"

lemma set_addr_ins: "set (addr_ins h k e as) = insert e (set as)"
  by (induction as) auto

lemma addr_ins_not_Nil [simp]: "addr_ins h k e as \<noteq> []"
  by (cases as) auto

lemma distinct_addr_ins: "e \<notin> set as \<Longrightarrow> distinct as \<Longrightarrow> distinct (addr_ins h k e as)"
  by (induction as) (auto simp: set_addr_ins)

lemma map_addr_ins:
  "entry h e = (k, x) \<Longrightarrow> map (entry h) (addr_ins h k e as) = sorted_ins k x (map (entry h) as)"
  by (induction as) (auto simp: sorted_ins_Cons)

lemma addr_ins_cong:
  "(\<And>a. a \<in> set as \<Longrightarrow> entry h' a = entry h a) \<Longrightarrow> addr_ins h' k e as = addr_ins h k e as"
  by (induction as) auto

lemma set_next_Some:
  "cells h a = Some c \<Longrightarrow>
     set_next h (Some a) q = Inr (h\<lparr>cells := (cells h)(a \<mapsto> c\<lparr>le_next := q\<rparr>)\<rparr>)"
  by (simp add: set_next_def)

lemma deref_Some: "cells h a = Some c \<Longrightarrow> deref h (Some a) = Inr c"
  by (simp add: deref_def)

text \<open>The walk, from an element \<open>a\<close> whose key is at most the new one.\<close>

lemma sorted_walk_refines:
  assumes "chain h (Some a) (a # as)" and "distinct (a # as)" and "e \<notin> set (a # as)"
    and "cells h e = Some ec" and "le_next ec = None"
    and "llast l = Some (last (a # as))" and "length as < n"
  shows "\<exists>h' l'. sorted_walk n h l e k (Some a) = Inr (h', l') \<and>
    chain h' (Some a) (a # addr_ins h k e as) \<and> lfirst l' = lfirst l \<and>
    llast l' = Some (last (a # addr_ins h k e as)) \<and> brk h' = brk h \<and>
    entry h' = entry h \<and> frame h h' (insert e (set (a # as)))"
  using assms
proof (induction as arbitrary: a n)
  case Nil
  then obtain m where n: "n = Suc m" by (cases n) auto
  from Nil.prems obtain c where c: "cells h a = Some c" "le_next c = None"
    by (auto split: option.splits)
  from Nil.prems c show ?case
    by (auto simp: n deref_Some set_next_Some entry_def frame_def fun_eq_iff)
next
  case (Cons b bs)
  then obtain m where n: "n = Suc m" by (cases n) auto
  from Cons.prems obtain c where c: "cells h a = Some c" "le_next c = Some b"
    by (auto split: option.splits)
  from Cons.prems obtain d where d: "cells h b = Some d" and
      rest: "chain h (Some b) (b # bs)"
    by (auto simp: c split: option.splits)
  show ?case
  proof (cases "k < le_key d")
    case True
    let ?h = "h\<lparr>cells := ((cells h)(e \<mapsto> ec\<lparr>le_next := Some b\<rparr>))(a \<mapsto> c\<lparr>le_next := Some e\<rparr>)\<rparr>"
    have walk: "sorted_walk n h l e k (Some a) = Inr (?h, l)"
      using True Cons.prems c d by (auto simp: n deref_Some set_next_Some)
    have "chain ?h (Some b) (b # bs) = chain h (Some b) (b # bs)"
      using Cons.prems by (intro chain_cong) auto
    then have "chain ?h (Some a) (a # e # b # bs)"
      using rest Cons.prems by auto
    moreover have "entry ?h = entry h"
      using c Cons.prems by (auto simp: entry_def fun_eq_iff)
    moreover have "addr_ins h k e (b # bs) = e # b # bs"
      using True d by (simp add: entry_def)
    ultimately show ?thesis
      using walk Cons.prems by (auto simp: frame_def)
  next
    case False
    have "\<exists>h' l'. sorted_walk m h l e k (Some b) = Inr (h', l') \<and>
      chain h' (Some b) (b # addr_ins h k e bs) \<and> lfirst l' = lfirst l \<and>
      llast l' = Some (last (b # addr_ins h k e bs)) \<and> brk h' = brk h \<and>
      entry h' = entry h \<and> frame h h' (insert e (set (b # bs)))"
      using Cons.prems rest n by (intro Cons.IH) auto
    then obtain h' l' where w: "sorted_walk m h l e k (Some b) = Inr (h', l')"
      "chain h' (Some b) (b # addr_ins h k e bs)" "lfirst l' = lfirst l"
      "llast l' = Some (last (b # addr_ins h k e bs))" "brk h' = brk h"
      "entry h' = entry h" "frame h h' (insert e (set (b # bs)))"
      by blast
    have "cells h' a = Some c"
      using w(7) Cons.prems c by (auto simp: frame_def)
    moreover have "addr_ins h k e (b # bs) = b # addr_ins h k e bs"
      using False d by (simp add: entry_def)
    moreover have "sorted_walk n h l e k (Some a) = Inr (h', l')"
      using False c d w(1) by (simp add: n deref_Some)
    ultimately show ?thesis
      using w c by (auto simp: frame_def)
  qed
qed

text \<open>What \<open>new ListElement\<close> does to the representation.\<close>

lemma ListElement_facts:
  assumes "ListElement h x k = (e, h1)" and "heap_ok h"
  shows "e = brk h" "brk h1 = Suc (brk h)" "heap_ok h1"
    "cells h1 e = Some \<lparr>le_next = None, le_key = k, le_item = x\<rparr>" "entry h1 e = (k, x)"
    "frame h h1 {e}" "a \<noteq> e \<Longrightarrow> entry h1 a = entry h a"
  using assms by (auto simp: ListElement_def heap_ok_def frame_def entry_def)

lemma ListElement_chain:
  assumes "ListElement h x k = (e, h1)" and "heap_ok h" and "repr h l as xs"
  shows "chain h1 (lfirst l) as" "e \<notin> set as" "map (entry h1) as = xs"
    "distinct as" "\<forall>a \<in> set as. a < brk h1"
proof -
  note new = ListElement_facts [OF assms(1,2)]
  show fresh: "e \<notin> set as" using assms(3) new(1) by (auto simp: repr_def)
  then show "chain h1 (lfirst l) as"
    using assms(3) new(6) by (subst chain_cong [of _ _ h]) (auto simp: repr_def frame_def)
  have "\<forall>a \<in> set as. entry h1 a = entry h a"
    using new(7) fresh by metis
  then show "map (entry h1) as = xs"
    using assms(3) by (simp add: repr_def)
  show "distinct as" "\<forall>a \<in> set as. a < brk h1"
    using assms(3) new(2) by (auto simp: repr_def)
qed

lemma heap_ok_frame: "heap_ok h1 \<Longrightarrow> frame h1 h2 A \<Longrightarrow> brk h2 = brk h1 \<Longrightarrow>
    (\<forall>a \<in> A. a < brk h1) \<Longrightarrow> heap_ok h2"
  unfolding heap_ok_def frame_def by (metis not_less)

lemma length_as_le_brk: "distinct as \<Longrightarrow> \<forall>a \<in> set as. a < n \<Longrightarrow> length as \<le> (n::nat)"
  by (metis card_lessThan card_mono distinct_card finite_lessThan lessThan_iff subsetI)

text \<open>
  \<open>SortedInsert\<close> never fails on a well-formed list, stands for \<open>sorted_ins\<close>, and touches no
  element but those of the list and the one it allocates.
\<close>

lemma SortedInsert_refines:
  assumes "heap_ok h" and "repr h l as xs"
  shows "\<exists>h' l' as'. SortedInsert h l x k = Inr (h', l') \<and> heap_ok h' \<and>
    repr h' l' as' (sorted_ins k x xs) \<and> set as' = insert (brk h) (set as) \<and>
    frame h h' (insert (brk h) (set as))"
proof -
  obtain e h1 where new: "ListElement h x k = (e, h1)" by fastforce
  note nf = ListElement_facts [OF new assms(1)]
  note nc = ListElement_chain [OF new assms]
  have e: "e = brk h" and elt: "e < brk h1" using nf(1,2) by simp_all
  show ?thesis
  proof (cases as)
    case Nil
    then have "IsEmpty l" "xs = []" using assms(2) by (auto simp: repr_def IsEmpty_def)
    then show ?thesis
      using nf Nil by (auto simp: SortedInsert_def new repr_def intro!: exI [of _ "[e]"])
  next
    case (Cons a bs)
    obtain c where first: "lfirst l = Some a" "cells h1 a = Some c"
        and last: "llast l = Some (last (a # bs))"
      using nc(1) assms(2) Cons by (auto simp: repr_def split: option.splits)
    show ?thesis
    proof (cases "k < le_key c")
      case True
      let ?h = "h1\<lparr>cells := (cells h1)(e \<mapsto> \<lparr>le_next = Some a, le_key = k, le_item = x\<rparr>)\<rparr>"
      let ?l = "l\<lparr>lfirst := Some e\<rparr>"
      have run: "SortedInsert h l x k = Inr (?h, ?l)"
        using True first nf(4) by (simp add: SortedInsert_def new IsEmpty_def deref_Some set_next_Some)
      have ent: "entry ?h = entry h1"
        using nf(4) by (auto simp: entry_def fun_eq_iff)
      have "chain ?h (Some a) as = chain h1 (Some a) as"
        using nc(2) by (intro chain_cong) auto
      then have "chain ?h (Some e) (e # as)"
        using nc(1) first by simp
      moreover have "sorted_ins k x xs = (k, x) # xs"
        using True first nc(3) Cons by (auto simp: sorted_ins_Cons entry_def)
      ultimately have "repr ?h ?l (e # as) (sorted_ins k x xs)"
        using nc nf(5) elt last Cons by (simp add: repr_def ent)
      moreover have "heap_ok ?h" using nf(2,3) e by (auto simp: heap_ok_def)
      ultimately show ?thesis
        using run e nf(6) by (auto simp: frame_def intro!: exI [of _ "e # as"])
    next
      case False
      have "\<exists>h' l'. sorted_walk (brk h1) h1 l e k (Some a) = Inr (h', l') \<and>
        chain h' (Some a) (a # addr_ins h1 k e bs) \<and> lfirst l' = lfirst l \<and>
        llast l' = Some (last (a # addr_ins h1 k e bs)) \<and> brk h' = brk h1 \<and>
        entry h' = entry h1 \<and> frame h1 h' (insert e (set (a # bs)))"
        using nc nf(2,4) first last Cons length_as_le_brk [of as "brk h"] assms(2)
        by (intro sorted_walk_refines) (auto simp: repr_def)
      then obtain h' l' where w: "sorted_walk (brk h1) h1 l e k (Some a) = Inr (h', l')"
        "chain h' (Some a) (a # addr_ins h1 k e bs)" "lfirst l' = lfirst l"
        "llast l' = Some (last (a # addr_ins h1 k e bs))" "brk h' = brk h1"
        "entry h' = entry h1" "frame h1 h' (insert e (set (a # bs)))"
        by blast
      let ?as = "addr_ins h1 k e as"
      have as': "?as = a # addr_ins h1 k e bs"
        using False first Cons by (simp add: entry_def)
      have run: "SortedInsert h l x k = Inr (h', l')"
        using False first w(1) by (simp add: SortedInsert_def new IsEmpty_def deref_Some)
      have "map (entry h') ?as = sorted_ins k x xs"
        using map_addr_ins [OF nf(5), of as] nc(3) w(6) by simp
      then have "repr h' l' ?as (sorted_ins k x xs)"
        using w nc(5) elt first distinct_addr_ins [OF nc(2,4), of h1 k]
        by (simp add: repr_def set_addr_ins flip: as')
      moreover have "heap_ok h'"
        using heap_ok_frame [OF nf(3) w(7,5)] nc(5) nf(2) e Cons by auto
      moreover have "set ?as = insert (brk h) (set as)" "frame h h' (insert (brk h) (set as))"
        using w(7) nf(6) e Cons by (auto simp: frame_def set_addr_ins)
      ultimately show ?thesis using run by blast
    qed
  qed
qed

lemma Prepend_refines:
  assumes "heap_ok h" and "repr h l as xs"
  shows "\<exists>h' l'. Prepend h l x = Inr (h', l') \<and> heap_ok h' \<and>
    repr h' l' (brk h # as) ((0, x) # xs) \<and> frame h h' {brk h}"
proof -
  obtain e h1 where new: "ListElement h x 0 = (e, h1)" by fastforce
  note nf = ListElement_facts [OF new assms(1)]
  note nc = ListElement_chain [OF new assms]
  have e: "e = brk h" and elt: "e < brk h1" using nf(1,2) by simp_all
  show ?thesis
  proof (cases as)
    case Nil
    then show ?thesis using nf nc assms(2)
      by (auto simp: Prepend_def new repr_def IsEmpty_def)
  next
    case (Cons a bs)
    have first: "lfirst l = Some a" using assms(2) Cons by (simp add: repr_def)
    let ?h = "h1\<lparr>cells := (cells h1)(e \<mapsto> \<lparr>le_next = Some a, le_key = 0, le_item = x\<rparr>)\<rparr>"
    have run: "Prepend h l x = Inr (?h, l\<lparr>lfirst := Some e\<rparr>)"
      using first nf(4) by (auto simp: Prepend_def new IsEmpty_def set_next_Some)
    have "chain ?h (Some a) as = chain h1 (Some a) as"
      using nc(2) by (intro chain_cong) auto
    moreover have ent: "entry ?h = entry h1"
      using nf(4) by (auto simp: entry_def fun_eq_iff)
    ultimately have "repr ?h (l\<lparr>lfirst := Some e\<rparr>) (e # as) ((0, x) # xs)"
      using nc nf(5) elt Cons first assms(2) by (simp add: repr_def ent)
    moreover have "heap_ok ?h" using nf(3) elt by (auto simp: heap_ok_def)
    ultimately show ?thesis using run e nf(6) by (auto simp: frame_def)
  qed
qed

lemma chain_snoc:
  "chain h p (as @ [b]) \<Longrightarrow> cells h b = Some c \<Longrightarrow> distinct (as @ [b]) \<Longrightarrow> b \<noteq> e \<Longrightarrow>
   e \<notin> set as \<Longrightarrow> cells h e = Some d \<Longrightarrow> le_next d = None \<Longrightarrow>
   chain (h\<lparr>cells := (cells h)(b \<mapsto> c\<lparr>le_next := Some e\<rparr>)\<rparr>) p (as @ [b, e])"
  by (induction as arbitrary: p) (auto split: option.splits)

lemma Append_refines:
  assumes "heap_ok h" and "repr h l as xs"
  shows "\<exists>h' l'. Append h l x = Inr (h', l') \<and> heap_ok h' \<and>
    repr h' l' (as @ [brk h]) (xs @ [(0, x)]) \<and> frame h h' (insert (brk h) (set as))"
proof -
  obtain e h1 where new: "ListElement h x 0 = (e, h1)" by fastforce
  note nf = ListElement_facts [OF new assms(1)]
  note nc = ListElement_chain [OF new assms]
  have e: "e = brk h" and elt: "e < brk h1" using nf(1,2) by simp_all
  show ?thesis
  proof (cases as rule: rev_cases)
    case Nil
    then show ?thesis using nf nc assms(2)
      by (auto simp: Append_def new repr_def IsEmpty_def)
  next
    case (snoc bs b)
    obtain c where c: "cells h1 b = Some c"
      using chain_in_cells [OF nc(1), of b] snoc by auto
    have last: "llast l = Some b" using assms(2) snoc by (simp add: repr_def)
    let ?h = "h1\<lparr>cells := (cells h1)(b \<mapsto> c\<lparr>le_next := Some e\<rparr>)\<rparr>"
    have ne: "\<not> IsEmpty l"
      using assms(2) snoc by (cases bs) (auto simp: repr_def IsEmpty_def)
    have run: "Append h l x = Inr (?h, l\<lparr>llast := Some e\<rparr>)"
      using ne last c by (simp add: Append_def new set_next_Some)
    have "chain ?h (lfirst l) (bs @ [b, e])"
      using nc nf(4) c snoc by (intro chain_snoc) auto
    moreover have ent: "entry ?h = entry h1"
      using c by (auto simp: entry_def fun_eq_iff)
    moreover have "distinct (as @ [e])" using nc(2,4) by simp
    ultimately have "repr ?h (l\<lparr>llast := Some e\<rparr>) (as @ [e]) (xs @ [(0, x)])"
      using nc(3,5) nf(5) elt snoc by (auto simp: repr_def ent)
    moreover have "heap_ok ?h" using nf(3) nc(5) snoc by (auto simp: heap_ok_def)
    ultimately show ?thesis using run e nf(6) snoc by (auto simp: frame_def)
  qed
qed

lemma SortedRemove_refines:
  assumes "repr h l as xs"
  shows "case as of [] \<Rightarrow> SortedRemove h l = Inr (h, l, None, None)
    | a # bs \<Rightarrow> \<exists>h' l'. SortedRemove h l = Inr (h', l', snd (hd xs), Some (fst (hd xs))) \<and>
        repr h' l' bs (tl xs) \<and> cells h' = (cells h)(a := None) \<and> brk h' = brk h"
proof (cases as)
  case Nil
  then show ?thesis using assms by (simp add: SortedRemove_def repr_def IsEmpty_def)
next
  case (Cons a bs)
  obtain c where c: "lfirst l = Some a" "cells h a = Some c" "chain h (le_next c) bs"
    using assms Cons by (auto simp: repr_def split: option.splits)
  let ?h = "h\<lparr>cells := (cells h)(a := None)\<rparr>"
  let ?l = "if lfirst l = llast l then \<lparr>lfirst = None, llast = None\<rparr> else l\<lparr>lfirst := le_next c\<rparr>"
  have run: "SortedRemove h l = Inr (?h, ?l, le_item c, Some (le_key c))"
    using c by (simp add: SortedRemove_def IsEmpty_def deref_Some delete_element_def Let_def)
  have single: "lfirst l = llast l \<longleftrightarrow> bs = []"
    using c assms Cons by (auto simp: repr_def)
  have "chain ?h (le_next c) bs = chain h (le_next c) bs"
    using assms Cons by (intro chain_cong) (auto simp: repr_def)
  moreover have "\<forall>b \<in> set bs. entry ?h b = entry h b"
    using assms Cons by (auto simp: repr_def entry_def)
  ultimately have "repr ?h ?l bs (tl xs)"
    using assms Cons c single by (auto simp: repr_def)
  then show ?thesis using run c assms Cons by (auto simp: repr_def entry_def)
qed

text \<open>\<open>Mapcar\<close> visits every item once, from first to last.\<close>

lemma Mapcar_chain:
  "chain h p as \<Longrightarrow> length as \<le> n \<Longrightarrow>
     Mapcar n h p func s = Inr (fold func (map (snd \<circ> entry h) as) s)"
proof (induction as arbitrary: n p s)
  case Nil
  then show ?case by simp
next
  case (Cons a as)
  then obtain m c where "n = Suc m" "cells h a = Some c" "p = Some a" "chain h (le_next c) as"
    by (cases n) (auto split: option.splits)
  with Cons show ?case by (simp add: deref_Some entry_def)
qed

theorem Mapcar_refines:
  assumes "repr h l as xs"
  shows "Mapcar (brk h) h (lfirst l) func s = Inr (fold func (map snd xs) s)"
  using Mapcar_chain [of h "lfirst l" as "brk h" func s] length_as_le_brk [of as "brk h"] assms
  by (simp add: repr_def comp_def)

text \<open>The destructor frees every element and nothing else, when no item is the null pointer.\<close>

lemma List_destroy_chain:
  assumes "repr h l as xs" and "\<forall>e \<in> set xs. snd e \<noteq> None"
  shows "\<exists>h' l'. List_destroy (Suc (length xs)) h l = Inr (h', l') \<and> IsEmpty l' \<and>
    cells h' = (\<lambda>a. if a \<in> set as then None else cells h a)"
  using assms
proof (induction as arbitrary: h l xs)
  case Nil
  then have "SortedRemove h l = Inr (h, l, None, None)" and "xs = []"
    using SortedRemove_refines [OF Nil.prems(1)] by (auto simp: repr_def)
  then show ?case using Nil by (auto simp: Remove_def repr_def IsEmpty_def)
next
  case (Cons a as)
  then obtain x ys where xs: "xs = x # ys" by (cases xs) (auto simp: repr_def)
  obtain h1 l1 where r: "SortedRemove h l = Inr (h1, l1, snd x, Some (fst x))"
    "repr h1 l1 as ys" "cells h1 = (cells h)(a := None)"
    using SortedRemove_refines [OF Cons.prems(1)] xs by auto
  obtain h2 l2 where d: "List_destroy (Suc (length ys)) h1 l1 = Inr (h2, l2)" "IsEmpty l2"
    "cells h2 = (\<lambda>b. if b \<in> set as then None else cells h1 b)"
    using Cons.IH [OF r(2)] Cons.prems xs by auto
  have "List_destroy (Suc (length xs)) h l = Inr (h2, l2)"
    using r(1) d(1) Cons.prems(2) by (simp add: Remove_def xs)
  then show ?case using d r(3) by (auto simp: fun_eq_iff)
qed

section \<open>A list object with its own elements\<close>

text \<open>
  The elements of a list are private to it (only \<open>List\<close> allocates, links and frees them), so a
  list object of the other components is a pair of its elements and its two pointers.
\<close>

type_synonym 'a lst = "'a heap \<times> llist"

definition empty_list :: "'a lst" where
  "empty_list = (\<lparr>cells = (\<lambda>_. None), brk = 0\<rparr>, List_new)"

definition lst_IsEmpty :: "'a lst \<Rightarrow> bool" where
  "lst_IsEmpty q = IsEmpty (snd q)"

definition lst_SortedInsert :: "'a lst \<Rightarrow> 'a option \<Rightarrow> int \<Rightarrow> 'a lst res" where
  "lst_SortedInsert q x k = SortedInsert (fst q) (snd q) x k"

definition lst_SortedRemove :: "'a lst \<Rightarrow> ('a lst \<times> 'a option \<times> int option) res" where
  "lst_SortedRemove q = bindR (SortedRemove (fst q) (snd q)) (\<lambda>(h, l, x, k). Inr ((h, l), x, k))"

fun items_from :: "nat \<Rightarrow> 'a heap \<Rightarrow> nat option \<Rightarrow> (int \<times> 'a option) list" where
  "items_from (Suc n) h (Some a) =
     (case cells h a of None \<Rightarrow> []
      | Some c \<Rightarrow> (le_key c, le_item c) # items_from n h (le_next c))"
| "items_from _ h _ = []"

definition lst_elems :: "'a lst \<Rightarrow> (int \<times> 'a option) list" where
  "lst_elems q = items_from (brk (fst q)) (fst q) (lfirst (snd q))"

definition lst_ok :: "'a lst \<Rightarrow> bool" where
  "lst_ok q \<longleftrightarrow> heap_ok (fst q) \<and> (\<exists>as xs. repr (fst q) (snd q) as xs)"

lemma items_from_chain:
  "chain h p as \<Longrightarrow> length as \<le> n \<Longrightarrow> items_from n h p = map (entry h) as"
proof (induction as arbitrary: n p)
  case Nil
  then show ?case by (cases n) auto
next
  case (Cons a as)
  then obtain m where "n = Suc m" by (cases n) auto
  with Cons show ?case by (auto simp: entry_def split: option.splits)
qed

lemma lst_elems_repr: "repr h l as xs \<Longrightarrow> lst_elems (h, l) = xs"
  using items_from_chain [of h "lfirst l" as "brk h"] length_as_le_brk [of as "brk h"]
  by (auto simp: lst_elems_def repr_def)

lemma lst_okE:
  assumes "lst_ok q"
  obtains as where "heap_ok (fst q)" and "repr (fst q) (snd q) as (lst_elems q)"
  using assms lst_elems_repr [of "fst q" "snd q"] by (auto simp: lst_ok_def)

lemma lst_ok_empty [simp]: "lst_ok empty_list"
  by (auto simp: lst_ok_def empty_list_def heap_ok_def repr_def List_new_def intro: exI [of _ "[]"])

lemma lst_elems_empty [simp]: "lst_elems empty_list = []"
  by (simp add: lst_elems_def empty_list_def List_new_def)

lemma lst_IsEmpty_iff: "lst_ok q \<Longrightarrow> lst_IsEmpty q \<longleftrightarrow> lst_elems q = []"
  by (auto elim!: lst_okE simp: lst_IsEmpty_def dest: repr_empty_iff)

section \<open>The interface: a queue ordered by key\<close>

text \<open>
  What a client of \<open>SortedInsert\<close>/\<open>SortedRemove\<close> relies on. A batch put into an empty queue and
  taken out again comes out in the stable order of the keys.
\<close>

fun insert_all :: "('q \<Rightarrow> 'a \<Rightarrow> int \<Rightarrow> 'q res) \<Rightarrow> 'q \<Rightarrow> (int \<times> 'a) list \<Rightarrow> 'q res" where
  "insert_all ins q [] = Inr q"
| "insert_all ins q (e # es) = bindR (ins q (snd e) (fst e)) (\<lambda>q'. insert_all ins q' es)"

fun remove_n :: "('q \<Rightarrow> ('q \<times> 'a option \<times> int option) res) \<Rightarrow> nat \<Rightarrow> 'q \<Rightarrow>
    ('q \<times> (int option \<times> 'a option) list) res" where
  "remove_n rem 0 q = Inr (q, [])"
| "remove_n rem (Suc n) q =
     bindR (rem q) (\<lambda>(q', x, k). bindR (remove_n rem n q') (\<lambda>(q'', out). Inr (q'', (k, x) # out)))"

locale ordered_queue =
  fixes ins :: "'q \<Rightarrow> 'a option \<Rightarrow> int \<Rightarrow> 'q res"
    and rem :: "'q \<Rightarrow> ('q \<times> 'a option \<times> int option) res"
    and elems :: "'q \<Rightarrow> (int \<times> 'a option) list"
    and ok :: "'q \<Rightarrow> bool"
  assumes ins_ok: "ok q \<Longrightarrow>
      \<exists>q'. ins q x k = Inr q' \<and> ok q' \<and> elems q' = sorted_ins k x (elems q)"
    and rem_Nil: "ok q \<Longrightarrow> elems q = [] \<Longrightarrow> rem q = Inr (q, None, None)"
    and rem_Cons: "ok q \<Longrightarrow> elems q = e # es \<Longrightarrow>
      \<exists>q'. rem q = Inr (q', snd e, Some (fst e)) \<and> ok q' \<and> elems q' = es"
begin

lemma ins_total: "ok q \<Longrightarrow> ins q x k \<noteq> Inl f"
  using ins_ok [of q x k] by auto

lemma rem_total: "ok q \<Longrightarrow> rem q \<noteq> Inl f"
  using rem_Nil [of q] rem_Cons [of q] by (cases "elems q") fastforce+

lemma ins_D: "ok q \<Longrightarrow> ins q x k = Inr q' \<Longrightarrow> ok q' \<and> elems q' = sorted_ins k x (elems q)"
  using ins_ok [of q x k] by auto

lemma rem_D:
  "ok q \<Longrightarrow> rem q = Inr (q', x, k) \<Longrightarrow> ok q' \<and> elems q' = tl (elems q) \<and>
    (case elems q of [] \<Rightarrow> x = None \<and> k = None | e # _ \<Rightarrow> x = snd e \<and> k = Some (fst e))"
  using rem_Nil [of q] rem_Cons [of q] by (cases "elems q") fastforce+

lemma insert_all_ok:
  "ok q \<Longrightarrow> \<exists>q'. insert_all ins q es = Inr q' \<and> ok q' \<and>
     elems q' = fold (\<lambda>e. sorted_ins (fst e) (snd e)) es (elems q)"
proof (induction es arbitrary: q)
  case (Cons e es)
  then obtain q1 where "ins q (snd e) (fst e) = Inr q1" "ok q1"
      "elems q1 = sorted_ins (fst e) (snd e) (elems q)"
    using ins_ok by blast
  with Cons.IH [of q1] show ?case by auto
qed simp

lemma remove_n_ok:
  "ok q \<Longrightarrow> n \<le> length (elems q) \<Longrightarrow>
     \<exists>q'. remove_n rem n q = Inr (q', map (\<lambda>e. (Some (fst e), snd e)) (take n (elems q))) \<and>
       ok q' \<and> elems q' = drop n (elems q)"
proof (induction n arbitrary: q)
  case (Suc n)
  then obtain e es where es: "elems q = e # es" by (cases "elems q") auto
  obtain q1 where q1: "rem q = Inr (q1, snd e, Some (fst e))" "ok q1" "elems q1 = es"
    using rem_Cons [OF Suc.prems(1) es] by blast
  with Suc.IH [of q1] Suc.prems es show ?case by auto
qed simp

end

lemma fold_sorted_ins:
  assumes "key_sorted xs"
  shows "fold (\<lambda>e. sorted_ins (fst e) (snd e)) es xs = sort_key fst (xs @ es)"
proof -
  let ?f = "fold (\<lambda>e. sorted_ins (fst e) (snd e)) es xs"
  have "mset ?f = mset (xs @ es) \<and> key_sorted ?f \<and>
      (\<forall>j. filter (\<lambda>e. fst e = j) ?f = filter (\<lambda>e. fst e = j) (xs @ es))"
    using assms
  proof (induction es arbitrary: xs)
    case (Cons e es)
    show ?case
      using Cons.IH [OF key_sorted_ins [OF Cons.prems]] sorted_ins_stable [OF Cons.prems]
      by (auto simp: mset_sorted_ins)
  qed simp
  then show ?thesis
    by (intro properties_for_sort_key [symmetric]) (auto simp: key_sorted_def eq_commute)
qed

interpretation lq: ordered_queue lst_SortedInsert lst_SortedRemove lst_elems lst_ok
proof unfold_locales
  fix q :: "'a lst" and x k
  assume "lst_ok q"
  then obtain as where r: "heap_ok (fst q)" "repr (fst q) (snd q) as (lst_elems q)"
    by (rule lst_okE)
  obtain h' l' as' where "SortedInsert (fst q) (snd q) x k = Inr (h', l')" "heap_ok h'"
      "repr h' l' as' (sorted_ins k x (lst_elems q))"
    using SortedInsert_refines [OF r] by blast
  then show "\<exists>q'. lst_SortedInsert q x k = Inr q' \<and> lst_ok q' \<and>
      lst_elems q' = sorted_ins k x (lst_elems q)"
    by (auto simp: lst_SortedInsert_def lst_ok_def lst_elems_repr)
next
  fix q :: "'a lst"
  assume "lst_ok q" and Nil: "lst_elems q = []"
  then obtain as where r: "repr (fst q) (snd q) as []" by (metis lst_okE)
  then show "lst_SortedRemove q = Inr (q, None, None)"
    using SortedRemove_refines [OF r] by (auto simp: lst_SortedRemove_def repr_def)
next
  fix q :: "'a lst" and e es
  assume "lst_ok q" and Cons: "lst_elems q = e # es"
  then obtain as where r: "heap_ok (fst q)" "repr (fst q) (snd q) as (e # es)"
    by (metis lst_okE)
  then obtain a bs where as: "as = a # bs" by (cases as) (auto simp: repr_def)
  obtain h' l' where s: "SortedRemove (fst q) (snd q) = Inr (h', l', snd e, Some (fst e))"
      "repr h' l' bs es" "cells h' = (cells (fst q))(a := None)" "brk h' = brk (fst q)"
    using SortedRemove_refines [OF r(2)] as by auto
  have "heap_ok h'" using r(1) s by (auto simp: heap_ok_def)
  then show "\<exists>q'. lst_SortedRemove q = Inr (q', snd e, Some (fst e)) \<and> lst_ok q' \<and> lst_elems q' = es"
    using s by (auto simp: lst_SortedRemove_def lst_ok_def lst_elems_repr)
qed

section \<open>Appending and removing: first in, first out\<close>

definition lst_Append :: "'a lst \<Rightarrow> 'a option \<Rightarrow> 'a lst res" where
  "lst_Append q x = Append (fst q) (snd q) x"

definition lst_Prepend :: "'a lst \<Rightarrow> 'a option \<Rightarrow> 'a lst res" where
  "lst_Prepend q x = Prepend (fst q) (snd q) x"

definition lst_Remove :: "'a lst \<Rightarrow> ('a lst \<times> 'a option) res" where
  "lst_Remove q = bindR (Remove (fst q) (snd q)) (\<lambda>(h, l, x). Inr ((h, l), x))"

fun append_all :: "'a lst \<Rightarrow> 'a option list \<Rightarrow> 'a lst res" where
  "append_all q [] = Inr q"
| "append_all q (x # xs) = bindR (lst_Append q x) (\<lambda>q'. append_all q' xs)"

fun remove_all :: "nat \<Rightarrow> 'a lst \<Rightarrow> ('a lst \<times> 'a option list) res" where
  "remove_all 0 q = Inr (q, [])"
| "remove_all (Suc n) q =
     bindR (lst_Remove q) (\<lambda>(q', x). bindR (remove_all n q') (\<lambda>(q'', out). Inr (q'', x # out)))"

lemma lst_Append_ok:
  assumes "lst_ok q"
  shows "\<exists>q'. lst_Append q x = Inr q' \<and> lst_ok q' \<and> lst_elems q' = lst_elems q @ [(0, x)]"
proof -
  obtain as where r: "heap_ok (fst q)" "repr (fst q) (snd q) as (lst_elems q)"
    using assms by (rule lst_okE)
  then obtain h' l' where "Append (fst q) (snd q) x = Inr (h', l')" "heap_ok h'"
      "repr h' l' (as @ [brk (fst q)]) (lst_elems q @ [(0, x)])"
    using Append_refines [OF r] by blast
  then show ?thesis
    by (auto simp: lst_Append_def lst_ok_def lst_elems_repr)
qed

lemma lst_Prepend_ok:
  assumes "lst_ok q"
  shows "\<exists>q'. lst_Prepend q x = Inr q' \<and> lst_ok q' \<and> lst_elems q' = (0, x) # lst_elems q"
proof -
  obtain as where r: "heap_ok (fst q)" "repr (fst q) (snd q) as (lst_elems q)"
    using assms by (rule lst_okE)
  then obtain h' l' where "Prepend (fst q) (snd q) x = Inr (h', l')" "heap_ok h'"
      "repr h' l' (brk (fst q) # as) ((0, x) # lst_elems q)"
    using Prepend_refines [OF r] by blast
  then show ?thesis
    by (auto simp: lst_Prepend_def lst_ok_def lst_elems_repr)
qed

lemma lst_Remove_ok:
  assumes "lst_ok q"
  shows "\<exists>q'. lst_Remove q = Inr (q', if lst_elems q = [] then None else snd (hd (lst_elems q))) \<and>
    lst_ok q' \<and> lst_elems q' = tl (lst_elems q)"
proof -
  have eq: "lst_Remove q = bindR (lst_SortedRemove q) (\<lambda>(q', x, _). Inr (q', x))"
    by (simp add: lst_Remove_def lst_SortedRemove_def Remove_def bindR_assoc split_def)
  show ?thesis
  proof (cases "lst_elems q")
    case Nil
    then show ?thesis using lq.rem_Nil [OF assms] assms by (simp add: eq)
  next
    case (Cons e es)
    then show ?thesis using lq.rem_Cons [OF assms Cons] by (auto simp: eq)
  qed
qed

lemma append_all_ok:
  "lst_ok q \<Longrightarrow> \<exists>q'. append_all q xs = Inr q' \<and> lst_ok q' \<and>
     lst_elems q' = lst_elems q @ map (\<lambda>x. (0, x)) xs"
proof (induction xs arbitrary: q)
  case (Cons x xs)
  obtain q1 where "lst_Append q x = Inr q1" "lst_ok q1" "lst_elems q1 = lst_elems q @ [(0, x)]"
    using lst_Append_ok [OF Cons.prems] by blast
  then show ?case using Cons.IH [of q1] by auto
qed simp

lemma remove_all_ok:
  "lst_ok q \<Longrightarrow> n \<le> length (lst_elems q) \<Longrightarrow>
     \<exists>q'. remove_all n q = Inr (q', map snd (take n (lst_elems q))) \<and> lst_ok q' \<and>
       lst_elems q' = drop n (lst_elems q)"
proof (induction n arbitrary: q)
  case (Suc n)
  then obtain e es where es: "lst_elems q = e # es" by (cases "lst_elems q") auto
  obtain q1 where "lst_Remove q = Inr (q1, snd e)" "lst_ok q1" "lst_elems q1 = es"
    using lst_Remove_ok [OF Suc.prems(1)] es by auto
  with Suc.IH [of q1] Suc.prems es show ?case by auto
qed simp

section \<open>Properties\<close>

text \<open>
  C26: items put into an empty list with \<open>SortedInsert\<close>, in any order, come out of \<open>SortedRemove\<close>
  sorted by key, those of equal key in the order they went in, and the list is then empty.
\<close>

theorem sorted_batch:
  "\<exists>q q'. insert_all lst_SortedInsert empty_list es = Inr q \<and>
     remove_n lst_SortedRemove (length es) q =
       Inr (q', map (\<lambda>e. (Some (fst e), snd e)) (sort_key fst es)) \<and> lst_IsEmpty q'"
proof -
  obtain q where q: "insert_all lst_SortedInsert empty_list es = Inr q" "lst_ok q"
      "lst_elems q = sort_key fst es"
    using lq.insert_all_ok [OF lst_ok_empty, of es] fold_sorted_ins [of "[]" es]
    by (auto simp: key_sorted_def)
  then have n: "length es = length (lst_elems q)" by simp
  obtain q' where r: "remove_n lst_SortedRemove (length es) q =
      Inr (q', map (\<lambda>e. (Some (fst e), snd e)) (take (length es) (lst_elems q)))" "lst_ok q'"
      "lst_elems q' = drop (length es) (lst_elems q)"
    using lq.remove_n_ok [OF q(2) eq_refl [OF n]] by blast
  note q' = r [unfolded n take_all [OF order_refl] drop_all [OF order_refl], folded n, unfolded q(3)]
  have "lst_IsEmpty q'" using q'(2,3) lst_IsEmpty_iff by blast
  then show ?thesis using q(1) q'(1) by blast
qed

text \<open>
  \<open>Append\<close> and \<open>Remove\<close> make the list a first-in first-out queue: what is appended to an empty
  list comes out in that order and the list is then empty, and one more \<open>Remove\<close> returns the null
  pointer.
\<close>

theorem append_remove_fifo:
  "\<exists>q q'. append_all empty_list xs = Inr q \<and> remove_all (length xs) q = Inr (q', xs) \<and>
     lst_IsEmpty q' \<and> lst_Remove q' = Inr (q', None)"
proof -
  obtain q where q: "append_all empty_list xs = Inr q" "lst_ok q"
      "lst_elems q = map (\<lambda>x. (0, x)) xs"
    using append_all_ok [OF lst_ok_empty, of xs] by auto
  then have n: "length xs = length (lst_elems q)" and m: "map snd (lst_elems q) = xs"
    by (simp_all add: comp_def)
  obtain q' where r: "remove_all (length xs) q =
      Inr (q', map snd (take (length xs) (lst_elems q)))" "lst_ok q'"
      "lst_elems q' = drop (length xs) (lst_elems q)"
    using remove_all_ok [OF q(2) eq_refl [OF n]] by blast
  note q' = r [unfolded n take_all [OF order_refl] drop_all [OF order_refl], folded n, unfolded m]
  have "lst_IsEmpty q'" using q' lst_IsEmpty_iff by blast
  moreover from this have "lst_Remove q' = Inr (q', None)"
    by (simp add: lst_Remove_def Remove_def SortedRemove_def lst_IsEmpty_def)
  ultimately show ?thesis using q q' by blast
qed

text \<open>
  The destructor frees every element of the list and nothing else, and leaves the list empty,
  provided that no item is the null pointer (at which the loop of \<open>~List\<close> would stop).
\<close>

theorem List_destroy_frees:
  assumes "repr h l as xs" and "\<forall>e \<in> set xs. snd e \<noteq> None"
  shows "\<exists>h' l'. List_destroy (Suc (length xs)) h l = Inr (h', l') \<and> IsEmpty l' \<and>
    cells h' = (\<lambda>a. if a \<in> set as then None else cells h a)"
  using assms by (rule List_destroy_chain)

theorem List_destroy_frees_witness:
  "let h = \<lparr>cells = [3 \<mapsto> \<lparr>le_next = None, le_key = 0, le_item = Some (7::nat)\<rparr>], brk = 5\<rparr>;
       l = \<lparr>lfirst = Some 3, llast = Some 3\<rparr>
   in repr h l [3] [(0, Some 7)] \<and> (\<forall>e \<in> set [(0, Some (7::nat))]. snd e \<noteq> None) \<and>
     (\<exists>h' l'. List_destroy 2 h l = Inr (h', l') \<and> IsEmpty l' \<and> cells h' 3 = None)"
  using List_destroy_frees [of "\<lparr>cells = [3 \<mapsto> \<lparr>le_next = None, le_key = 0, le_item = Some (7::nat)\<rparr>], brk = 5\<rparr>"
      "\<lparr>lfirst = Some 3, llast = Some 3\<rparr>" "[3]" "[(0, Some 7)]"]
  by (auto simp: Let_def repr_def entry_def numeral_2_eq_2)

end
