(* ===== verification/BitMaps.thy ===== *)
theory BitMaps
  imports Nachos_Prelude
begin

unbundle bit_operations_syntax

text \<open>
  \<open>userprog/bitmap.cc\<close>: an array of bits packed into 32-bit words, used to allocate disk sectors
  and physical pages. The operations keep the word arithmetic of the source; \<open>marked\<close> is the set
  of marked bits they maintain. The locale \<open>allocator\<close> is the interface \<open>FileHeader::Allocate\<close>
  and the memory manager use.
\<close>

section \<open>State and operations\<close>

definition BitsInByte :: int where "BitsInByte = 8"
definition BitsInWord :: int where "BitsInWord = 32"

text \<open>\<open>words\<close> is the field \<open>map\<close>.\<close>

record bitmap =
  numBits :: int
  numWords :: int
  words :: "32 word list"

definition Mark :: "bitmap \<Rightarrow> int \<Rightarrow> bitmap res" where
  "Mark b which =
     ASSERT (which \<ge> 0 \<and> which < numBits b)
       (bindR (aget (words b) (which sdiv BitsInWord)) (\<lambda>w.
        bindR (aset (words b) (which sdiv BitsInWord)
                 (w OR push_bit (nat (which smod BitsInWord)) 1)) (\<lambda>ws.
        Inr (b\<lparr>words := ws\<rparr>))))"

definition Clear :: "bitmap \<Rightarrow> int \<Rightarrow> bitmap res" where
  "Clear b which =
     ASSERT (which \<ge> 0 \<and> which < numBits b)
       (bindR (aget (words b) (which sdiv BitsInWord)) (\<lambda>w.
        bindR (aset (words b) (which sdiv BitsInWord)
                 (w AND NOT (push_bit (nat (which smod BitsInWord)) 1))) (\<lambda>ws.
        Inr (b\<lparr>words := ws\<rparr>))))"

definition Test :: "bitmap \<Rightarrow> int \<Rightarrow> bool res" where
  "Test b which =
     ASSERT (which \<ge> 0 \<and> which < numBits b)
       (bindR (aget (words b) (which sdiv BitsInWord)) (\<lambda>w.
        Inr (w AND push_bit (nat (which smod BitsInWord)) 1 \<noteq> 0)))"

text \<open>
  The constructor clears every bit of an array that \<open>new\<close> leaves uninitialised; \<open>junk\<close> is what
  the array held.
\<close>

fun clear_each :: "int list \<Rightarrow> bitmap \<Rightarrow> bitmap res" where
  "clear_each [] b = Inr b"
| "clear_each (i # is) b = bindR (Clear b i) (clear_each is)"

definition BitMap_new :: "(nat \<Rightarrow> 32 word) \<Rightarrow> int \<Rightarrow> bitmap res" where
  "BitMap_new junk nitems =
     (let nw = divRoundUp nitems BitsInWord in
      clear_each [0..nitems - 1]
        \<lparr>numBits = nitems, numWords = nw, words = map junk [0..<nat nw]\<rparr>)"

function find_from :: "bitmap \<Rightarrow> int \<Rightarrow> (bitmap \<times> int) res" where
  "find_from b i =
     (if i < numBits b then
        bindR (Test b i) (\<lambda>t.
          if \<not> t then bindR (Mark b i) (\<lambda>b'. Inr (b', i))
          else find_from b (i + 1))
      else Inr (b, -1))"
  by pat_completeness auto
termination
  by (relation "measure (\<lambda>(b, i). nat (numBits b - i))") auto

definition Find :: "bitmap \<Rightarrow> (bitmap \<times> int) res" where
  "Find b = find_from b 0"

function count_clear :: "bitmap \<Rightarrow> int \<Rightarrow> int \<Rightarrow> int res" where
  "count_clear b i count =
     (if i < numBits b then
        bindR (Test b i) (\<lambda>t. count_clear b (i + 1) (if \<not> t then count + 1 else count))
      else Inr count)"
  by pat_completeness auto
termination
  by (relation "measure (\<lambda>(b, i, count). nat (numBits b - i))") auto

definition NumClear :: "bitmap \<Rightarrow> int res" where
  "NumClear b = count_clear b 0 0"

text \<open>\<open>Print\<close> writes the numbers of the marked bits; the result is the list of them.\<close>

function print_from :: "bitmap \<Rightarrow> int \<Rightarrow> int list res" where
  "print_from b i =
     (if i < numBits b then
        bindR (Test b i) (\<lambda>t. bindR (print_from b (i + 1)) (\<lambda>out.
          Inr (if t then i # out else out)))
      else Inr [])"
  by pat_completeness auto
termination
  by (relation "measure (\<lambda>(b, i). nat (numBits b - i))") auto

definition BitMap_Print :: "bitmap \<Rightarrow> int list res" where
  "BitMap_Print b = print_from b 0"

declare find_from.simps [simp del]
  count_clear.simps [simp del] print_from.simps [simp del]

section \<open>The set of marked bits\<close>

definition bitmap_ok :: "bitmap \<Rightarrow> bool" where
  "bitmap_ok b \<longleftrightarrow> 0 \<le> numBits b \<and> numWords b = divRoundUp (numBits b) BitsInWord \<and>
     int (length (words b)) = numWords b"

definition bit_at :: "bitmap \<Rightarrow> int \<Rightarrow> bool" where
  "bit_at b i = bit (words b ! nat (i div 32)) (nat (i mod 32))"

definition marked :: "bitmap \<Rightarrow> int set" where
  "marked b = {i. 0 \<le> i \<and> i < numBits b \<and> bit_at b i}"

lemma marked_range: "marked b \<subseteq> {0..<numBits b}"
  by (auto simp: marked_def)

lemma finite_marked [simp]: "finite (marked b)"
  by (rule finite_subset [OF marked_range]) simp

lemma word_index:
  assumes "bitmap_ok b" "0 \<le> i" "i < numBits b"
  shows "0 \<le> i div 32" "i div 32 < int (length (words b))"
proof -
  show "0 \<le> i div 32" using assms by simp
  have "numBits b \<le> int (length (words b)) * 32"
    using divRoundUp_bounds(1) [of "numBits b" 32] assms
    by (simp add: bitmap_ok_def BitsInWord_def)
  then show "i div 32 < int (length (words b))" using assms by linarith
qed

lemma and_bit_1: "w AND 2 ^ n \<noteq> 0 \<longleftrightarrow> bit w n" for w :: "32 word"
  using bit_iff_and_push_bit_not_eq_0 [of w n] by simp

lemma Test_ok:
  assumes "bitmap_ok b" "0 \<le> i" "i < numBits b"
  shows "Test b i = Inr (i \<in> marked b)"
  using word_index [OF assms] assms
  by (simp add: Test_def BitsInWord_def sdiv_nonneg_eq smod_nonneg_eq and_bit_1
      marked_def bit_at_def)

lemma bitmap_ok_set_word:
  "bitmap_ok b \<Longrightarrow> length ws = length (words b) \<Longrightarrow> bitmap_ok (b\<lparr>words := ws\<rparr>)"
  by (simp add: bitmap_ok_def)

text \<open>Two bit numbers share a word and a position only if they are equal.\<close>

lemma bit_at_update:
  assumes "bitmap_ok b" "0 \<le> i" "i < numBits b" "0 \<le> j" "j < numBits b"
    and "\<And>n. n < 32 \<Longrightarrow> bit w n = (if n = nat (i mod 32) then v else bit (words b ! nat (i div 32)) n)"
  shows "bit_at (b\<lparr>words := (words b)[nat (i div 32) := w]\<rparr>) j = (if j = i then v else bit_at b j)"
proof (cases "j div 32 = i div 32")
  case True
  have "nat (j mod 32) < 32" by simp
  moreover have "nat (j mod 32) = nat (i mod 32) \<longleftrightarrow> j = i"
    using True by (metis eq_nat_nat_iff mult_div_mod_eq pos_mod_sign zero_less_numeral)
  ultimately show ?thesis
    using assms word_index [OF assms(1-3)] True by (auto simp: bit_at_def)
next
  case False
  then have "nat (j div 32) \<noteq> nat (i div 32)" using assms by auto
  with False show ?thesis by (auto simp: bit_at_def)
qed

lemma Mark_ok:
  assumes "bitmap_ok b" "0 \<le> i" "i < numBits b"
  shows "\<exists>b'. Mark b i = Inr b' \<and> bitmap_ok b' \<and> numBits b' = numBits b \<and>
    marked b' = insert i (marked b)"
proof -
  let ?w = "words b ! nat (i div 32) OR 2 ^ nat (i mod 32)"
  let ?b = "b\<lparr>words := (words b)[nat (i div 32) := ?w]\<rparr>"
  have run: "Mark b i = Inr ?b"
    using word_index [OF assms] assms
    by (simp add: Mark_def BitsInWord_def sdiv_nonneg_eq smod_nonneg_eq)
  have w: "bit ?w n = (if n = nat (i mod 32) then True else bit (words b ! nat (i div 32)) n)"
    if "n < 32" for n
    using that by (auto simp: bit_simps)
  have "bit_at ?b j = (if j = i then True else bit_at b j)" if "0 \<le> j" "j < numBits b" for j
    using bit_at_update [OF assms that w] by simp
  then have "marked ?b = insert i (marked b)"
    using assms by (auto simp: marked_def)
  then show ?thesis using run assms(1) by (simp add: bitmap_ok_set_word)
qed

lemma Clear_ok:
  assumes "bitmap_ok b" "0 \<le> i" "i < numBits b"
  shows "\<exists>b'. Clear b i = Inr b' \<and> bitmap_ok b' \<and> numBits b' = numBits b \<and>
    marked b' = marked b - {i}"
proof -
  let ?w = "words b ! nat (i div 32) AND NOT (2 ^ nat (i mod 32))"
  let ?b = "b\<lparr>words := (words b)[nat (i div 32) := ?w]\<rparr>"
  have run: "Clear b i = Inr ?b"
    using word_index [OF assms] assms
    by (simp add: Clear_def BitsInWord_def sdiv_nonneg_eq smod_nonneg_eq)
  have w: "bit ?w n = (if n = nat (i mod 32) then False else bit (words b ! nat (i div 32)) n)"
    if "n < 32" for n
    using that by (auto simp: bit_simps)
  have "bit_at ?b j = (if j = i then False else bit_at b j)" if "0 \<le> j" "j < numBits b" for j
    using bit_at_update [OF assms that w] by simp
  then have "marked ?b = marked b - {i}"
    by (auto simp: marked_def split: if_splits)
  then show ?thesis using run assms(1) by (simp add: bitmap_ok_set_word)
qed

lemma out_of_range [simp]:
  assumes "\<not> (0 \<le> i \<and> i < numBits b)"
  shows "Mark b i = Inl AssertFailed" "Clear b i = Inl AssertFailed" "Test b i = Inl AssertFailed"
  using assms by (simp_all add: Mark_def Clear_def Test_def)

text \<open>\<open>Find\<close> takes the lowest clear bit; with none clear it returns \<open>-1\<close> and changes nothing.\<close>

lemma find_from_ok:
  assumes "bitmap_ok b" "0 \<le> i" "i \<le> numBits b" "{0..<i} \<subseteq> marked b"
  shows "if marked b = {0..<numBits b} then find_from b i = Inr (b, -1)
    else \<exists>b' j. find_from b i = Inr (b', j) \<and> 0 \<le> j \<and> j < numBits b \<and> j \<notin> marked b \<and>
      {0..<j} \<subseteq> marked b \<and> bitmap_ok b' \<and> numBits b' = numBits b \<and>
      marked b' = insert j (marked b)"
  using assms
proof (induction b i rule: find_from.induct)
  case (1 b i)
  show ?case
  proof (cases "i < numBits b")
    case False
    then have "marked b = {0..<numBits b}" using "1.prems" marked_range [of b] by auto
    then show ?thesis using False by (simp add: find_from.simps [of b i])
  next
    case True
    have t: "Test b i = Inr (i \<in> marked b)" using Test_ok "1.prems" True by blast
    show ?thesis
    proof (cases "i \<in> marked b")
      case False
      then have "marked b \<noteq> {0..<numBits b}" using True "1.prems" by auto
      then show ?thesis
        using Mark_ok [of b i] "1.prems" True False t by (auto simp: find_from.simps [of b i])
    next
      case in_set: True
      moreover have "{0..<i + 1} = insert i {0..<i}" using "1.prems"(2) by auto
      ultimately have "{0..<i + 1} \<subseteq> marked b" using "1.prems"(4) by simp
      then show ?thesis
        using "1.IH" [OF True] "1.prems" True in_set t by (auto simp: find_from.simps [of b i])
    qed
  qed
qed

lemma count_clear_ok:
  assumes "bitmap_ok b" "0 \<le> i"
  shows "count_clear b i c = Inr (c + int (card ({i..<numBits b} - marked b)))"
  using assms
proof (induction b i c rule: count_clear.induct)
  case (1 b i c)
  show ?case
  proof (cases "i < numBits b")
    case False
    then show ?thesis by (simp add: count_clear.simps [of b i])
  next
    case True
    then have "{i..<numBits b} = insert i {i + 1..<numBits b}" by auto
    then have "card ({i..<numBits b} - marked b) =
        (if i \<in> marked b then 0 else 1) + card ({i + 1..<numBits b} - marked b)"
      by (auto simp: insert_Diff_if)
    then show ?thesis
      using "1.IH" [OF True] "1.prems" True Test_ok [of b i]
      by (auto simp: count_clear.simps [of b i])
  qed
qed

lemma NumClear_ok:
  "bitmap_ok b \<Longrightarrow> NumClear b = Inr (int (card ({0..<numBits b} - marked b)))"
  by (simp add: NumClear_def count_clear_ok)

lemma print_from_ok:
  assumes "bitmap_ok b" "0 \<le> i"
  shows "print_from b i = Inr (filter (\<lambda>j. j \<in> marked b) [i..numBits b - 1])"
  using assms
proof (induction b i rule: print_from.induct)
  case (1 b i)
  show ?case
  proof (cases "i < numBits b")
    case False
    then show ?thesis by (simp add: print_from.simps [of b i])
  next
    case True
    then show ?thesis
      using "1.IH" [OF True] "1.prems" Test_ok [of b i] upto_rec1 [of i "numBits b - 1"]
      by (auto simp: print_from.simps [of b i])
  qed
qed

lemma clear_each_ok:
  assumes "bitmap_ok b" "set is \<subseteq> {0..<numBits b}"
  shows "\<exists>b'. clear_each is b = Inr b' \<and> bitmap_ok b' \<and> numBits b' = numBits b \<and>
    marked b' = marked b - set is"
  using assms
proof (induction "is" arbitrary: b)
  case (Cons i "is")
  then obtain b1 where b1: "Clear b i = Inr b1" "bitmap_ok b1" "numBits b1 = numBits b"
      "marked b1 = marked b - {i}"
    using Clear_ok [of b i] by auto
  show ?case using Cons.IH [of b1] Cons.prems b1 by auto
qed simp

lemma BitMap_new_ok:
  assumes "0 \<le> n"
  shows "\<exists>b. BitMap_new junk n = Inr b \<and> bitmap_ok b \<and> numBits b = n \<and> marked b = {}"
proof -
  let ?b = "\<lparr>numBits = n, numWords = divRoundUp n 32, words = map junk [0..<nat (divRoundUp n 32)]\<rparr>"
  have "bitmap_ok ?b"
    using divRoundUp_bounds(3) [of n 32] assms by (simp add: bitmap_ok_def BitsInWord_def)
  then show ?thesis
    using clear_each_ok [of ?b "[0..n - 1]"] marked_range [of ?b]
    by (fastforce simp: BitMap_new_def Let_def BitsInWord_def)
qed

section \<open>The interface: an allocator of numbered items\<close>

text \<open>\<open>take_n\<close> is the loop that allocates \<open>n\<close> items one after the other.\<close>

fun take_n :: "('s \<Rightarrow> ('s \<times> int) res) \<Rightarrow> nat \<Rightarrow> 's \<Rightarrow> ('s \<times> int list) res" where
  "take_n alloc 0 s = Inr (s, [])"
| "take_n alloc (Suc n) s =
     bindR (alloc s) (\<lambda>(s1, i). bindR (take_n alloc n s1) (\<lambda>(s2, is). Inr (s2, i # is)))"

fun give_each :: "('s \<Rightarrow> int \<Rightarrow> 's res) \<Rightarrow> int list \<Rightarrow> 's \<Rightarrow> 's res" where
  "give_each free [] s = Inr s"
| "give_each free (i # is) s = bindR (free s i) (give_each free is)"

locale allocator =
  fixes alloc :: "'s \<Rightarrow> ('s \<times> int) res"
    and free :: "'s \<Rightarrow> int \<Rightarrow> 's res"
    and count :: "'s \<Rightarrow> int res"
    and capacity :: "'s \<Rightarrow> int"
    and used :: "'s \<Rightarrow> int set"
    and ok :: "'s \<Rightarrow> bool"
  assumes used_range: "ok s \<Longrightarrow> used s \<subseteq> {0..<capacity s}"
    and alloc_full: "ok s \<Longrightarrow> used s = {0..<capacity s} \<Longrightarrow> alloc s = Inr (s, -1)"
    and alloc_free: "ok s \<Longrightarrow> used s \<noteq> {0..<capacity s} \<Longrightarrow>
      \<exists>s' i. alloc s = Inr (s', i) \<and> 0 \<le> i \<and> i < capacity s \<and> i \<notin> used s \<and> {0..<i} \<subseteq> used s \<and>
        ok s' \<and> capacity s' = capacity s \<and> used s' = insert i (used s)"
    and free_ok: "ok s \<Longrightarrow> 0 \<le> i \<Longrightarrow> i < capacity s \<Longrightarrow>
      \<exists>s'. free s i = Inr s' \<and> ok s' \<and> capacity s' = capacity s \<and> used s' = used s - {i}"
    and free_range: "ok s \<Longrightarrow> \<not> (0 \<le> i \<and> i < capacity s) \<Longrightarrow> free s i = Inl AssertFailed"
    and count_ok: "ok s \<Longrightarrow> count s = Inr (int (card ({0..<capacity s} - used s)))"
begin

lemma alloc_cases:
  assumes "ok s"
  obtains (full) "used s = {0..<capacity s}" "alloc s = Inr (s, -1)"
  | (free) s' i where "alloc s = Inr (s', i)" "0 \<le> i" "i < capacity s" "i \<notin> used s" "ok s'"
      "capacity s' = capacity s" "used s' = insert i (used s)"
  using assms alloc_full alloc_free by metis

lemma alloc_minus_1_iff: "ok s \<Longrightarrow> alloc s = Inr (s', i) \<Longrightarrow> i = -1 \<longleftrightarrow> used s = {0..<capacity s}"
  by (erule alloc_cases) auto

lemma free_count_bound: "ok s \<Longrightarrow> card (used s) + card ({0..<capacity s} - used s) = nat (capacity s)"
  using card_Diff_subset [of "used s" "{0..<capacity s}"] used_range [of s]
    card_mono [of "{0..<capacity s}" "used s"] finite_subset [of "used s" "{0..<capacity s}"]
  by auto

text \<open>Allocating no more items than are free gives that many distinct, formerly free items.\<close>

lemma take_n_ok:
  assumes "ok s" and "n \<le> card ({0..<capacity s} - used s)"
  shows "\<exists>s' is. take_n alloc n s = Inr (s', is) \<and> length is = n \<and> distinct is \<and>
    set is \<subseteq> {0..<capacity s} - used s \<and> ok s' \<and> capacity s' = capacity s \<and>
    used s' = used s \<union> set is"
  using assms
proof (induction n arbitrary: s)
  case (Suc n)
  then have "used s \<noteq> {0..<capacity s}" by auto
  then obtain s1 i where 1: "alloc s = Inr (s1, i)" "0 \<le> i" "i < capacity s" "i \<notin> used s"
      "ok s1" "capacity s1 = capacity s" "used s1 = insert i (used s)"
    using alloc_free Suc.prems by blast
  have eq: "{0..<capacity s1} - used s1 = ({0..<capacity s} - used s) - {i}" using 1 by auto
  have "n \<le> card ({0..<capacity s1} - used s1)"
    unfolding eq using 1 Suc.prems by (subst card_Diff_singleton) auto
  then obtain s2 "is" where 2: "take_n alloc n s1 = Inr (s2, is)" "length is = n" "distinct is"
      "set is \<subseteq> {0..<capacity s1} - used s1" "ok s2" "capacity s2 = capacity s1"
      "used s2 = used s1 \<union> set is"
    using Suc.IH 1(5) by blast
  show ?case using 1 2 by auto
qed simp

text \<open>Freeing a list of items, each in range, frees exactly these.\<close>

lemma give_each_ok:
  assumes "ok s" and "set is \<subseteq> {0..<capacity s}"
  shows "\<exists>s'. give_each free is s = Inr s' \<and> ok s' \<and> capacity s' = capacity s \<and>
    used s' = used s - set is"
  using assms
proof (induction "is" arbitrary: s)
  case (Cons i "is")
  then obtain s1 where 1: "free s i = Inr s1" "ok s1" "capacity s1 = capacity s"
      "used s1 = used s - {i}"
    using free_ok [of s i] by auto
  show ?case using Cons.IH [of s1] Cons.prems 1 by auto
qed simp

text \<open>Giving back what was just taken restores the used set.\<close>

lemma take_give:
  assumes "ok s" and "n \<le> card ({0..<capacity s} - used s)"
  shows "\<exists>s' is s''. take_n alloc n s = Inr (s', is) \<and> give_each free is s' = Inr s'' \<and>
    ok s'' \<and> capacity s'' = capacity s \<and> used s'' = used s"
proof -
  obtain s' "is" where 1: "take_n alloc n s = Inr (s', is)"
      "set is \<subseteq> {0..<capacity s} - used s" "ok s'" "capacity s' = capacity s"
      "used s' = used s \<union> set is"
    using take_n_ok [OF assms] by blast
  have "set is \<subseteq> {0..<capacity s'}" using 1(2,4) by auto
  with give_each_ok [OF 1(3), of "is"] obtain s'' where 2: "give_each free is s' = Inr s''"
      "ok s''" "capacity s'' = capacity s'" "used s'' = used s' - set is"
    by blast
  have "used s'' = used s" using 1(2,5) 2(4) by auto
  then show ?thesis using 1 2 by auto
qed

end

interpretation bm: allocator Find Clear NumClear numBits marked bitmap_ok
proof unfold_locales
  fix b assume b: "bitmap_ok b"
  show "marked b \<subseteq> {0..<numBits b}" by (rule marked_range)
  show "marked b = {0..<numBits b} \<Longrightarrow> Find b = Inr (b, -1)"
    using find_from_ok [OF b, of 0] b by (simp add: Find_def bitmap_ok_def)
  show "marked b \<noteq> {0..<numBits b} \<Longrightarrow> \<exists>s' i. Find b = Inr (s', i) \<and> 0 \<le> i \<and> i < numBits b \<and>
      i \<notin> marked b \<and> {0..<i} \<subseteq> marked b \<and> bitmap_ok s' \<and> numBits s' = numBits b \<and>
      marked s' = insert i (marked b)"
    using find_from_ok [OF b, of 0] b by (simp add: Find_def bitmap_ok_def)
  show "NumClear b = Inr (int (card ({0..<numBits b} - marked b)))"
    using b by (rule NumClear_ok)
qed (auto simp: Clear_ok)

section \<open>Properties\<close>

text \<open>
  \<open>Find\<close> returns the lowest clear bit and sets it, and only it; when every bit is set it
  returns \<open>-1\<close> and changes nothing.
\<close>

theorem Find_lowest:
  assumes "bitmap_ok b"
  shows "if marked b = {0..<numBits b} then Find b = Inr (b, -1)
    else \<exists>b' j. Find b = Inr (b', j) \<and> 0 \<le> j \<and> j < numBits b \<and> Test b j = Inr False \<and>
      (\<forall>k. 0 \<le> k \<and> k < j \<longrightarrow> Test b k = Inr True) \<and> Test b' j = Inr True \<and>
      (\<forall>k. k \<noteq> j \<longrightarrow> Test b' k = Test b k)"
proof (cases "marked b = {0..<numBits b}")
  case True
  then show ?thesis using bm.alloc_full [OF assms] by simp
next
  case False
  then obtain b' j where j: "Find b = Inr (b', j)" "0 \<le> j" "j < numBits b" "j \<notin> marked b"
      "{0..<j} \<subseteq> marked b" "bitmap_ok b'" "numBits b' = numBits b" "marked b' = insert j (marked b)"
    using bm.alloc_free [OF assms] by blast
  have low: "\<forall>k. 0 \<le> k \<and> k < j \<longrightarrow> Test b k = Inr True"
  proof (intro allI impI)
    fix k assume k: "0 \<le> k \<and> k < j"
    then have "k \<in> marked b" using j(5) by auto
    then show "Test b k = Inr True" using k j(3) by (simp add: Test_ok [OF assms])
  qed
  have other: "\<forall>k. k \<noteq> j \<longrightarrow> Test b' k = Test b k"
  proof (intro allI impI)
    fix k assume "k \<noteq> j"
    then show "Test b' k = Test b k"
      using j(7,8) Test_ok [OF assms, of k] Test_ok [OF j(6), of k] out_of_range(3) [of k b]
        out_of_range(3) [of k b'] by (cases "0 \<le> k \<and> k < numBits b") simp_all
  qed
  have "Test b j = Inr False" "Test b' j = Inr True"
    using j by (simp_all add: Test_ok [OF assms] Test_ok [OF j(6)])
  then show ?thesis unfolding if_not_P [OF False] using j(1-3) low other by blast
qed

theorem Find_lowest_witness:
  "bitmap_ok \<lparr>numBits = 4, numWords = 1, words = [3]\<rparr> \<and>
   (\<exists>b' j. Find \<lparr>numBits = 4, numWords = 1, words = [3]\<rparr> = Inr (b', j) \<and>
     0 \<le> j \<and> j < 4 \<and> Test b' j = Inr True)"
proof -
  let ?b = "\<lparr>numBits = 4, numWords = 1, words = [3]\<rparr> :: bitmap"
  have ok: "bitmap_ok ?b"
    by (simp add: bitmap_ok_def BitsInWord_def divRoundUp_def sdiv_nonneg_eq smod_nonneg_eq)
  have "Test ?b 2 = Inr False" by code_simp
  then have "2 \<notin> marked ?b" using Test_ok [OF ok, of 2] by simp
  then have ne: "marked ?b \<noteq> {0..<numBits ?b}" by auto
  show ?thesis using Find_lowest [OF ok] ok unfolding if_not_P [OF ne] by auto
qed

text \<open>
  \<open>Mark\<close> sets, and \<open>Clear\<close> clears, the one bit it names, as seen through \<open>Test\<close> of every bit;
  outside \<open>0 .. numBits - 1\<close> all three fail their \<open>ASSERT\<close>.
\<close>

theorem Mark_Clear_Test:
  assumes "bitmap_ok b"
  shows "if 0 \<le> i \<and> i < numBits b
    then \<exists>b1 b2. Mark b i = Inr b1 \<and> Clear b i = Inr b2 \<and> bitmap_ok b1 \<and> bitmap_ok b2 \<and>
      (\<forall>j. Test b1 j = (if j = i then Inr True else Test b j)) \<and>
      (\<forall>j. Test b2 j = (if j = i then Inr False else Test b j))
    else Mark b i = Inl AssertFailed \<and> Clear b i = Inl AssertFailed \<and> Test b i = Inl AssertFailed"
proof (cases "0 \<le> i \<and> i < numBits b")
  case True
  obtain b1 where 1: "Mark b i = Inr b1" "bitmap_ok b1" "numBits b1 = numBits b"
      "marked b1 = insert i (marked b)" using Mark_ok [OF assms, of i] True by blast
  obtain b2 where 2: "Clear b i = Inr b2" "bitmap_ok b2" "numBits b2 = numBits b"
      "marked b2 = marked b - {i}" using Clear_ok [OF assms, of i] True by blast
  have "Test b1 j = (if j = i then Inr True else Test b j) \<and>
      Test b2 j = (if j = i then Inr False else Test b j)" for j
  proof (cases "0 \<le> j \<and> j < numBits b")
    case True
    then show ?thesis
      using 1 2 by (simp add: Test_ok [OF assms] Test_ok [OF 1(2)] Test_ok [OF 2(2)])
  next
    case False
    with True have "j \<noteq> i" by blast
    with False show ?thesis using 1(3) 2(3) by simp
  qed
  then show ?thesis unfolding if_P [OF True] using 1 2 by blast
next
  case False
  then show ?thesis unfolding if_not_P [OF False] using out_of_range [OF False] by blast
qed

theorem Mark_Clear_Test_witness:
  "bitmap_ok \<lparr>numBits = 4, numWords = 1, words = [2]\<rparr> \<and>
   (\<exists>b1 b2. Mark \<lparr>numBits = 4, numWords = 1, words = [2]\<rparr> 0 = Inr b1 \<and>
     Clear \<lparr>numBits = 4, numWords = 1, words = [2]\<rparr> 0 = Inr b2 \<and>
     Test b1 0 = Inr True \<and> Test b2 0 = Inr False)"
proof -
  have ok: "bitmap_ok \<lparr>numBits = 4, numWords = 1, words = [2]\<rparr>"
    by (simp add: bitmap_ok_def BitsInWord_def divRoundUp_def sdiv_nonneg_eq smod_nonneg_eq)
  then show ?thesis using Mark_Clear_Test [OF ok, of 0] by auto
qed

text \<open>
  A new bitmap of any size has every bit clear, whatever the memory it was allocated in held,
  and prints no bit.
\<close>

theorem BitMap_new_clear:
  assumes "0 \<le> n"
  shows "\<exists>b. BitMap_new junk n = Inr b \<and> (\<forall>i. 0 \<le> i \<and> i < n \<longrightarrow> Test b i = Inr False) \<and>
    NumClear b = Inr n \<and> BitMap_Print b = Inr []"
proof -
  obtain b where b: "BitMap_new junk n = Inr b" "bitmap_ok b" "numBits b = n" "marked b = {}"
    using BitMap_new_ok [OF assms] by blast
  then show ?thesis
    using NumClear_ok [OF b(2)] print_from_ok [OF b(2), of 0] assms
    by (simp add: Test_ok [OF b(2)] BitMap_Print_def)
qed

theorem BitMap_new_clear_witness:
  "(0::int) \<le> 40 \<and> (\<exists>b. BitMap_new (\<lambda>_. - 1) 40 = Inr b \<and> NumClear b = Inr 40)"
  using BitMap_new_clear [of 40 "\<lambda>_. - 1"] by auto

end
