(* ===== verification/Memory.thy ===== *)
theory Memory
  imports BitMaps
begin

text \<open>
  \<open>userprog/memorymanager.cc\<close>, the allocator of physical pages, and \<open>userprog/table.cc\<close>, the
  process table. Both surround each operation with \<open>Acquire\<close> and \<open>Release\<close> of a lock of their own;
  a definition here is the body between the two, which that lock makes atomic.
\<close>

section \<open>MemoryManager\<close>

record memory_manager =
  mm_bitMap :: bitmap
  pageCount :: int

definition MemoryManager_new :: "(nat \<Rightarrow> 32 word) \<Rightarrow> int \<Rightarrow> memory_manager res" where
  "MemoryManager_new junk numPages =
     bindR (BitMap_new junk numPages) (\<lambda>b. Inr \<lparr>mm_bitMap = b, pageCount = numPages\<rparr>)"

definition AllocPage :: "memory_manager \<Rightarrow> (memory_manager \<times> int) res" where
  "AllocPage m =
     bindR (Find (mm_bitMap m)) (\<lambda>(b, pageNum).
       if pageNum > 0 then
         bindR (Mark b pageNum) (\<lambda>b'. Inr (m\<lparr>mm_bitMap := b'\<rparr>, pageNum))
       else Inr (m\<lparr>mm_bitMap := b\<rparr>, pageNum))"

definition FreePage :: "memory_manager \<Rightarrow> int \<Rightarrow> memory_manager res" where
  "FreePage m physPageNum =
     bindR (Clear (mm_bitMap m) physPageNum) (\<lambda>b. Inr (m\<lparr>mm_bitMap := b\<rparr>))"

definition PageIsAllocated :: "memory_manager \<Rightarrow> int \<Rightarrow> bool res" where
  "PageIsAllocated m physPageNum = Test (mm_bitMap m) physPageNum"

definition NumFreePages :: "memory_manager \<Rightarrow> int res" where
  "NumFreePages m = NumClear (mm_bitMap m)"

definition mm_ok :: "memory_manager \<Rightarrow> bool" where
  "mm_ok m \<longleftrightarrow> bitmap_ok (mm_bitMap m) \<and> pageCount m = numBits (mm_bitMap m)"

definition allocated_pages :: "memory_manager \<Rightarrow> int set" where
  "allocated_pages m = marked (mm_bitMap m)"

text \<open>The second \<open>Mark\<close> repeats what \<open>Find\<close> did, so the manager is an allocator like its bitmap.\<close>

lemma AllocPage_Find:
  assumes "mm_ok m"
  shows "\<exists>b' i. AllocPage m = Inr (m\<lparr>mm_bitMap := b'\<rparr>, i) \<and> bitmap_ok b' \<and>
    numBits b' = numBits (mm_bitMap m) \<and>
    (if allocated_pages m = {0..<pageCount m} then i = -1 \<and> b' = mm_bitMap m
     else 0 \<le> i \<and> i < pageCount m \<and> i \<notin> allocated_pages m \<and> {0..<i} \<subseteq> allocated_pages m \<and>
       marked b' = insert i (allocated_pages m))"
proof -
  have ok: "bitmap_ok (mm_bitMap m)" and n: "pageCount m = numBits (mm_bitMap m)"
    using assms by (simp_all add: mm_ok_def)
  show ?thesis
  proof (cases "marked (mm_bitMap m) = {0..<numBits (mm_bitMap m)}")
    case True
    then show ?thesis
      using bm.alloc_full [OF ok] ok n by (simp add: AllocPage_def allocated_pages_def)
  next
    case False
    then obtain b i where b: "Find (mm_bitMap m) = Inr (b, i)" "0 \<le> i" "i < numBits (mm_bitMap m)"
        "i \<notin> marked (mm_bitMap m)" "{0..<i} \<subseteq> marked (mm_bitMap m)" "bitmap_ok b"
        "numBits b = numBits (mm_bitMap m)" "marked b = insert i (marked (mm_bitMap m))"
      using bm.alloc_free [OF ok] by blast
    obtain b' where b': "Mark b i = Inr b'" "bitmap_ok b'" "numBits b' = numBits b"
        "marked b' = marked b"
      using Mark_ok [of b i] b by auto
    show ?thesis
      using False b b' n by (cases "i > 0") (auto simp: AllocPage_def allocated_pages_def)
  qed
qed

interpretation mm: allocator AllocPage FreePage NumFreePages pageCount allocated_pages mm_ok
proof unfold_locales
  fix m assume m: "mm_ok m"
  show "allocated_pages m \<subseteq> {0..<pageCount m}"
    using m marked_range by (simp add: mm_ok_def allocated_pages_def)
  show "allocated_pages m = {0..<pageCount m} \<Longrightarrow> AllocPage m = Inr (m, -1)"
    using AllocPage_Find [OF m] by auto
  show "allocated_pages m \<noteq> {0..<pageCount m} \<Longrightarrow> \<exists>s' i. AllocPage m = Inr (s', i) \<and> 0 \<le> i \<and>
      i < pageCount m \<and> i \<notin> allocated_pages m \<and> {0..<i} \<subseteq> allocated_pages m \<and> mm_ok s' \<and>
      pageCount s' = pageCount m \<and> allocated_pages s' = insert i (allocated_pages m)"
    using AllocPage_Find [OF m] m by (force simp: mm_ok_def allocated_pages_def)
  show "NumFreePages m = Inr (int (card ({0..<pageCount m} - allocated_pages m)))"
    using m by (simp add: NumFreePages_def NumClear_ok mm_ok_def allocated_pages_def)
  fix i assume "0 \<le> i" "i < pageCount m"
  then show "\<exists>s'. FreePage m i = Inr s' \<and> mm_ok s' \<and> pageCount s' = pageCount m \<and>
      allocated_pages s' = allocated_pages m - {i}"
    using m Clear_ok [of "mm_bitMap m" i] by (auto simp: FreePage_def mm_ok_def allocated_pages_def)
next
  fix m i
  assume "mm_ok m" "\<not> (0 \<le> i \<and> i < pageCount m)"
  then have "\<not> (0 \<le> i \<and> i < numBits (mm_bitMap m))" by (simp add: mm_ok_def)
  then show "FreePage m i = Inl AssertFailed" by (simp add: FreePage_def)
qed

section \<open>Table\<close>

text \<open>A slot holds a pointer; \<open>None\<close> is \<open>NULL\<close>.\<close>

record 'a table =
  tableSize :: int
  allocated :: "'a option list"

definition Table_new :: "int \<Rightarrow> 'a table" where
  "Table_new sz = \<lparr>tableSize = sz, allocated = replicate (nat sz) None\<rparr>"

fun alloc_from :: "'a table \<Rightarrow> 'a option \<Rightarrow> int list \<Rightarrow> ('a table \<times> int) res" where
  "alloc_from t obj [] = Inr (t, -1)"
| "alloc_from t obj (i # is) =
     bindR (aget (allocated t) i) (\<lambda>slot.
       if slot = None then
         bindR (aset (allocated t) i obj) (\<lambda>a. Inr (t\<lparr>allocated := a\<rparr>, i))
       else alloc_from t obj is)"

definition Table_Alloc :: "'a table \<Rightarrow> 'a option \<Rightarrow> ('a table \<times> int) res" where
  "Table_Alloc t obj = alloc_from t obj [0..tableSize t - 1]"

definition Table_Get :: "'a table \<Rightarrow> int \<Rightarrow> 'a option res" where
  "Table_Get t index =
     (if index \<ge> 0 \<and> index < tableSize t then aget (allocated t) index else Inr None)"

text \<open>As in the source, \<open>Release\<close> clears the slot before the one it is given.\<close>

definition Table_Release :: "'a table \<Rightarrow> int \<Rightarrow> 'a table res" where
  "Table_Release t index =
     (if index \<ge> 0 \<and> index < tableSize t then
        bindR (aset (allocated t) (index - 1) None) (\<lambda>a. Inr (t\<lparr>allocated := a\<rparr>))
      else Inr t)"

fun empty_from :: "'a table \<Rightarrow> bool \<Rightarrow> int list \<Rightarrow> bool res" where
  "empty_from t emp [] = Inr emp"
| "empty_from t emp (i # is) =
     bindR (aget (allocated t) i) (\<lambda>slot.
       empty_from t (if slot \<noteq> None then False else emp) is)"

definition Table_IsEmpty :: "'a table \<Rightarrow> bool res" where
  "Table_IsEmpty t = empty_from t True [0..tableSize t - 1]"

text \<open>The destructor deletes the slots \<open>0\<close> to \<open>tableSize\<close>; the result is the list of what it deletes.\<close>

fun delete_each :: "'a table \<Rightarrow> int list \<Rightarrow> 'a option list res" where
  "delete_each t [] = Inr []"
| "delete_each t (i # is) =
     bindR (aget (allocated t) i) (\<lambda>slot. bindR (delete_each t is) (\<lambda>r. Inr (slot # r)))"

definition Table_destroy :: "'a table \<Rightarrow> 'a option list res" where
  "Table_destroy t = delete_each t [0..tableSize t]"

definition table_ok :: "'a table \<Rightarrow> bool" where
  "table_ok t \<longleftrightarrow> 0 \<le> tableSize t \<and> int (length (allocated t)) = tableSize t"

definition free_slots :: "'a table \<Rightarrow> int set" where
  "free_slots t = {i. 0 \<le> i \<and> i < tableSize t \<and> allocated t ! nat i = None}"

lemma alloc_from_ok:
  assumes "table_ok t" "set is \<subseteq> {0..<tableSize t}"
  shows "alloc_from t obj is = (case filter (\<lambda>i. i \<in> free_slots t) is of
      [] \<Rightarrow> Inr (t, -1)
    | j # _ \<Rightarrow> Inr (t\<lparr>allocated := (allocated t)[nat j := obj]\<rparr>, j))"
  using assms(2)
proof (induction "is")
  case (Cons i "is")
  then have "aget (allocated t) i = Inr (allocated t ! nat i)"
    using assms(1) by (simp add: table_ok_def)
  with Cons assms(1) show ?case by (auto simp: free_slots_def table_ok_def)
qed simp

lemma Table_Alloc_ok:
  assumes "table_ok t"
  shows "if free_slots t = {} then Table_Alloc t obj = Inr (t, -1)
    else \<exists>j. Table_Alloc t obj = Inr (t\<lparr>allocated := (allocated t)[nat j := obj]\<rparr>, j) \<and>
        0 \<le> j \<and> j < tableSize t \<and> j \<in> free_slots t \<and> (\<forall>k \<in> free_slots t. j \<le> k)"
proof -
  let ?js = "filter (\<lambda>i. i \<in> free_slots t) [0..tableSize t - 1]"
  have js: "set ?js = free_slots t" by (auto simp: free_slots_def)
  have sorted: "sorted ?js" by (intro sorted_wrt_filter) simp
  have run: "Table_Alloc t obj = (case ?js of [] \<Rightarrow> Inr (t, -1)
      | j # _ \<Rightarrow> Inr (t\<lparr>allocated := (allocated t)[nat j := obj]\<rparr>, j))"
    unfolding Table_Alloc_def using assms by (intro alloc_from_ok) auto
  show ?thesis
  proof (cases ?js)
    case Nil
    then have "free_slots t = {}" using js by simp
    then show ?thesis using run Nil by simp
  next
    case (Cons j ks)
    then have "free_slots t = insert j (set ks)" "\<forall>k \<in> set ks. j \<le> k" using js sorted by auto
    moreover have "0 \<le> j \<and> j < tableSize t" using calculation by (auto simp: free_slots_def)
    ultimately show ?thesis using run Cons by simp
  qed
qed

lemma table_ok_set: "table_ok t \<Longrightarrow> table_ok (t\<lparr>allocated := (allocated t)[n := x]\<rparr>)"
  by (simp add: table_ok_def)

lemma Table_Get_in:
  "table_ok t \<Longrightarrow> 0 \<le> i \<Longrightarrow> i < tableSize t \<Longrightarrow> Table_Get t i = Inr (allocated t ! nat i)"
  by (simp add: Table_Get_def table_ok_def)

lemma empty_from_ok:
  assumes "table_ok t" "set is \<subseteq> {0..<tableSize t}"
  shows "empty_from t emp is = Inr (emp \<and> set is \<subseteq> free_slots t)"
  using assms(2)
proof (induction "is" arbitrary: emp)
  case (Cons i "is")
  then have "aget (allocated t) i = Inr (allocated t ! nat i)"
    using assms(1) by (simp add: table_ok_def)
  with Cons show ?case by (auto simp: free_slots_def)
qed simp

lemma Table_IsEmpty_ok:
  "table_ok t \<Longrightarrow> Table_IsEmpty t = Inr (free_slots t = {0..<tableSize t})"
proof -
  assume t: "table_ok t"
  have "free_slots t \<subseteq> {0..<tableSize t}" by (auto simp: free_slots_def)
  moreover have "set [0..tableSize t - 1] = {0..<tableSize t}" by auto
  ultimately have "set [0..tableSize t - 1] \<subseteq> free_slots t \<longleftrightarrow> free_slots t = {0..<tableSize t}"
    by auto
  moreover have "set [0..tableSize t - 1] \<subseteq> {0..<tableSize t}" by auto
  note empty_from_ok [OF t this]
  ultimately show ?thesis by (simp add: Table_IsEmpty_def)
qed

lemma delete_each_Inl:
  "j \<in> set is \<Longrightarrow> \<not> j < int (length (allocated t)) \<Longrightarrow> delete_each t is = Inl BadAccess"
  by (induction "is") (auto simp: aget_def)

section \<open>Properties\<close>

text \<open>
  A fresh memory manager hands out as many pages as it has, each one in range and none twice,
  and freeing them all makes every page free again.
\<close>

theorem pages_distinct:
  assumes "0 \<le> n" and "k \<le> nat n"
  shows "\<exists>m m' ps m''. MemoryManager_new junk n = Inr m \<and> NumFreePages m = Inr n \<and>
    take_n AllocPage k m = Inr (m', ps) \<and> length ps = k \<and> distinct ps \<and>
    set ps \<subseteq> {0..<n} \<and> NumFreePages m' = Inr (n - int k) \<and>
    give_each FreePage ps m' = Inr m'' \<and> NumFreePages m'' = Inr n"
proof -
  obtain b where b: "BitMap_new junk n = Inr b" "bitmap_ok b" "numBits b = n" "marked b = {}"
    using BitMap_new_ok [OF assms(1)] by blast
  let ?m = "\<lparr>mm_bitMap = b, pageCount = n\<rparr>"
  have m: "mm_ok ?m" "allocated_pages ?m = {}" "pageCount ?m = n"
    using b by (simp_all add: mm_ok_def allocated_pages_def)
  have k: "k \<le> card ({0..<pageCount ?m} - allocated_pages ?m)" using m(2) assms(2) by simp
  obtain m' ps where t: "take_n AllocPage k ?m = Inr (m', ps)" "length ps = k" "distinct ps"
      "set ps \<subseteq> {0..<pageCount ?m} - allocated_pages ?m" "mm_ok m'" "pageCount m' = pageCount ?m"
      "allocated_pages m' = allocated_pages ?m \<union> set ps"
    using mm.take_n_ok [OF m(1) k] by blast
  note t = t [unfolded m(2,3) Diff_empty Un_empty_left]
  obtain m'' where g: "give_each FreePage ps m' = Inr m''" "mm_ok m''" "pageCount m'' = n"
      "allocated_pages m'' = {}"
    using mm.give_each_ok [OF t(5), of ps] t by auto
  have "card ({0..<n} - set ps) = nat n - k"
    using t(2-4) by (subst card_Diff_subset) (auto simp: distinct_card)
  then have "NumFreePages m' = Inr (n - int k)"
    using mm.count_ok [OF t(5)] t(6,7) assms by (simp add: of_nat_diff)
  moreover have "NumFreePages ?m = Inr n" "NumFreePages m'' = Inr n"
    using mm.count_ok [OF m(1)] mm.count_ok [OF g(2)] m g assms by simp_all
  ultimately show ?thesis
    using b t g by (auto simp: MemoryManager_new_def)
qed

theorem pages_distinct_witness:
  "(0::int) \<le> 32 \<and> (5::nat) \<le> nat 32 \<and>
   (\<exists>m m' ps m''. MemoryManager_new (\<lambda>_. 7) 32 = Inr m \<and> NumFreePages m = Inr 32 \<and>
    take_n AllocPage 5 m = Inr (m', ps) \<and> length ps = 5 \<and> distinct ps \<and>
    set ps \<subseteq> {0..<32} \<and> NumFreePages m' = Inr (32 - int 5) \<and>
    give_each FreePage ps m' = Inr m'' \<and> NumFreePages m'' = Inr 32)"
  using pages_distinct [of 32 5 "\<lambda>_. 7"] by simp

text \<open>
  With a free slot, \<open>Alloc\<close> stores the object in the lowest one and returns its index, under
  which \<open>Get\<close> finds it, and no other slot changes; with none it returns \<open>-1\<close> and changes nothing.
\<close>

theorem Table_Alloc_Get:
  assumes "table_ok t" and "obj \<noteq> None"
  shows "if free_slots t = {} then Table_Alloc t obj = Inr (t, -1)
    else \<exists>t' j. Table_Alloc t obj = Inr (t', j) \<and> j \<in> free_slots t \<and>
      (\<forall>k \<in> free_slots t. j \<le> k) \<and> table_ok t' \<and> Table_Get t' j = Inr obj \<and>
      (\<forall>k. k \<noteq> j \<longrightarrow> Table_Get t' k = Table_Get t k) \<and>
      free_slots t' = free_slots t - {j} \<and> Table_IsEmpty t' = Inr False"
proof (cases "free_slots t = {}")
  case True
  then show ?thesis using Table_Alloc_ok [OF assms(1), of obj] by simp
next
  case False
  then obtain j where j: "Table_Alloc t obj = Inr (t\<lparr>allocated := (allocated t)[nat j := obj]\<rparr>, j)"
      "0 \<le> j" "j < tableSize t" "j \<in> free_slots t" "\<forall>k \<in> free_slots t. j \<le> k"
    using Table_Alloc_ok [OF assms(1), of obj] by auto
  let ?t = "t\<lparr>allocated := (allocated t)[nat j := obj]\<rparr>"
  have ok: "table_ok ?t" using assms(1) by (rule table_ok_set)
  have len: "nat j < length (allocated t)" using j assms(1) by (simp add: table_ok_def)
  have get: "Table_Get ?t j = Inr obj" using j len by (simp add: Table_Get_in [OF ok])
  have other: "Table_Get ?t k = Table_Get t k" if "k \<noteq> j" for k
    using that j by (auto simp: Table_Get_def aget_def nat_eq_iff nth_list_update)
  have free: "free_slots ?t = free_slots t - {j}"
    using j len assms(2) by (auto simp: free_slots_def nth_list_update nat_eq_iff)
  have "j \<notin> free_slots ?t" using free by simp
  then have "free_slots ?t \<noteq> {0..<tableSize ?t}" using j by auto
  then have "Table_IsEmpty ?t = Inr False" using Table_IsEmpty_ok [OF ok] by simp
  with False show ?thesis using j(1,4,5) ok get other free by auto
qed

theorem Table_Alloc_Get_witness:
  "table_ok (Table_new 3 :: nat table) \<and> Some (5::nat) \<noteq> None \<and>
   (\<exists>t' j. Table_Alloc (Table_new 3) (Some (5::nat)) = Inr (t', j) \<and> Table_Get t' j = Inr (Some 5))"
proof -
  have ok: "table_ok (Table_new 3 :: nat table)" by (simp add: table_ok_def Table_new_def)
  have "0 \<in> free_slots (Table_new 3 :: nat table)" by (simp add: free_slots_def Table_new_def)
  then have ne: "free_slots (Table_new 3 :: nat table) \<noteq> {}" by blast
  obtain t' j where "Table_Alloc (Table_new 3) (Some (5::nat)) = Inr (t', j)"
      "Table_Get t' j = Inr (Some (5::nat))"
    using Table_Alloc_Get [OF ok, of "Some 5"] unfolding if_not_P [OF ne] by blast
  with ok show ?thesis by blast
qed

text \<open>
  \<open>Release\<close> of an allocated index does not free its slot: it clears the slot before it, and
  index \<open>0\<close> writes in front of the array.
\<close>

theorem Table_Release_off_by_one:
  assumes "table_ok t" and "0 \<le> i" and "i < tableSize t"
  shows "if i = 0 then Table_Release t i = Inl BadAccess
    else \<exists>t'. Table_Release t i = Inr t' \<and> Table_Get t' i = Table_Get t i \<and>
      Table_Get t' (i - 1) = Inr None"
proof (cases "i = 0")
  case True
  then show ?thesis using assms by (simp add: Table_Release_def aset_def)
next
  case False
  let ?t = "t\<lparr>allocated := (allocated t)[nat (i - 1) := None]\<rparr>"
  have "Table_Release t i = Inr ?t"
    using False assms by (simp add: Table_Release_def table_ok_def)
  moreover have ok: "table_ok ?t" using assms(1) by (rule table_ok_set)
  have "Table_Get ?t i = Table_Get t i" "Table_Get ?t (i - 1) = Inr None"
    using False assms ok
    by (simp_all add: Table_Get_in nth_list_update nat_eq_iff nat_less_iff table_ok_def)
  ultimately show ?thesis using False by simp
qed

theorem Table_Release_off_by_one_witness:
  "table_ok \<lparr>tableSize = 2, allocated = [Some (7::nat), Some 8]\<rparr> \<and> (0::int) \<le> 1 \<and> (1::int) < 2 \<and>
   (\<exists>t'. Table_Release \<lparr>tableSize = 2, allocated = [Some (7::nat), Some 8]\<rparr> 1 = Inr t' \<and>
      Table_Get t' 1 = Inr (Some 8) \<and> Table_Get t' 0 = Inr None)"
  using Table_Release_off_by_one [of "\<lparr>tableSize = 2, allocated = [Some (7::nat), Some 8]\<rparr>" 1]
  by (auto simp: table_ok_def Table_Get_def)

end
