(* ===== verification/Machine.thy ===== *)
theory Machine
  imports Nachos_Prelude
begin

unbundle bit_operations_syntax

text \<open>
  The simulated computer as the user program sees it: \<open>machine/machine.cc\<close> (registers, exceptions)
  and \<open>machine/translate.cc\<close> (address translation, memory access). Registers and addresses are C
  \<open>int\<close>s, kept as 32-bit words and read with \<open>sint\<close> or \<open>uint\<close> where the code compares them; the
  main memory is the array of its bytes. A page table or TLB pointer is \<open>None\<close> when null.
\<close>

section \<open>State\<close>

definition SectorSize :: nat where "SectorSize = 128"
definition PageSize :: nat where "PageSize = SectorSize"
definition NumPhysPages :: nat where "NumPhysPages = 32"
definition MemorySize :: nat where "MemorySize = NumPhysPages * PageSize"
definition TLBSize :: nat where "TLBSize = 4"

lemmas machine_sizes = SectorSize_def PageSize_def NumPhysPages_def MemorySize_def TLBSize_def

datatype ExceptionType =
    NoException | SyscallException | PageFaultException | ReadOnlyException | BusErrorException
  | AddressErrorException | OverflowException | IllegalInstrException

datatype MachineStatus = IdleMode | SystemMode | UserMode

record TranslationEntry =
  virtualPage :: "32 word"
  physicalPage :: "32 word"
  valid :: bool
  readOnly :: bool
  use_bit :: bool
  dirty :: bool

record machine =
  mainMemory :: "8 word list"
  registers :: "32 word list"
  tlb :: "TranslationEntry list option"
  pageTable :: "TranslationEntry list option"
  pageTableSize :: "32 word"
  singleStep :: bool

abbreviation StackReg :: nat where "StackReg \<equiv> 29"
abbreviation RetAddrReg :: nat where "RetAddrReg \<equiv> 31"
abbreviation HiReg :: nat where "HiReg \<equiv> 32"
abbreviation LoReg :: nat where "LoReg \<equiv> 33"
abbreviation PCReg :: nat where "PCReg \<equiv> 34"
abbreviation NextPCReg :: nat where "NextPCReg \<equiv> 35"
abbreviation PrevPCReg :: nat where "PrevPCReg \<equiv> 36"
abbreviation LoadReg :: nat where "LoadReg \<equiv> 37"
abbreviation LoadValueReg :: nat where "LoadValueReg \<equiv> 38"
abbreviation BadVAddrReg :: nat where "BadVAddrReg \<equiv> 39"
definition NumTotalRegs :: nat where "NumTotalRegs = 40"

text \<open>
  The constructor, built without \<open>USE_TLB\<close> (no TLB, no page table yet) or with it (a TLB of invalid
  entries, the other fields of which hold whatever \<open>junk\<close> the memory held).
\<close>

definition Machine_new :: "bool \<Rightarrow> TranslationEntry list \<Rightarrow> bool \<Rightarrow> machine" where
  "Machine_new useTLB junk debug =
     \<lparr>mainMemory = replicate MemorySize 0, registers = replicate NumTotalRegs 0,
      tlb = (if useTLB then Some (map (\<lambda>e. e\<lparr>valid := False\<rparr>) junk) else None),
      pageTable = None, pageTableSize = 0, singleStep = debug\<rparr>"

definition ReadRegister :: "machine \<Rightarrow> int \<Rightarrow> 32 word res" where
  "ReadRegister m num =
     ASSERT (0 \<le> num \<and> num < int NumTotalRegs) (aget (registers m) num)"

definition WriteRegister :: "machine \<Rightarrow> int \<Rightarrow> 32 word \<Rightarrow> machine res" where
  "WriteRegister m num value =
     ASSERT (0 \<le> num \<and> num < int NumTotalRegs)
       (bindR (aset (registers m) num value) (\<lambda>rs. Inr (m\<lparr>registers := rs\<rparr>)))"

text \<open>
  The simulator itself indexes \<open>registers\<close> directly: by constants below \<open>NumTotalRegs\<close>, the length of the C array, and by
  fields of the instruction, which \<open>OneInstruction\<close> (theory \<open>Mips\<close>) checks against the array before they are used: an
  index outside of it is \<open>BadAccess\<close> there. \<open>registers[LoadReg]\<close> is checked in \<open>DelayedLoad\<close> below.
\<close>

definition reg :: "machine \<Rightarrow> nat \<Rightarrow> 32 word" where
  "reg m n = registers m ! n"

definition set_reg :: "nat \<Rightarrow> 32 word \<Rightarrow> machine \<Rightarrow> machine" where
  "set_reg n v m = m\<lparr>registers := (registers m)[n := v]\<rparr>"

definition DelayedLoad :: "32 word \<Rightarrow> 32 word \<Rightarrow> machine \<Rightarrow> machine res" where
  "DelayedLoad nextReg nextValue m =
     bindR (aset (registers m) (sint (reg m LoadReg)) (reg m LoadValueReg)) (\<lambda>rs.
     Inr (set_reg 0 0 (set_reg LoadValueReg nextValue (set_reg LoadReg nextReg (m\<lparr>registers := rs\<rparr>)))))"

section \<open>Traps\<close>

text \<open>
  The machine within the system: the machine's own state, the status kept by the interrupt
  hardware, and the rest of the kernel, which only the exception handler touches. The handler
  (\<open>ExceptionHandler\<close> of the kernel) is an argument of every operation that may trap.
\<close>

record 'k sys =
  cpu :: machine
  status :: MachineStatus
  kernel :: 'k

type_synonym 'k handler = "ExceptionType \<Rightarrow> 'k sys \<Rightarrow> 'k sys res"

definition setStatus :: "MachineStatus \<Rightarrow> 'k sys \<Rightarrow> 'k sys" where
  "setStatus st s = s\<lparr>status := st\<rparr>"

definition RaiseException :: "'k handler \<Rightarrow> ExceptionType \<Rightarrow> 32 word \<Rightarrow> 'k sys \<Rightarrow> 'k sys res" where
  "RaiseException h which badVAddr s =
     bindR (DelayedLoad 0 0 (set_reg BadVAddrReg badVAddr (cpu s))) (\<lambda>m.
     bindR (h which (setStatus SystemMode (s\<lparr>cpu := m\<rparr>))) (\<lambda>s'.
     Inr (setStatus UserMode s')))"

section \<open>Translation\<close>

text \<open>On a little-endian host the byte-order conversions are the identity.\<close>

definition WordToHost :: "32 word \<Rightarrow> 32 word" where "WordToHost word = word"
definition ShortToHost :: "16 word \<Rightarrow> 16 word" where "ShortToHost shortword = shortword"
definition WordToMachine :: "32 word \<Rightarrow> 32 word" where "WordToMachine word = WordToHost word"
definition ShortToMachine :: "16 word \<Rightarrow> 16 word" where "ShortToMachine shortword = ShortToHost shortword"

text \<open>The loop over the TLB stops at the first valid entry for the page.\<close>

fun tlb_search :: "TranslationEntry list \<Rightarrow> 32 word \<Rightarrow> nat list \<Rightarrow> nat option res" where
  "tlb_search es vpn [] = Inr None"
| "tlb_search es vpn (i # is) =
     bindR (aget es (int i)) (\<lambda>e.
       if valid e \<and> virtualPage e = vpn then Inr (Some i) else tlb_search es vpn is)"

text \<open>The entry for a page: which table it is in, its index, and its contents, or an exception.\<close>

definition find_entry :: "machine \<Rightarrow> 32 word \<Rightarrow> (ExceptionType + nat \<times> TranslationEntry) res" where
  "find_entry m vpn =
     (case tlb m of
        None \<Rightarrow>
          if pageTableSize m \<le> vpn then Inr (Inl AddressErrorException)
          else (case pageTable m of
                  None \<Rightarrow> Inl BadAccess
                | Some pt \<Rightarrow> bindR (aget pt (uint vpn)) (\<lambda>e.
                    if \<not> valid e then Inr (Inl PageFaultException)
                    else Inr (Inr (unat vpn, e))))
      | Some es \<Rightarrow>
          bindR (tlb_search es vpn [0..<TLBSize]) (\<lambda>r.
            case r of None \<Rightarrow> Inr (Inl PageFaultException) | Some i \<Rightarrow> Inr (Inr (i, es ! i))))"

definition set_entry :: "nat \<Rightarrow> TranslationEntry \<Rightarrow> machine \<Rightarrow> machine" where
  "set_entry i e m =
     (case tlb m of
        None \<Rightarrow> m\<lparr>pageTable := map_option (\<lambda>pt. pt[i := e]) (pageTable m)\<rparr>
      | Some es \<Rightarrow> m\<lparr>tlb := Some (es[i := e])\<rparr>)"

text \<open>\<open>Translate\<close> returns the exception code and, with \<open>NoException\<close>, what it stores in \<open>*physAddr\<close>.\<close>

definition Translate ::
  "machine \<Rightarrow> 32 word \<Rightarrow> int \<Rightarrow> bool \<Rightarrow> (machine \<times> ExceptionType \<times> int) res" where
  "Translate m virtAddr sz writing =
     (if (sz = 4 \<and> virtAddr AND 3 \<noteq> 0) \<or> (sz = 2 \<and> virtAddr AND 1 \<noteq> 0)
      then Inr (m, AddressErrorException, 0)
      else ASSERT (tlb m = None \<or> pageTable m = None) (ASSERT (tlb m \<noteq> None \<or> pageTable m \<noteq> None)
        (let vpn = virtAddr div word_of_nat PageSize; offset = virtAddr mod word_of_nat PageSize in
         bindR (find_entry m vpn) (\<lambda>r. case r of
           Inl exn \<Rightarrow> Inr (m, exn, 0)
         | Inr (i, entry) \<Rightarrow>
             if readOnly entry \<and> writing then Inr (m, ReadOnlyException, 0)
             else if word_of_nat NumPhysPages \<le> physicalPage entry then Inr (m, BusErrorException, 0)
             else
               let entry' = entry\<lparr>use_bit := True, dirty := writing \<or> dirty entry\<rparr>;
                   physAddr = sint (physicalPage entry * word_of_nat PageSize + offset)
               in ASSERT (0 \<le> physAddr \<and> physAddr + sz \<le> int MemorySize)
                    (Inr (set_entry i entry' m, NoException, physAddr))))))"

section \<open>Memory access\<close>

text \<open>
  A result \<open>None\<close> is \<open>FALSE\<close>: the exception has been raised and handled. \<open>load_size\<close> is the switch
  of \<open>ReadMem\<close>: a byte is a \<open>char\<close>, which is signed, so it is sign-extended; a half word is not.
\<close>

definition load_size :: "8 word list \<Rightarrow> int \<Rightarrow> int \<Rightarrow> 32 word res" where
  "load_size mem p sz =
     (if 0 \<le> p \<and> p + sz \<le> int (length mem) then
        if sz = 1 then Inr (scast (mem ! nat p))
        else if sz = 2 then Inr (ucast (ShortToHost (ucast (le_word (slice mem (nat p) 2)))))
        else if sz = 4 then Inr (WordToHost (le_word (slice mem (nat p) 4)))
        else Inl AssertFailed
      else Inl BadAccess)"

definition store_size :: "8 word list \<Rightarrow> int \<Rightarrow> int \<Rightarrow> 32 word \<Rightarrow> 8 word list res" where
  "store_size mem p sz value =
     (if 0 \<le> p \<and> p + sz \<le> int (length mem) then
        if sz = 1 then Inr (blit mem (nat p) [ucast (value AND 0xff)])
        else if sz = 2 then
          Inr (blit mem (nat p) (le_bytes 2 (ucast (ShortToMachine (ucast (value AND 0xffff))))))
        else if sz = 4 then Inr (blit mem (nat p) (le_bytes 4 (WordToMachine value)))
        else Inl AssertFailed
      else Inl BadAccess)"

definition ReadMem :: "'k handler \<Rightarrow> 32 word \<Rightarrow> int \<Rightarrow> 'k sys \<Rightarrow> ('k sys \<times> 32 word option) res" where
  "ReadMem h addr sz s =
     bindR (Translate (cpu s) addr sz False) (\<lambda>(m, exception, physicalAddress).
       if exception \<noteq> NoException then
         bindR (RaiseException h exception addr (s\<lparr>cpu := m\<rparr>)) (\<lambda>s'. Inr (s', None))
       else bindR (load_size (mainMemory m) physicalAddress sz) (\<lambda>v.
         Inr (s\<lparr>cpu := m\<rparr>, Some v)))"

definition WriteMem :: "'k handler \<Rightarrow> 32 word \<Rightarrow> int \<Rightarrow> 32 word \<Rightarrow> 'k sys \<Rightarrow> ('k sys \<times> bool) res" where
  "WriteMem h addr sz value s =
     bindR (Translate (cpu s) addr sz True) (\<lambda>(m, exception, physicalAddress).
       if exception \<noteq> NoException then
         bindR (RaiseException h exception addr (s\<lparr>cpu := m\<rparr>)) (\<lambda>s'. Inr (s', False))
       else bindR (store_size (mainMemory m) physicalAddress sz value) (\<lambda>mem.
         Inr (s\<lparr>cpu := m\<lparr>mainMemory := mem\<rparr>\<rparr>, True)))"

section \<open>Well-formed machines\<close>

text \<open>
  \<open>machine_wf\<close> is what a memory access or a delayed load relies on: the arrays have their sizes,
  exactly one of TLB and page table is present, and the register of a pending load is a general
  purpose register. Between two instructions register 0 is also 0 (\<open>machine_ok\<close>).
\<close>

definition machine_wf :: "machine \<Rightarrow> bool" where
  "machine_wf m \<longleftrightarrow> length (mainMemory m) = MemorySize \<and> length (registers m) = NumTotalRegs \<and>
     0 \<le> sint (reg m LoadReg) \<and> sint (reg m LoadReg) < 32 \<and>
     (case tlb m of
        None \<Rightarrow> (case pageTable m of None \<Rightarrow> False | Some pt \<Rightarrow> length pt = unat (pageTableSize m))
      | Some es \<Rightarrow> length es = TLBSize \<and> pageTable m = None)"

definition machine_ok :: "machine \<Rightarrow> bool" where
  "machine_ok m \<longleftrightarrow> machine_wf m \<and> reg m 0 = 0"

definition aligned :: "32 word \<Rightarrow> int \<Rightarrow> bool" where
  "aligned va sz \<longleftrightarrow> sz dvd uint va"

lemma and_3_uint: "va AND 3 = 0 \<longleftrightarrow> (4::int) dvd uint (va :: 32 word)"
proof -
  have "va AND 3 = take_bit 2 va" by (simp add: take_bit_eq_mask mask_eq_exp_minus_1)
  then have "uint (va AND 3) = uint va mod 4" by (simp add: uint_mod take_bit_eq_mod)
  then show ?thesis by (metis uint_0_iff dvd_eq_mod_eq_0)
qed

lemma and_1_uint: "va AND 1 = 0 \<longleftrightarrow> (2::int) dvd uint (va :: 32 word)"
proof -
  have "va AND 1 = take_bit 1 va" by (simp add: take_bit_eq_mask mask_eq_exp_minus_1)
  then have "uint (va AND 1) = uint va mod 2" by (simp add: uint_mod take_bit_eq_mod)
  then show ?thesis by (metis uint_0_iff dvd_eq_mod_eq_0)
qed

lemma misaligned_iff:
  "sz \<in> {1, 2, 4} \<Longrightarrow>
     ((sz = 4 \<and> va AND 3 \<noteq> 0) \<or> (sz = 2 \<and> va AND 1 \<noteq> 0)) \<longleftrightarrow> \<not> aligned va sz"
  by (auto simp: and_3_uint and_1_uint aligned_def)

lemma phys_addr:
  fixes frame va :: "32 word"
  assumes "\<not> word_of_nat NumPhysPages \<le> frame" and "sz \<in> {1, 2, 4}" and "aligned va sz"
  defines "pa \<equiv> sint (frame * word_of_nat PageSize + va mod word_of_nat PageSize)"
  shows "pa = uint frame * 128 + uint va mod 128" and "0 \<le> pa" and "pa + sz \<le> int MemorySize"
    and "sz dvd pa"
proof -
  have f: "uint frame < 32"
    using assms(1) by (simp add: machine_sizes word_le_def)
  have o: "uint (va mod 128) = uint va mod 128" by (simp add: uint_mod)
  define q where "q = uint frame * 128 + uint va mod 128"
  have q: "0 \<le> q" "q < 4096" using f by (auto simp: q_def)
  have w: "frame * 128 + va mod 128 = word_of_int q"
    by (simp add: q_def flip: o)
  have "pa = sint (word_of_int q :: 32 word)"
    by (simp add: assms(4) machine_sizes w)
  also have "\<dots> = q"
    using q by (simp add: signed_of_int signed_take_bit_int_eq_self)
  finally show pa: "pa = uint frame * 128 + uint va mod 128" by (simp add: q_def)
  then show "0 \<le> pa" by simp
  have d: "sz dvd uint va" "sz dvd 128" using assms(2,3) by (auto simp: aligned_def)
  then have "sz dvd uint va mod 128" by (simp add: dvd_mod_iff)
  with d show dv: "sz dvd pa" by (simp add: pa)
  have "sz dvd 4096 - pa" using dv assms(2) by auto
  moreover have "0 < 4096 - pa" using q by (simp add: pa q_def)
  ultimately have "sz \<le> 4096 - pa" by (rule zdvd_imp_le)
  then show "pa + sz \<le> int MemorySize" by (simp add: machine_sizes)
qed

section \<open>Finding the entry\<close>

definition table :: "machine \<Rightarrow> TranslationEntry list" where
  "table m = (case tlb m of None \<Rightarrow> the (pageTable m) | Some es \<Rightarrow> es)"

lemma tlb_search_ok:
  assumes "\<forall>i \<in> set is. i < length es"
  shows "tlb_search es vpn is = Inr (List.find (\<lambda>i. valid (es ! i) \<and> virtualPage (es ! i) = vpn) is)"
  using assms by (induction "is") auto

lemma find_update:
  assumes "List.find P is = Some i" and "Q i" and "\<And>j. j \<noteq> i \<Longrightarrow> Q j = P j"
  shows "List.find Q is = Some i"
  using assms by (induction "is") (auto split: if_splits)

lemma find_entry_ok:
  assumes "machine_wf m"
  shows "(\<exists>exn. find_entry m vpn = Inr (Inl exn) \<and> exn \<in> {AddressErrorException, PageFaultException}) \<or>
    (\<exists>i. find_entry m vpn = Inr (Inr (i, table m ! i)) \<and> i < length (table m) \<and> valid (table m ! i))"
proof (cases "tlb m")
  case None
  have u: "uint vpn < uint n \<longleftrightarrow> unat vpn < unat n"
    for n :: "32 word"
    using word_less_nat_alt [of vpn n] word_less_alt [of vpn n] by simp
  show ?thesis
    using assms None
    by (auto simp: machine_wf_def find_entry_def table_def word_le_nat_alt not_le aget_def u
        split: option.splits)
next
  case (Some es)
  have l: "\<forall>i \<in> set [0..<TLBSize]. i < length es"
    using assms Some by (auto simp: machine_wf_def)
  show ?thesis
    using l Some find_Some_iff [of "\<lambda>i. valid (es ! i) \<and> virtualPage (es ! i) = vpn" "[0..<TLBSize]"]
    by (auto simp: find_entry_def table_def tlb_search_ok [OF l] split: option.splits)
qed

lemma set_entry_simps [simp]:
  "mainMemory (set_entry i e m) = mainMemory m" "registers (set_entry i e m) = registers m"
  "pageTableSize (set_entry i e m) = pageTableSize m" "reg (set_entry i e m) n = reg m n"
  "tlb (set_entry i e m) = None \<longleftrightarrow> tlb m = None"
  "pageTable (set_entry i e m) = None \<longleftrightarrow> pageTable m = None"
  by (auto simp: set_entry_def reg_def split: option.splits)

lemma machine_wf_set_entry: "machine_wf m \<Longrightarrow> machine_wf (set_entry i e m)"
  by (auto simp: machine_wf_def set_entry_def reg_def split: option.splits)

lemma table_set_entry: "machine_wf m \<Longrightarrow> table (set_entry i e m) = (table m)[i := e]"
  by (auto simp: machine_wf_def table_def set_entry_def split: option.splits)

lemma find_entry_set_entry:
  assumes ok: "machine_wf m" and f: "find_entry m vpn = Inr (Inr (i, e))"
    and e': "valid e' = valid e" "virtualPage e' = virtualPage e"
  shows "find_entry (set_entry i e' m) vpn = Inr (Inr (i, e'))"
proof (cases "tlb m")
  case None
  then obtain pt where pt: "pageTable m = Some pt" "length pt = unat (pageTableSize m)"
    using ok by (auto simp: machine_wf_def split: option.splits)
  then show ?thesis
    using None f e'
    by (auto simp: find_entry_def set_entry_def aget_def word_le_nat_alt not_le split: if_splits)
next
  case (Some es)
  have l: "\<forall>i \<in> set [0..<TLBSize]. i < length es" and tl: "\<And>x. \<forall>j \<in> set [0..<TLBSize]. j < length (es[i := x])"
    using ok Some by (auto simp: machine_wf_def)
  let ?P = "\<lambda>es j. valid (es ! j) \<and> virtualPage (es ! j) = vpn"
  have i: "List.find (?P es) [0..<TLBSize] = Some i" "es ! i = e"
    using f Some by (auto simp: find_entry_def tlb_search_ok [OF l] split: option.splits)
  then have Pi: "?P es i" "i < length es"
    using l by (auto simp: find_Some_iff)
  have "List.find (?P (es[i := e'])) [0..<TLBSize] = Some i"
    using i(1) by (rule find_update) (use Pi i(2) e' in auto)
  then show ?thesis
    using Some Pi(2) by (simp add: find_entry_def set_entry_def tlb_search_ok [OF tl])
qed

section \<open>Translation is safe\<close>

lemma Translate_aligned:
  assumes ok: "machine_wf m" and sz: "sz \<in> {1, 2, 4}" and al: "aligned va sz"
  shows "Translate m va sz w = bindR (find_entry m (va div word_of_nat PageSize)) (\<lambda>r. case r of
      Inl exn \<Rightarrow> Inr (m, exn, 0)
    | Inr (i, e) \<Rightarrow>
        if readOnly e \<and> w then Inr (m, ReadOnlyException, 0)
        else if word_of_nat NumPhysPages \<le> physicalPage e then Inr (m, BusErrorException, 0)
        else Inr (set_entry i (e\<lparr>use_bit := True, dirty := w \<or> dirty e\<rparr>) m, NoException,
          uint (physicalPage e) * 128 + uint va mod 128))"
proof -
  have c: "\<not> ((sz = 4 \<and> va AND 3 \<noteq> 0) \<or> (sz = 2 \<and> va AND 1 \<noteq> 0))"
    using misaligned_iff [OF sz] al by blast
  have a: "tlb m = None \<or> pageTable m = None" "tlb m \<noteq> None \<or> pageTable m \<noteq> None"
    using ok by (auto simp: machine_wf_def split: option.splits)
  have pa: "\<not> word_of_nat NumPhysPages \<le> physicalPage e \<Longrightarrow>
      (let pa = sint (physicalPage e * word_of_nat PageSize + va mod word_of_nat PageSize)
       in ASSERT (0 \<le> pa \<and> pa + sz \<le> int MemorySize) (Inr (f e, NoException, pa))) =
      Inr (f e, NoException, uint (physicalPage e) * 128 + uint va mod 128)" for e :: TranslationEntry and f :: "_ \<Rightarrow> machine"
    using phys_addr [of "physicalPage e" sz va] sz al by (simp add: Let_def)
  show ?thesis
    unfolding Translate_def if_not_P [OF c] ASSERT_True [OF a(1)] ASSERT_True [OF a(2)] Let_def
    using pa by (intro bindR_cong refl) (auto simp: Let_def split: sum.splits)
qed

lemma Translate_misaligned:
  assumes "sz \<in> {1, 2, 4}" and "\<not> aligned va sz"
  shows "Translate m va sz w = Inr (m, AddressErrorException, 0)"
proof -
  have c: "(sz = 4 \<and> va AND 3 \<noteq> 0) \<or> (sz = 2 \<and> va AND 1 \<noteq> 0)"
    using misaligned_iff [OF assms(1)] assms(2) by blast
  show ?thesis unfolding Translate_def if_P [OF c] by (rule refl)
qed

lemma Translate_cases:
  assumes ok: "machine_wf m" and sz: "sz \<in> {1, 2, 4}"
  obtains (trap) exn where "Translate m va sz w = Inr (m, exn, 0)" and "exn \<noteq> NoException"
  | (mapped) i e pa where "Translate m va sz w =
      Inr (set_entry i (e\<lparr>use_bit := True, dirty := w \<or> dirty e\<rparr>) m, NoException, pa)"
    and "aligned va sz" and "find_entry m (va div word_of_nat PageSize) = Inr (Inr (i, e))"
    and "i < length (table m)" and "e = table m ! i" and "\<not> (readOnly e \<and> w)"
    and "uint (physicalPage e) < 32"
    and "pa = uint (physicalPage e) * 128 + uint va mod 128"
    and "0 \<le> pa" and "pa + sz \<le> int MemorySize" and "sz dvd pa"
proof (cases "aligned va sz")
  case False
  then show thesis using Translate_misaligned [OF sz] trap by blast
next
  case al: True
  note T = Translate_aligned [OF ok sz al, of w]
  show thesis using find_entry_ok [OF ok, of "va div word_of_nat PageSize"]
  proof (elim disjE exE conjE)
    fix x assume "find_entry m (va div word_of_nat PageSize) = Inr (Inl x)"
      "x \<in> {AddressErrorException, PageFaultException}"
    then show thesis by (intro trap [of x]) (auto simp: T)
  next
    fix i assume f: "find_entry m (va div word_of_nat PageSize) = Inr (Inr (i, table m ! i))"
      and i: "i < length (table m)"
    show thesis
    proof (cases "readOnly (table m ! i) \<and> w \<or> word_of_nat NumPhysPages \<le> physicalPage (table m ! i)")
      case True
      then show thesis
        by (intro trap [of "if readOnly (table m ! i) \<and> w then ReadOnlyException else BusErrorException"])
          (auto simp: T f)
    next
      case False
      then have np: "\<not> word_of_nat NumPhysPages \<le> physicalPage (table m ! i)" by blast
      note pa = phys_addr [OF np sz al]
      have "uint (physicalPage (table m ! i)) < 32"
        using np by (simp add: machine_sizes word_le_def)
      with False f i pa show thesis
        by (intro mapped [OF _ al f i refl _ _ pa(1)]) (auto simp: T)
    qed
  qed
qed

section \<open>Registers\<close>

lemma reg_set_reg: "n < length (registers m) \<Longrightarrow> reg (set_reg n v m) k = (if k = n then v else reg m k)"
  by (auto simp: reg_def set_reg_def)

lemma reg_set_reg_other [simp]: "k \<noteq> n \<Longrightarrow> reg (set_reg n v m) k = reg m k"
  by (auto simp: reg_def set_reg_def)

lemma set_reg_simps [simp]:
  "mainMemory (set_reg n v m) = mainMemory m" "tlb (set_reg n v m) = tlb m"
  "pageTable (set_reg n v m) = pageTable m" "pageTableSize (set_reg n v m) = pageTableSize m"
  "length (registers (set_reg n v m)) = length (registers m)"
  by (simp_all add: set_reg_def)

lemma machine_wf_set_reg [simp]: "n \<noteq> LoadReg \<Longrightarrow> machine_wf (set_reg n v m) \<longleftrightarrow> machine_wf m"
  by (simp add: machine_wf_def split: option.split)

lemma machine_wf_lengths:
  "machine_wf m \<Longrightarrow> length (registers m) = 40" "machine_wf m \<Longrightarrow> length (mainMemory m) = 4096"
  by (auto simp: machine_wf_def NumTotalRegs_def machine_sizes)

lemma reg_wf: "machine_wf m \<Longrightarrow> n < 40 \<Longrightarrow> reg (set_reg n v m) k = (if k = n then v else reg m k)"
  by (simp add: reg_set_reg machine_wf_lengths)

lemma DelayedLoad_ok:
  assumes wf: "machine_wf m" and r: "0 \<le> sint r" "sint r < 32"
  shows "\<exists>m'. DelayedLoad r v m = Inr m' \<and> machine_ok m' \<and> mainMemory m' = mainMemory m \<and>
    tlb m' = tlb m \<and> pageTable m' = pageTable m \<and> pageTableSize m' = pageTableSize m \<and>
    reg m' 0 = 0 \<and> reg m' LoadReg = r \<and> reg m' LoadValueReg = v \<and>
    (\<forall>n. 0 < n \<and> n < 40 \<and> n \<noteq> LoadReg \<and> n \<noteq> LoadValueReg \<longrightarrow>
       reg m' n = (if int n = sint (reg m LoadReg) then reg m LoadValueReg else reg m n))"
proof -
  define l x where "l = sint (reg m LoadReg)" and "x = reg m LoadValueReg"
  have l: "0 \<le> l" "l < 32" and len: "length (registers m) = 40"
    using wf by (auto simp: machine_wf_def l_def NumTotalRegs_def)
  define m1 where "m1 = m\<lparr>registers := (registers m)[nat l := x]\<rparr>"
  have m1: "mainMemory m1 = mainMemory m" "tlb m1 = tlb m" "pageTable m1 = pageTable m"
      "pageTableSize m1 = pageTableSize m" "length (registers m1) = 40"
    using len by (simp_all add: m1_def)
  have 1: "reg m1 n = (if int n = l then x else reg m n)" for n
    using l len by (auto simp: m1_def reg_def nth_list_update nat_eq_iff)
  define m2 where "m2 = set_reg 0 0 (set_reg LoadValueReg v (set_reg LoadReg r m1))"
  have run: "DelayedLoad r v m = Inr m2"
    using l len by (simp add: DelayedLoad_def m2_def m1_def flip: l_def x_def)
  have 2: "reg m2 n = (if n = 0 then 0 else if n = LoadValueReg then v else if n = LoadReg then r
      else reg m1 n)" for n
    using m1 by (simp add: m2_def reg_set_reg)
  have m2: "mainMemory m2 = mainMemory m" "tlb m2 = tlb m" "pageTable m2 = pageTable m"
      "pageTableSize m2 = pageTableSize m" "length (registers m2) = 40"
    using m1 by (simp_all add: m2_def)
  have ok: "machine_ok m2"
    using wf r 2 m2 by (simp add: machine_ok_def machine_wf_def NumTotalRegs_def split: option.splits)
  have "reg m2 n = (if int n = l then x else reg m n)"
    if "0 < n \<and> n < 40 \<and> n \<noteq> LoadReg \<and> n \<noteq> LoadValueReg" for n
    using that by (simp add: 1 2)
  then show ?thesis
    using run m2 ok 2 [of 0] 2 [of LoadReg] 2 [of LoadValueReg]
    by (intro exI [of _ m2]) (simp flip: l_def x_def)
qed

section \<open>Traps and the handler\<close>

text \<open>
  What the machine needs of the kernel: a handler that returns hands back a well-formed machine.
\<close>

definition handler_ok :: "'k handler \<Rightarrow> bool" where
  "handler_ok h \<longleftrightarrow> (\<forall>which s s'. machine_ok (cpu s) \<longrightarrow> h which s = Inr s' \<longrightarrow> machine_ok (cpu s'))"

lemma RaiseException_full:
  assumes "machine_wf (cpu s)"
  shows "\<exists>m'. RaiseException h which va s =
      bindR (h which (s\<lparr>cpu := m', status := SystemMode\<rparr>)) (\<lambda>s'. Inr (s'\<lparr>status := UserMode\<rparr>)) \<and>
    machine_ok m' \<and> reg m' BadVAddrReg = va \<and> reg m' PCReg = reg (cpu s) PCReg \<and>
    mainMemory m' = mainMemory (cpu s) \<and> tlb m' = tlb (cpu s) \<and> pageTable m' = pageTable (cpu s) \<and>
    reg m' NextPCReg = reg (cpu s) NextPCReg \<and> reg m' PrevPCReg = reg (cpu s) PrevPCReg"
proof -
  define m where "m = set_reg BadVAddrReg va (cpu s)"
  have wf: "machine_wf m" using assms by (simp add: m_def)
  have 0: "0 \<le> sint (0 :: 32 word)" "sint (0 :: 32 word) < 32" by simp_all
  have "sint (reg m LoadReg) < 32" using wf by (simp add: machine_wf_def)
  then have nb: "int BadVAddrReg \<noteq> sint (reg m LoadReg)" "int PCReg \<noteq> sint (reg m LoadReg)"
    "int NextPCReg \<noteq> sint (reg m LoadReg)" "int PrevPCReg \<noteq> sint (reg m LoadReg)" by auto
  obtain m' where d: "DelayedLoad 0 0 m = Inr m'" "machine_ok m'" "mainMemory m' = mainMemory m"
      "tlb m' = tlb m" "pageTable m' = pageTable m" "\<forall>n. 0 < n \<and> n < 40 \<and> n \<noteq> LoadReg \<and> n \<noteq> LoadValueReg \<longrightarrow>
         reg m' n = (if int n = sint (reg m LoadReg) then reg m LoadValueReg else reg m n)"
    using DelayedLoad_ok [OF wf 0, of 0] by blast
  have m': "reg m' BadVAddrReg = reg m BadVAddrReg" "reg m' PCReg = reg m PCReg"
    "reg m' NextPCReg = reg m NextPCReg" "reg m' PrevPCReg = reg m PrevPCReg"
    using nb by (simp_all add: d(6))
  have "reg m BadVAddrReg = va" "reg m PCReg = reg (cpu s) PCReg" "mainMemory m = mainMemory (cpu s)"
    "reg m NextPCReg = reg (cpu s) NextPCReg" "reg m PrevPCReg = reg (cpu s) PrevPCReg"
    "tlb m = tlb (cpu s)" "pageTable m = pageTable (cpu s)"
    using assms by (simp_all add: m_def reg_wf)
  then show ?thesis
    using m' d(1-5) by (intro exI [of _ m']) (simp add: RaiseException_def setStatus_def flip: m_def)
qed

lemma RaiseException_run:
  assumes "machine_wf (cpu s)"
  shows "\<exists>m'. RaiseException h which va s =
      bindR (h which (s\<lparr>cpu := m', status := SystemMode\<rparr>)) (\<lambda>s'. Inr (s'\<lparr>status := UserMode\<rparr>)) \<and>
    machine_ok m' \<and> reg m' BadVAddrReg = va \<and> reg m' PCReg = reg (cpu s) PCReg \<and>
    mainMemory m' = mainMemory (cpu s)"
  using RaiseException_full [OF assms] by blast

lemma RaiseException_ok:
  assumes "machine_wf (cpu s)" "handler_ok h" "RaiseException h which va s = Inr s'"
  shows "machine_ok (cpu s')"
proof -
  obtain m' where r: "RaiseException h which va s =
      bindR (h which (s\<lparr>cpu := m', status := SystemMode\<rparr>)) (\<lambda>s'. Inr (s'\<lparr>status := UserMode\<rparr>))"
      "machine_ok m'"
    using RaiseException_run [OF assms(1)] by blast
  then obtain s1 where s1: "h which (s\<lparr>cpu := m', status := SystemMode\<rparr>) = Inr s1"
      "s' = s1\<lparr>status := UserMode\<rparr>"
    using assms(3) unfolding r(1) bindR_eq_Inr by blast
  have "machine_ok (cpu s1)"
    using assms(2) r(2) s1(1) unfolding handler_ok_def by (metis sys.select_convs(1) sys.surjective
        sys.update_convs(1) sys.update_convs(2))
  then show ?thesis using s1(2) by simp
qed

section \<open>Memory access\<close>

lemma Suc_slice: "p < length xs \<Longrightarrow> slice xs p (Suc n) = xs ! p # slice xs (Suc p) n"
  by (simp add: slice_def Cons_nth_drop_Suc [symmetric])

definition truncate :: "int \<Rightarrow> 32 word \<Rightarrow> 32 word" where
  "truncate sz v = (if sz = 1 then scast (ucast v :: 8 word)
     else if sz = 2 then ucast (ucast v :: 16 word) else v)"

lemma load_total:
  "0 \<le> p \<Longrightarrow> p + sz \<le> int (length mem) \<Longrightarrow> sz \<in> {1, 2, 4} \<Longrightarrow> \<exists>v. load_size mem p sz = Inr v"
  by (auto simp: load_size_def)

lemma mask_ff: "(0xff :: 32 word) = mask 8" "(0xffff :: 32 word) = mask 16"
  by (simp_all add: mask_eq_exp_minus_1)

lemma store_load:
  assumes "0 \<le> p" and "p + sz \<le> int (length mem)" and "sz \<in> {1, 2, 4}"
  shows "\<exists>mem'. store_size mem p sz v = Inr mem' \<and> length mem' = length mem \<and>
    load_size mem' p sz = Inr (truncate sz v) \<and>
    (\<forall>i < length mem. int i < p \<or> p + sz \<le> int i \<longrightarrow> mem' ! i = mem ! i)"
proof -
  define ys where "ys = (if sz = 1 then [ucast (v AND 0xff) :: 8 word]
    else if sz = 2 then le_bytes 2 (ucast (ShortToMachine (ucast (v AND 0xffff)))) else le_bytes 4 v)"
  define n where "n = nat p"
  have len: "int (length ys) = sz" "n + length ys \<le> length mem" and p: "p = int n"
    using assms by (auto simp: ys_def n_def)
  have st: "store_size mem p sz v = Inr (blit mem n ys)"
    using assms by (auto simp: store_size_def ys_def n_def WordToMachine_def WordToHost_def)
  have l: "length (blit mem n ys) = length mem" using len by simp
  have sl: "slice (blit mem n ys) n (length ys) = ys" using len by simp
  have load: "load_size (blit mem n ys) p sz = Inr (truncate sz v)"
  proof -
    consider "sz = 1" | "sz = 2" | "sz = 4" using assms(3) by blast
    then show ?thesis
    proof cases
      case 1
      have "(ucast (v AND 0xff) :: 8 word) = ucast v"
        unfolding mask_ff by (rule bit_word_eqI) (auto simp: bit_simps bit_mask_iff)
      then show ?thesis
        using 1 sl l len p assms Suc_slice [of n "blit mem n ys" 0]
        by (simp add: load_size_def ys_def truncate_def)
    next
      case 2
      have m: "(ucast (v AND 0xffff) :: 16 word) = ucast v"
        unfolding mask_ff by (rule bit_word_eqI) (auto simp: bit_simps bit_mask_iff)
      have "(ucast (le_word ys) :: 16 word) = ucast v"
        using 2 by (simp add: ys_def le_word_le_bytes m ShortToMachine_def ShortToHost_def)
          (rule bit_word_eqI, auto simp: bit_simps)
      then show ?thesis
        using 2 sl l len p assms by (simp add: load_size_def truncate_def ShortToHost_def ys_def)
    next
      case 3
      then show ?thesis
        using sl l len p assms by (simp add: load_size_def truncate_def WordToHost_def ys_def)
    qed
  qed
  show ?thesis using st l load len p by (auto simp: nth_blit)
qed

lemma machine_wf_mem: "machine_wf m \<Longrightarrow> length x = MemorySize \<Longrightarrow> machine_wf (m\<lparr>mainMemory := x\<rparr>)"
  by (simp add: machine_wf_def reg_def cong: option.case_cong)

text \<open>A memory access of 1, 2 or 4 bytes either traps or goes through; it never fails itself.\<close>

lemma ReadMem_cases:
  assumes wf: "machine_wf (cpu s)" and sz: "sz \<in> {1, 2, 4}"
  obtains (trap) exn where "exn \<noteq> NoException"
    and "ReadMem h a sz s = bindR (RaiseException h exn a s) (\<lambda>s'. Inr (s', None))"
  | (access) m v where "ReadMem h a sz s = Inr (s\<lparr>cpu := m\<rparr>, Some v)" and "machine_wf m"
    and "registers m = registers (cpu s)" and "mainMemory m = mainMemory (cpu s)"
proof (rule Translate_cases [OF wf sz, of a False])
  fix exn assume t: "Translate (cpu s) a sz False = Inr (cpu s, exn, 0)" "exn \<noteq> NoException"
  then show thesis by (intro trap [of exn]) (simp_all add: ReadMem_def)
next
  fix i e pa
  let ?m = "set_entry i (e\<lparr>use_bit := True, dirty := False \<or> dirty e\<rparr>) (cpu s)"
  assume t: "Translate (cpu s) a sz False = Inr (?m, NoException, pa)"
    and p: "0 \<le> pa" "pa + sz \<le> int MemorySize"
  have "length (mainMemory ?m) = MemorySize" using wf by (simp add: machine_wf_def)
  then obtain v where "load_size (mainMemory ?m) pa sz = Inr v"
    using load_total [of pa sz "mainMemory ?m"] p sz by auto
  then show thesis
    using t machine_wf_set_entry [OF wf] by (intro access [of ?m v]) (simp_all add: ReadMem_def)
qed

lemma WriteMem_cases:
  assumes wf: "machine_wf (cpu s)" and sz: "sz \<in> {1, 2, 4}"
  obtains (trap) exn where "exn \<noteq> NoException"
    and "WriteMem h a sz v s = bindR (RaiseException h exn a s) (\<lambda>s'. Inr (s', False))"
  | (access) m mem i e pa where
      "WriteMem h a sz v s = Inr (s\<lparr>cpu := m\<lparr>mainMemory := mem\<rparr>\<rparr>, True)"
    and "m = set_entry i (e\<lparr>use_bit := True, dirty := True\<rparr>) (cpu s)"
    and "find_entry (cpu s) (a div word_of_nat PageSize) = Inr (Inr (i, e))"
    and "i < length (table (cpu s))" and "aligned a sz" and "uint (physicalPage e) < 32"
    and "pa = uint (physicalPage e) * 128 + uint a mod 128" and "0 \<le> pa"
    and "pa + sz \<le> int MemorySize"
    and "store_size (mainMemory (cpu s)) pa sz v = Inr mem"
    and "machine_wf (m\<lparr>mainMemory := mem\<rparr>)"
proof (rule Translate_cases [OF wf sz, of a True])
  fix exn assume t: "Translate (cpu s) a sz True = Inr (cpu s, exn, 0)" "exn \<noteq> NoException"
  then show thesis by (intro trap [of exn]) (simp_all add: WriteMem_def)
next
  fix i e pa
  let ?m = "set_entry i (e\<lparr>use_bit := True, dirty := True \<or> dirty e\<rparr>) (cpu s)"
  assume t: "Translate (cpu s) a sz True = Inr (?m, NoException, pa)"
    and p: "0 \<le> pa" "pa + sz \<le> int MemorySize"
    and r: "find_entry (cpu s) (a div word_of_nat PageSize) = Inr (Inr (i, e))"
      "i < length (table (cpu s))" "aligned a sz" "uint (physicalPage e) < 32"
      "pa = uint (physicalPage e) * 128 + uint a mod 128"
  have l: "length (mainMemory (cpu s)) = MemorySize" using wf by (simp add: machine_wf_def)
  then obtain mem where mem: "store_size (mainMemory (cpu s)) pa sz v = Inr mem"
      "length mem = MemorySize"
    using store_load [of pa sz "mainMemory (cpu s)" v] p sz by auto
  have "machine_wf (?m\<lparr>mainMemory := mem\<rparr>)"
    by (rule machine_wf_mem [OF machine_wf_set_entry [OF wf] mem(2)])
  then show thesis
    using t mem(1) r p by (intro access [where m = ?m and mem = mem and i = i and e = e and pa = pa]) (simp_all add: WriteMem_def)
qed

lemma find_entry_mem [simp]: "find_entry (m\<lparr>mainMemory := x\<rparr>) vpn = find_entry m vpn"
  by (simp add: find_entry_def cong: option.case_cong)

lemma find_entry_page_table:
  assumes "tlb m = None" and "pageTable m = Some pt" and "length pt = unat (pageTableSize m)"
  shows "find_entry m vpn =
    (if length pt \<le> unat vpn then Inr (Inl AddressErrorException)
     else if \<not> valid (pt ! unat vpn) then Inr (Inl PageFaultException)
     else Inr (Inr (unat vpn, pt ! unat vpn)))"
  using assms word_less_nat_alt [of vpn "pageTableSize m"] word_less_alt [of vpn "pageTableSize m"]
  by (auto simp: find_entry_def aget_def word_le_nat_alt not_le)

section \<open>Properties\<close>

text \<open>
  C14: with a linear page table, \<open>Translate\<close> never fails and returns exactly: an address error for a
  misaligned address or a page beyond the table, a page fault for an invalid page, a read-only
  error for a write to a protected page, a bus error for a frame beyond physical memory, and
  otherwise frame times page size plus offset, which lies in memory, with the use bit of the entry
  set, and its dirty bit by a write.
\<close>

theorem Translate_page_table:
  assumes "machine_wf m" and "tlb m = None" and "pageTable m = Some pt" and "sz \<in> {1, 2, 4}"
  shows "let vpn = unat va div 128; e = pt ! vpn in
    Translate m va sz w =
      (if \<not> sz dvd uint va \<or> length pt \<le> vpn then Inr (m, AddressErrorException, 0)
       else if \<not> valid e then Inr (m, PageFaultException, 0)
       else if readOnly e \<and> w then Inr (m, ReadOnlyException, 0)
       else if 32 \<le> uint (physicalPage e) then Inr (m, BusErrorException, 0)
       else Inr (m\<lparr>pageTable := Some (pt[vpn := e\<lparr>use_bit := True, dirty := w \<or> dirty e\<rparr>])\<rparr>,
         NoException, uint (physicalPage e) * 128 + uint va mod 128))"
proof (cases "aligned va sz")
  case False
  then show ?thesis using Translate_misaligned [OF assms(4)] by (simp add: aligned_def Let_def)
next
  case True
  have len: "length pt = unat (pageTableSize m)"
    using assms(1-3) by (simp add: machine_wf_def)
  have vpn: "unat (va div word_of_nat PageSize) = unat va div 128"
    by (simp add: machine_sizes unat_div)
  have fr: "word_of_nat NumPhysPages \<le> f \<longleftrightarrow> 32 \<le> uint f" for f :: "32 word"
    by (simp add: machine_sizes word_le_def)
  show ?thesis
    unfolding Translate_aligned [OF assms(1,4) True] find_entry_page_table [OF assms(2,3) len] vpn
    using True assms(2,3) by (simp add: aligned_def Let_def fr set_entry_def)
qed

definition one_page_machine :: machine where
  "one_page_machine = (Machine_new False [] False)\<lparr>pageTable := Some [\<lparr>virtualPage = 0,
     physicalPage = 3, valid = True, readOnly = False, use_bit = False, dirty = False\<rparr>],
     pageTableSize := 1\<rparr>"

lemma one_page_machine_wf: "machine_wf one_page_machine"
  by (simp add: one_page_machine_def Machine_new_def machine_wf_def NumTotalRegs_def reg_def)

theorem Translate_page_table_witness:
  "machine_wf one_page_machine \<and> tlb one_page_machine = None \<and> (4::int) \<in> {1, 2, 4} \<and>
   Translate one_page_machine 20 4 True = Inr (one_page_machine\<lparr>pageTable := Some [\<lparr>virtualPage = 0,
     physicalPage = 3, valid = True, readOnly = False, use_bit = True, dirty = True\<rparr>]\<rparr>,
     NoException, 404)"
  using Translate_page_table [OF one_page_machine_wf, of "the (pageTable one_page_machine)" 4 20 True]
    one_page_machine_wf
  by (simp add: one_page_machine_def Machine_new_def Let_def)

text \<open>
  With a TLB, \<open>Translate\<close> of an aligned address uses the first valid entry for the page,
  whatever the other entries hold, and returns a page fault when there is none.
\<close>

theorem Translate_tlb:
  assumes "machine_wf m" and "tlb m = Some es" and "sz \<in> {1, 2, 4}" and "sz dvd uint va"
  shows "case List.find (\<lambda>i. valid (es ! i) \<and> virtualPage (es ! i) = va div 128) [0..<4] of
      None \<Rightarrow> Translate m va sz w = Inr (m, PageFaultException, 0)
    | Some i \<Rightarrow> i < length es \<and> Translate m va sz w =
       (let e = es ! i in
        if readOnly e \<and> w then Inr (m, ReadOnlyException, 0)
        else if 32 \<le> uint (physicalPage e) then Inr (m, BusErrorException, 0)
        else Inr (m\<lparr>tlb := Some (es[i := e\<lparr>use_bit := True, dirty := w \<or> dirty e\<rparr>])\<rparr>,
          NoException, uint (physicalPage e) * 128 + uint va mod 128))"
proof -
  have al: "aligned va sz" using assms(4) by (simp add: aligned_def)
  have l: "\<forall>i \<in> set [0..<TLBSize]. i < length es"
    using assms(1,2) by (auto simp: machine_wf_def)
  have fr: "word_of_nat NumPhysPages \<le> f \<longleftrightarrow> 32 \<le> uint f" for f :: "32 word"
    by (simp add: machine_sizes word_le_def)
  have "find_entry m (va div word_of_nat PageSize) =
      (case List.find (\<lambda>i. valid (es ! i) \<and> virtualPage (es ! i) = va div 128) [0..<4] of
         None \<Rightarrow> Inr (Inl PageFaultException) | Some i \<Rightarrow> Inr (Inr (i, es ! i)))"
    using assms(2) by (simp add: find_entry_def tlb_search_ok [OF l [unfolded TLBSize_def]] machine_sizes)
  moreover have "List.find P [0..<4] = Some i \<Longrightarrow> i < length es" for P i
    using l by (auto simp: find_Some_iff TLBSize_def in_set_conv_nth)
  ultimately show ?thesis
    unfolding Translate_aligned [OF assms(1,3) al]
    using assms(2) by (auto simp: fr set_entry_def Let_def split: option.split)
qed

theorem Translate_tlb_witness:
  "let e = \<lparr>virtualPage = 7, physicalPage = 1, valid = True, readOnly = False, use_bit = False,
         dirty = False\<rparr>; m = (Machine_new True [e, e, e, e] False)\<lparr>tlb := Some [e\<lparr>valid := False\<rparr>, e, e, e]\<rparr>
   in machine_wf m \<and> (2::int) \<in> {1, 2, 4} \<and> (2::int) dvd uint (900 :: 32 word) \<and>
     Translate m 900 2 False =
       Inr (m\<lparr>tlb := Some [e\<lparr>valid := False\<rparr>, e\<lparr>use_bit := True\<rparr>, e, e]\<rparr>, NoException, 132)"
proof -
  define e :: TranslationEntry where "e = \<lparr>virtualPage = 7, physicalPage = 1, valid = True,
      readOnly = False, use_bit = False, dirty = False\<rparr>"
  define es where "es = [e\<lparr>valid := False\<rparr>, e, e, e]"
  define m where "m = (Machine_new True [e, e, e, e] False)\<lparr>tlb := Some es\<rparr>"
  have wf: "machine_wf m"
    by (simp add: m_def es_def Machine_new_def machine_wf_def NumTotalRegs_def TLBSize_def reg_def)
  have t: "tlb m = Some es" by (simp add: m_def)
  have d: "(900 :: 32 word) div 128 = 7" by simp
  have up: "[0..<4] = [0, 1, 2, 3::nat]" by (simp add: upt_conv_Cons)
  have f: "List.find (\<lambda>i. valid (es ! i) \<and> virtualPage (es ! i) = (900 :: 32 word) div 128) [0..<4] = Some 1"
    unfolding d up by (simp add: es_def e_def)
  have "Translate m 900 2 False = Inr (m\<lparr>tlb := Some [e\<lparr>valid := False\<rparr>, e\<lparr>use_bit := True\<rparr>, e, e]\<rparr>,
      NoException, 132)"
    using Translate_tlb [OF wf t, of 2 900 False] unfolding f
    by (simp add: es_def e_def Let_def)
  then show ?thesis using wf unfolding m_def es_def e_def by (simp add: Let_def)
qed

text \<open>
  C37: what a successful \<open>WriteMem\<close> stored, \<open>ReadMem\<close> of the same size and address returns (a byte
  sign-extended, a half word zero-extended), and the write changed no other byte of memory than
  those the address translates to.
\<close>

theorem WriteMem_ReadMem:
  assumes wf: "machine_wf (cpu s)" and sz: "sz \<in> {1, 2, 4}"
    and w: "WriteMem h a sz v s = Inr (s', True)"
  shows "\<exists>pa s''. ReadMem h a sz s' = Inr (s'', Some (truncate sz v)) \<and>
    0 \<le> pa \<and> pa + sz \<le> 4096 \<and> registers (cpu s') = registers (cpu s) \<and>
    (\<forall>i < 4096. int i < pa \<or> pa + sz \<le> int i \<longrightarrow>
       mainMemory (cpu s') ! i = mainMemory (cpu s) ! i)"
  using wf sz
proof (cases rule: WriteMem_cases [of s sz h a v])
  case (trap exn)
  with w show ?thesis by (auto simp: bindR_eq_Inr)
next
  case (access m mem i e pa)
  let ?e = "e\<lparr>use_bit := True, dirty := True\<rparr>"
  define m' where "m' = m\<lparr>mainMemory := mem\<rparr>"
  have s': "s' = s\<lparr>cpu := m'\<rparr>" using w access(1) by (simp add: m'_def)
  have m'wf: "machine_wf m'" using access(11) by (simp add: m'_def)
  have l: "length (mainMemory (cpu s)) = 4096" using wf by (rule machine_wf_lengths)
  have b: "pa + sz \<le> int (length (mainMemory (cpu s)))" using access(9) l by (simp add: machine_sizes)
  from store_load [OF access(8) b sz, of v] access(10)
  have mem: "load_size mem pa sz = Inr (truncate sz v)" "length mem = 4096"
      "\<forall>i < 4096. int i < pa \<or> pa + sz \<le> int i \<longrightarrow> mem ! i = mainMemory (cpu s) ! i"
    using l by auto
  have f: "find_entry m' (a div word_of_nat PageSize) = Inr (Inr (i, ?e))"
    using find_entry_set_entry [OF wf access(3), of ?e] access(2) by (simp add: m'_def)
  have "\<not> word_of_nat NumPhysPages \<le> physicalPage e"
    using access(6) by (simp add: machine_sizes word_le_def)
  then have t: "Translate m' a sz False =
      Inr (set_entry i (?e\<lparr>use_bit := True, dirty := False \<or> dirty ?e\<rparr>) m', NoException, pa)"
    unfolding Translate_aligned [OF m'wf sz access(5)] f access(7) by simp
  have "mainMemory m' = mem" by (simp add: m'_def)
  then have "\<exists>s''. ReadMem h a sz s' = Inr (s'', Some (truncate sz v))"
    using mem(1) by (simp add: ReadMem_def t s')
  moreover have "pa + sz \<le> 4096" using b l by simp
  moreover have "registers m' = registers (cpu s)" by (simp add: m'_def access(2))
  ultimately show ?thesis using access(8) mem(3) by (auto simp: s' m'_def)
qed

theorem WriteMem_ReadMem_witness:
  "let s = \<lparr>cpu = one_page_machine, status = UserMode, kernel = ()\<rparr>; h = (\<lambda>_ s. Inr s) in
   machine_wf (cpu s) \<and> (1::int) \<in> {1, 2, 4} \<and>
   (\<exists>s'. WriteMem h 5 1 0x1ff s = Inr (s', True) \<and>
     (\<exists>s''. ReadMem h 5 1 s' = Inr (s'', Some (- 1))))"
proof -
  define s :: "unit sys" where "s = \<lparr>cpu = one_page_machine, status = UserMode, kernel = ()\<rparr>"
  define h :: "unit handler" where "h = (\<lambda>_ s. Inr s)"
  have wf: "machine_wf (cpu s)" by (simp add: s_def one_page_machine_wf)
  have sz: "(1::int) \<in> {1, 2, 4}" by simp
  have "aligned 5 1" by (simp add: aligned_def)
  then have "\<exists>m. Translate (cpu s) 5 1 True = Inr (m, NoException, 389) \<and>
      mainMemory m = mainMemory (cpu s)"
    unfolding Translate_aligned [OF wf sz \<open>aligned 5 1\<close>]
    by (simp add: s_def one_page_machine_def Machine_new_def find_entry_def machine_sizes)
  moreover have "length (mainMemory (cpu s)) = 4096" using wf by (rule machine_wf_lengths)
  ultimately obtain s' where w: "WriteMem h 5 1 0x1ff s = Inr (s', True)"
    by (auto simp: WriteMem_def store_size_def)
  have "truncate 1 0x1ff = - 1" by (simp add: truncate_def)
  then show ?thesis
    using WriteMem_ReadMem [OF wf sz w] w wf unfolding s_def h_def Let_def by auto
qed

end
