(* ===== verification/Mips.thy ===== *)
theory Mips
  imports Machine
begin

text \<open>
  The processor: \<open>machine/mipssim.h\<close> (the decoding tables) and \<open>machine/mipssim.cc\<close> (decoding,
  execution of one instruction, the multiplier). Registers hold 32-bit words; C \<open>int\<close> addition,
  subtraction and left shifts wrap, as the overflow checks of the code expect, \<open>>>\<close> of an \<open>int\<close> is
  arithmetic, and division traps on the host when the quotient does not fit.
\<close>

section \<open>Decoding\<close>

datatype opcode =
    OP_ADD | OP_ADDI | OP_ADDIU | OP_ADDU | OP_AND | OP_ANDI | OP_BEQ | OP_BGEZ | OP_BGEZAL
  | OP_BGTZ | OP_BLEZ | OP_BLTZ | OP_BLTZAL | OP_BNE | OP_DIV | OP_DIVU | OP_J | OP_JAL
  | OP_JALR | OP_JR | OP_LB | OP_LBU | OP_LH | OP_LHU | OP_LUI | OP_LW | OP_LWL
  | OP_LWR | OP_MFHI | OP_MFLO | OP_MTHI | OP_MTLO | OP_MULT | OP_MULTU | OP_NOR | OP_OR
  | OP_ORI | OP_RFE | OP_SB | OP_SH | OP_SLL | OP_SLLV | OP_SLT | OP_SLTI | OP_SLTIU
  | OP_SLTU | OP_SRA | OP_SRAV | OP_SRL | OP_SRLV | OP_SUB | OP_SUBU | OP_SW | OP_SWL
  | OP_SWR | OP_XOR | OP_XORI | OP_SYSCALL | OP_UNIMP | OP_RES | SPECIAL | BCOND

datatype format = IFMT | JFMT | RFMT

definition opTable :: "(opcode \<times> format) list" where
  "opTable = [
    (SPECIAL, RFMT), (BCOND, IFMT), (OP_J, JFMT), (OP_JAL, JFMT),
    (OP_BEQ, IFMT), (OP_BNE, IFMT), (OP_BLEZ, IFMT), (OP_BGTZ, IFMT),
    (OP_ADDI, IFMT), (OP_ADDIU, IFMT), (OP_SLTI, IFMT), (OP_SLTIU, IFMT),
    (OP_ANDI, IFMT), (OP_ORI, IFMT), (OP_XORI, IFMT), (OP_LUI, IFMT),
    (OP_UNIMP, IFMT), (OP_UNIMP, IFMT), (OP_UNIMP, IFMT), (OP_UNIMP, IFMT),
    (OP_RES, IFMT), (OP_RES, IFMT), (OP_RES, IFMT), (OP_RES, IFMT),
    (OP_RES, IFMT), (OP_RES, IFMT), (OP_RES, IFMT), (OP_RES, IFMT),
    (OP_RES, IFMT), (OP_RES, IFMT), (OP_RES, IFMT), (OP_RES, IFMT),
    (OP_LB, IFMT), (OP_LH, IFMT), (OP_LWL, IFMT), (OP_LW, IFMT),
    (OP_LBU, IFMT), (OP_LHU, IFMT), (OP_LWR, IFMT), (OP_RES, IFMT),
    (OP_SB, IFMT), (OP_SH, IFMT), (OP_SWL, IFMT), (OP_SW, IFMT),
    (OP_RES, IFMT), (OP_RES, IFMT), (OP_SWR, IFMT), (OP_RES, IFMT),
    (OP_UNIMP, IFMT), (OP_UNIMP, IFMT), (OP_UNIMP, IFMT), (OP_UNIMP, IFMT),
    (OP_RES, IFMT), (OP_RES, IFMT), (OP_RES, IFMT), (OP_RES, IFMT),
    (OP_UNIMP, IFMT), (OP_UNIMP, IFMT), (OP_UNIMP, IFMT), (OP_UNIMP, IFMT),
    (OP_RES, IFMT), (OP_RES, IFMT), (OP_RES, IFMT), (OP_RES, IFMT)]"

definition specialTable :: "opcode list" where
  "specialTable = [
    OP_SLL, OP_RES, OP_SRL, OP_SRA, OP_SLLV, OP_RES, OP_SRLV, OP_SRAV, OP_JR, OP_JALR,
    OP_RES, OP_RES, OP_SYSCALL, OP_UNIMP, OP_RES, OP_RES, OP_MFHI, OP_MTHI, OP_MFLO,
    OP_MTLO, OP_RES, OP_RES, OP_RES, OP_RES, OP_MULT, OP_MULTU, OP_DIV, OP_DIVU, OP_RES,
    OP_RES, OP_RES, OP_RES, OP_ADD, OP_ADDU, OP_SUB, OP_SUBU, OP_AND, OP_OR, OP_XOR, OP_NOR,
    OP_RES, OP_RES, OP_SLT, OP_SLTU, OP_RES, OP_RES, OP_RES, OP_RES, OP_RES, OP_RES, OP_RES,
    OP_RES, OP_RES, OP_RES, OP_RES, OP_RES, OP_RES, OP_RES, OP_RES, OP_RES, OP_RES, OP_RES,
    OP_RES, OP_RES]"

record Instruction =
  instrValue :: "32 word"
  opCode :: opcode
  rs :: nat
  rt :: nat
  rd :: nat
  extra :: "32 word"

definition IndexToAddr :: "32 word \<Rightarrow> 32 word" where "IndexToAddr x = push_bit 2 x"
definition SIGN_BIT :: "32 word" where "SIGN_BIT = 0x80000000"
abbreviation R31 :: nat where "R31 \<equiv> 31"

definition Decode :: "32 word \<Rightarrow> Instruction res" where
  "Decode val =
     bindR (aget opTable (uint (drop_bit 26 val AND 0x3f))) (\<lambda>(op, fmt).
     bindR (if op = SPECIAL then aget specialTable (uint (val AND 0x3f))
            else if op = BCOND then
              (let i = val AND 0x1f0000 in
               Inr (if i = 0 then OP_BLTZ else if i = 0x10000 then OP_BGEZ
                 else if i = 0x100000 then OP_BLTZAL else if i = 0x110000 then OP_BGEZAL
                 else OP_UNIMP))
            else Inr op) (\<lambda>op'.
     let ext = (if fmt = IFMT then
                  (let e = val AND 0xffff in if e AND 0x8000 \<noteq> 0 then e OR 0xffff0000 else e)
                else if fmt = RFMT then drop_bit 6 val AND 0x1f
                else val AND 0x3ffffff)
     in Inr \<lparr>instrValue = val, opCode = op', rs = unat (drop_bit 21 val AND 0x1f),
          rt = unat (drop_bit 16 val AND 0x1f), rd = unat (drop_bit 11 val AND 0x1f), extra = ext\<rparr>))"

text \<open>What the debugging output of an instruction prints for an operand.\<close>

datatype RegType = NONE | RS | RT | RD | EXTRA

definition TypeToReg :: "RegType \<Rightarrow> Instruction \<Rightarrow> int" where
  "TypeToReg r instr =
     (case r of RS \<Rightarrow> int (rs instr) | RT \<Rightarrow> int (rt instr) | RD \<Rightarrow> int (rd instr)
      | EXTRA \<Rightarrow> sint (extra instr) | NONE \<Rightarrow> -1)"

section \<open>The multiplier\<close>

text \<open>
  The loop of \<open>Mult\<close>: \<open>n\<close> rounds are left, \<open>a\<close> is shifted right (arithmetically, being an \<open>int\<close>),
  \<open>bHi\<close> and \<open>bLo\<close> left, and the product is gathered in \<open>hi\<close> and \<open>lo\<close>.
\<close>

fun mult_loop :: "nat \<Rightarrow> 32 word \<Rightarrow> 32 word \<Rightarrow> 32 word \<Rightarrow> 32 word \<Rightarrow> 32 word \<Rightarrow> 32 word \<times> 32 word" where
  "mult_loop 0 a bHi bLo hi lo = (hi, lo)"
| "mult_loop (Suc n) a bHi bLo hi lo =
     (let odd_a = (a AND 1 \<noteq> 0);
          lo' = (if odd_a then lo + bLo else lo);
          hi' = (if odd_a then (if lo' < bLo then hi + 1 else hi) + bHi else hi)
      in if odd_a \<and> a AND 0xfffffffe = 0 then (hi', lo')
         else mult_loop n (signed_drop_bit 1 a)
                (if bLo AND 0x80000000 \<noteq> 0 then push_bit 1 bHi OR 1 else push_bit 1 bHi)
                (push_bit 1 bLo) hi' lo')"

definition Mult :: "32 word \<Rightarrow> 32 word \<Rightarrow> bool \<Rightarrow> 32 word \<times> 32 word" where
  "Mult a b signedArith =
     (if a = 0 \<or> b = 0 then (0, 0)
      else
        let nega = (signedArith \<and> sint a < 0); negb = (signedArith \<and> sint b < 0);
            a' = (if nega then - a else a); b' = (if negb then - b else b);
            negative = (nega \<noteq> negb);
            (hi, lo) = mult_loop 32 a' 0 b' 0 0
        in if negative then
             (let hi1 = NOT hi; lo1 = NOT lo + 1 in (if lo1 = 0 then hi1 + 1 else hi1, lo1))
           else (hi, lo))"

section \<open>Execution\<close>

text \<open>
  The switch of \<open>OneInstruction\<close>, in groups of cases in the order of the source. A case ends with
  \<open>break\<close> (\<open>Some\<close> of \<open>pcAfter\<close>, \<open>nextLoadReg\<close> and \<open>nextLoadValue\<close>, which the code after the switch
  uses) or with \<open>return\<close> (\<open>None\<close>).
\<close>

type_synonym 'k outcome = "('k sys \<times> (32 word \<times> 32 word \<times> 32 word) option) res"

definition R :: "'k sys \<Rightarrow> nat \<Rightarrow> 32 word" where
  "R s n = reg (cpu s) n"

definition setR :: "nat \<Rightarrow> 32 word \<Rightarrow> 'k sys \<Rightarrow> 'k sys" where
  "setR n v s = s\<lparr>cpu := set_reg n v (cpu s)\<rparr>"

definition break_with :: "32 word \<Rightarrow> 'k sys \<Rightarrow> 'k outcome" where
  "break_with pcAfter s = Inr (s, Some (pcAfter, 0, 0))"

definition break_load :: "32 word \<Rightarrow> nat \<Rightarrow> 32 word \<Rightarrow> 'k sys \<Rightarrow> 'k outcome" where
  "break_load pcAfter r v s = Inr (s, Some (pcAfter, word_of_nat r, v))"

definition trap_return :: "'k handler \<Rightarrow> ExceptionType \<Rightarrow> 32 word \<Rightarrow> 'k sys \<Rightarrow> 'k outcome" where
  "trap_return h which va s = bindR (RaiseException h which va s) (\<lambda>s'. Inr (s', None))"

definition read_or_return ::
  "'k handler \<Rightarrow> 32 word \<Rightarrow> int \<Rightarrow> 'k sys \<Rightarrow> (32 word \<Rightarrow> 'k sys \<Rightarrow> 'k outcome) \<Rightarrow> 'k outcome" where
  "read_or_return h addr sz s f =
     bindR (ReadMem h addr sz s) (\<lambda>(s', v). case v of None \<Rightarrow> Inr (s', None) | Some x \<Rightarrow> f x s')"

definition write_or_return ::
  "'k handler \<Rightarrow> 32 word \<Rightarrow> int \<Rightarrow> 32 word \<Rightarrow> 'k sys \<Rightarrow> 32 word \<Rightarrow> 'k outcome" where
  "write_or_return h addr sz v s pcAfter =
     bindR (WriteMem h addr sz v s) (\<lambda>(s', okay). if okay then break_with pcAfter s' else Inr (s', None))"

definition signs_differ :: "32 word \<Rightarrow> 32 word \<Rightarrow> bool" where
  "signs_differ x y \<longleftrightarrow> (x XOR y) AND SIGN_BIT \<noteq> 0"

text \<open>\<open>OP_SWL\<close>, \<open>OP_SWR\<close>, \<open>OP_SYSCALL\<close> to the end of the switch.\<close>

definition exec_syscall :: "'k handler \<Rightarrow> Instruction \<Rightarrow> 32 word \<Rightarrow> 'k sys \<Rightarrow> 'k outcome" where
  "exec_syscall h i pcAfter s =
     (case opCode i of
        OP_SYSCALL \<Rightarrow> trap_return h SyscallException 0 s
      | OP_XOR \<Rightarrow> break_with pcAfter (setR (rd i) (R s (rs i) XOR R s (rt i)) s)
      | OP_XORI \<Rightarrow> break_with pcAfter (setR (rt i) (R s (rs i) XOR (extra i AND 0xffff)) s)
      | OP_RES \<Rightarrow> trap_return h IllegalInstrException 0 s
      | OP_UNIMP \<Rightarrow> trap_return h IllegalInstrException 0 s
      | _ \<Rightarrow> Inl AssertFailed)"

definition exec_swl :: "'k handler \<Rightarrow> Instruction \<Rightarrow> 32 word \<Rightarrow> 'k sys \<Rightarrow> 'k outcome" where
  "exec_swl h i pcAfter s =
     (let tmp = R s (rs i) + extra i in
      case opCode i of
        OP_SWL \<Rightarrow>
          ASSERT (tmp AND 3 = 0) (read_or_return h (tmp AND NOT 3) 4 s (\<lambda>v s'.
            let x = R s' (rt i);
                v' = (if tmp AND 3 = 0 then x
                  else if tmp AND 3 = 1 then (v AND 0xff000000) OR (signed_drop_bit 8 x AND 0xffffff)
                  else if tmp AND 3 = 2 then (v AND 0xffff0000) OR (signed_drop_bit 16 x AND 0xffff)
                  else (v AND 0xffffff00) OR (signed_drop_bit 24 x AND 0xff))
            in write_or_return h (tmp AND NOT 3) 4 v' s' pcAfter))
      | OP_SWR \<Rightarrow>
          ASSERT (tmp AND 3 = 0) (read_or_return h (tmp AND NOT 3) 4 s (\<lambda>v s'.
            let x = R s' (rt i);
                v' = (if tmp AND 3 = 0 then (v AND 0xffffff) OR push_bit 24 x
                  else if tmp AND 3 = 1 then (v AND 0xffff) OR push_bit 16 x
                  else if tmp AND 3 = 2 then (v AND 0xff) OR push_bit 8 x
                  else x)
            in write_or_return h (tmp AND NOT 3) 4 v' s' pcAfter))
      | _ \<Rightarrow> exec_syscall h i pcAfter s)"

text \<open>\<open>OP_SUB\<close> to \<open>OP_SW\<close>.\<close>

definition exec_sub :: "'k handler \<Rightarrow> Instruction \<Rightarrow> 32 word \<Rightarrow> 'k sys \<Rightarrow> 'k outcome" where
  "exec_sub h i pcAfter s =
     (case opCode i of
        OP_SUB \<Rightarrow>
          (let diff = R s (rs i) - R s (rt i) in
           if signs_differ (R s (rs i)) (R s (rt i)) \<and> signs_differ (R s (rs i)) diff
           then trap_return h OverflowException 0 s
           else break_with pcAfter (setR (rd i) diff s))
      | OP_SUBU \<Rightarrow> break_with pcAfter (setR (rd i) (R s (rs i) - R s (rt i)) s)
      | OP_SW \<Rightarrow> write_or_return h (R s (rs i) + extra i) 4 (R s (rt i)) s pcAfter
      | _ \<Rightarrow> exec_swl h i pcAfter s)"

text \<open>\<open>OP_SB\<close> to \<open>OP_SRLV\<close>: stores, shifts, comparisons.\<close>

definition exec_shift :: "'k handler \<Rightarrow> Instruction \<Rightarrow> 32 word \<Rightarrow> 'k sys \<Rightarrow> 'k outcome" where
  "exec_shift h i pcAfter s =
     (let a = R s (rs i); b = R s (rt i); sh = unat (a AND 0x1f) in
      case opCode i of
        OP_SB \<Rightarrow> write_or_return h (a + extra i) 1 b s pcAfter
      | OP_SH \<Rightarrow> write_or_return h (a + extra i) 2 b s pcAfter
      | OP_SLL \<Rightarrow> break_with pcAfter (setR (rd i) (push_bit (unat (extra i)) b) s)
      | OP_SLLV \<Rightarrow> break_with pcAfter (setR (rd i) (push_bit sh b) s)
      | OP_SLT \<Rightarrow> break_with pcAfter (setR (rd i) (if sint a < sint b then 1 else 0) s)
      | OP_SLTI \<Rightarrow> break_with pcAfter (setR (rt i) (if sint a < sint (extra i) then 1 else 0) s)
      | OP_SLTIU \<Rightarrow> break_with pcAfter (setR (rt i) (if a < extra i then 1 else 0) s)
      | OP_SLTU \<Rightarrow> break_with pcAfter (setR (rd i) (if a < b then 1 else 0) s)
      | OP_SRA \<Rightarrow> break_with pcAfter (setR (rd i) (signed_drop_bit (unat (extra i)) b) s)
      | OP_SRAV \<Rightarrow> break_with pcAfter (setR (rd i) (signed_drop_bit sh b) s)
      | OP_SRL \<Rightarrow> break_with pcAfter (setR (rd i) (signed_drop_bit (unat (extra i)) b) s)
      | OP_SRLV \<Rightarrow> break_with pcAfter (setR (rd i) (signed_drop_bit sh b) s)
      | _ \<Rightarrow> exec_sub h i pcAfter s)"

text \<open>\<open>OP_MFHI\<close> to \<open>OP_ORI\<close>.\<close>

definition exec_hilo :: "'k handler \<Rightarrow> Instruction \<Rightarrow> 32 word \<Rightarrow> 'k sys \<Rightarrow> 'k outcome" where
  "exec_hilo h i pcAfter s =
     (let a = R s (rs i); b = R s (rt i) in
      case opCode i of
        OP_MFHI \<Rightarrow> break_with pcAfter (setR (rd i) (R s HiReg) s)
      | OP_MFLO \<Rightarrow> break_with pcAfter (setR (rd i) (R s LoReg) s)
      | OP_MTHI \<Rightarrow> break_with pcAfter (setR HiReg a s)
      | OP_MTLO \<Rightarrow> break_with pcAfter (setR LoReg a s)
      | OP_MULT \<Rightarrow> (case Mult a b True of (hi, lo) \<Rightarrow>
          break_with pcAfter (setR LoReg lo (setR HiReg hi s)))
      | OP_MULTU \<Rightarrow> (case Mult a b False of (hi, lo) \<Rightarrow>
          break_with pcAfter (setR LoReg lo (setR HiReg hi s)))
      | OP_NOR \<Rightarrow> break_with pcAfter (setR (rd i) (NOT (a OR b)) s)
      | OP_OR \<Rightarrow> break_with pcAfter (setR (rd i) (a OR a) s)
      | OP_ORI \<Rightarrow> break_with pcAfter (setR (rt i) (a OR (extra i AND 0xffff)) s)
      | _ \<Rightarrow> exec_shift h i pcAfter s)"

text \<open>
  \<open>OP_LWL\<close> and \<open>OP_LWR\<close>: a load pending for the same register is the value merged into.
\<close>

definition pending_or_reg :: "'k sys \<Rightarrow> Instruction \<Rightarrow> 32 word" where
  "pending_or_reg s i =
     (if R s LoadReg = word_of_nat (rt i) then R s LoadValueReg else R s (rt i))"

definition exec_lwl :: "'k handler \<Rightarrow> Instruction \<Rightarrow> 32 word \<Rightarrow> 'k sys \<Rightarrow> 'k outcome" where
  "exec_lwl h i pcAfter s =
     (let tmp = R s (rs i) + extra i in
      case opCode i of
        OP_LWL \<Rightarrow>
          ASSERT (tmp AND 3 = 0) (read_or_return h tmp 4 s (\<lambda>v s'.
            let nlv = pending_or_reg s' i;
                nlv' = (if tmp AND 3 = 0 then v
                  else if tmp AND 3 = 1 then (nlv AND 0xff) OR push_bit 8 v
                  else if tmp AND 3 = 2 then (nlv AND 0xffff) OR push_bit 16 v
                  else (nlv AND 0xffffff) OR push_bit 24 v)
            in break_load pcAfter (rt i) nlv' s'))
      | OP_LWR \<Rightarrow>
          ASSERT (tmp AND 3 = 0) (read_or_return h tmp 4 s (\<lambda>v s'.
            let nlv = pending_or_reg s' i;
                nlv' = (if tmp AND 3 = 0 then (nlv AND 0xffffff00) OR (signed_drop_bit 24 v AND 0xff)
                  else if tmp AND 3 = 1 then (nlv AND 0xffff0000) OR (signed_drop_bit 16 v AND 0xffff)
                  else if tmp AND 3 = 2 then (nlv AND 0xff000000) OR (signed_drop_bit 8 v AND 0xffffff)
                  else v)
            in break_load pcAfter (rt i) nlv' s'))
      | _ \<Rightarrow> exec_hilo h i pcAfter s)"

text \<open>\<open>OP_LB\<close> to \<open>OP_LW\<close>.\<close>

definition exec_load :: "'k handler \<Rightarrow> Instruction \<Rightarrow> 32 word \<Rightarrow> 'k sys \<Rightarrow> 'k outcome" where
  "exec_load h i pcAfter s =
     (let tmp = R s (rs i) + extra i;
          load_byte = read_or_return h tmp 1 s (\<lambda>v s'.
            break_load pcAfter (rt i)
              (if v AND 0x80 \<noteq> 0 \<and> opCode i = OP_LB then v OR 0xffffff00 else v AND 0xff) s');
          load_half = (if tmp AND 1 \<noteq> 0 then trap_return h AddressErrorException tmp s
            else read_or_return h tmp 2 s (\<lambda>v s'.
              break_load pcAfter (rt i)
                (if v AND 0x8000 \<noteq> 0 \<and> opCode i = OP_LH then v OR 0xffff0000 else v AND 0xffff) s'))
      in case opCode i of
        OP_LB \<Rightarrow> load_byte
      | OP_LBU \<Rightarrow> load_byte
      | OP_LH \<Rightarrow> load_half
      | OP_LHU \<Rightarrow> load_half
      | OP_LUI \<Rightarrow> break_with pcAfter (setR (rt i) (push_bit 16 (extra i)) s)
      | OP_LW \<Rightarrow>
          if tmp AND 3 \<noteq> 0 then trap_return h AddressErrorException tmp s
          else read_or_return h tmp 4 s (\<lambda>v s'. break_load pcAfter (rt i) v s')
      | _ \<Rightarrow> exec_lwl h i pcAfter s)"

text \<open>
  \<open>OP_DIV\<close> to \<open>OP_JR\<close>. The quotient of \<open>INT_MIN\<close> by \<open>-1\<close> traps on the host. \<open>OP_JAL\<close> falls through
  into \<open>OP_J\<close>, \<open>OP_JALR\<close> into \<open>OP_JR\<close>, which reads \<open>rs\<close> after \<open>rd\<close> has been written.
\<close>

definition exec_div :: "'k handler \<Rightarrow> Instruction \<Rightarrow> 32 word \<Rightarrow> 'k sys \<Rightarrow> 'k outcome" where
  "exec_div h i pcAfter s =
     (let a = R s (rs i); b = R s (rt i); link = R s NextPCReg + 4;
          jump = (pcAfter AND 0xf0000000) OR IndexToAddr (extra i) in
      case opCode i of
        OP_DIV \<Rightarrow>
          if b = 0 then break_with pcAfter (setR HiReg 0 (setR LoReg 0 s))
          else if sint a = - (2 ^ 31) \<and> sint b = -1 then Inl HostTrap
          else break_with pcAfter (setR HiReg (word_of_int (sint a smod sint b))
                 (setR LoReg (word_of_int (sint a sdiv sint b)) s))
      | OP_DIVU \<Rightarrow>
          if b = 0 then break_with pcAfter (setR HiReg 0 (setR LoReg 0 s))
          else break_with pcAfter (setR HiReg (a mod b) (setR LoReg (a div b) s))
      | OP_JAL \<Rightarrow> break_with jump (setR R31 link s)
      | OP_J \<Rightarrow> break_with jump s
      | OP_JALR \<Rightarrow> (let s' = setR (rd i) link s in break_with (R s' (rs i)) s')
      | OP_JR \<Rightarrow> break_with a s
      | _ \<Rightarrow> exec_load h i pcAfter s)"

text \<open>
  \<open>OP_ADD\<close> to \<open>OP_BNE\<close>. The linking branches write register 31 before they test \<open>rs\<close>.
\<close>

definition exec_add :: "'k handler \<Rightarrow> Instruction \<Rightarrow> 32 word \<Rightarrow> 'k sys \<Rightarrow> 'k outcome" where
  "exec_add h i pcAfter s =
     (let a = R s (rs i); b = R s (rt i); e = extra i;
          branch = (\<lambda>c s. break_with (if c then R s NextPCReg + IndexToAddr e else pcAfter) s);
          linked = setR R31 (R s NextPCReg + 4) s in
      case opCode i of
        OP_ADD \<Rightarrow>
          (let sum = a + b in
           if \<not> signs_differ a b \<and> signs_differ a sum then trap_return h OverflowException 0 s
           else break_with pcAfter (setR (rd i) sum s))
      | OP_ADDI \<Rightarrow>
          (let sum = a + e in
           if \<not> signs_differ a e \<and> signs_differ e sum then trap_return h OverflowException 0 s
           else break_with pcAfter (setR (rt i) sum s))
      | OP_ADDIU \<Rightarrow> break_with pcAfter (setR (rt i) (a + e) s)
      | OP_ADDU \<Rightarrow> break_with pcAfter (setR (rd i) (a + b) s)
      | OP_AND \<Rightarrow> break_with pcAfter (setR (rd i) (a AND b) s)
      | OP_ANDI \<Rightarrow> break_with pcAfter (setR (rt i) (a AND (e AND 0xffff)) s)
      | OP_BEQ \<Rightarrow> branch (a = b) s
      | OP_BGEZAL \<Rightarrow> branch (R linked (rs i) AND SIGN_BIT = 0) linked
      | OP_BGEZ \<Rightarrow> branch (a AND SIGN_BIT = 0) s
      | OP_BGTZ \<Rightarrow> branch (sint a > 0) s
      | OP_BLEZ \<Rightarrow> branch (sint a \<le> 0) s
      | OP_BLTZAL \<Rightarrow> branch (R linked (rs i) AND SIGN_BIT \<noteq> 0) linked
      | OP_BLTZ \<Rightarrow> branch (a AND SIGN_BIT \<noteq> 0) s
      | OP_BNE \<Rightarrow> branch (a \<noteq> b) s
      | _ \<Rightarrow> exec_div h i pcAfter s)"

text \<open>After the switch: the delayed load, then the program counters.\<close>

definition finish_instruction :: "32 word \<Rightarrow> 32 word \<Rightarrow> 32 word \<Rightarrow> 'k sys \<Rightarrow> 'k sys res" where
  "finish_instruction pcAfter nextLoadReg nextLoadValue s =
     bindR (DelayedLoad nextLoadReg nextLoadValue (cpu s)) (\<lambda>m.
       let m1 = set_reg PrevPCReg (reg m PCReg) m;
           m2 = set_reg PCReg (reg m1 NextPCReg) m1
       in Inr (s\<lparr>cpu := set_reg NextPCReg pcAfter m2\<rparr>))"




section \<open>The multiplier computes the product\<close>

text \<open>\<open>double hi lo\<close> is the number a pair of words stands for.\<close>

definition double :: "32 word \<Rightarrow> 32 word \<Rightarrow> int" where
  "double hi lo = uint hi * 2 ^ 32 + uint lo"

lemma double_range: "0 \<le> double hi lo" "double hi lo < 2 ^ 64"
proof -
  have "0 \<le> uint hi" "0 \<le> uint lo" "uint hi < 2 ^ 32" "uint lo < 2 ^ 32"
    using uint_bounded [of hi] uint_bounded [of lo] by simp_all
  then show "0 \<le> double hi lo" "double hi lo < 2 ^ 64" by (simp_all add: double_def)
qed

lemma double_mod: "double hi lo mod 2 ^ 64 = double hi lo"
  using double_range by (rule mod_pos_pos_trivial)

lemma mod_split_64: "(h mod 2 ^ 32 * 2 ^ 32 + l) mod 2 ^ 64 = (h * 2 ^ 32 + l) mod (2 ^ 64 :: int)"
proof -
  obtain q r where h: "h mod 2 ^ 32 = r" "h = q * 2 ^ 32 + r"
    using div_mult_mod_eq [of h "2 ^ 32"] by metis
  have "h * 2 ^ 32 + l = (r * 2 ^ 32 + l) + q * 2 ^ 64"
    unfolding h(2) by (simp add: distrib_right)
  then show ?thesis unfolding h(1) by (metis mod_mult_self1)
qed

lemma double_add:
  fixes hi lo bHi bLo :: "32 word"
  shows "double ((if lo + bLo < bLo then hi + 1 else hi) + bHi) (lo + bLo) =
    (double hi lo + double bHi bLo) mod 2 ^ 64"
proof -
  define l b where "l = uint lo" and "b = uint bLo"
  have lb: "0 \<le> l" "l < 2 ^ 32" "0 \<le> b" "b < 2 ^ 32"
    using uint_bounded [of lo] uint_bounded [of bLo] by (simp_all add: l_def b_def)
  define c :: int where "c = (if l + b < 2 ^ 32 then 0 else 1)"
  have s: "uint (lo + bLo) = l + b - c * 2 ^ 32"
  proof (cases "l + b < 2 ^ 32")
    case True
    then show ?thesis using lb by (simp add: c_def uint_word_ariths flip: l_def b_def)
  next
    case False
    have "(l + b) mod 2 ^ 32 = (l + b - 2 ^ 32) mod 2 ^ 32" by (rule minus_mod_self2 [symmetric])
    also have "\<dots> = l + b - 2 ^ 32" using lb False by (intro mod_pos_pos_trivial) simp_all
    finally show ?thesis using False by (simp add: c_def uint_word_ariths flip: l_def b_def)
  qed
  have carry: "lo + bLo < bLo \<longleftrightarrow> c = 1"
    unfolding word_less_def s using lb by (auto simp: c_def simp flip: b_def)
  have h: "uint ((if lo + bLo < bLo then hi + 1 else hi) + bHi) = (uint hi + c + uint bHi) mod 2 ^ 32"
    unfolding carry by (auto simp: c_def uint_word_ariths mod_add_left_eq)
  have "double ((if lo + bLo < bLo then hi + 1 else hi) + bHi) (lo + bLo) =
      ((uint hi + c + uint bHi) mod 2 ^ 32 * 2 ^ 32 + (l + b - c * 2 ^ 32)) mod 2 ^ 64"
    unfolding double_def h s [symmetric] by (metis double_mod double_def h)
  also have "\<dots> = ((uint hi + c + uint bHi) * 2 ^ 32 + (l + b - c * 2 ^ 32)) mod 2 ^ 64"
    by (rule mod_split_64)
  also have "\<dots> = (double hi lo + double bHi bLo) mod 2 ^ 64"
    by (simp add: double_def l_def b_def algebra_simps)
  finally show ?thesis .
qed

lemma double_shift:
  fixes bHi bLo :: "32 word"
  shows "double (if bLo AND 0x80000000 \<noteq> 0 then push_bit 1 bHi OR 1 else push_bit 1 bHi) (push_bit 1 bLo) =
    (2 * double bHi bLo) mod 2 ^ 64"
proof -
  have top: "bLo AND 0x80000000 \<noteq> 0 \<longleftrightarrow> bit bLo 31"
    using bit_iff_and_push_bit_not_eq_0 [of bLo 31] by simp
  define c :: int where "c = of_bool (bit bLo 31)"
  have "take_bit (Suc 31) (uint bLo) = uint bLo"
    using uint_bounded [of bLo] by (intro take_bit_int_eq_self) simp_all
  then have b: "uint bLo = 2 ^ 31 * c + take_bit 31 (uint bLo)"
    using take_bit_Suc_from_most [of 31 "uint bLo"] by (simp add: bit_uint_iff c_def)
  have t: "0 \<le> take_bit 31 (uint bLo)" "take_bit 31 (uint bLo) < 2 ^ 31"
    by (simp, rule take_bit_int_less_exp)
  have lo: "uint (push_bit 1 bLo) = 2 * take_bit 31 (uint bLo)"
    by (simp only: unsigned_push_bit_eq take_bit_push_bit) simp
  have o: "push_bit 1 bHi OR 1 = push_bit 1 bHi + 1"
    by (simp add: or_one_eq)
  have hi: "uint (if bLo AND 0x80000000 \<noteq> 0 then push_bit 1 bHi OR 1 else push_bit 1 bHi) =
      (2 * uint bHi + c) mod 2 ^ 32"
    unfolding top o
    by (simp add: c_def uint_word_ariths unsigned_push_bit_eq take_bit_eq_mod mod_add_left_eq
        mult.commute)
  have "double (if bLo AND 0x80000000 \<noteq> 0 then push_bit 1 bHi OR 1 else push_bit 1 bHi) (push_bit 1 bLo)
      = ((2 * uint bHi + c) mod 2 ^ 32 * 2 ^ 32 + 2 * take_bit 31 (uint bLo)) mod 2 ^ 64"
    unfolding hi [symmetric] lo [symmetric] by (metis double_mod double_def)
  also have "\<dots> = ((2 * uint bHi + c) * 2 ^ 32 + 2 * take_bit 31 (uint bLo)) mod 2 ^ 64"
    by (rule mod_split_64)
  also have "(2 * uint bHi + c) * 2 ^ 32 + 2 * take_bit 31 (uint bLo) = 2 * double bHi bLo"
    unfolding double_def by (subst b) (simp add: c_def algebra_simps)
  finally show ?thesis .
qed

lemma double_negate:
  "double (if NOT lo + 1 = 0 then NOT hi + 1 else NOT hi) (NOT lo + 1) = (- double hi lo) mod 2 ^ 64"
proof -
  have n: "uint (NOT w) = 2 ^ 32 - 1 - uint w" for w :: "32 word"
    using uint_bounded [of w]
    by (simp add: unsigned_not_eq take_bit_not_eq_mask_diff mask_eq_exp_minus_1 take_bit_int_eq_self)
  have s: "NOT lo + 1 = - lo" "NOT hi + 1 = - hi" by (simp_all add: minus_eq_not_plus_1)
  show ?thesis
  proof (cases "lo = 0")
    case True
    have u: "uint (- hi) = (- uint hi) mod 2 ^ 32" by (simp add: uint_word_ariths)
    have "double (- hi) 0 = ((- uint hi) mod 2 ^ 32 * 2 ^ 32 + 0) mod 2 ^ 64"
      unfolding u [symmetric] using double_mod [of "- hi" 0] by (simp add: double_def)
    then show ?thesis
      unfolding s True mod_split_64 by (simp add: double_def)
  next
    case False
    then have "uint lo \<noteq> 0" by (simp add: uint_0_iff)
    then have l: "uint (- lo) = 2 ^ 32 - uint lo"
      using uint_bounded [of lo] by (simp add: uint_word_ariths zmod_zminus1_eq_if)
    have "double (NOT hi) (- lo) = - double hi lo + 2 ^ 64"
      by (simp add: double_def l n algebra_simps)
    then have "double (NOT hi) (- lo) mod 2 ^ 64 = (- double hi lo) mod 2 ^ 64" by simp
    then show ?thesis using False unfolding s double_mod by simp
  qed
qed

lemma mod_linear: "(x mod m + r * (y mod m)) mod m = (x + r * y) mod (m :: int)"
  by (metis mod_add_left_eq mod_add_right_eq mod_mult_right_eq)

lemma mult_loop_double:
  "n \<le> 32 \<Longrightarrow> (case mult_loop n a bHi bLo hi lo of (hi', lo') \<Rightarrow> double hi' lo') =
     (double hi lo + take_bit n (uint a) * double bHi bLo) mod 2 ^ 64"
proof (induction n arbitrary: a bHi bLo hi lo)
  case 0
  then show ?case using double_mod [of hi lo] by simp
next
  case (Suc n)
  have odd_a: "a AND 1 \<noteq> 0 \<longleftrightarrow> odd (uint a)"
    by (simp add: and_one_eq odd_iff_mod_2_eq_one uint_mod flip: uint_0_iff)
  have shift: "take_bit n (uint (signed_drop_bit 1 a)) = take_bit n (uint a div 2)"
    using Suc.prems by (intro bit_eqI) (auto simp: bit_simps bit_uint_iff simp flip: drop_bit_Suc drop_bit_0 bit_Suc)
  have tb: "take_bit (Suc n) (uint a) = of_bool (odd (uint a)) + 2 * take_bit n (uint a div 2)"
    by (simp add: take_bit_Suc mod_2_eq_odd)
  let ?lo = "if odd (uint a) then lo + bLo else lo"
  let ?hi = "if odd (uint a) then (if ?lo < bLo then hi + 1 else hi) + bHi else hi"
  let ?bHi = "if bLo AND 0x80000000 \<noteq> 0 then push_bit 1 bHi OR 1 else push_bit 1 bHi"
  let ?A = "of_bool (odd (uint a)) :: int" and ?R = "take_bit n (uint a div 2)"
  have P: "double ?hi ?lo = (double hi lo + ?A * double bHi bLo) mod 2 ^ 64"
    using double_add [of lo bLo hi bHi] double_mod [of hi lo] by simp
  show ?case
  proof (cases "odd (uint a) \<and> a AND 0xfffffffe = 0")
    case True
    have "NOT 1 = (0xfffffffe :: 32 word)" by (simp add: word_eq_iff_unsigned)
    then have "a AND NOT 1 = 0" using True by metis
    moreover have "a = (a AND 1) OR (a AND NOT 1)"
      by (rule bit_word_eqI) (auto simp: bit_simps)
    ultimately have "a = a AND 1" by simp
    then have "uint a = uint (a AND 1)" by (rule arg_cong)
    also have "\<dots> = 1" using True by (simp add: and_one_eq uint_mod odd_iff_mod_2_eq_one)
    finally have "uint a = 1" .
    then have "?R = 0" by simp
    with True show ?thesis using P unfolding mult_loop.simps Let_def odd_a tb by simp
  next
    case False
    have "(case mult_loop (Suc n) a bHi bLo hi lo of (hi', lo') \<Rightarrow> double hi' lo') =
        (double ?hi ?lo + ?R * double ?bHi (push_bit 1 bLo)) mod 2 ^ 64"
      using False Suc.IH [of "signed_drop_bit 1 a" ?bHi "push_bit 1 bLo" ?hi ?lo] Suc.prems
      unfolding mult_loop.simps Let_def odd_a shift by (simp only: if_False Suc_leD)
    also have "\<dots> = ((double hi lo + ?A * double bHi bLo) + ?R * (2 * double bHi bLo)) mod 2 ^ 64"
      unfolding P double_shift by (rule mod_linear)
    also have "(double hi lo + ?A * double bHi bLo) + ?R * (2 * double bHi bLo) =
        double hi lo + take_bit (Suc n) (uint a) * double bHi bLo"
      unfolding tb by (simp add: algebra_simps)
    finally show ?thesis .
  qed
qed

lemma uint_abs: "uint (if sint a < 0 then - a else a) = \<bar>sint a\<bar>" for a :: "32 word"
proof -
  have u: "0 \<le> uint a" "uint a < 2 ^ 32" using uint_bounded [of a] by simp_all
  have "take_bit (Suc 31) (uint a) = uint a" using u by (intro take_bit_int_eq_self) simp_all
  then have "sint a = uint a - 2 ^ Suc 31 * of_bool (bit (uint a) 31)"
    using signed_take_bit_eq_take_bit_minus [of 31 "uint a"] by (simp add: sint_uint)
  then have s: "sint a = uint a - (if sint a < 0 then 2 ^ 32 else 0)"
    using u by (cases "bit (uint a) 31") simp_all
  show ?thesis
  proof (cases "sint a < 0")
    case True
    moreover have "- (2 ^ 31) \<le> sint a"
      using signed_take_bit_int_greater_eq_minus_exp [of 31 "uint a"] by (simp add: sint_uint)
    ultimately have "uint a \<noteq> 0" using s u by auto
    then have "uint (- a) = 2 ^ 32 - uint a"
      using u by (simp add: uint_word_ariths zmod_zminus1_eq_if)
    then show ?thesis using True s by simp
  next
    case False
    then show ?thesis using s by simp
  qed
qed

section \<open>Every instruction keeps the machine well formed\<close>

text \<open>
  \<open>good h out\<close>: the outcome of a case leaves a machine on which the rest of the cycle is safe, and
  if it fails at all, then by an \<open>ASSERT\<close>, a trap of the host, or a failure of the handler.
\<close>

definition fault_ok :: "'k handler \<Rightarrow> fault \<Rightarrow> bool" where
  "fault_ok h e \<longleftrightarrow> e = AssertFailed \<or> e = HostTrap \<or> (\<exists>which t. machine_ok (cpu t) \<and> h which t = Inl e)"

definition good :: "'k handler \<Rightarrow> 'k outcome \<Rightarrow> bool" where
  "good h out \<longleftrightarrow> (case out of
     Inl e \<Rightarrow> fault_ok h e
   | Inr (s', None) \<Rightarrow> machine_ok (cpu s')
   | Inr (s', Some (pc, r, v)) \<Rightarrow> machine_wf (cpu s') \<and> 0 \<le> sint r \<and> sint r < 32)"

lemma cpu_setR [simp]: "cpu (setR n v s) = set_reg n v (cpu s)"
  by (simp add: setR_def)

lemma good_break_with [simp]: "good h (break_with pc s) \<longleftrightarrow> machine_wf (cpu s)"
  by (simp add: good_def break_with_def)

lemma good_break_load [simp]: "r < 32 \<Longrightarrow> good h (break_load pc r v s) \<longleftrightarrow> machine_wf (cpu s)"
proof -
  assume r: "r < 32"
  then have "sint (word_of_nat r :: 32 word) = int r"
    by (simp add: signed_of_nat signed_take_bit_int_eq_self)
  with r show ?thesis by (simp add: good_def break_load_def)
qed

lemma good_Inl [simp]: "good h (Inl AssertFailed)" "good h (Inl HostTrap)"
  by (simp_all add: good_def fault_ok_def)

















section \<open>Decoding\<close>


lemma table_field: "aget xs (uint (w AND 0x3f)) = Inr (xs ! unat (w AND 0x3f))" if "length xs = 64" for w :: "32 word"
proof -
  have "(0x3f :: 32 word) = mask 6" by (simp add: mask_eq_exp_minus_1)
  then have "w AND 0x3f = take_bit 6 w" by (simp add: take_bit_eq_mask)
  then have "unat (w AND 0x3f) < 64" using take_bit_nat_less_exp [of 6 "unat w"] by (simp add: unsigned_take_bit_eq)
  moreover have "uint (w AND 0x3f) = int (unat (w AND 0x3f))" by simp
  ultimately show ?thesis using that unfolding aget_def by (simp only: nat_int of_nat_less_iff of_nat_0_le_iff) simp
qed

lemma table_lengths: "length opTable = 64" "length specialTable = 64"
  by (simp_all add: opTable_def specialTable_def)

lemma if_Inr: "(if c then Inr x else Inr y) = Inr (if c then x else y)"
  by simp

lemmas Decode_simps = Decode_def if_Inr table_field [OF table_lengths(1)] table_field [OF table_lengths(2)]

text \<open>Both tables have an entry for every index of six bits, so the decoder never fails.\<close>

lemma Decode_total:
  "\<exists>i. Decode w = Inr i \<and> rs i = unat (drop_bit 21 w AND 0x1f) \<and> rt i = unat (drop_bit 16 w AND 0x1f) \<and> rd i = unat (drop_bit 11 w AND 0x1f) \<and>
     opCode i = (let op = fst (opTable ! unat (drop_bit 26 w AND 0x3f)); b = w AND 0x1f0000 in
       if op = SPECIAL then specialTable ! unat (w AND 0x3f)
       else if op = BCOND then
         (if b = 0 then OP_BLTZ else if b = 0x10000 then OP_BGEZ else if b = 0x100000 then OP_BLTZAL
          else if b = 0x110000 then OP_BGEZAL else OP_UNIMP)
       else op) \<and>
     extra i = (case snd (opTable ! unat (drop_bit 26 w AND 0x3f)) of
       IFMT \<Rightarrow> (let e = w AND 0xffff in if e AND 0x8000 \<noteq> 0 then e OR 0xffff0000 else e)
     | RFMT \<Rightarrow> drop_bit 6 w AND 0x1f | JFMT \<Rightarrow> w AND 0x3ffffff)"
  by (cases "snd (opTable ! unat (drop_bit 26 w AND 0x3f))") (simp_all only: Decode_simps split_def Let_def bindR_Inr, simp_all)





text \<open>Sign tests.\<close>

lemma sign_bit_bit: "w AND SIGN_BIT \<noteq> 0 \<longleftrightarrow> bit w 31" for w :: "32 word"
  using bit_iff_and_push_bit_not_eq_0 [of w 31] by (simp add: SIGN_BIT_def)

lemma bit_31_iff: "bit w 31 \<longleftrightarrow> sint w < 0" for w :: "32 word"
  by (simp add: sint_uint bit_uint_iff)

lemma signs_differ_iff: "signs_differ x y \<longleftrightarrow> (sint x < 0) \<noteq> (sint y < 0)"
  unfolding signs_differ_def sign_bit_bit bit_31_iff [symmetric] bit_xor_iff by blast

lemma sint_wrap:
  "sint (word_of_int k :: 32 word) = (if - (2 ^ 31) \<le> k \<and> k < 2 ^ 31 then k
     else if 2 ^ 31 \<le> k \<and> k < 2 ^ 31 + 2 ^ 32 then k - 2 ^ 32
     else if - (2 ^ 31) - 2 ^ 32 \<le> k \<and> k < - (2 ^ 31) then k + 2 ^ 32
     else sint (word_of_int k :: 32 word))"
proof -
  have e: "sint (word_of_int j :: 32 word) = j" if "- (2 ^ 31) \<le> j" "j < 2 ^ 31" for j
    using that by (simp add: signed_of_int signed_take_bit_int_eq_self)
  have p: "(word_of_int (k - 2 ^ 32) :: 32 word) = word_of_int k"
      "(word_of_int (k + 2 ^ 32) :: 32 word) = word_of_int k"
    by (simp_all add: word_of_int_eq_iff take_bit_eq_mod)
  show ?thesis using e [of k] e [of "k - 2 ^ 32"] e [of "k + 2 ^ 32"] unfolding p by auto
qed

lemma sint_bounds: "- (2 ^ 31) \<le> sint w" "sint w < 2 ^ 31" for w :: "32 word"
  using signed_take_bit_int_greater_eq_minus_exp [of 31 "uint w"]
    signed_take_bit_int_less_exp [of 31 "uint w"] by (simp_all add: sint_uint)

lemma add_overflow:
  fixes a b :: "32 word"
  shows "(\<not> signs_differ a b \<and> signs_differ a (a + b)) \<longleftrightarrow> sint a + sint b < - (2 ^ 31) \<or> 2 ^ 31 \<le> sint a + sint b"
    and "\<not> (\<not> signs_differ a b \<and> signs_differ a (a + b)) \<Longrightarrow> sint (a + b) = sint a + sint b"
proof -
  have s: "a + b = word_of_int (sint a + sint b)" by simp
  note w = sint_wrap [of "sint a + sint b", folded s]
  show "(\<not> signs_differ a b \<and> signs_differ a (a + b)) \<longleftrightarrow> sint a + sint b < - (2 ^ 31) \<or> 2 ^ 31 \<le> sint a + sint b"
    using w sint_bounds [of a] sint_bounds [of b] unfolding signs_differ_iff by (auto split: if_splits)
  then show "\<not> (\<not> signs_differ a b \<and> signs_differ a (a + b)) \<Longrightarrow> sint (a + b) = sint a + sint b"
    using w by auto
qed

lemma sub_overflow:
  fixes a b :: "32 word"
  shows "(signs_differ a b \<and> signs_differ a (a - b)) \<longleftrightarrow> sint a - sint b < - (2 ^ 31) \<or> 2 ^ 31 \<le> sint a - sint b"
    and "\<not> (signs_differ a b \<and> signs_differ a (a - b)) \<Longrightarrow> sint (a - b) = sint a - sint b"
proof -
  have s: "a - b = word_of_int (sint a - sint b)" by simp
  note w = sint_wrap [of "sint a - sint b", folded s]
  show "(signs_differ a b \<and> signs_differ a (a - b)) \<longleftrightarrow> sint a - sint b < - (2 ^ 31) \<or> 2 ^ 31 \<le> sint a - sint b"
    using w sint_bounds [of a] sint_bounds [of b] unfolding signs_differ_iff by (auto split: if_splits)
  then show "\<not> (signs_differ a b \<and> signs_differ a (a - b)) \<Longrightarrow> sint (a - b) = sint a - sint b"
    using w by auto
qed
section \<open>Encoding\<close>

definition assemble :: "6 word \<Rightarrow> 5 word \<Rightarrow> 5 word \<Rightarrow> 16 word \<Rightarrow> 32 word" where
  "assemble op s t imm = push_bit 26 (ucast op) OR push_bit 21 (ucast s) OR push_bit 16 (ucast t) OR ucast imm"

lemma masks: "(0x3f :: 32 word) = mask 6" "(0x1f :: 32 word) = mask 5" "(0xffff :: 32 word) = mask 16"
  "(0x3ffffff :: 32 word) = mask 26" "(0xffff0000 :: 32 word) = NOT (mask 16)"
  by (simp_all add: mask_eq_exp_minus_1)

lemma bit_small: "bit w n \<Longrightarrow> n < LENGTH('a)" for w :: "'a::len word"
  by (rule bit_imp_le_length)

lemma unat_ucast_32: "unat (ucast w :: 32 word) = unat w" if "LENGTH('a) \<le> 32" for w :: "'a::len word"
proof -
  have "unat w < 2 ^ LENGTH('a)" by simp
  also have "\<dots> \<le> 2 ^ 32" using that by (intro power_increasing) simp_all
  finally show ?thesis by (simp add: unsigned_ucast_eq take_bit_nat_eq_self)
qed

lemma assemble_fields:
  "drop_bit 26 (assemble op s t imm) AND 0x3f = ucast op"
  "drop_bit 21 (assemble op s t imm) AND 0x1f = ucast s"
  "drop_bit 16 (assemble op s t imm) AND 0x1f = ucast t"
  "assemble op s t imm AND 0xffff = ucast imm"
  unfolding masks
  by (rule bit_word_eqI, force simp: assemble_def bit_simps dest: bit_small)+


lemma assemble_rest:
  "drop_bit 11 (assemble op s t imm) AND 0x1f = ucast (drop_bit 11 imm)"
  "drop_bit 6 (assemble op s t imm) AND 0x1f = ucast (drop_bit 6 imm AND 0x1f)"
  "assemble op s t imm AND 0x3ffffff = assemble 0 s t imm"
  "assemble op s t imm AND 0x3f = ucast (imm AND 0x3f)"
  "assemble op s t imm AND 0x1f0000 = push_bit 16 (ucast t)"
proof -
  have m: "(0x1f :: 16 word) = mask 5" "(0x3f :: 16 word) = mask 6" "(0x1f0000 :: 32 word) = push_bit 16 (mask 5)"
    by (simp_all add: mask_eq_exp_minus_1)
  show "drop_bit 11 (assemble op s t imm) AND 0x1f = ucast (drop_bit 11 imm)"
    unfolding masks by (rule bit_word_eqI, force simp: assemble_def bit_simps dest: bit_small)
  show "drop_bit 6 (assemble op s t imm) AND 0x1f = ucast (drop_bit 6 imm AND 0x1f)"
    unfolding masks m by (rule bit_word_eqI, force simp: assemble_def bit_simps dest: bit_small)
  show "assemble op s t imm AND 0x3ffffff = assemble 0 s t imm"
    unfolding masks by (rule bit_word_eqI, force simp: assemble_def bit_simps dest: bit_small)
  show "assemble op s t imm AND 0x3f = ucast (imm AND 0x3f)"
    unfolding masks m by (rule bit_word_eqI, force simp: assemble_def bit_simps dest: bit_small)
  show "assemble op s t imm AND 0x1f0000 = push_bit 16 (ucast t)"
    unfolding m by (rule bit_word_eqI, force simp: assemble_def bit_simps dest: bit_small)
qed

lemma sign_extend_16:
  "(if (ucast imm :: 32 word) AND 0x8000 \<noteq> 0 then ucast imm OR 0xffff0000 else ucast imm) =
     (scast (imm :: 16 word) :: 32 word)"
proof -
  have b: "(ucast imm :: 32 word) AND 0x8000 \<noteq> 0 \<longleftrightarrow> bit imm 15"
    using bit_iff_and_push_bit_not_eq_0 [of "ucast imm :: 32 word" 15] by (simp add: bit_simps)
  have l: "n < 16" if "bit imm n" for n using bit_imp_le_length [OF that] by simp
  show ?thesis unfolding b masks
  proof (rule bit_word_eqI)
    fix n assume "n < LENGTH(32)"
    moreover have "n < 15 \<or> n = 15 \<or> 15 < n" by arith
    ultimately show "bit (if bit imm 15 then ucast imm OR NOT (mask 16) else ucast imm :: 32 word) n =
        bit (scast imm :: 32 word) n"
      by (elim disjE) (auto simp: bit_simps bit_signed_iff min_def dest: l)
  qed
qed

lemma opcodes_handled: "Decode w = Inr i \<Longrightarrow> opCode i \<notin> {SPECIAL, BCOND, OP_RFE}"
proof -
  let ?k = "unat (drop_bit 26 w AND 0x3f)" and ?j = "unat (w AND 0x3f)"
  have lt: "unat (x AND 0x3f) < 64" for x :: "32 word"
    using take_bit_nat_less_exp [of 6 "unat x"] unfolding masks
    by (simp add: unsigned_take_bit_eq flip: take_bit_eq_mask)
  have k: "opTable ! ?k \<in> set opTable" and j: "specialTable ! ?j \<in> set specialTable"
    using lt table_lengths by (simp_all add: nth_mem)
  have sets: "\<forall>e \<in> set opTable. fst e \<noteq> OP_RFE" "\<forall>e \<in> set specialTable. e \<notin> {SPECIAL, BCOND, OP_RFE}"
    by (simp_all add: opTable_def specialTable_def)
  obtain op fmt where e: "opTable ! ?k = (op, fmt)" by fastforce
  have "op \<noteq> OP_RFE" using sets(1) k e by auto
  then show "opCode i \<notin> {SPECIAL, BCOND, OP_RFE}" if "Decode w = Inr i"
    using that Decode_total [of w] sets(2) j by (auto simp: e Let_def)
qed

definition fits32 :: "int \<Rightarrow> bool" where
  "fits32 k \<longleftrightarrow> - (2 ^ 31) \<le> k \<and> k < 2 ^ 31"

lemma fits32_add: "fits32 (sint a + sint b) \<longleftrightarrow> \<not> (\<not> signs_differ a b \<and> signs_differ a (a + b))"
  unfolding add_overflow(1) by (auto simp: fits32_def)

lemma fits32_sub: "fits32 (sint a - sint b) \<longleftrightarrow> \<not> (signs_differ a b \<and> signs_differ a (a - b))"
  unfolding sub_overflow(1) by (auto simp: fits32_def)

section \<open>Properties\<close>

text \<open>
  C23: \<open>Mult\<close> leaves the exact 64-bit product in its two words, signed or unsigned, for every pair
  of operands, the early exit of the loop and the most negative operand included.
\<close>

theorem Mult_product:
  "(case Mult a b signedArith of (hi, lo) \<Rightarrow> uint hi * 2 ^ 32 + uint lo) =
     (if signedArith then sint a * sint b else uint a * uint b) mod 2 ^ 64"
proof (cases "a = 0 \<or> b = 0")
  case True
  then show ?thesis by (auto simp: Mult_def)
next
  case False
  define nega negb where "nega = (signedArith \<and> sint a < 0)" and "negb = (signedArith \<and> sint b < 0)"
  define a' b' where "a' = (if nega then - a else a)" and "b' = (if negb then - b else b)"
  obtain hi lo where m: "mult_loop 32 a' 0 b' 0 0 = (hi, lo)" by fastforce
  have "take_bit 32 (uint a') = uint a'"
    using uint_bounded [of a'] by (intro take_bit_int_eq_self) simp_all
  then have d: "double hi lo = (uint a' * uint b') mod 2 ^ 64"
    using mult_loop_double [of 32 a' 0 b' 0 0] m by (simp add: double_def)
  have M: "Mult a b signedArith = (if nega \<noteq> negb then
      (if NOT lo + 1 = 0 then NOT hi + 1 else NOT hi, NOT lo + 1) else (hi, lo))"
    unfolding Mult_def Let_def nega_def [symmetric] negb_def [symmetric] a'_def [symmetric]
      b'_def [symmetric] m using False by simp
  have "(case Mult a b signedArith of (hi, lo) \<Rightarrow> double hi lo) =
      (if nega \<noteq> negb then - (uint a' * uint b') else uint a' * uint b') mod 2 ^ 64"
  proof (cases "nega \<noteq> negb")
    case True
    then show ?thesis unfolding M using double_negate [of lo hi] by (simp add: d mod_simps)
  next
    case False
    then show ?thesis unfolding M using d by simp
  qed
  also have "(if nega \<noteq> negb then - (uint a' * uint b') else uint a' * uint b') =
      (if signedArith then sint a * sint b else uint a * uint b)"
    using uint_abs [of a] uint_abs [of b]
    by (auto simp: a'_def b'_def nega_def negb_def abs_if)
  finally show ?thesis by (simp add: double_def)
qed



text \<open>
  C39: \<open>ADD\<close>, \<open>ADDI\<close> and \<open>SUB\<close> store the exact signed result when it fits 32 bits, and raise the
  overflow exception, changing no register, exactly when it does not.
\<close>

theorem signed_arith_exact:
  "exec_add h (i\<lparr>opCode := OP_ADD\<rparr>) pc s =
     (if fits32 (sint (R s (rs i)) + sint (R s (rt i)))
      then break_with pc (setR (rd i) (word_of_int (sint (R s (rs i)) + sint (R s (rt i)))) s)
      else trap_return h OverflowException 0 s) \<and>
   exec_add h (i\<lparr>opCode := OP_ADDI\<rparr>) pc s =
     (if fits32 (sint (R s (rs i)) + sint (extra i))
      then break_with pc (setR (rt i) (word_of_int (sint (R s (rs i)) + sint (extra i))) s)
      else trap_return h OverflowException 0 s) \<and>
   exec_add h (i\<lparr>opCode := OP_SUB\<rparr>) pc s =
     (if fits32 (sint (R s (rs i)) - sint (R s (rt i)))
      then break_with pc (setR (rd i) (word_of_int (sint (R s (rs i)) - sint (R s (rt i)))) s)
      else trap_return h OverflowException 0 s)"
proof (intro conjI)
  have comm: "sint a + sint b = sint b + sint (a :: 32 word)" for a b :: "32 word" by simp
  show "exec_add h (i\<lparr>opCode := OP_ADD\<rparr>) pc s =
      (if fits32 (sint (R s (rs i)) + sint (R s (rt i)))
       then break_with pc (setR (rd i) (word_of_int (sint (R s (rs i)) + sint (R s (rt i)))) s)
       else trap_return h OverflowException 0 s)"
    unfolding fits32_add by (simp add: exec_add_def Let_def)
  show "exec_add h (i\<lparr>opCode := OP_ADDI\<rparr>) pc s =
      (if fits32 (sint (R s (rs i)) + sint (extra i))
       then break_with pc (setR (rt i) (word_of_int (sint (R s (rs i)) + sint (extra i))) s)
       else trap_return h OverflowException 0 s)"
    unfolding comm [of "R s (rs i)"] fits32_add
    by (auto simp: exec_add_def Let_def signs_differ_iff add.commute)
  show "exec_add h (i\<lparr>opCode := OP_SUB\<rparr>) pc s =
      (if fits32 (sint (R s (rs i)) - sint (R s (rt i)))
       then break_with pc (setR (rd i) (word_of_int (sint (R s (rs i)) - sint (R s (rt i)))) s)
       else trap_return h OverflowException 0 s)"
    unfolding fits32_sub
    by (simp add: exec_add_def exec_div_def exec_load_def exec_lwl_def exec_hilo_def exec_shift_def
        exec_sub_def Let_def)
qed

text \<open>
  The decoder takes the fields of an instruction word apart: register fields, and the
  immediate sign-extended for an I-format instruction, the shift amount or the jump target for the
  others; and no word decodes to an opcode the execution switch does not handle.
\<close>

theorem Decode_fields:
  "\<exists>i. Decode (assemble op s t imm) = Inr i \<and>
   rs i = unat s \<and> rt i = unat t \<and> rd i = unat (drop_bit 11 imm) \<and>
   extra i = (case snd (opTable ! unat op) of
       IFMT \<Rightarrow> scast imm
     | RFMT \<Rightarrow> ucast (drop_bit 6 imm AND 0x1f)
     | JFMT \<Rightarrow> assemble 0 s t imm) \<and>
   opCode i = (let o' = fst (opTable ! unat op) in
     if o' = SPECIAL then specialTable ! unat (imm AND 0x3f)
     else if o' = BCOND then
       (if t = 0 then OP_BLTZ else if t = 1 then OP_BGEZ else if t = 16 then OP_BLTZAL
        else if t = 17 then OP_BGEZAL else OP_UNIMP)
     else o') \<and>
   opCode i \<notin> {SPECIAL, BCOND, OP_RFE}"
proof -
  have t: "push_bit 16 (ucast t :: 32 word) = push_bit 16 (ucast u) \<longleftrightarrow> t = u" for u :: "5 word"
  proof
    assume "push_bit 16 (ucast t :: 32 word) = push_bit 16 (ucast u)"
    then have e: "bit (push_bit 16 (ucast t :: 32 word)) (n + 16) = bit (push_bit 16 (ucast u :: 32 word)) (n + 16)" for n
      by simp
    have *: "bit t n = bit u n" if "n < 5" for n
      using e [of n] that by (simp add: bit_simps)
    show "t = u" by (rule bit_word_eqI) (simp add: *)
  qed simp
  note tt = t [of 0] t [of 1] t [of 16] t [of 17]
  let ?w = "assemble op s t imm"
  obtain i where i: "Decode ?w = Inr i" "rs i = unat (drop_bit 21 ?w AND 0x1f)" "rt i = unat (drop_bit 16 ?w AND 0x1f)"
      "rd i = unat (drop_bit 11 ?w AND 0x1f)"
    and o: "opCode i = (let op = fst (opTable ! unat (drop_bit 26 ?w AND 0x3f)); b = ?w AND 0x1f0000 in
       if op = SPECIAL then specialTable ! unat (?w AND 0x3f)
       else if op = BCOND then
         (if b = 0 then OP_BLTZ else if b = 0x10000 then OP_BGEZ else if b = 0x100000 then OP_BLTZAL
          else if b = 0x110000 then OP_BGEZAL else OP_UNIMP)
       else op)"
    and x: "extra i = (case snd (opTable ! unat (drop_bit 26 ?w AND 0x3f)) of
       IFMT \<Rightarrow> (let e = ?w AND 0xffff in if e AND 0x8000 \<noteq> 0 then e OR 0xffff0000 else e)
     | RFMT \<Rightarrow> drop_bit 6 ?w AND 0x1f | JFMT \<Rightarrow> ?w AND 0x3ffffff)"
    using Decode_total [of ?w] by blast
  have f: "rs i = unat s" "rt i = unat t" "rd i = unat (drop_bit 11 imm)"
    using i(2-4) by (simp_all only: assemble_fields assemble_rest) (simp_all add: unat_ucast_32)
  have "extra i = (case snd (opTable ! unat op) of IFMT \<Rightarrow> scast imm | RFMT \<Rightarrow> ucast (drop_bit 6 imm AND 0x1f) | JFMT \<Rightarrow> assemble 0 s t imm)"
    using x by (cases "snd (opTable ! unat op)") (simp_all add: Let_def assemble_fields assemble_rest unat_ucast_32 sign_extend_16)
  moreover have "opCode i = (let o' = fst (opTable ! unat op) in
     if o' = SPECIAL then specialTable ! unat (imm AND 0x3f)
     else if o' = BCOND then
       (if t = 0 then OP_BLTZ else if t = 1 then OP_BGEZ else if t = 16 then OP_BLTZAL
        else if t = 17 then OP_BGEZAL else OP_UNIMP)
     else o')"
    using o tt by (simp add: Let_def assemble_fields assemble_rest unat_ucast_32)
  ultimately show ?thesis using i(1) f opcodes_handled [OF i(1)] by blast
qed

text \<open>
  A loaded value reaches its register one instruction late: after the load the register holds
  what it held (or the value of a load pending before), after the next instruction the new value.
\<close>

theorem load_delay_slot:
  assumes "machine_wf (cpu s)" and "0 < r" and "r < 32"
  shows "\<exists>s1 s2. finish_instruction pc1 (word_of_nat r) v s = Inr s1 \<and>
    R s1 r = (if R s LoadReg = word_of_nat r then R s LoadValueReg else R s r) \<and>
    R s1 PCReg = R s NextPCReg \<and> R s1 NextPCReg = pc1 \<and>
    finish_instruction pc2 0 0 s1 = Inr s2 \<and> R s2 r = v \<and> R s2 PCReg = pc1 \<and> R s2 NextPCReg = pc2"
proof -
  have ri: "sint (word_of_nat r :: 32 word) = int r"
    using assms(3) by (simp add: signed_of_nat signed_take_bit_int_eq_self)
  have r: "0 \<le> sint (word_of_nat r :: 32 word)" "sint (word_of_nat r :: 32 word) < 32"
    using ri assms by simp_all
  have z: "0 \<le> sint (0 :: 32 word)" "sint (0 :: 32 word) < 32" by simp_all
  have pend: "int r = sint x \<longleftrightarrow> x = word_of_nat r" for x :: "32 word"
    using ri by (metis signed_word_eqI)
  have l: "int PCReg \<noteq> sint (reg m LoadReg)" "int NextPCReg \<noteq> sint (reg m LoadReg)" if "machine_wf m" for m
    using that by (auto simp: machine_wf_def)
  obtain m1 where m1: "DelayedLoad (word_of_nat r) v (cpu s) = Inr m1" "machine_ok m1"
      "reg m1 LoadReg = word_of_nat r" "reg m1 LoadValueReg = v"
      "\<forall>n. 0 < n \<and> n < 40 \<and> n \<noteq> LoadReg \<and> n \<noteq> LoadValueReg \<longrightarrow> reg m1 n =
         (if int n = sint (reg (cpu s) LoadReg) then reg (cpu s) LoadValueReg else reg (cpu s) n)"
    using DelayedLoad_ok [OF assms(1) r, of v] by blast
  define t1 where "t1 = set_reg NextPCReg pc1 (set_reg PCReg (reg (set_reg PrevPCReg (reg m1 PCReg) m1) NextPCReg)
      (set_reg PrevPCReg (reg m1 PCReg) m1))"
  have w1: "machine_wf m1" "machine_wf t1" using m1(2) by (simp_all add: t1_def machine_ok_def)
  have f1: "finish_instruction pc1 (word_of_nat r) v s = Inr (s\<lparr>cpu := t1\<rparr>)"
    by (simp add: finish_instruction_def m1(1) t1_def Let_def)
  have t1: "reg t1 n = (if n = NextPCReg then pc1 else if n = PCReg then reg m1 NextPCReg
      else if n = PrevPCReg then reg m1 PCReg else reg m1 n)" for n
    using w1(1) by (simp add: t1_def reg_wf)
  obtain m2 where m2: "DelayedLoad 0 0 t1 = Inr m2" "machine_ok m2"
      "\<forall>n. 0 < n \<and> n < 40 \<and> n \<noteq> LoadReg \<and> n \<noteq> LoadValueReg \<longrightarrow> reg m2 n =
         (if int n = sint (reg t1 LoadReg) then reg t1 LoadValueReg else reg t1 n)"
    using DelayedLoad_ok [OF w1(2) z, of 0] by blast
  define t2 where "t2 = set_reg NextPCReg pc2 (set_reg PCReg (reg (set_reg PrevPCReg (reg m2 PCReg) m2) NextPCReg)
      (set_reg PrevPCReg (reg m2 PCReg) m2))"
  have w2: "machine_wf m2" using m2(2) by (simp add: machine_ok_def)
  have f2: "finish_instruction pc2 0 0 (s\<lparr>cpu := t1\<rparr>) = Inr (s\<lparr>cpu := t2\<rparr>)"
    by (simp add: finish_instruction_def m2(1) t2_def Let_def)
  have t2: "reg t2 n = (if n = NextPCReg then pc2 else if n = PCReg then reg m2 NextPCReg
      else if n = PrevPCReg then reg m2 PCReg else reg m2 n)" for n
    using w2 by (simp add: t2_def reg_wf)
  have "reg t1 r = (if reg (cpu s) LoadReg = word_of_nat r then reg (cpu s) LoadValueReg else reg (cpu s) r)"
    "reg t1 PCReg = reg (cpu s) NextPCReg" "reg t1 NextPCReg = pc1"
    using assms l [OF assms(1)] by (simp_all add: t1 m1(5) pend)
  moreover have "reg t2 r = v" "reg t2 PCReg = pc1" "reg t2 NextPCReg = pc2"
    using assms l [OF w1(2)] ri by (simp_all add: t2 m2(3) t1 m1(3,4))
  ultimately show ?thesis using f1 f2 by (auto simp: R_def)
qed

theorem load_delay_slot_witness:
  "let s = \<lparr>cpu = one_page_machine, status = UserMode, kernel = ()\<rparr> in
   machine_wf (cpu s) \<and> (0::nat) < 4 \<and> (4::nat) < 32 \<and>
   (\<exists>s1 s2. finish_instruction 8 4 99 s = Inr s1 \<and> R s1 4 = 0 \<and>
     finish_instruction 12 0 0 s1 = Inr s2 \<and> R s2 4 = 99)"
proof -
  define s :: "unit sys" where "s = \<lparr>cpu = one_page_machine, status = UserMode, kernel = ()\<rparr>"
  have wf: "machine_wf (cpu s)" by (simp add: s_def one_page_machine_wf)
  have z: "R s LoadReg = 0" "R s 4 = 0"
    by (simp_all add: R_def reg_def s_def one_page_machine_def Machine_new_def NumTotalRegs_def)
  show ?thesis
    using load_delay_slot [OF wf, of 4 8 99 12] wf unfolding s_def [symmetric] Let_def
    by (auto simp: z)
qed

end
