(* ===== verification/DiskDev.thy ===== *)
theory DiskDev
  imports Nachos_Prelude
begin

text \<open>
  The disk: \<open>machine/stats.cc\<close> (the counters the devices share), \<open>machine/disk.cc\<close> (the device, kept
  in a UNIX file, with its timing model) and \<open>filesys/synchdisk.cc\<close> (one request at a time, waiting
  for the interrupt). Times are C \<open>int\<close>s, kept as integers; \<open>/\<close> and \<open>%\<close> are \<open>sdiv\<close> and \<open>smod\<close>.
\<close>

section \<open>Statistics\<close>

record statistics =
  totalTicks :: int
  idleTicks :: int
  systemTicks :: int
  userTicks :: int
  numPageOuts :: int
  numPageIns :: int
  numDiskReads :: int
  numDiskWrites :: int
  numConsoleCharsRead :: int
  numConsoleCharsWritten :: int
  numPageFaults :: int
  numPacketsSent :: int
  numPacketsRecvd :: int

definition Statistics_new :: statistics where
  "Statistics_new = \<lparr>totalTicks = 0, idleTicks = 0, systemTicks = 0, userTicks = 0, numPageOuts = 0,
     numPageIns = 0, numDiskReads = 0, numDiskWrites = 0, numConsoleCharsRead = 0,
     numConsoleCharsWritten = 0, numPageFaults = 0, numPacketsSent = 0, numPacketsRecvd = 0\<rparr>"

definition UserTick :: int where "UserTick = 1"
definition SystemTick :: int where "SystemTick = 10"
definition RotationTime :: int where "RotationTime = 500"
definition SeekTime :: int where "SeekTime = 500"
definition TimerTicks :: int where "TimerTicks = 100"

section \<open>The device\<close>

definition SecSize :: int where "SecSize = 128"
definition SectorsPerTrack :: int where "SectorsPerTrack = 32"
definition NumTracks :: int where "NumTracks = 32"
definition NumSectors :: int where "NumSectors = SectorsPerTrack * NumTracks"
definition MagicNumber :: "32 word" where "MagicNumber = 0x456789ab"
definition MagicSize :: int where "MagicSize = 4"
definition DiskSize :: int where "DiskSize = MagicSize + NumSectors * SecSize"

lemmas disk_consts = SecSize_def SectorsPerTrack_def NumTracks_def NumSectors_def MagicSize_def
  DiskSize_def RotationTime_def SeekTime_def

text \<open>
  \<open>diskFile\<close> is the content of the UNIX file. The interrupt handler the disk was given is part of its
  user, \<open>SynchDisk\<close>.
\<close>

record disk =
  diskFile :: "8 word list"
  active :: bool
  lastSector :: int
  bufferInit :: int

text \<open>
  The constructor: \<open>None\<close> when the UNIX file does not exist. It is then created with the magic number
  at the front and an integer 0 written at its end, the hole between them reading as zeros. \<open>Read\<close>
  stops the program (an \<open>ASSERT\<close> in \<open>sysdep.cc\<close>) when the file is too short.
\<close>

definition Disk_new :: "8 word list option \<Rightarrow> disk res" where
  "Disk_new name =
     (case name of
        Some f \<Rightarrow>
          ASSERT (MagicSize \<le> int (length f)) (ASSERT (le_word (take 4 f) = MagicNumber)
            (Inr \<lparr>diskFile = f, active = False, lastSector = 0, bufferInit = 0\<rparr>))
      | None \<Rightarrow>
          let magic = le_bytes 4 MagicNumber;
              hole = replicate (nat (DiskSize - 4 - MagicSize)) 0;
              tmp = le_bytes 4 0
          in Inr \<lparr>diskFile = magic @ hole @ tmp, active = False, lastSector = 0, bufferInit = 0\<rparr>)"

text \<open>\<open>TimeToSeek\<close> returns the seek time and stores the rotation to the next sector boundary.\<close>

definition TimeToSeek :: "disk \<Rightarrow> statistics \<Rightarrow> int \<Rightarrow> int \<times> int" where
  "TimeToSeek d st newSector =
     (let newTrack = newSector sdiv SectorsPerTrack;
          oldTrack = lastSector d sdiv SectorsPerTrack;
          seek = \<bar>newTrack - oldTrack\<bar> * SeekTime;
          over = (totalTicks st + seek) smod RotationTime
      in (seek, if over > 0 then RotationTime - over else 0))"

definition ModuloDiff :: "int \<Rightarrow> int \<Rightarrow> int" where
  "ModuloDiff to from =
     ((to smod SectorsPerTrack - from smod SectorsPerTrack) + SectorsPerTrack) smod SectorsPerTrack"

definition ComputeLatency :: "disk \<Rightarrow> statistics \<Rightarrow> int \<Rightarrow> bool \<Rightarrow> int" where
  "ComputeLatency d st newSector writing =
     (let (seek, rotation) = TimeToSeek d st newSector;
          timeAfter = totalTicks st + seek + rotation
      in if \<not> writing \<and> seek = 0 \<and>
           ModuloDiff newSector (bufferInit d sdiv RotationTime) < (timeAfter - bufferInit d) sdiv RotationTime
         then RotationTime
         else seek + (rotation + ModuloDiff newSector (timeAfter sdiv RotationTime) * RotationTime)
           + RotationTime)"

definition UpdateLast :: "disk \<Rightarrow> statistics \<Rightarrow> int \<Rightarrow> disk" where
  "UpdateLast d st newSector =
     (let (seek, rotate) = TimeToSeek d st newSector;
          d' = (if seek \<noteq> 0 then d\<lparr>bufferInit := totalTicks st + seek + rotate\<rparr> else d)
      in d'\<lparr>lastSector := newSector\<rparr>)"

text \<open>
  A request transfers the data at once and returns the time after which its interrupt is scheduled.
  Reading beyond the end of the UNIX file fails the \<open>ASSERT\<close> of \<open>Read\<close>; writing there extends it.
\<close>

definition ReadRequest :: "disk \<Rightarrow> statistics \<Rightarrow> int \<Rightarrow> (disk \<times> statistics \<times> 8 word list \<times> int) res" where
  "ReadRequest d st sectorNumber =
     (let ticks = ComputeLatency d st sectorNumber False in
      ASSERT (\<not> active d) (ASSERT (0 \<le> sectorNumber \<and> sectorNumber < NumSectors)
        (let p = nat (SecSize * sectorNumber + MagicSize) in
         ASSERT (p + nat SecSize \<le> length (diskFile d))
           (Inr (UpdateLast (d\<lparr>active := True\<rparr>) st sectorNumber,
                 st\<lparr>numDiskReads := numDiskReads st + 1\<rparr>, slice (diskFile d) p (nat SecSize), ticks)))))"

definition WriteRequest :: "disk \<Rightarrow> statistics \<Rightarrow> int \<Rightarrow> 8 word list \<Rightarrow> (disk \<times> statistics \<times> int) res" where
  "WriteRequest d st sectorNumber data =
     (let ticks = ComputeLatency d st sectorNumber True in
      ASSERT (\<not> active d) (ASSERT (0 \<le> sectorNumber \<and> sectorNumber < NumSectors)
        (if length data < nat SecSize then Inl BadAccess
         else
           let p = nat (SecSize * sectorNumber + MagicSize);
               f = diskFile d @ replicate (p - length (diskFile d)) 0;
               d' = d\<lparr>diskFile := blit f p (take (nat SecSize) data), active := True\<rparr>
           in Inr (UpdateLast d' st sectorNumber, st\<lparr>numDiskWrites := numDiskWrites st + 1\<rparr>, ticks))))"

definition HandleInterrupt :: "disk \<Rightarrow> disk" where
  "HandleInterrupt d = d\<lparr>active := False\<rparr>"

section \<open>The synchronous disk\<close>

text \<open>
  Between \<open>Acquire\<close> and \<open>Release\<close> of the lock of the disk only one request is under way, so a call is
  one step: the request, its interrupt after the returned time (with the machine idle till then),
  \<open>V\<close> of the semaphore by the handler and \<open>P\<close> by the caller, which must find it positive.
\<close>

record synch_disk =
  sd_disk :: disk
  sd_stats :: statistics
  semaphore :: int

definition SynchDisk_new :: "8 word list option \<Rightarrow> statistics \<Rightarrow> synch_disk res" where
  "SynchDisk_new name st =
     bindR (Disk_new name) (\<lambda>d. Inr \<lparr>sd_disk = d, sd_stats = st, semaphore = 0\<rparr>)"

definition RequestDone :: "synch_disk \<Rightarrow> synch_disk" where
  "RequestDone s = s\<lparr>sd_disk := HandleInterrupt (sd_disk s), semaphore := semaphore s + 1\<rparr>"

definition wait_for_interrupt :: "int \<Rightarrow> synch_disk \<Rightarrow> synch_disk res" where
  "wait_for_interrupt ticks s =
     (let st = sd_stats s;
          s1 = RequestDone (s\<lparr>sd_stats := st\<lparr>totalTicks := totalTicks st + ticks,
                                             idleTicks := idleTicks st + ticks\<rparr>\<rparr>)
      in if semaphore s1 > 0 then Inr (s1\<lparr>semaphore := semaphore s1 - 1\<rparr>) else Inl Blocked)"

definition ReadSector :: "synch_disk \<Rightarrow> int \<Rightarrow> (synch_disk \<times> 8 word list) res" where
  "ReadSector s sectorNumber =
     bindR (ReadRequest (sd_disk s) (sd_stats s) sectorNumber) (\<lambda>(d, st, data, ticks).
     bindR (wait_for_interrupt ticks (s\<lparr>sd_disk := d, sd_stats := st\<rparr>)) (\<lambda>s'. Inr (s', data)))"

definition WriteSector :: "synch_disk \<Rightarrow> int \<Rightarrow> 8 word list \<Rightarrow> synch_disk res" where
  "WriteSector s sectorNumber data =
     bindR (WriteRequest (sd_disk s) (sd_stats s) sectorNumber data) (\<lambda>(d, st, ticks).
     wait_for_interrupt ticks (s\<lparr>sd_disk := d, sd_stats := st\<rparr>))"

section \<open>Timing\<close>

lemma ModuloDiff_range:
  assumes "0 \<le> a" "0 \<le> b"
  shows "ModuloDiff a b = (a - b) mod 32" "0 \<le> ModuloDiff a b" "ModuloDiff a b < 32"
proof -
  have "ModuloDiff a b = ((a mod 32 - b mod 32) + 32) mod 32"
    using assms pos_mod_bound [of 32 a] pos_mod_bound [of 32 b] pos_mod_sign [of 32 a]
    by (simp add: ModuloDiff_def disk_consts smod_nonneg_eq)
  also have "\<dots> = (a - b) mod 32" by (simp add: mod_simps)
  finally show m: "ModuloDiff a b = (a - b) mod 32" .
  show "0 \<le> ModuloDiff a b" "ModuloDiff a b < 32" by (simp_all add: m)
qed

lemma TimeToSeek_ok:
  assumes "0 \<le> totalTicks st" "0 \<le> lastSector d" "lastSector d < NumSectors" "0 \<le> n" "n < NumSectors"
    and t: "TimeToSeek d st n = (seek, rot)"
  shows "0 \<le> seek" "seek \<le> 31 * 500" "0 \<le> rot" "rot < 500" "(totalTicks st + seek + rot) mod 500 = 0"
    "seek = 0 \<longleftrightarrow> n div 32 = lastSector d div 32" "seek mod 500 = 0"
proof -
  define a b where "a = n div 32" and "b = lastSector d div 32"
  have ab: "0 \<le> a" "a \<le> 31" "0 \<le> b" "b \<le> 31"
    using assms by (simp_all add: a_def b_def disk_consts)
  have s: "seek = \<bar>a - b\<bar> * 500"
    using t assms by (simp add: TimeToSeek_def Let_def disk_consts sdiv_nonneg_eq a_def b_def)
  show s0: "0 \<le> seek" "seek \<le> 31 * 500" using ab by (simp_all add: s abs_if)
  define x where "x = totalTicks st + seek"
  have x: "0 \<le> x" using s0 assms(1) by (simp add: x_def)
  have r: "rot = (if 0 < x mod 500 then 500 - x mod 500 else 0)"
    using t x by (auto simp: TimeToSeek_def Let_def disk_consts smod_nonneg_eq x_def)
  have "x mod 500 \<le> 500" using pos_mod_bound [of 500 x] by linarith
  then show "0 \<le> rot" "rot < 500" unfolding r by simp_all
  have "(x + rot) mod 500 = 0"
  proof (cases "0 < x mod 500")
    case True
    then have "rot = 500 - x mod 500" using r by simp
    then have "x + rot = (x div 500) * 500 + 500" using div_mult_mod_eq [of x 500] by linarith
    then show ?thesis by simp
  next
    case False
    then have "x mod 500 = 0" by (smt (verit) pos_mod_sign)
    then show ?thesis using False r by simp
  qed
  then show "(totalTicks st + seek + rot) mod 500 = 0" by (simp add: x_def)
  show "seek = 0 \<longleftrightarrow> n div 32 = lastSector d div 32" by (simp add: s a_def b_def)
  show "seek mod 500 = 0" by (simp add: s)
qed

section \<open>The interface: a store of sectors\<close>

text \<open>
  What the file system relies on: sector \<open>i\<close> holds \<open>sec s i\<close>; reading returns it, writing replaces it
  and nothing else.
\<close>

fun read_each :: "('s \<Rightarrow> int \<Rightarrow> ('s \<times> 'b list) res) \<Rightarrow> 's \<Rightarrow> int list \<Rightarrow> ('s \<times> 'b list) res" where
  "read_each rd s [] = Inr (s, [])"
| "read_each rd s (i # is) =
     bindR (rd s i) (\<lambda>(s', b). bindR (read_each rd s' is) (\<lambda>(s'', bs). Inr (s'', b @ bs)))"

fun write_each :: "('s \<Rightarrow> int \<Rightarrow> 'b list \<Rightarrow> 's res) \<Rightarrow> nat \<Rightarrow> 's \<Rightarrow> int list \<Rightarrow> 'b list \<Rightarrow> 's res" where
  "write_each wr n s [] bs = Inr s"
| "write_each wr n s (i # is) bs =
     bindR (wr s i (take n bs)) (\<lambda>s'. write_each wr n s' is (drop n bs))"

locale sector_store =
  fixes rd :: "'s \<Rightarrow> int \<Rightarrow> ('s \<times> 'b list) res"
    and wr :: "'s \<Rightarrow> int \<Rightarrow> 'b list \<Rightarrow> 's res"
    and sec :: "'s \<Rightarrow> int \<Rightarrow> 'b list"
    and ok :: "'s \<Rightarrow> bool"
    and nsec :: int
    and bsize :: nat
  assumes rd_ok: "ok s \<Longrightarrow> 0 \<le> i \<Longrightarrow> i < nsec \<Longrightarrow>
      \<exists>s'. rd s i = Inr (s', sec s i) \<and> ok s' \<and> (\<forall>j. 0 \<le> j \<and> j < nsec \<longrightarrow> sec s' j = sec s j)"
    and wr_ok: "ok s \<Longrightarrow> 0 \<le> i \<Longrightarrow> i < nsec \<Longrightarrow> length d = bsize \<Longrightarrow>
      \<exists>s'. wr s i d = Inr s' \<and> ok s' \<and> sec s' i = d \<and>
        (\<forall>j. 0 \<le> j \<and> j < nsec \<and> j \<noteq> i \<longrightarrow> sec s' j = sec s j)"
    and sec_len: "ok s \<Longrightarrow> 0 \<le> i \<Longrightarrow> i < nsec \<Longrightarrow> length (sec s i) = bsize"
begin

lemma read_each_ok:
  "ok s \<Longrightarrow> \<forall>i \<in> set is. 0 \<le> i \<and> i < nsec \<Longrightarrow>
     \<exists>s'. read_each rd s is = Inr (s', concat (map (sec s) is)) \<and> ok s' \<and>
       (\<forall>j. 0 \<le> j \<and> j < nsec \<longrightarrow> sec s' j = sec s j)"
proof (induction "is" arbitrary: s)
  case (Cons i "is")
  obtain s1 where 1: "rd s i = Inr (s1, sec s i)" "ok s1"
      "\<forall>j. 0 \<le> j \<and> j < nsec \<longrightarrow> sec s1 j = sec s j"
    using rd_ok [OF Cons.prems(1), of i] Cons.prems(2) by auto
  obtain s2 where 2: "read_each rd s1 is = Inr (s2, concat (map (sec s1) is))" "ok s2"
      "\<forall>j. 0 \<le> j \<and> j < nsec \<longrightarrow> sec s2 j = sec s1 j"
    using Cons.IH [OF 1(2)] Cons.prems(2) by auto
  have "map (sec s1) is = map (sec s) is" using 1(3) Cons.prems(2) by auto
  with 1 2 show ?case by auto
qed simp

lemma write_each_ok:
  "ok s \<Longrightarrow> \<forall>i \<in> set is. 0 \<le> i \<and> i < nsec \<Longrightarrow> distinct is \<Longrightarrow> length bs = length is * bsize \<Longrightarrow>
     \<exists>s'. write_each wr bsize s is bs = Inr s' \<and> ok s' \<and>
       (\<forall>k < length is. sec s' (is ! k) = slice bs (k * bsize) bsize) \<and>
       (\<forall>j. 0 \<le> j \<and> j < nsec \<and> j \<notin> set is \<longrightarrow> sec s' j = sec s j)"
proof (induction "is" arbitrary: s bs)
  case (Cons i "is")
  have "length (take bsize bs) = bsize" using Cons.prems(4) by simp
  then obtain s1 where 1: "wr s i (take bsize bs) = Inr s1" "ok s1" "sec s1 i = take bsize bs"
      "\<forall>j. 0 \<le> j \<and> j < nsec \<and> j \<noteq> i \<longrightarrow> sec s1 j = sec s j"
    using wr_ok [OF Cons.prems(1), of i "take bsize bs"] Cons.prems(2) by auto
  obtain s2 where 2: "write_each wr bsize s1 is (drop bsize bs) = Inr s2" "ok s2"
      "\<forall>k < length is. sec s2 (is ! k) = slice (drop bsize bs) (k * bsize) bsize"
      "\<forall>j. 0 \<le> j \<and> j < nsec \<and> j \<notin> set is \<longrightarrow> sec s2 j = sec s1 j"
    using Cons.IH [OF 1(2), of "drop bsize bs"] Cons.prems by auto
  have "sec s2 i = take bsize bs" using 2(4) 1(3) Cons.prems(2,3) by auto
  then have "sec s2 ((i # is) ! k) = slice bs (k * bsize) bsize" if "k < length (i # is)" for k
    using 2(3) that by (cases k) (auto simp: slice_def add.commute)
  moreover have "\<forall>j. 0 \<le> j \<and> j < nsec \<and> j \<notin> set (i # is) \<longrightarrow> sec s2 j = sec s j"
    using 2(4) 1(4) by auto
  ultimately show ?case using 1(1) 2(1,2) by auto
qed simp

end

section \<open>The synchronous disk is a store of sectors\<close>

definition disk_ok :: "disk \<Rightarrow> bool" where
  "disk_ok d \<longleftrightarrow> int (length (diskFile d)) = DiskSize \<and> 0 \<le> lastSector d \<and> lastSector d < NumSectors \<and>
     0 \<le> bufferInit d \<and> bufferInit d mod RotationTime = 0"

definition synch_ok :: "synch_disk \<Rightarrow> bool" where
  "synch_ok s \<longleftrightarrow> disk_ok (sd_disk s) \<and> \<not> active (sd_disk s) \<and> semaphore s = 0 \<and>
     0 \<le> totalTicks (sd_stats s)"

definition sector_at :: "disk \<Rightarrow> int \<Rightarrow> 8 word list" where
  "sector_at d i = slice (diskFile d) (nat (128 * i + 4)) 128"

definition sector_of :: "synch_disk \<Rightarrow> int \<Rightarrow> 8 word list" where
  "sector_of s i = sector_at (sd_disk s) i"

lemma UpdateLast_simps [simp]:
  "diskFile (UpdateLast d st n) = diskFile d" "active (UpdateLast d st n) = active d"
  "lastSector (UpdateLast d st n) = n"
  by (simp_all add: UpdateLast_def Let_def split_def)

lemma UpdateLast_ok:
  assumes "disk_ok d" "0 \<le> totalTicks st" "0 \<le> n" "n < NumSectors"
  shows "disk_ok (UpdateLast d st n)"
proof -
  obtain seek rot where t: "TimeToSeek d st n = (seek, rot)" by fastforce
  note tt = TimeToSeek_ok [OF assms(2) _ _ assms(3,4) t]
  have "0 \<le> bufferInit (UpdateLast d st n)" "bufferInit (UpdateLast d st n) mod 500 = 0"
    using assms tt by (auto simp: UpdateLast_def t disk_ok_def RotationTime_def)
  then show ?thesis using assms by (simp add: disk_ok_def RotationTime_def)
qed

lemma latency_pos:
  assumes "disk_ok d" "0 \<le> totalTicks st" "0 \<le> n" "n < NumSectors"
  shows "500 \<le> ComputeLatency d st n w"
proof -
  obtain seek rot where t: "TimeToSeek d st n = (seek, rot)" by fastforce
  note tt = TimeToSeek_ok [OF assms(2) _ _ assms(3,4) t]
  have "0 \<le> totalTicks st + seek + rot" using tt(1,3) assms by (simp add: disk_ok_def)
  then have "0 \<le> ModuloDiff n ((totalTicks st + seek + rot) sdiv 500)"
    using assms(3) by (intro ModuloDiff_range) (simp_all add: sdiv_nonneg_eq pos_imp_zdiv_nonneg_iff)
  then show ?thesis
    using tt(1,3) assms(1) by (simp add: ComputeLatency_def t Let_def RotationTime_def disk_ok_def)
qed

lemma sector_bounds: "0 \<le> i \<Longrightarrow> i < 1024 \<Longrightarrow> nat (128 * i + 4) + 128 \<le> 131076"
  by simp

lemma ReadSector_ok:
  assumes "synch_ok s" "0 \<le> i" "i < NumSectors"
  shows "\<exists>s'. ReadSector s i = Inr (s', sector_of s i) \<and> synch_ok s' \<and>
    diskFile (sd_disk s') = diskFile (sd_disk s)"
proof -
  have ok: "disk_ok (sd_disk s)" "0 \<le> totalTicks (sd_stats s)" "\<not> active (sd_disk s)"
      "semaphore s = 0" using assms(1) by (simp_all add: synch_ok_def)
  have act: "disk_ok ((sd_disk s)\<lparr>active := True\<rparr>)" using ok(1) by (simp add: disk_ok_def)
  have len: "nat (SecSize * i + MagicSize) + nat SecSize \<le> length (diskFile (sd_disk s))"
    using ok(1) assms(2,3) by (simp add: disk_ok_def disk_consts)
  note u = UpdateLast_ok [OF act ok(2) assms(2,3)]
  have lat: "500 \<le> ComputeLatency (sd_disk s) (sd_stats s) i False"
    using latency_pos [OF ok(1,2) assms(2,3)] .
  show ?thesis
    using assms(2,3) ok lat len u
    by (simp add: ReadSector_def ReadRequest_def wait_for_interrupt_def RequestDone_def
        HandleInterrupt_def Let_def synch_ok_def sector_of_def sector_at_def disk_ok_def SecSize_def
        MagicSize_def)
qed

lemma WriteSector_ok:
  assumes "synch_ok s" "0 \<le> i" "i < NumSectors" "length b = 128"
  shows "\<exists>s'. WriteSector s i b = Inr s' \<and> synch_ok s' \<and>
    diskFile (sd_disk s') = blit (diskFile (sd_disk s)) (nat (128 * i + 4)) b"
proof -
  have ok: "disk_ok (sd_disk s)" "0 \<le> totalTicks (sd_stats s)" "\<not> active (sd_disk s)"
      "semaphore s = 0" using assms(1) by (simp_all add: synch_ok_def)
  have len: "length (diskFile (sd_disk s)) = 131076" using ok(1) by (simp add: disk_ok_def disk_consts)
  have p: "nat (128 * i + 4) + 128 \<le> 131076"
    using assms(2,3) by (intro sector_bounds) (simp_all add: disk_consts)
  let ?f = "blit (diskFile (sd_disk s)) (nat (128 * i + 4)) b"
  have "length ?f = 131076" using len p assms(4) by simp
  then have act: "disk_ok ((sd_disk s)\<lparr>diskFile := ?f, active := True\<rparr>)"
    using ok(1) by (simp add: disk_ok_def disk_consts)
  note u = UpdateLast_ok [OF act ok(2) assms(2,3)]
  have lat: "500 \<le> ComputeLatency (sd_disk s) (sd_stats s) i True"
    using latency_pos [OF ok(1,2) assms(2,3)] .
  have pad: "diskFile (sd_disk s) @ replicate (nat (128 * i + 4) - length (diskFile (sd_disk s))) 0 =
      diskFile (sd_disk s)" using p len by simp
  show ?thesis
    using assms(2-4) ok lat u pad
    by (simp add: WriteSector_def WriteRequest_def wait_for_interrupt_def RequestDone_def
        HandleInterrupt_def Let_def synch_ok_def disk_ok_def SecSize_def MagicSize_def)
qed

lemma sector_of_len:
  "synch_ok s \<Longrightarrow> 0 \<le> i \<Longrightarrow> i < NumSectors \<Longrightarrow> length (sector_of s i) = 128"
  using sector_bounds [of i]
  by (simp add: sector_of_def sector_at_def synch_ok_def disk_ok_def disk_consts)

interpretation sd: sector_store ReadSector WriteSector sector_of synch_ok NumSectors 128
proof unfold_locales
  fix s i assume s: "synch_ok s" and i: "0 \<le> i" "i < NumSectors"
  show "\<exists>s'. ReadSector s i = Inr (s', sector_of s i) \<and> synch_ok s' \<and>
      (\<forall>j. 0 \<le> j \<and> j < NumSectors \<longrightarrow> sector_of s' j = sector_of s j)"
    using ReadSector_ok [OF s i] by (auto simp: sector_of_def sector_at_def)
  show "length (sector_of s i) = 128" using sector_of_len [OF s i] .
  fix d :: "8 word list" assume d: "length d = 128"
  have len: "length (diskFile (sd_disk s)) = 131076"
    using s by (simp add: synch_ok_def disk_ok_def disk_consts)
  obtain s' where w: "WriteSector s i d = Inr s'" "synch_ok s'"
      "diskFile (sd_disk s') = blit (diskFile (sd_disk s)) (nat (128 * i + 4)) d"
    using WriteSector_ok [OF s i d] by blast
  have b: "nat (128 * j + 4) + 128 \<le> length (diskFile (sd_disk s))" if "0 \<le> j" "j < NumSectors" for j
    using that sector_bounds [of j] len by (simp add: disk_consts)
  have "sector_of s' i = d"
    using slice_blit_same [of "nat (128 * i + 4)" d "diskFile (sd_disk s)"] b [OF i] d w(3)
    by (simp add: sector_of_def sector_at_def)
  moreover have "sector_of s' j = sector_of s j" if j: "0 \<le> j" "j < NumSectors" "j \<noteq> i" for j
  proof -
    have "nat (128 * j + 4) + 128 \<le> nat (128 * i + 4) \<or> nat (128 * i + 4) + 128 \<le> nat (128 * j + 4)"
      using i j by linarith
    then show ?thesis
      using slice_blit_disjoint [of "nat (128 * i + 4)" d "diskFile (sd_disk s)" "nat (128 * j + 4)" 128]
        b [OF i] b [OF j(1,2)] d w(3)
      by (simp add: sector_of_def sector_at_def)
  qed
  ultimately show "\<exists>s'. WriteSector s i d = Inr s' \<and> synch_ok s' \<and> sector_of s' i = d \<and>
      (\<forall>j. 0 \<le> j \<and> j < NumSectors \<and> j \<noteq> i \<longrightarrow> sector_of s' j = sector_of s j)"
    using w(1,2) by blast
qed

section \<open>Properties\<close>

text \<open>
  A new disk, whether its UNIX file existed (with the right magic number and size) or is created,
  accepts requests; a created one reads as zeros in every sector.
\<close>

theorem SynchDisk_new_ok:
  assumes "0 \<le> totalTicks st" and "case name of None \<Rightarrow> True
    | Some f \<Rightarrow> int (length f) = DiskSize \<and> le_word (take 4 f) = MagicNumber"
  shows "\<exists>s. SynchDisk_new name st = Inr s \<and> synch_ok s \<and>
    (\<forall>i. 0 \<le> i \<and> i < NumSectors \<longrightarrow> (\<exists>s'. ReadSector s i =
       Inr (s', case name of None \<Rightarrow> replicate 128 0 | Some f \<Rightarrow> slice f (nat (128 * i + 4)) 128)))"
proof -
  define f where "f = (case name of None \<Rightarrow>
      le_bytes 4 MagicNumber @ replicate (nat (DiskSize - 4 - MagicSize)) 0 @ le_bytes 4 0 | Some f \<Rightarrow> f)"
  define s where "s = \<lparr>sd_disk = \<lparr>diskFile = f, active = False, lastSector = 0, bufferInit = 0\<rparr>,
      sd_stats = st, semaphore = 0\<rparr>"
  have len: "int (length f) = DiskSize"
    using assms(2) by (auto simp: f_def disk_consts split: option.splits)
  have run: "SynchDisk_new name st = Inr s"
    using assms(2) by (auto simp: SynchDisk_new_def Disk_new_def s_def f_def disk_consts
        split: option.splits)
  have ok: "synch_ok s"
    using len assms(1) by (simp add: s_def synch_ok_def disk_ok_def disk_consts)
  have sec: "sector_of s i = (case name of None \<Rightarrow> replicate 128 0
      | Some f \<Rightarrow> slice f (nat (128 * i + 4)) 128)" if i: "0 \<le> i" "i < NumSectors" for i
  proof (cases name)
    case None
    have b: "nat (128 * i + 4) + 128 \<le> 131076" "4 \<le> nat (128 * i + 4)"
      using i sector_bounds [of i] by (simp_all add: disk_consts)
    have z: "le_bytes 4 0 = replicate 4 (0 :: 8 word)" by (simp add: numeral_eq_Suc)
    have f: "f = le_bytes 4 MagicNumber @ replicate 131072 0"
      using None z by (simp add: f_def disk_consts flip: replicate_add)
    have "slice f (nat (128 * i + 4)) 128 = replicate 128 0"
    proof (rule nth_equalityI)
      show "length (slice f (nat (128 * i + 4)) 128) = length (replicate 128 (0 :: 8 word))"
        using b by (simp add: f)
      fix k assume "k < length (slice f (nat (128 * i + 4)) 128)"
      then have "k < 128" using b by (simp add: f)
      then show "slice f (nat (128 * i + 4)) 128 ! k = replicate 128 0 ! k"
        using b by (simp add: f nth_append)
    qed
    then show ?thesis using None by (simp add: sector_of_def sector_at_def s_def)
  next
    case (Some a)
    then show ?thesis by (simp add: sector_of_def sector_at_def s_def f_def)
  qed
  have "\<exists>s'. ReadSector s i = Inr (s', sector_of s i)" if i: "0 \<le> i" "i < NumSectors" for i
    using sd.rd_ok [OF ok i] by blast
  then have "\<forall>i. 0 \<le> i \<and> i < NumSectors \<longrightarrow> (\<exists>s'. ReadSector s i =
      Inr (s', case name of None \<Rightarrow> replicate 128 0 | Some f \<Rightarrow> slice f (nat (128 * i + 4)) 128))"
    using sec by metis
  then show ?thesis using run ok by blast
qed

theorem SynchDisk_new_ok_witness:
  "0 \<le> totalTicks Statistics_new \<and> (\<exists>s s'. SynchDisk_new None Statistics_new = Inr s \<and>
     ReadSector s 5 = Inr (s', replicate 128 0))"
proof -
  have "0 \<le> totalTicks Statistics_new" by (simp add: Statistics_new_def)
  with SynchDisk_new_ok [of Statistics_new None] show ?thesis
    by (force simp: disk_consts)
qed

fun write_list :: "synch_disk \<Rightarrow> (int \<times> 8 word list) list \<Rightarrow> synch_disk res" where
  "write_list s [] = Inr s"
| "write_list s ((i, b) # ws) = bindR (WriteSector s i b) (\<lambda>s'. write_list s' ws)"

text \<open>
  The disk keeps what is written: reading a sector after any sequence of writes returns what the
  last write to that sector stored, or the old content where there was none; requests in range never
  fail and leave the disk ready for the next one.
\<close>

theorem sectors_keep_data:
  assumes "synch_ok s" and "\<forall>(i, b) \<in> set ws. 0 \<le> i \<and> i < NumSectors \<and> length b = 128"
    and "0 \<le> j" and "j < NumSectors"
  shows "\<exists>s' s''. write_list s ws = Inr s' \<and> synch_ok s'' \<and>
    ReadSector s' j = Inr (s'', case map_of (rev ws) j of Some b \<Rightarrow> b | None \<Rightarrow> sector_of s j)"
proof -
  have "synch_ok s \<Longrightarrow> \<forall>(i, b) \<in> set ws. 0 \<le> i \<and> i < NumSectors \<and> length b = 128 \<Longrightarrow>
      \<exists>s'. write_list s ws = Inr s' \<and> synch_ok s' \<and>
        sector_of s' j = (case map_of (rev ws) j of Some b \<Rightarrow> b | None \<Rightarrow> sector_of s j)"
  proof (induction ws arbitrary: s)
    case (Cons w ws)
    obtain i b where w: "w = (i, b)" by fastforce
    with Cons.prems have ib: "0 \<le> i" "i < NumSectors" "length b = 128" by auto
    obtain s1 where 1: "WriteSector s i b = Inr s1" "synch_ok s1" "sector_of s1 i = b"
        "\<forall>j. 0 \<le> j \<and> j < NumSectors \<and> j \<noteq> i \<longrightarrow> sector_of s1 j = sector_of s j"
      using sd.wr_ok [OF Cons.prems(1) ib] by blast
    obtain s2 where "write_list s1 ws = Inr s2" "synch_ok s2"
        "sector_of s2 j = (case map_of (rev ws) j of Some b \<Rightarrow> b | None \<Rightarrow> sector_of s1 j)"
      using Cons.IH [OF 1(2)] Cons.prems(2) by auto
    then show ?case
      using 1 assms(3,4) by (auto simp: w map_add_def split: option.splits)
  qed simp
  then obtain s' where s': "write_list s ws = Inr s'" "synch_ok s'"
      "sector_of s' j = (case map_of (rev ws) j of Some b \<Rightarrow> b | None \<Rightarrow> sector_of s j)"
    using assms by blast
  then show ?thesis using sd.rd_ok [OF s'(2) assms(3,4)] by auto
qed

theorem sectors_keep_data_witness:
  "\<exists>s s' s''. SynchDisk_new None Statistics_new = Inr s \<and> synch_ok s \<and>
     write_list s [(3, replicate 128 1), (3, replicate 128 2)] = Inr s' \<and>
     ReadSector s' 3 = Inr (s'', replicate 128 2)"
proof -
  define f where "f = le_bytes 4 MagicNumber @ replicate (nat (DiskSize - 4 - MagicSize)) 0 @ le_bytes 4 0"
  define s where "s = \<lparr>sd_disk = \<lparr>diskFile = f, active = False, lastSector = 0, bufferInit = 0\<rparr>,
      sd_stats = Statistics_new, semaphore = 0\<rparr>"
  have s: "SynchDisk_new None Statistics_new = Inr s" "synch_ok s"
    by (simp_all add: SynchDisk_new_def Disk_new_def s_def f_def synch_ok_def disk_ok_def disk_consts
        Statistics_new_def)
  show ?thesis
    using sectors_keep_data [OF s(2), of "[(3, replicate 128 1), (3, replicate 128 2)]" 3] s
    by (auto simp: disk_consts)
qed

text \<open>
  The latency of a request is between one rotation slot and 32000 ticks, and unless the track
  buffer served it, it ends at a sector boundary, the moment the head has just passed over the
  sector asked for.
\<close>

theorem latency_exact:
  assumes "disk_ok d" and "0 \<le> totalTicks st" and "0 \<le> n" and "n < NumSectors"
  shows "let t = totalTicks st + ComputeLatency d st n w in 500 \<le> ComputeLatency d st n w \<and> ComputeLatency d st n w < 32000 \<and>
    (t mod 500 = 0 \<and> (t div 500 - 1) mod 32 = n mod 32 \<or> \<not> w \<and> ComputeLatency d st n w = 500)"
proof -
  obtain seek rot where ts: "TimeToSeek d st n = (seek, rot)" by fastforce
  have ls: "0 \<le> lastSector d" "lastSector d < NumSectors" using assms(1) by (simp_all add: disk_ok_def)
  note tt = TimeToSeek_ok [OF assms(2) ls assms(3,4) ts]
  define u where "u = totalTicks st + seek + rot"
  define q where "q = u div 500"
  have u: "0 \<le> u" "u = q * 500" "0 \<le> q"
    using tt assms(2) by (auto simp: u_def q_def pos_imp_zdiv_nonneg_iff)
  note md = ModuloDiff_range [OF assms(3) u(3)]
  define L where "L = seek + (rot + ModuloDiff n q * 500) + 500"
  have cases: "ComputeLatency d st n w = L \<or> \<not> w \<and> ComputeLatency d st n w = 500"
    using u(1) by (auto simp: ComputeLatency_def ts Let_def L_def RotationTime_def sdiv_nonneg_eq
        q_def u_def)
  have L: "500 \<le> L" "L < 32000" using tt md by (simp_all add: L_def)
  have e: "totalTicks st + L = (q + ModuloDiff n q + 1) * 500"
    using u(2) by (simp add: L_def u_def algebra_simps)
  have "(totalTicks st + L) mod 500 = 0" "(totalTicks st + L) div 500 - 1 = q + ModuloDiff n q"
    unfolding e by simp_all
  moreover have "(q + ModuloDiff n q) mod 32 = n mod 32"
    unfolding md(1) by (simp add: mod_simps)
  ultimately show ?thesis using cases L unfolding Let_def by auto
qed

theorem latency_exact_witness:
  "let d = \<lparr>diskFile = replicate 131076 0, active = False, lastSector = 0, bufferInit = 0\<rparr> in
   disk_ok d \<and> 0 \<le> totalTicks Statistics_new \<and> (0::int) \<le> 70 \<and> 70 < NumSectors \<and>
   500 \<le> ComputeLatency d Statistics_new 70 True \<and> ComputeLatency d Statistics_new 70 True < 32000"
proof -
  define d where "d = \<lparr>diskFile = replicate 131076 0, active = False, lastSector = 0, bufferInit = 0\<rparr>"
  have "disk_ok d" "0 \<le> totalTicks Statistics_new" "(0::int) \<le> 70" "70 < NumSectors"
    by (simp_all add: d_def disk_ok_def disk_consts Statistics_new_def)
  with latency_exact [OF this, of True] show ?thesis unfolding d_def Let_def by blast
qed

end
