(* ===== verification/FileHdr.thy ===== *)
theory FileHdr
  imports BitMaps DiskDev
begin

text \<open>
  \<open>filesys/filehdr.cc\<close>: the header of a file (its i-node), which fills one disk sector: the length in
  bytes, the number of data sectors, and a table of at most \<open>NumDirect\<close> sector numbers.
\<close>

section \<open>State\<close>

definition NumDirect :: nat where "NumDirect = 30"
definition MaxFileSize :: int where "MaxFileSize = int NumDirect * SecSize"

record file_header =
  numBytes :: int
  numSectors :: int
  dataSectors :: "int list"

text \<open>
  A header in memory is its 128 bytes, three runs of little-endian \<open>int\<close>s: \<open>header_bytes\<close> is what
  \<open>(char *)this\<close> points to and \<open>header_of\<close> the header that is read there.
\<close>

definition header_bytes :: "file_header \<Rightarrow> 8 word list" where
  "header_bytes h = int_bytes (numBytes h) @ int_bytes (numSectors h) @ concat (map int_bytes (dataSectors h))"

definition header_of :: "8 word list \<Rightarrow> file_header" where
  "header_of bs = \<lparr>numBytes = int_of (slice bs 0 4), numSectors = int_of (slice bs 4 4),
     dataSectors = map (\<lambda>i. int_of (slice bs (8 + 4 * i) 4)) [0..<NumDirect]\<rparr>"

section \<open>Operations\<close>

text \<open>
  The loop of \<open>Allocate\<close>. Nothing bounds \<open>numSectors\<close> by the size of the table: a store beyond it is
  the \<open>BadAccess\<close> of \<open>aset\<close>.
\<close>

fun alloc_sectors :: "file_header \<Rightarrow> bitmap \<Rightarrow> int list \<Rightarrow> (file_header \<times> bitmap) res" where
  "alloc_sectors h freeMap [] = Inr (h, freeMap)"
| "alloc_sectors h freeMap (i # is) =
     bindR (Find freeMap) (\<lambda>(freeMap', sector).
     bindR (aset (dataSectors h) i sector) (\<lambda>ds.
     alloc_sectors (h\<lparr>dataSectors := ds\<rparr>) freeMap' is))"

definition Allocate :: "file_header \<Rightarrow> bitmap \<Rightarrow> int \<Rightarrow> (file_header \<times> bitmap \<times> bool) res" where
  "Allocate h freeMap fileSize =
     (let h1 = h\<lparr>numBytes := fileSize, numSectors := divRoundUp fileSize SecSize\<rparr> in
      bindR (NumClear freeMap) (\<lambda>c.
        if c < numSectors h1 then Inr (h1, freeMap, False)
        else bindR (alloc_sectors h1 freeMap [0..numSectors h1 - 1]) (\<lambda>(h2, fm). Inr (h2, fm, True))))"

fun free_sectors :: "file_header \<Rightarrow> bitmap \<Rightarrow> int list \<Rightarrow> bitmap res" where
  "free_sectors h freeMap [] = Inr freeMap"
| "free_sectors h freeMap (i # is) =
     bindR (aget (dataSectors h) i) (\<lambda>sector.
     bindR (Test freeMap sector) (\<lambda>marked.
     ASSERT marked (bindR (Clear freeMap sector) (\<lambda>fm. free_sectors h fm is))))"

definition Deallocate :: "file_header \<Rightarrow> bitmap \<Rightarrow> bitmap res" where
  "Deallocate h freeMap = free_sectors h freeMap [0..numSectors h - 1]"

definition hdr_FetchFrom :: "synch_disk \<Rightarrow> int \<Rightarrow> (synch_disk \<times> file_header) res" where
  "hdr_FetchFrom s sector = bindR (ReadSector s sector) (\<lambda>(s', bs). Inr (s', header_of bs))"

definition hdr_WriteBack :: "synch_disk \<Rightarrow> file_header \<Rightarrow> int \<Rightarrow> synch_disk res" where
  "hdr_WriteBack s h sector = WriteSector s sector (header_bytes h)"

definition ByteToSector :: "file_header \<Rightarrow> int \<Rightarrow> int res" where
  "ByteToSector h offset = aget (dataSectors h) (offset sdiv SecSize)"

definition FileLength :: "file_header \<Rightarrow> int" where
  "FileLength h = numBytes h"

text \<open>
  \<open>Print\<close>: the sector numbers, then the bytes of the file, a printable one as it is and another in
  hexadecimal, with a line break after each sector.
\<close>

datatype printed = Num int | Chr "8 word" | Hex "8 word" | Str "8 word list" | NewLine

definition print_byte :: "8 word \<Rightarrow> printed" where
  "print_byte c = (if 32 \<le> sint c \<and> sint c \<le> 126 then Chr c else Hex c)"

fun print_sectors :: "file_header \<Rightarrow> synch_disk \<Rightarrow> int \<Rightarrow> int list \<Rightarrow> (synch_disk \<times> printed list) res" where
  "print_sectors h s k [] = Inr (s, [])"
| "print_sectors h s k (i # is) =
     bindR (aget (dataSectors h) i) (\<lambda>sector.
     bindR (ReadSector s sector) (\<lambda>(s', data).
       let bs = take (nat (numBytes h - k)) data in
       bindR (print_sectors h s' (k + int (length bs)) is) (\<lambda>(s'', out).
         Inr (s'', map print_byte bs @ NewLine # out))))"

fun get_sectors :: "file_header \<Rightarrow> int list \<Rightarrow> int list res" where
  "get_sectors h [] = Inr []"
| "get_sectors h (i # is) =
     bindR (aget (dataSectors h) i) (\<lambda>x. bindR (get_sectors h is) (\<lambda>xs. Inr (x # xs)))"

definition hdr_Print :: "file_header \<Rightarrow> synch_disk \<Rightarrow> (synch_disk \<times> printed list) res" where
  "hdr_Print h s =
     bindR (get_sectors h [0..numSectors h - 1]) (\<lambda>nums.
     bindR (print_sectors h s 0 [0..numSectors h - 1]) (\<lambda>(s', out).
       Inr (s', Num (numBytes h) # map Num nums @ NewLine # out)))"

section \<open>A header and its sector\<close>

definition header_ok :: "file_header \<Rightarrow> bool" where
  "header_ok h \<longleftrightarrow> length (dataSectors h) = NumDirect \<and> int32 (numBytes h) \<and> int32 (numSectors h) \<and>
     (\<forall>x \<in> set (dataSectors h). int32 x)"

lemma length_header_bytes: "length (dataSectors h) = NumDirect \<Longrightarrow> length (header_bytes h) = 128"
  by (simp add: header_bytes_def NumDirect_def)

lemma header_of_bytes [simp]:
  assumes "header_ok h"
  shows "header_of (header_bytes h) = h"
proof -
  let ?rest = "concat (map int_bytes (dataSectors h))"
  have b: "slice (header_bytes h) 0 4 = int_bytes (numBytes h)"
    by (simp add: header_bytes_def slice_append1 slice_all)
  have s: "slice (header_bytes h) 4 4 = int_bytes (numSectors h)"
    by (simp add: header_bytes_def slice_append2 slice_append1 slice_all)
  have d: "slice (header_bytes h) (8 + 4 * i) 4 = int_bytes (dataSectors h ! i)" if "i < NumDirect" for i
    using that assms slice_ints [of i "dataSectors h"]
    by (simp add: header_bytes_def slice_append2 header_ok_def)
  have "map (\<lambda>i. int_of (slice (header_bytes h) (8 + 4 * i) 4)) [0..<NumDirect] = dataSectors h"
    using d assms by (intro nth_equalityI) (simp_all add: header_ok_def)
  then show ?thesis using assms by (simp add: header_of_def b s header_ok_def)
qed

section \<open>Allocation\<close>

lemma upto_Suc: "[a..a + int (Suc n) - 1] = a # [a + 1..(a + 1) + int n - 1]"
  by (simp add: upto_rec1)

lemma alloc_sectors_take_n:
  "0 \<le> a \<Longrightarrow> a + int n \<le> int (length (dataSectors h)) \<Longrightarrow>
     alloc_sectors h fm [a..a + int n - 1] =
       bindR (take_n Find n fm) (\<lambda>(fm', js). Inr (h\<lparr>dataSectors := blit (dataSectors h) (nat a) js\<rparr>, fm'))"
proof (induction n arbitrary: a h fm)
  case 0
  then show ?case by simp
next
  case (Suc n)
  show ?case
  proof (cases "Find fm")
    case (Inl e)
    then show ?thesis unfolding upto_Suc by simp
  next
    case (Inr r)
    obtain fm1 j where r: "r = (fm1, j)" by fastforce
    have a: "a < int (length (dataSectors h))" using Suc.prems by simp
    let ?h = "h\<lparr>dataSectors := (dataSectors h)[nat a := j]\<rparr>"
    have "alloc_sectors ?h fm1 [a + 1..(a + 1) + int n - 1] = bindR (take_n Find n fm1)
        (\<lambda>(fm', js). Inr (?h\<lparr>dataSectors := blit (dataSectors ?h) (nat (a + 1)) js\<rparr>, fm'))"
      using Suc.prems by (intro Suc.IH) simp_all
    moreover have "blit (dataSectors h) (nat a) (j # js) =
        blit ((dataSectors h)[nat a := j]) (nat (a + 1)) js" for js
      using Suc.prems(1) a blit_Cons [of "nat a" "dataSectors h" j js] by (simp add: nat_add_distrib)
    ultimately show ?thesis
      unfolding upto_Suc using Suc.prems(1) a Inr r
      by (simp add: bindR_assoc split_def)
  qed
qed

lemma alloc_sectors_append:
  "alloc_sectors h fm (xs @ ys) =
     bindR (alloc_sectors h fm xs) (\<lambda>(h', fm'). alloc_sectors h' fm' ys)"
  by (induction xs arbitrary: h fm) (simp_all add: bindR_assoc split_def)

text \<open>With more sectors than the header has room for, the loop writes past the end of the table.\<close>

lemma alloc_sectors_overflow:
  assumes ok: "bitmap_ok fm" and len: "length (dataSectors h) = NumDirect"
    and n: "int NumDirect < n" "n \<le> int (card ({0..<numBits fm} - marked fm))"
  shows "alloc_sectors h fm [0..n - 1] = Inl BadAccess"
proof -
  have split: "[0..n - 1] = [0..0 + int NumDirect - 1] @ int NumDirect # [int NumDirect + 1..n - 1]"
    using n(1) upto_split1 [of 0 "int NumDirect" "n - 1"] upto_rec1 [of "int NumDirect" "n - 1"] by simp
  have "NumDirect \<le> card ({0..<numBits fm} - marked fm)" using n by linarith
  then obtain fm' js where t: "take_n Find NumDirect fm = Inr (fm', js)" "length js = NumDirect"
      "distinct js" "set js \<subseteq> {0..<numBits fm} - marked fm" "bitmap_ok fm'"
      "numBits fm' = numBits fm" "marked fm' = marked fm \<union> set js"
    using bm.take_n_ok [OF ok] by blast
  have "card (set js) < card ({0..<numBits fm} - marked fm)"
    using n t(2,3) by (simp add: distinct_card)
  then have "marked fm' \<noteq> {0..<numBits fm'}"
    using t(4,6,7) by (metis Diff_subset Un_Diff_cancel2 Un_commute card_mono finite_Diff
        finite_atLeastLessThan_int linorder_not_le Diff_eq_empty_iff set_diff_eq sup.absorb_iff2
        Un_Diff card.empty finite_set order.asym subset_antisym sup_ge1)
  then obtain fm2 j where f: "Find fm' = Inr (fm2, j)"
    using bm.alloc_free [OF t(5)] by blast
  let ?h = "h\<lparr>dataSectors := blit (dataSectors h) (nat 0) js\<rparr>"
  have a: "aset (dataSectors ?h) (int NumDirect) j = Inl BadAccess"
    using len t(2) by (simp add: aset_def)
  have z: "(0::int) + int NumDirect \<le> int (length (dataSectors h))" using len by simp
  have "alloc_sectors h fm [0..0 + int NumDirect - 1] = Inr (?h, fm')"
    unfolding alloc_sectors_take_n [OF order_refl z] t(1) by simp
  then show ?thesis unfolding split alloc_sectors_append using f a by simp
qed

lemma free_sectors_ok:
  assumes "bitmap_ok fm" and "\<forall>i \<in> set is. 0 \<le> i \<and> i < int (length (dataSectors h))"
    and "distinct (map (\<lambda>i. dataSectors h ! nat i) is)"
    and "set (map (\<lambda>i. dataSectors h ! nat i) is) \<subseteq> marked fm"
  shows "\<exists>fm'. free_sectors h fm is = Inr fm' \<and> bitmap_ok fm' \<and> numBits fm' = numBits fm \<and>
    marked fm' = marked fm - set (map (\<lambda>i. dataSectors h ! nat i) is)"
  using assms
proof (induction "is" arbitrary: fm)
  case (Cons i "is")
  let ?j = "dataSectors h ! nat i"
  have j: "?j \<in> marked fm" "0 \<le> ?j" "?j < numBits fm"
    using Cons.prems(4) marked_range [of fm] by auto
  obtain fm1 where c: "Clear fm ?j = Inr fm1" "bitmap_ok fm1" "numBits fm1 = numBits fm"
      "marked fm1 = marked fm - {?j}"
    using Clear_ok [OF Cons.prems(1) j(2,3)] by blast
  have "set (map (\<lambda>i. dataSectors h ! nat i) is) \<subseteq> marked fm1"
    using Cons.prems(3,4) unfolding c(4) list.map set_simps distinct.simps by blast
  then obtain fm2 where "free_sectors h fm1 is = Inr fm2" "bitmap_ok fm2" "numBits fm2 = numBits fm1"
      "marked fm2 = marked fm1 - set (map (\<lambda>i. dataSectors h ! nat i) is)"
    using Cons.IH [OF c(2)] Cons.prems(2,3) by auto
  then show ?case
    using c j Cons.prems(2) by (auto simp: Test_ok [OF Cons.prems(1) j(2,3)])
qed simp

text \<open>What a successful \<open>Allocate\<close> does, in the terms of the free map.\<close>

lemma take_blit: "p + length ys \<le> length xs \<Longrightarrow> drop p (take (p + length ys) (blit xs p ys)) = ys"
  by (simp add: blit_def)

lemma Allocate_ok:
  assumes ok: "bitmap_ok fm" and len: "length (dataSectors h) = NumDirect"
    and n: "n = divRoundUp fsize SecSize" "0 \<le> n" "n \<le> int NumDirect"
      "n \<le> int (card ({0..<numBits fm} - marked fm))"
  shows "\<exists>js fm'. Allocate h fm fsize =
      Inr (\<lparr>numBytes = fsize, numSectors = n, dataSectors = blit (dataSectors h) 0 js\<rparr>, fm', True) \<and>
    length js = nat n \<and> distinct js \<and> set js \<subseteq> {0..<numBits fm} - marked fm \<and>
    bitmap_ok fm' \<and> numBits fm' = numBits fm \<and> marked fm' = marked fm \<union> set js"
proof -
  have "nat n \<le> card ({0..<numBits fm} - marked fm)" using n by linarith
  then obtain fm' js where t: "take_n Find (nat n) fm = Inr (fm', js)" "length js = nat n" "distinct js"
      "set js \<subseteq> {0..<numBits fm} - marked fm" "bitmap_ok fm'" "numBits fm' = numBits fm"
      "marked fm' = marked fm \<union> set js"
    using bm.take_n_ok [OF ok] by blast
  let ?h = "h\<lparr>numBytes := fsize, numSectors := n\<rparr>"
  have z: "(0::int) + int (nat n) \<le> int (length (dataSectors ?h))" using len n by simp
  have a: "alloc_sectors ?h fm [0..n - 1] = Inr (?h\<lparr>dataSectors := blit (dataSectors h) 0 js\<rparr>, fm')"
    using alloc_sectors_take_n [OF order_refl z, of fm] t(1) n(2) by simp
  have "Allocate h fm fsize =
      Inr (\<lparr>numBytes = fsize, numSectors = n, dataSectors = blit (dataSectors h) 0 js\<rparr>, fm', True)"
    using a n by (simp add: Allocate_def Let_def NumClear_ok [OF ok])
  then show ?thesis using t by blast
qed

lemma Deallocate_Allocate:
  assumes ok: "bitmap_ok fm" and ds: "take (nat n) ds = js" "length js = nat n" "length ds = NumDirect"
    and n: "0 \<le> n" "n \<le> int NumDirect" and js: "distinct js" "set js \<subseteq> marked fm"
  shows "\<exists>fm'. Deallocate \<lparr>numBytes = b, numSectors = n, dataSectors = ds\<rparr> fm = Inr fm' \<and>
    bitmap_ok fm' \<and> numBits fm' = numBits fm \<and> marked fm' = marked fm - set js"
proof -
  let ?h = "\<lparr>numBytes = b, numSectors = n, dataSectors = ds\<rparr>"
  have m: "map (\<lambda>i. ds ! nat i) [0..n - 1] = js"
  proof (rule nth_equalityI)
    show "length (map (\<lambda>i. ds ! nat i) [0..n - 1]) = length js" using ds n by simp
    fix k assume "k < length (map (\<lambda>i. ds ! nat i) [0..n - 1])"
    then show "map (\<lambda>i. ds ! nat i) [0..n - 1] ! k = js ! k"
      using ds n by (auto simp flip: ds(1))
  qed
  have "\<forall>i \<in> set [0..n - 1]. 0 \<le> i \<and> i < int (length (dataSectors ?h))" using n ds by auto
  with free_sectors_ok [OF ok this] show ?thesis using m js by (simp add: Deallocate_def)
qed

section \<open>Properties\<close>

text \<open>
  C38: \<open>Allocate\<close> of a file with too few free sectors returns \<open>FALSE\<close> and leaves the free map alone;
  otherwise, when the header has room, the header gets the right number of distinct sectors that
  were free, exactly those become marked, and \<open>Deallocate\<close> of that header gives them all back. With
  enough free sectors for a file larger than the header can describe, the loop writes past the end
  of the sector table.
\<close>

theorem Allocate_Deallocate:
  assumes "bitmap_ok fm" and "length (dataSectors h) = NumDirect" and "0 \<le> fsize"
  shows "let n = divRoundUp fsize SecSize; free = {0..<numBits fm} - marked fm in
    if int (card free) < n then \<exists>h'. Allocate h fm fsize = Inr (h', fm, False)
    else if fsize \<le> MaxFileSize then
      \<exists>h' fm' fm''. Allocate h fm fsize = Inr (h', fm', True) \<and> numBytes h' = fsize \<and>
        numSectors h' = n \<and> distinct (take (nat n) (dataSectors h')) \<and>
        set (take (nat n) (dataSectors h')) \<subseteq> free \<and>
        marked fm' = marked fm \<union> set (take (nat n) (dataSectors h')) \<and>
        Deallocate h' fm' = Inr fm'' \<and> marked fm'' = marked fm
    else Allocate h fm fsize = Inl BadAccess"
proof -
  define n where "n = divRoundUp fsize SecSize"
  define free where "free = {0..<numBits fm} - marked fm"
  have n0: "0 \<le> n" and nb: "fsize \<le> n * 128" "n * 128 < fsize + 128"
    using divRoundUp_bounds [OF assms(3), of SecSize] by (simp_all add: n_def SecSize_def)
  have fits: "fsize \<le> MaxFileSize \<longleftrightarrow> n \<le> int NumDirect"
    using nb by (auto simp: MaxFileSize_def NumDirect_def SecSize_def)
  consider (few) "int (card free) < n" | (fit) "n \<le> int (card free)" "n \<le> int NumDirect"
    | (over) "n \<le> int (card free)" "int NumDirect < n" by linarith
  then show ?thesis
  proof cases
    case few
    then show ?thesis unfolding Let_def n_def [symmetric] free_def [symmetric]
      by (simp add: Allocate_def Let_def NumClear_ok [OF assms(1)] flip: n_def free_def)
  next
    case fit
    obtain js fm' where a: "Allocate h fm fsize =
        Inr (\<lparr>numBytes = fsize, numSectors = n, dataSectors = blit (dataSectors h) 0 js\<rparr>, fm', True)"
        "length js = nat n" "distinct js" "set js \<subseteq> free"
        "bitmap_ok fm'" "numBits fm' = numBits fm" "marked fm' = marked fm \<union> set js"
      using Allocate_ok [OF assms(1,2) n_def n0 fit(2)] fit(1) unfolding free_def by blast
    let ?ds = "blit (dataSectors h) 0 js"
    have ds: "take (nat n) ?ds = js" "length ?ds = NumDirect"
      using a(2) assms(2) fit(2) n0 by (simp_all add: blit_def)
    obtain fm'' where "Deallocate \<lparr>numBytes = fsize, numSectors = n, dataSectors = ?ds\<rparr> fm' = Inr fm''"
        "marked fm'' = marked fm' - set js"
      using Deallocate_Allocate [OF a(5) ds(1) a(2) ds(2) n0 fit(2) a(3), of fsize] a(7) by auto
    moreover have "marked fm' - set js = marked fm" using a(4,7) by (auto simp: free_def)
    ultimately show ?thesis
      unfolding Let_def n_def [symmetric] free_def [symmetric]
      using fit fits a ds by (simp add: not_less)
  next
    case over
    let ?h = "h\<lparr>numBytes := fsize, numSectors := n\<rparr>"
    have "alloc_sectors ?h fm [0..n - 1] = Inl BadAccess"
      using alloc_sectors_overflow [OF assms(1), of ?h n] assms(2) over by (simp add: free_def)
    then have "Allocate h fm fsize = Inl BadAccess"
      using over(1) by (simp add: Allocate_def Let_def NumClear_ok [OF assms(1)] flip: n_def free_def)
    then show ?thesis
      unfolding Let_def n_def [symmetric] free_def [symmetric]
      using over fits by simp
  qed
qed

theorem Allocate_Deallocate_witness:
  "\<exists>fm h' fm' fm''. BitMap_new (\<lambda>_. 0) 64 = Inr fm \<and> bitmap_ok fm \<and>
     Allocate (header_of []) fm 300 = Inr (h', fm', True) \<and> numSectors h' = 3 \<and>
     Deallocate h' fm' = Inr fm'' \<and> marked fm'' = {}"
proof -
  obtain fm where fm: "BitMap_new (\<lambda>_. 0) 64 = Inr fm" "bitmap_ok fm" "numBits fm = 64" "marked fm = {}"
    using BitMap_new_ok [of 64 "\<lambda>_. 0"] by auto
  have len: "length (dataSectors (header_of [])) = NumDirect" by (simp add: header_of_def)
  have n: "divRoundUp 300 SecSize = 3"
    by (simp add: divRoundUp_def SecSize_def sdiv_nonneg_eq smod_nonneg_eq)
  have c: "\<not> int (card ({0..<numBits fm} - marked fm)) < 3" using fm by simp
  have s: "(300::int) \<le> MaxFileSize" by (simp add: MaxFileSize_def NumDirect_def SecSize_def)
  have z: "(0::int) \<le> 300" by simp
  show ?thesis
    using Allocate_Deallocate [OF fm(2) len z] fm unfolding Let_def n if_not_P [OF c] if_P [OF s] by auto
qed

text \<open>
  A header written to its sector with \<open>WriteBack\<close> is the header \<open>FetchFrom\<close> reads back, and no
  other sector of the disk changes.
\<close>

theorem header_round_trip:
  assumes "synch_ok s" and "0 \<le> i" and "i < NumSectors" and "header_ok h"
  shows "\<exists>s' s''. hdr_WriteBack s h i = Inr s' \<and> hdr_FetchFrom s' i = Inr (s'', h) \<and> synch_ok s'' \<and>
    (\<forall>j. 0 \<le> j \<and> j < NumSectors \<and> j \<noteq> i \<longrightarrow> sector_of s'' j = sector_of s j)"
proof -
  have l: "length (header_bytes h) = 128"
    using assms(4) by (simp add: length_header_bytes header_ok_def)
  obtain s' where 1: "WriteSector s i (header_bytes h) = Inr s'" "synch_ok s'"
      "sector_of s' i = header_bytes h"
      "\<forall>j. 0 \<le> j \<and> j < NumSectors \<and> j \<noteq> i \<longrightarrow> sector_of s' j = sector_of s j"
    using sd.wr_ok [OF assms(1-3) l] by blast
  obtain s'' where 2: "ReadSector s' i = Inr (s'', sector_of s' i)" "synch_ok s''"
      "\<forall>j. 0 \<le> j \<and> j < NumSectors \<longrightarrow> sector_of s'' j = sector_of s' j"
    using sd.rd_ok [OF 1(2) assms(2,3)] by blast
  show ?thesis
    using 1 2 assms(4) by (auto simp: hdr_WriteBack_def hdr_FetchFrom_def)
qed

theorem header_round_trip_witness:
  "let s = \<lparr>sd_disk = \<lparr>diskFile = replicate 131076 0, active = False, lastSector = 0, bufferInit = 0\<rparr>,
         sd_stats = Statistics_new, semaphore = 0\<rparr>;
       h = \<lparr>numBytes = 200, numSectors = 2, dataSectors = 7 # 9 # replicate 28 0\<rparr>
   in synch_ok s \<and> (0::int) \<le> 5 \<and> 5 < NumSectors \<and> header_ok h \<and>
     (\<exists>s' s''. hdr_WriteBack s h 5 = Inr s' \<and> hdr_FetchFrom s' 5 = Inr (s'', h))"
proof -
  define s where "s = \<lparr>sd_disk = \<lparr>diskFile = replicate 131076 0, active = False, lastSector = 0,
      bufferInit = 0\<rparr>, sd_stats = Statistics_new, semaphore = 0\<rparr>"
  define h where "h = \<lparr>numBytes = 200, numSectors = 2, dataSectors = 7 # 9 # replicate 28 0\<rparr>"
  have p: "synch_ok s" "(0::int) \<le> 5" "5 < NumSectors" "header_ok h"
    by (simp_all add: s_def h_def synch_ok_def disk_ok_def disk_consts Statistics_new_def header_ok_def
        NumDirect_def int32_def)
  with header_round_trip [OF p] show ?thesis
    unfolding Let_def s_def [symmetric] h_def [symmetric] by blast
qed

end
