(* ===== verification/OpenFiles.thy ===== *)
theory OpenFiles
  imports FileHdr
begin

text \<open>
  \<open>filesys/openfile.cc\<close>: reading and writing any range of bytes of a file by whole sectors. The
  buffers of the code are byte lists; a buffer fresh from \<open>new\<close> holds whatever \<open>junk\<close> was there.
  The arithmetic on positions is exact, as it is in C below \<open>2 ^ 31\<close>.
\<close>

section \<open>State and operations\<close>

record open_file =
  hdr :: file_header
  seekPosition :: int

definition OpenFile :: "synch_disk \<Rightarrow> int \<Rightarrow> (synch_disk \<times> open_file) res" where
  "OpenFile s sector =
     bindR (hdr_FetchFrom s sector) (\<lambda>(s', h). Inr (s', \<lparr>hdr = h, seekPosition = 0\<rparr>))"

definition Seek :: "open_file \<Rightarrow> int \<Rightarrow> open_file" where
  "Seek f position = f\<lparr>seekPosition := position\<rparr>"

definition Length :: "open_file \<Rightarrow> int" where
  "Length f = FileLength (hdr f)"

text \<open>The loops over the sectors of a request.\<close>

fun read_blocks :: "file_header \<Rightarrow> synch_disk \<Rightarrow> int list \<Rightarrow> (synch_disk \<times> 8 word list) res" where
  "read_blocks h s [] = Inr (s, [])"
| "read_blocks h s (i # is) =
     bindR (ByteToSector h (i * SecSize)) (\<lambda>sector.
     bindR (ReadSector s sector) (\<lambda>(s', b).
     bindR (read_blocks h s' is) (\<lambda>(s'', bs). Inr (s'', b @ bs))))"

fun write_blocks :: "file_header \<Rightarrow> synch_disk \<Rightarrow> int list \<Rightarrow> 8 word list \<Rightarrow> synch_disk res" where
  "write_blocks h s [] buf = Inr s"
| "write_blocks h s (i # is) buf =
     bindR (ByteToSector h (i * SecSize)) (\<lambda>sector.
     bindR (WriteSector s sector (take (nat SecSize) buf)) (\<lambda>s'.
     write_blocks h s' is (drop (nat SecSize) buf)))"

text \<open>
  \<open>ReadAt\<close> returns the bytes it copies to \<open>into\<close> and its result. A copy that starts in front of the
  buffer, which a negative position leads to, is a \<open>BadAccess\<close>.
\<close>

definition ReadAt :: "open_file \<Rightarrow> synch_disk \<Rightarrow> int \<Rightarrow> int \<Rightarrow> (synch_disk \<times> 8 word list \<times> int) res" where
  "ReadAt f s n position =
     (let fileLength = FileLength (hdr f) in
      if n \<le> 0 \<or> fileLength \<le> position then Inr (s, [], 0)
      else
        let n' = (if position + n > fileLength then fileLength - position else n);
            firstSector = divRoundDown position SecSize;
            lastSec = divRoundDown (position + n' - 1) SecSize
        in bindR (read_blocks (hdr f) s [firstSector..lastSec]) (\<lambda>(s', buf).
             let off = position - firstSector * SecSize in
             if 0 \<le> off \<and> off + n' \<le> int (length buf)
             then Inr (s', slice buf (nat off) (nat n'), n') else Inl BadAccess))"

text \<open>
  \<open>WriteAt\<close>: \<open>copy_into buf p data\<close> is \<open>bcopy\<close> of \<open>data\<close> to \<open>&buf[p]\<close>.
\<close>

definition copy_into :: "8 word list \<Rightarrow> int \<Rightarrow> 8 word list \<Rightarrow> 8 word list res" where
  "copy_into buf p data =
     (if 0 \<le> p \<and> p + int (length data) \<le> int (length buf) then Inr (blit buf (nat p) data)
      else Inl BadAccess)"

definition WriteAt ::
  "(nat \<Rightarrow> 8 word) \<Rightarrow> open_file \<Rightarrow> synch_disk \<Rightarrow> 8 word list \<Rightarrow> int \<Rightarrow> int \<Rightarrow> (synch_disk \<times> int) res" where
  "WriteAt junk f s from_buf n position =
     (let fileLength = FileLength (hdr f) in
      if n \<le> 0 \<or> fileLength \<le> position then Inr (s, 0)
      else
        let n' = (if position + n > fileLength then fileLength - position else n);
            firstSector = divRoundDown position SecSize;
            lastSec = divRoundDown (position + n' - 1) SecSize;
            nsectors = 1 + lastSec - firstSector;
            buf = map junk [0..<nat (nsectors * SecSize)];
            firstAligned = (position = firstSector * SecSize);
            lastAligned = (position + n' = (lastSec + 1) * SecSize)
        in bindR (if \<not> firstAligned then ReadAt f s SecSize (firstSector * SecSize)
                  else Inr (s, [], 0)) (\<lambda>(s1, d1, _).
           bindR (copy_into buf 0 d1) (\<lambda>buf1.
           bindR (if \<not> lastAligned \<and> (firstSector \<noteq> lastSec \<or> firstAligned)
                  then ReadAt f s1 SecSize (lastSec * SecSize) else Inr (s1, [], 0)) (\<lambda>(s2, d2, _).
           bindR (copy_into buf1 (if d2 = [] then 0 else (lastSec - firstSector) * SecSize) d2) (\<lambda>buf2.
           if int (length from_buf) < n' then Inl BadAccess
           else
             bindR (copy_into buf2 (position - firstSector * SecSize) (take (nat n') from_buf)) (\<lambda>buf3.
             bindR (write_blocks (hdr f) s2 [firstSector..lastSec] buf3) (\<lambda>s3. Inr (s3, n'))))))))"

definition Read :: "open_file \<Rightarrow> synch_disk \<Rightarrow> int \<Rightarrow> (open_file \<times> synch_disk \<times> 8 word list \<times> int) res" where
  "Read f s n =
     bindR (ReadAt f s n (seekPosition f)) (\<lambda>(s', into, result).
       Inr (f\<lparr>seekPosition := seekPosition f + result\<rparr>, s', into, result))"

definition Write ::
  "(nat \<Rightarrow> 8 word) \<Rightarrow> open_file \<Rightarrow> synch_disk \<Rightarrow> 8 word list \<Rightarrow> int \<Rightarrow> (open_file \<times> synch_disk \<times> int) res" where
  "Write junk f s from_buf n =
     bindR (WriteAt junk f s from_buf n (seekPosition f)) (\<lambda>(s', result).
       Inr (f\<lparr>seekPosition := seekPosition f + result\<rparr>, s', result))"

section \<open>The file as a sequence of bytes\<close>

text \<open>
  The abstract file: byte \<open>j\<close> is byte \<open>j mod 128\<close> of the sector in entry \<open>j div 128\<close> of the header.
  A header is well formed when its sectors are distinct, on the disk and enough for the length.
\<close>

definition file_byte :: "synch_disk \<Rightarrow> file_header \<Rightarrow> nat \<Rightarrow> 8 word" where
  "file_byte s h j = sector_of s (dataSectors h ! (j div 128)) ! (j mod 128)"

definition contents :: "synch_disk \<Rightarrow> file_header \<Rightarrow> 8 word list" where
  "contents s h = map (file_byte s h) [0..<nat (numBytes h)]"

definition blocks :: "file_header \<Rightarrow> int list" where
  "blocks h = take (nat (numSectors h)) (dataSectors h)"

definition file_ok :: "file_header \<Rightarrow> bool" where
  "file_ok h \<longleftrightarrow> length (dataSectors h) = NumDirect \<and> 0 \<le> numBytes h \<and> 0 \<le> numSectors h \<and>
     numBytes h \<le> numSectors h * 128 \<and> numSectors h \<le> int NumDirect \<and> distinct (blocks h) \<and>
     (\<forall>x \<in> set (blocks h). 0 \<le> x \<and> x < DiskDev.NumSectors)"

lemma length_contents [simp]: "length (contents s h) = nat (numBytes h)"
  by (simp add: contents_def)

lemma nth_concat_uniform:
  "\<forall>b \<in> set bss. length b = m \<Longrightarrow> 0 < m \<Longrightarrow> j < length bss * m \<Longrightarrow>
     concat bss ! j = bss ! (j div m) ! (j mod m)"
proof (induction bss arbitrary: j)
  case (Cons b bss)
  show ?case
  proof (cases "j < m")
    case True
    then show ?thesis using Cons.prems by (simp add: nth_append)
  next
    case False
    then have "j div m = Suc ((j - m) div m)" "j mod m = (j - m) mod m"
      using Cons.prems(2) by (simp_all add: le_div_geq le_mod_geq)
    then show ?thesis using Cons False by (simp add: nth_append)
  qed
qed simp

lemma length_concat_uniform:
  "\<forall>b \<in> set bss. length b = m \<Longrightarrow> length (concat bss) = length bss * m"
  by (induction bss) auto

section \<open>Reading\<close>

lemma block_in:
  assumes "file_ok h" "0 \<le> i" "i < numSectors h"
  shows "ByteToSector h (i * SecSize) = Inr (dataSectors h ! nat i)"
    and "0 \<le> dataSectors h ! nat i" and "dataSectors h ! nat i < DiskDev.NumSectors"
    and "dataSectors h ! nat i = blocks h ! nat i" and "dataSectors h ! nat i \<in> set (blocks h)"
proof -
  have l: "nat i < length (dataSectors h)" "nat i < nat (numSectors h)"
    using assms by (auto simp: file_ok_def)
  have "(i * 128) sdiv 128 = i" using assms(2) by (simp add: sdiv_nonneg_eq)
  then show "ByteToSector h (i * SecSize) = Inr (dataSectors h ! nat i)"
    using assms l by (simp add: ByteToSector_def SecSize_def)
  show b: "dataSectors h ! nat i = blocks h ! nat i" using l by (simp add: blocks_def)
  have "nat i < length (blocks h)" using l by (simp add: blocks_def)
  then have m: "blocks h ! nat i \<in> set (blocks h)" by (rule nth_mem)
  then show "dataSectors h ! nat i \<in> set (blocks h)" by (simp only: b)
  then show "0 \<le> dataSectors h ! nat i" "dataSectors h ! nat i < DiskDev.NumSectors"
    using m assms(1) by (simp_all add: b file_ok_def)
qed

lemma read_blocks_each:
  assumes "file_ok h" "\<forall>i \<in> set is. 0 \<le> i \<and> i < numSectors h"
  shows "read_blocks h s is = read_each ReadSector s (map (\<lambda>i. dataSectors h ! nat i) is)"
  using assms(2) by (induction "is" arbitrary: s) (simp_all add: block_in(1) [OF assms(1)])

lemma write_blocks_each:
  assumes "file_ok h" "\<forall>i \<in> set is. 0 \<le> i \<and> i < numSectors h"
  shows "write_blocks h s is buf =
    write_each WriteSector 128 s (map (\<lambda>i. dataSectors h ! nat i) is) buf"
  using assms(2)
  by (induction "is" arbitrary: s buf) (simp_all add: block_in(1) [OF assms(1), unfolded SecSize_def] SecSize_def)

lemma read_blocks_ok:
  assumes ok: "file_ok h" "synch_ok s" and r: "0 \<le> a" "a \<le> b" "b < numSectors h"
  shows "\<exists>s' buf. read_blocks h s [a..b] = Inr (s', buf) \<and> synch_ok s' \<and>
    (\<forall>j. 0 \<le> j \<and> j < DiskDev.NumSectors \<longrightarrow> sector_of s' j = sector_of s j) \<and>
    length buf = nat (b - a + 1) * 128 \<and>
    (\<forall>k < length buf. buf ! k = file_byte s h (nat a * 128 + k))"
proof -
  let ?is = "map (\<lambda>i. dataSectors h ! nat i) [a..b]"
  have ab: "\<forall>i \<in> set [a..b]. 0 \<le> i \<and> i < numSectors h" using r by auto
  have "\<forall>i \<in> set ?is. 0 \<le> i \<and> i < DiskDev.NumSectors"
    using block_in(2,3) [OF ok(1)] ab by auto
  then obtain s' where s': "read_each ReadSector s ?is = Inr (s', concat (map (sector_of s) ?is))"
      "synch_ok s'" "\<forall>j. 0 \<le> j \<and> j < DiskDev.NumSectors \<longrightarrow> sector_of s' j = sector_of s j"
    using sd.read_each_ok [OF ok(2)] by blast
  let ?bss = "map (sector_of s) ?is"
  have u: "\<forall>x \<in> set ?bss. length x = 128"
    using sd.sec_len [OF ok(2)] block_in(2,3) [OF ok(1)] ab by auto
  have len: "length (concat ?bss) = nat (b - a + 1) * 128"
    using length_concat_uniform [OF u] by simp
  have "concat ?bss ! k = file_byte s h (nat a * 128 + k)" if k: "k < length (concat ?bss)" for k
  proof -
    have k': "k div 128 < nat (b - a + 1)" using k len by (simp add: less_mult_imp_div_less)
    then have "?bss ! (k div 128) = sector_of s (dataSectors h ! nat (a + int (k div 128)))" by simp
    moreover have "nat (a + int (k div 128)) = (nat a * 128 + k) div 128" using r by simp
    ultimately show ?thesis
      using nth_concat_uniform [OF u, of k] k len by (simp add: file_byte_def)
  qed
  then show ?thesis using s' len read_blocks_each [OF ok(1) ab] by auto
qed

text \<open>\<open>ReadAt\<close> returns the requested bytes of the file, cut off at its end.\<close>

lemma ReadAt_run:
  assumes ok: "file_ok (hdr f)" "synch_ok s" and p: "0 \<le> p" "p < numBytes (hdr f)" and n: "0 < n"
  defines "n' \<equiv> min n (numBytes (hdr f) - p)"
  shows "\<exists>s'. ReadAt f s n p = Inr (s', map (file_byte s (hdr f)) [nat p..<nat (p + n')], n') \<and>
    synch_ok s' \<and> (\<forall>j. 0 \<le> j \<and> j < DiskDev.NumSectors \<longrightarrow> sector_of s' j = sector_of s j)"
proof -
  define a b where "a = p div 128" and "b = (p + n' - 1) div 128"
  have n': "0 < n'" "p + n' \<le> numBytes (hdr f)" using p n by (auto simp: n'_def)
  have ab: "0 \<le> a" "a \<le> b" "b < numSectors (hdr f)"
  proof -
    show "0 \<le> a" using p by (simp add: a_def pos_imp_zdiv_nonneg_iff)
    show "a \<le> b" using n' by (simp add: a_def b_def zdiv_mono1)
    have "p + n' - 1 < numSectors (hdr f) * 128" using n' ok(1) by (simp add: file_ok_def)
    then show "b < numSectors (hdr f)" by (simp add: b_def div_less_iff_less_mult)
  qed
  obtain s' buf where r: "read_blocks (hdr f) s [a..b] = Inr (s', buf)" "synch_ok s'"
      "\<forall>j. 0 \<le> j \<and> j < DiskDev.NumSectors \<longrightarrow> sector_of s' j = sector_of s j"
      "length buf = nat (b - a + 1) * 128" "\<forall>k < length buf. buf ! k = file_byte s (hdr f) (nat a * 128 + k)"
    using read_blocks_ok [OF ok ab] by blast
  define off where "off = p - a * 128"
  have off: "0 \<le> off" "off < 128" "p = a * 128 + off"
    using div_mult_mod_eq [of p 128] pos_mod_bound [of 128 p] pos_mod_sign [of 128 p]
    unfolding off_def a_def by linarith+
  have fit: "off + n' \<le> int (length buf)"
  proof -
    have "p + n' - 1 < (b + 1) * 128" unfolding b_def
      using div_mult_mod_eq [of "p + n' - 1" 128] pos_mod_bound [of 128 "p + n' - 1"] by (simp add: distrib_right)
    then show ?thesis using off(3) ab(2) by (simp add: r(4))
  qed
  have sl: "slice buf (nat off) (nat n') = map (file_byte s (hdr f)) [nat p..<nat (p + n')]"
  proof (rule nth_equalityI)
    have l: "nat off + nat n' \<le> length buf" using fit off n' by linarith
    show "length (slice buf (nat off) (nat n')) = length (map (file_byte s (hdr f)) [nat p..<nat (p + n')])"
      using l n' p by simp
    fix k assume "k < length (slice buf (nat off) (nat n'))"
    then have k: "k < nat n'" using l by simp
    have e: "nat a * 128 + (nat off + k) = nat p + k" using off ab by simp
    have "slice buf (nat off) (nat n') ! k = file_byte s (hdr f) (nat a * 128 + (nat off + k))"
      using k l r(5) by simp
    then show "slice buf (nat off) (nat n') ! k = map (file_byte s (hdr f)) [nat p..<nat (p + n')] ! k"
      unfolding e using k p n' by simp
  qed
  have c: "\<not> (n \<le> 0 \<or> FileLength (hdr f) \<le> p)" using p n by (simp add: FileLength_def)
  have m: "(if p + n > FileLength (hdr f) then FileLength (hdr f) - p else n) = n'"
    by (auto simp: n'_def FileLength_def)
  have d: "divRoundDown p SecSize = a" "divRoundDown (p + n' - 1) SecSize = b"
    using p n' by (simp_all add: SecSize_def a_def b_def)
  have "ReadAt f s n p = Inr (s', map (file_byte s (hdr f)) [nat p..<nat (p + n')], n')"
    unfolding ReadAt_def Let_def if_not_P [OF c] m d r(1)
    using off(1) fit sl by (simp add: SecSize_def flip: off_def)
  then show ?thesis using r(2,3) by blast
qed

lemma contents_cong:
  assumes "file_ok h" and "\<forall>j. 0 \<le> j \<and> j < DiskDev.NumSectors \<longrightarrow> sector_of s' j = sector_of s j"
  shows "j < nat (numBytes h) \<Longrightarrow> file_byte s' h j = file_byte s h j" and "contents s' h = contents s h"
proof -
  have *: "file_byte s' h j = file_byte s h j" if "j < nat (numBytes h)" for j
  proof -
    have "int j < numBytes h" using that by linarith
    then have "int j < numSectors h * 128" using assms(1) by (simp add: file_ok_def)
    then have "int j div 128 < numSectors h" by (simp add: div_less_iff_less_mult)
    then have i: "0 \<le> int (j div 128)" "int (j div 128) < numSectors h" by (simp_all add: zdiv_int)
    show ?thesis using block_in(2,3) [OF assms(1) i] assms(2) by (simp add: file_byte_def)
  qed
  then show "j < nat (numBytes h) \<Longrightarrow> file_byte s' h j = file_byte s h j" "contents s' h = contents s h"
    by (simp_all add: contents_def)
qed

lemma map_file_byte: "j \<le> nat (numBytes h) \<Longrightarrow>
    map (file_byte s h) [i..<j] = take (j - i) (drop i (contents s h))"
  by (rule nth_equalityI) (auto simp: contents_def)

section \<open>Writing\<close>

lemma distinct_blocks_nth:
  assumes "file_ok h" "0 \<le> i" "i < numSectors h" "0 \<le> j" "j < numSectors h"
  shows "dataSectors h ! nat i = dataSectors h ! nat j \<longleftrightarrow> i = j"
proof -
  have "nat i < length (blocks h)" "nat j < length (blocks h)" "distinct (blocks h)"
    using assms by (auto simp: file_ok_def blocks_def)
  then show ?thesis
    using nth_eq_iff_index_eq [of "blocks h" "nat i" "nat j"] assms
    by (simp add: block_in(4) eq_nat_nat_iff)
qed

lemma write_blocks_ok:
  assumes ok: "file_ok h" "synch_ok s" and r: "0 \<le> a" "a \<le> b" "b < numSectors h"
    and len: "length buf = nat (b - a + 1) * 128"
  shows "\<exists>s'. write_blocks h s [a..b] buf = Inr s' \<and> synch_ok s' \<and>
    (\<forall>j < nat (numSectors h) * 128. file_byte s' h j =
       (if nat a * 128 \<le> j \<and> j < nat (b + 1) * 128 then buf ! (j - nat a * 128) else file_byte s h j)) \<and>
    (\<forall>x. 0 \<le> x \<and> x < DiskDev.NumSectors \<and> x \<notin> set (blocks h) \<longrightarrow> sector_of s' x = sector_of s x)"
proof -
  let ?ds = "\<lambda>i. dataSectors h ! nat i"
  let ?is = "map ?ds [a..b]"
  have ab: "\<forall>i \<in> set [a..b]. 0 \<le> i \<and> i < numSectors h" using r by auto
  have rng: "\<forall>i \<in> set ?is. 0 \<le> i \<and> i < DiskDev.NumSectors"
    using block_in(2,3) [OF ok(1)] ab by auto
  have dist: "distinct ?is"
    using distinct_blocks_nth [OF ok(1)] ab by (auto simp: distinct_map inj_on_def)
  have lb: "length buf = length ?is * 128" using len by simp
  obtain s' where w: "write_each WriteSector 128 s ?is buf = Inr s'" "synch_ok s'"
      "\<forall>k < length ?is. sector_of s' (?is ! k) = slice buf (k * 128) 128"
      "\<forall>j. 0 \<le> j \<and> j < DiskDev.NumSectors \<and> j \<notin> set ?is \<longrightarrow> sector_of s' j = sector_of s j"
    using sd.write_each_ok [OF ok(2) rng dist lb] by blast
  have fb: "file_byte s' h j = (if nat a * 128 \<le> j \<and> j < nat (b + 1) * 128
      then buf ! (j - nat a * 128) else file_byte s h j)" if j: "j < nat (numSectors h) * 128" for j
  proof -
    define i where "i = int (j div 128)"
    have i: "0 \<le> i" "i < numSectors h" using j by (auto simp: i_def less_mult_imp_div_less)
    have ni: "j div 128 = nat i" by (simp add: i_def)
    have ji: "j = nat i * 128 + j mod 128" "j mod 128 < 128" by (simp_all add: i_def)
    have inside: "nat a * 128 \<le> j \<and> j < nat (b + 1) * 128 \<longleftrightarrow> a \<le> i \<and> i \<le> b"
      using ji r i by linarith
    show ?thesis
    proof (cases "a \<le> i \<and> i \<le> b")
      case True
      define k where "k = nat (i - a)"
      have k: "k < length ?is" "?is ! k = ?ds i" using True r by (simp_all add: k_def)
      have l: "k * 128 + 128 \<le> length buf" using k(1) lb by simp
      have e: "j - nat a * 128 = k * 128 + j mod 128" using ji True r i by (simp add: k_def) linarith
      have "file_byte s' h j = slice buf (k * 128) 128 ! (j mod 128)"
        using w(3) k by (metis file_byte_def ni)
      also have "\<dots> = buf ! (k * 128 + j mod 128)" using l ji(2) by simp
      finally show ?thesis using True inside by (simp add: e)
    next
      case False
      have "?ds i \<noteq> ?ds x" if "a \<le> x" "x \<le> b" for x
        using distinct_blocks_nth [OF ok(1) i, of x] that r False by auto
      then have "\<forall>x \<in> {a..b}. ?ds i \<noteq> ?ds x" by simp
      then have "?ds i \<notin> set ?is" unfolding set_map set_upto by blast
      then have "sector_of s' (?ds i) = sector_of s (?ds i)"
        using w(4) block_in(2,3) [OF ok(1) i] by blast
      then have "file_byte s' h j = file_byte s h j" by (simp add: file_byte_def ni)
      moreover have "\<not> (nat a * 128 \<le> j \<and> j < nat (b + 1) * 128)" using False inside by blast
      ultimately show ?thesis by (simp only: if_False)
    qed
  qed
  have "set ?is \<subseteq> set (blocks h)"
  proof
    fix x assume "x \<in> set ?is"
    then obtain i where "x = ?ds i" "0 \<le> i" "i < numSectors h" using ab by auto
    then show "x \<in> set (blocks h)" using block_in(5) [OF ok(1)] by blast
  qed
  then have "\<forall>x. 0 \<le> x \<and> x < DiskDev.NumSectors \<and> x \<notin> set (blocks h) \<longrightarrow> sector_of s' x = sector_of s x"
    using w(4) by blast
  then show ?thesis
    unfolding write_blocks_each [OF ok(1) ab] using w(1,2) fb by blast
qed

text \<open>One of the two reads that fill in the unmodified part of the first and last sector.\<close>

lemma patch_sector:
  assumes ok: "file_ok (hdr f)" "synch_ok s" and a: "0 \<le> a" "a * 128 < numBytes (hdr f)"
    and q: "q + 128 \<le> length buf"
  shows "\<exists>s' d n' buf'. ReadAt f s SecSize (a * SecSize) = Inr (s', d, n') \<and> d \<noteq> [] \<and> synch_ok s' \<and>
    (\<forall>j. 0 \<le> j \<and> j < DiskDev.NumSectors \<longrightarrow> sector_of s' j = sector_of s j) \<and>
    copy_into buf (int q) d = Inr buf' \<and> length buf' = length buf \<and>
    (\<forall>k < length buf. buf' ! k = (if q \<le> k \<and> k < q + 128 \<and> a * 128 + int (k - q) < numBytes (hdr f)
       then file_byte s (hdr f) (nat (a * 128) + (k - q)) else buf ! k))"
proof -
  define n' where "n' = min 128 (numBytes (hdr f) - a * 128)"
  have n': "0 < n'" "n' \<le> 128" using a by (auto simp: n'_def)
  let ?d = "map (file_byte s (hdr f)) [nat (a * 128)..<nat (a * 128 + n')]"
  obtain s' where s': "ReadAt f s 128 (a * 128) = Inr (s', ?d, n')" "synch_ok s'"
      "\<forall>j. 0 \<le> j \<and> j < DiskDev.NumSectors \<longrightarrow> sector_of s' j = sector_of s j"
    using ReadAt_run [OF ok, of "a * 128" 128] a unfolding n'_def by auto
  have len: "length ?d = nat n'" using a n' by simp
  then have fit: "q + length ?d \<le> length buf" using q n' by linarith
  have ne: "?d \<noteq> []" using len n' by (metis length_greater_0_conv zero_less_nat_eq)
  have "blit buf q ?d ! k = (if q \<le> k \<and> k < q + 128 \<and> a * 128 + int (k - q) < numBytes (hdr f)
      then file_byte s (hdr f) (nat (a * 128) + (k - q)) else buf ! k)" if k: "k < length buf" for k
  proof -
    have c: "k < q + length ?d \<longleftrightarrow> k < q + 128 \<and> a * 128 + int (k - q) < numBytes (hdr f)" if "q \<le> k"
      using that unfolding len n'_def using a by auto
    have e: "?d ! (k - q) = file_byte s (hdr f) (nat (a * 128) + (k - q))" if "q \<le> k" "k < q + length ?d"
    proof -
      have "k - q < nat (a * 128 + n') - nat (a * 128)" using that by simp
      then show ?thesis by simp
    qed
    show ?thesis using nth_blit [OF fit k] c e by (cases "q \<le> k") auto
  qed
  moreover have "copy_into buf (int q) ?d = Inr (blit buf q ?d)"
    using fit by (simp add: copy_into_def)
  ultimately show ?thesis using s' ne fit by (fastforce simp: SecSize_def)
qed

text \<open>The conditional form in which \<open>WriteAt\<close> uses it.\<close>

lemma patch_if:
  assumes ok: "file_ok (hdr f)" "synch_ok s" and a: "0 \<le> a" "a * 128 < numBytes (hdr f)"
    and q: "q + 128 \<le> length buf"
  shows "\<exists>s' d r buf'. (if c then ReadAt f s SecSize (a * SecSize) else Inr (s, [], 0)) = Inr (s', d, r) \<and>
    synch_ok s' \<and> (\<forall>j. 0 \<le> j \<and> j < DiskDev.NumSectors \<longrightarrow> sector_of s' j = sector_of s j) \<and>
    copy_into buf (if d = [] then 0 else int q) d = Inr buf' \<and> length buf' = length buf \<and>
    (\<forall>k < length buf. buf' ! k = (if c \<and> q \<le> k \<and> k < q + 128 \<and> a * 128 + int (k - q) < numBytes (hdr f)
       then file_byte s (hdr f) (nat (a * 128) + (k - q)) else buf ! k))"
proof (cases c)
  case True
  obtain s' d r buf' where p: "ReadAt f s SecSize (a * SecSize) = Inr (s', d, r)" "d \<noteq> []" "synch_ok s'"
      "\<forall>j. 0 \<le> j \<and> j < DiskDev.NumSectors \<longrightarrow> sector_of s' j = sector_of s j"
      "copy_into buf (int q) d = Inr buf'" "length buf' = length buf"
      "\<forall>k < length buf. buf' ! k = (if q \<le> k \<and> k < q + 128 \<and> a * 128 + int (k - q) < numBytes (hdr f)
         then file_byte s (hdr f) (nat (a * 128) + (k - q)) else buf ! k)"
    using patch_sector [OF ok a q] by blast
  show ?thesis
    unfolding if_P [OF True] using True p
    by (intro exI [of _ s'] exI [of _ d] exI [of _ r] exI [of _ buf']) (simp only: if_False simp_thms)
next
  case False
  then show ?thesis using ok by (simp add: copy_into_def)
qed

lemma WriteAt_run:
  assumes ok: "file_ok (hdr f)" "synch_ok s" and p: "0 \<le> p" "p < numBytes (hdr f)" and n: "0 < n"
  defines "n' \<equiv> min n (numBytes (hdr f) - p)"
  assumes from_len: "n' \<le> int (length src)"
  shows "\<exists>s'. WriteAt junk f s src n p = Inr (s', n') \<and> synch_ok s' \<and>
    (\<forall>j < nat (numBytes (hdr f)). file_byte s' (hdr f) j =
       (if nat p \<le> j \<and> j < nat (p + n') then src ! (j - nat p) else file_byte s (hdr f) j)) \<and>
    (\<forall>x. 0 \<le> x \<and> x < DiskDev.NumSectors \<and> x \<notin> set (blocks (hdr f)) \<longrightarrow> sector_of s' x = sector_of s x)"
proof -
  define h nb where "h = hdr f" and "nb = numBytes (hdr f)"
  define a b where "a = p div 128" and "b = (p + n' - 1) div 128"
  have n': "0 < n'" "p + n' \<le> nb" using p n by (auto simp: n'_def nb_def)
  have nbs: "nb \<le> numSectors h * 128" using ok(1) by (simp add: file_ok_def nb_def h_def)
  have bd: "b * 128 \<le> p + n' - 1" "p + n' - 1 < b * 128 + 128" "a * 128 \<le> p" "p < a * 128 + 128"
    unfolding a_def b_def
    using div_mult_mod_eq [of p 128] pos_mod_bound [of 128 p] pos_mod_sign [of 128 p]
      div_mult_mod_eq [of "p + n' - 1" 128] pos_mod_bound [of 128 "p + n' - 1"]
      pos_mod_sign [of 128 "p + n' - 1"] by linarith+
  have ab: "0 \<le> a" "a \<le> b" "b < numSectors h"
    using bd n' nbs p by linarith+
  define N q where "N = nat (b - a + 1) * 128" and "q = nat (b - a) * 128"
  have Nq: "N = q + 128" "int q = (b - a) * 128" using ab by (simp_all add: N_def q_def nat_add_distrib)
  have q': "int q = b * 128 - a * 128" using Nq(2) by (simp add: left_diff_distrib)
  define buf where "buf = map junk [0..<N]"
  have lbuf: "length buf = N" by (simp add: buf_def)
  let ?fa = "p = a * 128" and ?la = "p + n' = (b + 1) * 128"
  let ?c2 = "\<not> ?la \<and> (a \<noteq> b \<or> ?fa)"
  have ka: "a * 128 < numBytes (hdr f)" "b * 128 < numBytes (hdr f)"
    using bd n' by (simp_all add: nb_def)
  obtain s1 d1 r1 buf1 where 1:
      "(if \<not> ?fa then ReadAt f s SecSize (a * SecSize) else Inr (s, [], 0)) = Inr (s1, d1, r1)"
      "synch_ok s1" "\<forall>j. 0 \<le> j \<and> j < DiskDev.NumSectors \<longrightarrow> sector_of s1 j = sector_of s j"
      "copy_into buf (if d1 = [] then 0 else int 0) d1 = Inr buf1" "length buf1 = N"
      "\<forall>k < N. buf1 ! k = (if \<not> ?fa \<and> 0 \<le> k \<and> k < 0 + 128 \<and> a * 128 + int (k - 0) < nb
         then file_byte s h (nat (a * 128) + (k - 0)) else buf ! k)"
    using patch_if [OF ok ab(1) ka(1), of 0 buf "\<not> ?fa"] lbuf Nq unfolding h_def nb_def by auto
  have ok1: "file_ok (hdr f)" "synch_ok s1" using ok(1) 1(2) .
  have b0: "0 \<le> b" "q + 128 \<le> length buf1" using ab Nq 1(5) by simp_all
  obtain s2 d2 r2 buf2 where 2:
      "(if ?c2 then ReadAt f s1 SecSize (b * SecSize) else Inr (s1, [], 0)) = Inr (s2, d2, r2)"
      "synch_ok s2" "\<forall>j. 0 \<le> j \<and> j < DiskDev.NumSectors \<longrightarrow> sector_of s2 j = sector_of s1 j"
      "copy_into buf1 (if d2 = [] then 0 else int q) d2 = Inr buf2" "length buf2 = N"
      "\<forall>k < N. buf2 ! k = (if ?c2 \<and> q \<le> k \<and> k < q + 128 \<and> b * 128 + int (k - q) < nb
         then file_byte s1 h (nat (b * 128) + (k - q)) else buf1 ! k)"
    using patch_if [OF ok1 b0(1) ka(2) b0(2), of ?c2] 1(5) unfolding h_def nb_def by auto
  have fb1: "file_byte s1 h j = file_byte s h j" if "j < nat nb" for j
    using contents_cong(1) [OF ok(1) 1(3)] that by (simp add: h_def nb_def)
  have keep: "buf2 ! k = file_byte s h (nat a * 128 + k)"
    if k: "k < N" "a * 128 + int k < nb" "a * 128 + int k < p \<or> p + n' \<le> a * 128 + int k" for k
  proof (cases "?c2 \<and> q \<le> k")
    case True
    have e: "nat (b * 128) + (k - q) = nat a * 128 + k" using True Nq ab by (simp add: q_def)
    have qk: "int (k - q) = int k - (b - a) * 128" using True Nq(2) by simp
    have l: "b * 128 + int (k - q) < nb" "k < q + 128"
      using k(1,2) Nq(1) unfolding qk by (simp_all add: left_diff_distrib)
    have "buf2 ! k = file_byte s1 h (nat (b * 128) + (k - q))" using 2(6) k(1) True l by simp
    also have "\<dots> = file_byte s h (nat a * 128 + k)" unfolding e
      using k(2) ab(1) by (intro fb1) linarith
    finally show ?thesis .
  next
    case False
    have "buf2 ! k = buf1 ! k" using 2(6) k(1) False by auto
    moreover have "\<not> ?fa \<and> k < 128"
    proof (cases "a * 128 + int k < p")
      case True
      then show ?thesis using bd by auto
    next
      case False': False
      then have "\<not> ?la" using k(1,3) Nq ab bd by auto
      moreover have "q \<le> k" using False' k(3) bd q' by linarith
      ultimately have "a = b" "\<not> ?fa" using False by auto
      then show ?thesis using k(1) Nq by simp
    qed
    moreover have "nat (a * 128) = nat a * 128" using ab by simp
    ultimately show ?thesis using 1(6) k(1,2) by simp
  qed
  have src: "length (take (nat n') src) = nat n'" using from_len by simp
  have off: "0 \<le> p - a * 128" "p - a * 128 + n' \<le> int N" using bd Nq(1) q' by linarith+
  have fit: "nat (p - a * 128) + length (take (nat n') src) \<le> length buf2"
    unfolding src 2(5) using off n' by linarith
  define buf3 where "buf3 = blit buf2 (nat (p - a * 128)) (take (nat n') src)"
  have c3: "copy_into buf2 (p - a * 128) (take (nat n') src) = Inr buf3"
    using off n' src by (simp add: copy_into_def buf3_def 2(5))
  have l3: "length buf3 = nat (b - a + 1) * 128" using fit 2(5) by (simp add: buf3_def N_def)
  obtain s3 where 3: "write_blocks h s2 [a..b] buf3 = Inr s3" "synch_ok s3"
      "\<forall>j < nat (numSectors h) * 128. file_byte s3 h j =
         (if nat a * 128 \<le> j \<and> j < nat (b + 1) * 128 then buf3 ! (j - nat a * 128) else file_byte s2 h j)"
      "\<forall>x. 0 \<le> x \<and> x < DiskDev.NumSectors \<and> x \<notin> set (blocks h) \<longrightarrow> sector_of s3 x = sector_of s2 x"
    using write_blocks_ok [OF _ 2(2) ab l3] ok(1) unfolding h_def by blast
  have sec2: "\<forall>j. 0 \<le> j \<and> j < DiskDev.NumSectors \<longrightarrow> sector_of s2 j = sector_of s j"
    using 1(3) 2(3) by simp
  have bytes: "file_byte s3 h j = (if nat p \<le> j \<and> j < nat (p + n') then src ! (j - nat p)
      else file_byte s h j)" if j: "j < nat nb" for j
  proof (cases "nat a * 128 \<le> j \<and> j < nat (b + 1) * 128")
    case True
    define k where "k = j - nat a * 128"
    have "nat (b + 1) = nat a + nat (b - a + 1)" using ab by linarith
    then have bN: "nat (b + 1) * 128 = nat a * 128 + N" by (simp only: N_def add_mult_distrib)
    have k1: "nat a * 128 + k = j" "k < N" using True unfolding k_def bN by linarith+
    moreover have "int (nat a * 128) = a * 128" using ab by simp
    ultimately have k: "k < N" "a * 128 + int k = int j" "nat a * 128 + k = j" by linarith+
    have js: "j < nat (numSectors h) * 128" using j nbs by linarith
    have "file_byte s3 h j = buf3 ! k" using 3(3) js True by (simp add: k_def)
    also have "\<dots> = (if nat (p - a * 128) \<le> k \<and> k < nat (p - a * 128) + nat n'
        then take (nat n') src ! (k - nat (p - a * 128)) else buf2 ! k)"
      using nth_blit [OF fit, of k] k(1) 2(5) unfolding buf3_def src by simp
    finally have e: "file_byte s3 h j = \<dots>" .
    have in_iff: "nat (p - a * 128) \<le> k \<and> k < nat (p - a * 128) + nat n' \<longleftrightarrow> nat p \<le> j \<and> j < nat (p + n')"
      using k(2) off(1) n' p by linarith
    show ?thesis
    proof (cases "nat p \<le> j \<and> j < nat (p + n')")
      case True
      have "k - nat (p - a * 128) = j - nat p" "j - nat p < nat n'"
        using True k(2) off(1) p n' by linarith+
      then show ?thesis unfolding e in_iff using True by simp
    next
      case False
      then have "a * 128 + int k < p \<or> p + n' \<le> a * 128 + int k" "a * 128 + int k < nb"
        using k(2) j p n' by linarith+
      then have "buf2 ! k = file_byte s h j" using keep [OF k(1)] k(3) by simp
      then show ?thesis unfolding e in_iff using False by (simp only: if_False)
    qed
  next
    case False
    have js: "j < nat (numSectors h) * 128" using j nbs by linarith
    have "file_byte s3 h j = file_byte s2 h j" using 3(3) js False by (simp only: if_False)
    moreover have "file_byte s2 h j = file_byte s h j"
      using contents_cong(1) [OF ok(1) sec2] j by (simp add: h_def nb_def)
    moreover have "\<not> (nat p \<le> j \<and> j < nat (p + n'))"
      using False bd ab p n' by linarith
    ultimately show ?thesis by (simp only: if_False)
  qed
  have c: "\<not> (n \<le> 0 \<or> FileLength (hdr f) \<le> p)" using p n by (simp add: FileLength_def)
  have m: "(if p + n > FileLength (hdr f) then FileLength (hdr f) - p else n) = n'"
    by (auto simp: n'_def FileLength_def)
  have d: "divRoundDown p SecSize = a" "divRoundDown (p + n' - 1) SecSize = b"
    using p n' by (simp_all add: SecSize_def a_def b_def)
  have "nat ((1 + b - a) * SecSize) = N"
    using ab nat_mult_distrib [of "b - a + 1" 128] by (simp add: N_def SecSize_def algebra_simps)
  then have jb: "map junk [0..<nat ((1 + b - a) * SecSize)] = buf" by (simp add: buf_def)
  have c1': "copy_into buf 0 d1 = Inr buf1" using 1(4) by (simp split: if_splits)
  have c2': "copy_into buf1 (if d2 = [] then 0 else (b - a) * 128) d2 = Inr buf2"
    using 2(4) unfolding Nq(2) .
  have nl: "\<not> int (length src) < n'" using from_len by simp
  note runs = 1(1) 2(1) c1' c2' c3 3(1)
  have "WriteAt junk f s src n p = Inr (s3, n')"
    unfolding WriteAt_def Let_def if_not_P [OF c] m d jb
    unfolding SecSize_def
    by (simp only: runs [unfolded SecSize_def h_def] bindR_Inr prod.case if_not_P [OF nl])
  moreover have "\<forall>x. 0 \<le> x \<and> x < DiskDev.NumSectors \<and> x \<notin> set (blocks h) \<longrightarrow> sector_of s3 x = sector_of s x"
    using 3(4) sec2 by simp
  ultimately show ?thesis using 3(2) bytes unfolding h_def nb_def by blast
qed

text \<open>Both operations in terms of the contents of the file.\<close>

lemma ReadAt_contents_ok:
  assumes ok: "file_ok (hdr f)" "synch_ok s" and p: "0 \<le> p"
  shows "\<exists>s'. ReadAt f s n p = Inr (s', take (nat n) (drop (nat p) (contents s (hdr f))),
      int (length (take (nat n) (drop (nat p) (contents s (hdr f)))))) \<and>
    synch_ok s' \<and> (\<forall>j. 0 \<le> j \<and> j < DiskDev.NumSectors \<longrightarrow> sector_of s' j = sector_of s j)"
proof (cases "n \<le> 0 \<or> numBytes (hdr f) \<le> p")
  case True
  then have e: "take (nat n) (drop (nat p) (contents s (hdr f))) = []" by auto
  have "ReadAt f s n p = Inr (s, [], 0)"
    using True by (simp add: ReadAt_def Let_def FileLength_def)
  then show ?thesis unfolding e using ok(2) by simp
next
  case False
  define n' where "n' = min n (numBytes (hdr f) - p)"
  have l: "nat (p + n') \<le> nat (numBytes (hdr f))" "0 < n'" using False by (auto simp: n'_def)
  have "map (file_byte s (hdr f)) [nat p..<nat (p + n')] =
      take (nat (p + n') - nat p) (drop (nat p) (contents s (hdr f)))"
    by (rule map_file_byte [OF l(1)])
  also have "\<dots> = take (nat n) (drop (nat p) (contents s (hdr f)))"
  proof (cases "n \<le> numBytes (hdr f) - p")
    case True
    then show ?thesis using p False by (simp add: n'_def nat_add_distrib min_def)
  next
    case False
    then show ?thesis using p by (simp add: n'_def min_def)
  qed
  finally have e: "map (file_byte s (hdr f)) [nat p..<nat (p + n')] =
      take (nat n) (drop (nat p) (contents s (hdr f)))" .
  have "int (length (map (file_byte s (hdr f)) [nat p..<nat (p + n')])) = n'" using p l(2) by simp
  then show ?thesis using ReadAt_run [OF ok p, of n] False unfolding n'_def [symmetric] e by auto
qed

lemma WriteAt_contents_ok:
  assumes ok: "file_ok (hdr f)" "synch_ok s" and p: "0 \<le> p" and l: "nat n \<le> length src"
  defines "cnt \<equiv> if n \<le> 0 \<or> numBytes (hdr f) \<le> p then 0 else min n (numBytes (hdr f) - p)"
  shows "\<exists>s'. WriteAt junk f s src n p = Inr (s', cnt) \<and> synch_ok s' \<and>
    contents s' (hdr f) = (if cnt = 0 then contents s (hdr f)
      else blit (contents s (hdr f)) (nat p) (take (nat cnt) src)) \<and>
    (\<forall>x. 0 \<le> x \<and> x < DiskDev.NumSectors \<and> x \<notin> set (blocks (hdr f)) \<longrightarrow> sector_of s' x = sector_of s x)"
proof (cases "n \<le> 0 \<or> numBytes (hdr f) \<le> p")
  case True
  then have "WriteAt junk f s src n p = Inr (s, 0)" by (simp add: WriteAt_def Let_def FileLength_def)
  then show ?thesis using True ok(2) by (simp add: cnt_def)
next
  case False
  then have c: "cnt = min n (numBytes (hdr f) - p)" "0 < cnt" by (auto simp: cnt_def)
  have pn: "p < numBytes (hdr f)" "0 < n" "min n (numBytes (hdr f) - p) \<le> int (length src)"
    using False l by auto
  obtain s' where s': "WriteAt junk f s src n p = Inr (s', cnt)" "synch_ok s'"
      "\<forall>j < nat (numBytes (hdr f)). file_byte s' (hdr f) j =
         (if nat p \<le> j \<and> j < nat (p + cnt) then src ! (j - nat p) else file_byte s (hdr f) j)"
      "\<forall>x. 0 \<le> x \<and> x < DiskDev.NumSectors \<and> x \<notin> set (blocks (hdr f)) \<longrightarrow> sector_of s' x = sector_of s x"
    using WriteAt_run [OF ok p pn, of junk] unfolding c(1) by blast
  have lt: "length (take (nat cnt) src) = nat cnt" using pn(3) by (simp add: c(1))
  have fit: "nat p + length (take (nat cnt) src) \<le> length (contents s (hdr f))"
    unfolding lt length_contents using p c by linarith
  have "contents s' (hdr f) = blit (contents s (hdr f)) (nat p) (take (nat cnt) src)"
  proof (rule nth_equalityI)
    show "length (contents s' (hdr f)) = length (blit (contents s (hdr f)) (nat p) (take (nat cnt) src))"
      using fit by simp
    fix j assume "j < length (contents s' (hdr f))"
    then have j: "j < nat (numBytes (hdr f))" by simp
    have "nat (p + cnt) = nat p + nat cnt" using p c(2) by simp
    moreover have "contents s' (hdr f) ! j = file_byte s' (hdr f) j"
        "contents s (hdr f) ! j = file_byte s (hdr f) j" using j by (simp_all add: contents_def)
    moreover have "j - nat p < nat cnt" if "j < nat p + nat cnt" "nat p \<le> j" using that by linarith
    ultimately show "contents s' (hdr f) ! j = blit (contents s (hdr f)) (nat p) (take (nat cnt) src) ! j"
      using s'(3) j nth_blit [OF fit, of j] unfolding lt length_contents by auto
  qed
  then show ?thesis using s'(1,2,4) c(2) by auto
qed

section \<open>Properties\<close>

text \<open>
  C40: \<open>ReadAt\<close> from a position within or beyond the file returns exactly the bytes of the file from
  there, as many as asked for or as there are, whatever the position's place in its sector, and
  leaves every sector of the disk as it was.
\<close>

theorem ReadAt_contents:
  assumes "file_ok (hdr f)" and "synch_ok s" and "0 \<le> p"
  shows "\<exists>s'. ReadAt f s n p = Inr (s', take (nat n) (drop (nat p) (contents s (hdr f))),
      int (length (take (nat n) (drop (nat p) (contents s (hdr f)))))) \<and>
    synch_ok s' \<and> (\<forall>j. 0 \<le> j \<and> j < DiskDev.NumSectors \<longrightarrow> sector_of s' j = sector_of s j)"
  using assms by (rule ReadAt_contents_ok)

definition sample_disk :: synch_disk where
  "sample_disk = \<lparr>sd_disk = \<lparr>diskFile = replicate 131076 0, active = False, lastSector = 0,
     bufferInit = 0\<rparr>, sd_stats = Statistics_new, semaphore = 0\<rparr>"

definition sample_file :: open_file where
  "sample_file = \<lparr>hdr = \<lparr>numBytes = 200, numSectors = 2, dataSectors = 7 # 9 # replicate 28 0\<rparr>,
     seekPosition = 0\<rparr>"

lemma sample_ok: "synch_ok sample_disk" "file_ok (hdr sample_file)"
  by (simp_all add: sample_disk_def sample_file_def synch_ok_def disk_ok_def file_ok_def blocks_def
      disk_consts NumDirect_def Statistics_new_def)

theorem ReadAt_contents_witness:
  "file_ok (hdr sample_file) \<and> synch_ok sample_disk \<and> (0::int) \<le> 100 \<and>
   (\<exists>s' d. ReadAt sample_file sample_disk 500 100 = Inr (s', d, 100) \<and> length d = 100)"
proof -
  have z: "(0::int) \<le> 100" by simp
  obtain s' where "ReadAt sample_file sample_disk 500 100 =
      Inr (s', take (nat 500) (drop (nat 100) (contents sample_disk (hdr sample_file))),
        int (length (take (nat 500) (drop (nat 100) (contents sample_disk (hdr sample_file))))))"
    using ReadAt_contents [OF sample_ok(2,1) z, of 500] by blast
  moreover have "length (take (nat 500) (drop (nat 100) (contents sample_disk (hdr sample_file)))) = 100"
    by (simp add: sample_file_def)
  ultimately show ?thesis using sample_ok z by (intro conjI exI) (simp_all del: length_take length_drop)
qed

text \<open>
  C24: \<open>WriteAt\<close> replaces exactly the bytes of the file from the position on, up to the end of the
  file, and returns how many it wrote; the rest of the file, also in the sectors it had to rewrite,
  and every sector of another file stay as they were, whatever the fresh buffer held.
\<close>

theorem WriteAt_contents:
  assumes "file_ok (hdr f)" and "synch_ok s" and "0 \<le> p" and "nat n \<le> length src"
  shows "let old = contents s (hdr f);
      cnt = (if n \<le> 0 \<or> numBytes (hdr f) \<le> p then 0 else min n (numBytes (hdr f) - p)) in
    \<exists>s'. WriteAt junk f s src n p = Inr (s', cnt) \<and> synch_ok s' \<and>
      contents s' (hdr f) = (if cnt = 0 then old else blit old (nat p) (take (nat cnt) src)) \<and>
      (\<forall>x. 0 \<le> x \<and> x < DiskDev.NumSectors \<and> x \<notin> set (blocks (hdr f)) \<longrightarrow>
         sector_of s' x = sector_of s x)"
  using WriteAt_contents_ok [OF assms] unfolding Let_def .

theorem WriteAt_contents_witness:
  "file_ok (hdr sample_file) \<and> synch_ok sample_disk \<and> (0::int) \<le> 126 \<and>
   nat 4 \<le> length [1, 2, 3, 4 :: 8 word] \<and>
   (\<exists>s'. WriteAt (\<lambda>_. 255) sample_file sample_disk [1, 2, 3, 4] 4 126 = Inr (s', 4) \<and>
     slice (contents s' (hdr sample_file)) 126 4 = [1, 2, 3, 4])"
proof -
  have z: "(0::int) \<le> 126" "nat 4 \<le> length [1, 2, 3, 4 :: 8 word]" by simp_all
  have nb: "numBytes (hdr sample_file) = 200" by (simp add: sample_file_def)
  obtain s' where "WriteAt (\<lambda>_. 255) sample_file sample_disk [1, 2, 3, 4] 4 126 = Inr (s', 4)"
      "contents s' (hdr sample_file) = blit (contents sample_disk (hdr sample_file)) 126 [1, 2, 3, 4]"
    using WriteAt_contents [OF sample_ok(2,1) z, of "\<lambda>_. 255"] by (auto simp: Let_def nb)
  moreover have "slice (blit (contents sample_disk (hdr sample_file)) 126 [1, 2, 3, 4]) 126
      (length [1, 2, 3, 4 :: 8 word]) = [1, 2, 3, 4]"
    by (rule slice_blit_same) (simp add: nb)
  moreover have "length [1, 2, 3, 4 :: 8 word] = 4" by simp
  ultimately show ?thesis using sample_ok z by metis
qed

fun read_seq :: "open_file \<Rightarrow> synch_disk \<Rightarrow> nat list \<Rightarrow> (open_file \<times> synch_disk \<times> 8 word list) res" where
  "read_seq f s [] = Inr (f, s, [])"
| "read_seq f s (n # ns) =
     bindR (Read f s (int n)) (\<lambda>(f', s', d, _).
     bindR (read_seq f' s' ns) (\<lambda>(f'', s'', ds). Inr (f'', s'', d @ ds)))"

text \<open>
  Reading sequentially in pieces of any sizes gives the same bytes as the file holds from the
  seek position on, and leaves the position behind them.
\<close>

theorem Read_sequential:
  assumes "file_ok (hdr f)" and "synch_ok s" and "0 \<le> seekPosition f"
  shows "\<exists>f' s'. read_seq f s ns = Inr (f', s', take (sum_list ns) (drop (nat (seekPosition f)) (contents s (hdr f)))) \<and>
    seekPosition f' = seekPosition f + int (length (take (sum_list ns)
      (drop (nat (seekPosition f)) (contents s (hdr f))))) \<and> hdr f' = hdr f"
  using assms
proof (induction ns arbitrary: f s)
  case (Cons n ns)
  define p c where "p = nat (seekPosition f)" and "c = contents s (hdr f)"
  obtain s1 where r: "ReadAt f s (int n) (seekPosition f) =
      Inr (s1, take n (drop p c), int (length (take n (drop p c))))" "synch_ok s1"
      "\<forall>j. 0 \<le> j \<and> j < DiskDev.NumSectors \<longrightarrow> sector_of s1 j = sector_of s j"
    using ReadAt_contents_ok [OF Cons.prems, of "int n"] by (auto simp: p_def c_def)
  define f1 where "f1 = f\<lparr>seekPosition := seekPosition f + int (length (take n (drop p c)))\<rparr>"
  have R: "Read f s (int n) = Inr (f1, s1, take n (drop p c), int (length (take n (drop p c))))"
    using r(1) by (simp add: Read_def f1_def)
  have f1: "hdr f1 = hdr f" "seekPosition f1 = seekPosition f + int (length (take n (drop p c)))"
    by (simp_all add: f1_def)
  have c1: "contents s1 (hdr f) = c" using contents_cong(2) [OF Cons.prems(1) r(3)] by (simp add: c_def)
  define k where "k = length (take n (drop p c))"
  have p1: "nat (seekPosition f1) = p + k" "0 \<le> seekPosition f1"
    using Cons.prems(3) by (simp_all add: f1 p_def k_def nat_add_distrib del: length_take)
  obtain f2 s2 where 2: "read_seq f1 s1 ns = Inr (f2, s2, take (sum_list ns) (drop (p + k) c))"
      "seekPosition f2 = seekPosition f1 + int (length (take (sum_list ns) (drop (p + k) c)))"
      "hdr f2 = hdr f"
    using Cons.IH [of f1 s1] Cons.prems(1) r(2) p1 f1(1) c1 by auto
  have e: "take n (drop p c) @ take (sum_list ns) (drop (p + k) c) = take (n + sum_list ns) (drop p c)"
    by (cases "n \<le> length (drop p c)") (simp_all add: k_def take_add min_def add.commute)
  then have "length (take (n + sum_list ns) (drop p c)) = k + length (take (sum_list ns) (drop (p + k) c))"
    by (metis k_def length_append)
  then show ?case
    using R 2 e f1 by (simp add: k_def flip: p_def c_def del: length_take length_drop)
qed simp

theorem Read_sequential_witness:
  "file_ok (hdr sample_file) \<and> synch_ok sample_disk \<and> 0 \<le> seekPosition sample_file \<and>
   (\<exists>f' s' d. read_seq sample_file sample_disk [150, 0, 90] = Inr (f', s', d) \<and> length d = 200 \<and>
     seekPosition f' = 200)"
proof -
  have z: "0 \<le> seekPosition sample_file" by (simp add: sample_file_def)
  show ?thesis
    using Read_sequential [OF sample_ok(2,1) z, of "[150, 0, 90]"] sample_ok z
    by (auto simp: sample_file_def)
qed

text \<open>
  Nothing in \<open>ReadAt\<close> stops a negative position: a request there always reads in front of the
  sector table or of the buffer.
\<close>

theorem ReadAt_negative_position:
  assumes "file_ok (hdr f)" and "synch_ok s" and "p < 0" and "0 < n" and "0 < numBytes (hdr f)"
  shows "ReadAt f s n p = Inl BadAccess"
proof -
  define n' where "n' = (if p + n > numBytes (hdr f) then numBytes (hdr f) - p else n)"
  define a b where "a = divRoundDown p SecSize" and "b = divRoundDown (p + n' - 1) SecSize"
  have n': "0 < n'" "p + n' \<le> numBytes (hdr f)" using assms by (auto simp: n'_def)
  have c: "\<not> (n \<le> 0 \<or> FileLength (hdr f) \<le> p)" using assms by (simp add: FileLength_def)
  have neg: "x sdiv 128 = - ((- x) div 128)" if "x < 0" for x :: int
    using that by (simp add: signed_divide_int_def)
  have a: "a = - ((- p) div 128)" using neg [OF assms(3)] by (simp add: a_def divRoundDown_def SecSize_def)
  have ab: "a \<le> b"
  proof (cases "p + n' - 1 < 0")
    case True
    then have "b = - ((- (p + n' - 1)) div 128)" using neg [OF True] by (simp add: b_def divRoundDown_def SecSize_def)
    moreover have "(- (p + n' - 1)) div 128 \<le> (- p) div 128" using n' by (intro zdiv_mono1) simp_all
    ultimately show ?thesis using a by simp
  next
    case False
    then have "0 \<le> b" by (simp add: b_def SecSize_def pos_imp_zdiv_nonneg_iff)
    moreover have "0 \<le> (- p) div 128" using assms(3) by (simp add: pos_imp_zdiv_nonneg_iff)
    ultimately show ?thesis using a by simp
  qed
  have run: "ReadAt f s n p = bindR (read_blocks (hdr f) s [a..b]) (\<lambda>(s', buf).
      let off = p - a * SecSize in
      if 0 \<le> off \<and> off + n' \<le> int (length buf) then Inr (s', slice buf (nat off) (nat n'), n')
      else Inl BadAccess)"
    unfolding ReadAt_def Let_def if_not_P [OF c]
    unfolding FileLength_def n'_def [symmetric]
    unfolding a_def [symmetric] b_def [symmetric] by (rule refl)
  show ?thesis
  proof (cases "a = 0")
    case False
    moreover have "0 \<le> (- p) div 128" using assms(3) by (simp add: pos_imp_zdiv_nonneg_iff)
    ultimately have "a < 0" using a by linarith
    then have "(a * 128) sdiv 128 < 0" using neg [of "a * 128"] by simp
    then have "ByteToSector (hdr f) (a * SecSize) = Inl BadAccess"
      by (simp add: ByteToSector_def SecSize_def aget_def)
    moreover have "[a..b] = a # [a + 1..b]" using ab by (simp add: upto_rec1)
    ultimately show ?thesis unfolding run by simp
  next
    case True
    have nbs: "numBytes (hdr f) \<le> numSectors (hdr f) * 128" using assms(1) by (simp add: file_ok_def)
    have "b < numSectors (hdr f)"
    proof (cases "p + n' - 1 < 0")
      case True': True
      have "- (p + n' - 1) < 128" using True a n' assms(3) by linarith
      then have "b = 0" using neg [OF True'] True' by (simp add: b_def divRoundDown_def SecSize_def)
      then show ?thesis using nbs assms(5) by linarith
    next
      case False
      have "p + n' - 1 < numSectors (hdr f) * 128" using n' nbs by linarith
      then show ?thesis using False by (simp add: b_def SecSize_def div_less_iff_less_mult)
    qed
    then obtain s' buf where "read_blocks (hdr f) s [a..b] = Inr (s', buf)"
      using read_blocks_ok [OF assms(1,2) _ ab] True by auto
    then show ?thesis unfolding run using True assms(3) by simp
  qed
qed

theorem ReadAt_negative_position_witness:
  "file_ok (hdr sample_file) \<and> synch_ok sample_disk \<and> (- 5 :: int) < 0 \<and> (0::int) < 3 \<and>
   0 < numBytes (hdr sample_file) \<and> ReadAt sample_file sample_disk 3 (- 5) = Inl BadAccess"
proof -
  have z: "(- 5 :: int) < 0" "(0::int) < 3" "0 < numBytes (hdr sample_file)"
    by (simp_all add: sample_file_def)
  show ?thesis using ReadAt_negative_position [OF sample_ok(2,1) z] sample_ok z by blast
qed

end
