(* ===== verification/Directories.thy ===== *)
theory Directories
  imports OpenFiles
begin

text \<open>
  \<open>filesys/directory.cc\<close>: the table of file names. A C string is the list of its bytes; in memory it
  ends at the first zero byte. Only the first \<open>FileNameMaxLen\<close> bytes of a name count.
\<close>

section \<open>Strings\<close>

definition FileNameMaxLen :: nat where "FileNameMaxLen = 9"

text \<open>The string in an array of characters, and the library functions on strings.\<close>

definition cstr :: "8 word list \<Rightarrow> 8 word list" where
  "cstr a = takeWhile (\<lambda>c. c \<noteq> 0) a"

fun strncmp_eq :: "nat \<Rightarrow> 8 word list \<Rightarrow> 8 word list \<Rightarrow> bool" where
  "strncmp_eq 0 xs ys = True"
| "strncmp_eq (Suc n) xs ys =
     (let x = (case xs of [] \<Rightarrow> 0 | c # _ \<Rightarrow> c); y = (case ys of [] \<Rightarrow> 0 | c # _ \<Rightarrow> c)
      in if x \<noteq> y then False else if x = 0 then True else strncmp_eq n (tl xs) (tl ys))"

definition strncpy :: "8 word list \<Rightarrow> 8 word list \<Rightarrow> nat \<Rightarrow> 8 word list" where
  "strncpy dst src n = blit dst 0 (take n (cstr src @ replicate n 0))"

section \<open>State\<close>

text \<open>
  An entry is 20 bytes: the flag, three bytes of padding, the sector, the name, two more bytes of
  padding. The padding is carried along, as the entries are written to disk with it.
\<close>

record directory_entry =
  inUse :: bool
  de_sector :: int
  de_name :: "8 word list"
  padding :: "8 word list"

definition EntrySize :: nat where "EntrySize = 20"

definition entry_bytes :: "directory_entry \<Rightarrow> 8 word list" where
  "entry_bytes e = [if inUse e then 1 else 0] @ take 3 (padding e) @ int_bytes (de_sector e) @
     de_name e @ drop 3 (padding e)"

definition entry_of :: "8 word list \<Rightarrow> directory_entry" where
  "entry_of bs = \<lparr>inUse = (bs ! 0 \<noteq> 0), de_sector = int_of (slice bs 4 4), de_name = slice bs 8 10,
     padding = slice bs 1 3 @ slice bs 18 2\<rparr>"

record directory =
  dtable :: "directory_entry list"
  dtableSize :: int

definition table_bytes :: "directory_entry list \<Rightarrow> 8 word list" where
  "table_bytes es = concat (map entry_bytes es)"

definition table_of :: "nat \<Rightarrow> 8 word list \<Rightarrow> directory_entry list" where
  "table_of n bs = map (\<lambda>i. entry_of (slice bs (i * EntrySize) EntrySize)) [0..<n]"

section \<open>Operations\<close>

text \<open>The constructor clears the flags of entries that hold whatever \<open>junk\<close> was there.\<close>

definition Directory_new :: "(nat \<Rightarrow> directory_entry) \<Rightarrow> int \<Rightarrow> directory" where
  "Directory_new junk n =
     \<lparr>dtable = map (\<lambda>i. (junk i)\<lparr>inUse := False\<rparr>) [0..<nat n], dtableSize = n\<rparr>"

text \<open>\<open>FetchFrom\<close> overwrites the front of the table with what the file has of it.\<close>

definition dir_FetchFrom :: "directory \<Rightarrow> open_file \<Rightarrow> synch_disk \<Rightarrow> (synch_disk \<times> directory) res" where
  "dir_FetchFrom d file s =
     bindR (ReadAt file s (dtableSize d * int EntrySize) 0) (\<lambda>(s', bs, _).
     bindR (copy_into (table_bytes (dtable d)) 0 bs) (\<lambda>mem.
     Inr (s', d\<lparr>dtable := table_of (length (dtable d)) mem\<rparr>)))"

definition dir_WriteBack ::
  "(nat \<Rightarrow> 8 word) \<Rightarrow> directory \<Rightarrow> open_file \<Rightarrow> synch_disk \<Rightarrow> synch_disk res" where
  "dir_WriteBack junk d file s =
     bindR (WriteAt junk file s (table_bytes (dtable d)) (dtableSize d * int EntrySize) 0)
       (\<lambda>(s', _). Inr s')"

text \<open>The loops run over the table, which has \<open>tableSize\<close> entries.\<close>

fun find_index :: "directory_entry list \<Rightarrow> 8 word list \<Rightarrow> int \<Rightarrow> int" where
  "find_index [] nm i = -1"
| "find_index (e # es) nm i =
     (if inUse e \<and> strncmp_eq FileNameMaxLen (de_name e) nm then i else find_index es nm (i + 1))"

definition FindIndex :: "directory \<Rightarrow> 8 word list \<Rightarrow> int" where
  "FindIndex d nm = find_index (dtable d) nm 0"

definition dir_Find :: "directory \<Rightarrow> 8 word list \<Rightarrow> int" where
  "dir_Find d nm =
     (let i = FindIndex d nm in if i \<noteq> -1 then de_sector (dtable d ! nat i) else -1)"

fun add_entry :: "directory_entry list \<Rightarrow> 8 word list \<Rightarrow> int \<Rightarrow> directory_entry list \<times> bool" where
  "add_entry [] nm newSector = ([], False)"
| "add_entry (e # es) nm newSector =
     (if \<not> inUse e then
        (e\<lparr>inUse := True, de_name := strncpy (de_name e) nm FileNameMaxLen, de_sector := newSector\<rparr> # es, True)
      else (case add_entry es nm newSector of (es', okay) \<Rightarrow> (e # es', okay)))"

definition dir_Add :: "directory \<Rightarrow> 8 word list \<Rightarrow> int \<Rightarrow> directory \<times> bool" where
  "dir_Add d nm newSector =
     (if FindIndex d nm \<noteq> -1 then (d, False)
      else case add_entry (dtable d) nm newSector of (es, okay) \<Rightarrow> (d\<lparr>dtable := es\<rparr>, okay))"

definition dir_Remove :: "directory \<Rightarrow> 8 word list \<Rightarrow> directory \<times> bool" where
  "dir_Remove d nm =
     (let i = FindIndex d nm in
      if i = -1 then (d, False)
      else (d\<lparr>dtable := (dtable d)[nat i := (dtable d ! nat i)\<lparr>inUse := False\<rparr>]\<rparr>, True))"

text \<open>\<open>printf\<close> of a name reads on to the next zero byte; without one in the array it leaves it.\<close>

definition print_name :: "directory_entry \<Rightarrow> 8 word list res" where
  "print_name e = (if 0 \<in> set (de_name e) then Inr (cstr (de_name e)) else Inl BadAccess)"

fun list_names :: "directory_entry list \<Rightarrow> printed list res" where
  "list_names [] = Inr []"
| "list_names (e # es) =
     (if inUse e then
        bindR (print_name e) (\<lambda>nm. bindR (list_names es) (\<lambda>out. Inr (Str nm # NewLine # out)))
      else list_names es)"

definition dir_List :: "directory \<Rightarrow> printed list res" where
  "dir_List d = list_names (dtable d)"

fun print_entries :: "directory_entry list \<Rightarrow> synch_disk \<Rightarrow> (synch_disk \<times> printed list) res" where
  "print_entries [] s = Inr (s, [NewLine])"
| "print_entries (e # es) s =
     (if inUse e then
        bindR (print_name e) (\<lambda>nm.
        bindR (hdr_FetchFrom s (de_sector e)) (\<lambda>(s1, h).
        bindR (hdr_Print h s1) (\<lambda>(s2, out).
        bindR (print_entries es s2) (\<lambda>(s3, rest).
          Inr (s3, Str nm # Num (de_sector e) # NewLine # out @ rest)))))
      else print_entries es s)"

definition dir_Print :: "directory \<Rightarrow> synch_disk \<Rightarrow> (synch_disk \<times> printed list) res" where
  "dir_Print d s = print_entries (dtable d) s"

section \<open>Strings and their first nine bytes\<close>

definition name_key :: "8 word list \<Rightarrow> 8 word list" where
  "name_key nm = take FileNameMaxLen (cstr nm)"

lemma strncmp_eq_iff: "strncmp_eq n xs ys \<longleftrightarrow> take n (cstr xs) = take n (cstr ys)"
  by (induction n xs ys rule: strncmp_eq.induct) (auto simp: cstr_def split: list.splits)

lemma cstr_cstr [simp]: "cstr (cstr x) = cstr x"
  by (simp add: cstr_def)

lemma takeWhile_take: "takeWhile P (take n xs) = take n (takeWhile P xs)"
  by (induction xs arbitrary: n) (auto simp: take_Cons split: nat.splits)

lemma take_cstr_pad: "cstr (take n (cstr x @ replicate n 0) @ ys) = take n (cstr x) @
    (if n \<le> length (cstr x) then cstr ys else [])"
proof -
  have nz: "\<forall>c \<in> set (take n (cstr x)). c \<noteq> 0"
    by (auto simp: cstr_def dest: in_set_takeD set_takeWhileD)
  show ?thesis
  proof (cases "n \<le> length (cstr x)")
    case True
    then show ?thesis using nz by (simp add: cstr_def [of "_ @ _"] cstr_def [of ys])
  next
    case False
    then obtain m where m: "n - length (cstr x) = Suc m" by (metis Suc_diff_Suc not_le)
    have "min (n - length (cstr x)) n = Suc m" using m by simp
    then have "take n (cstr x @ replicate n 0) = cstr x @ 0 # replicate m 0" using False by simp
    then show ?thesis using False nz by (simp add: cstr_def [of "_ @ _"])
  qed
qed

lemma name_key_strncpy:
  "name_key (strncpy dst nm FileNameMaxLen) = name_key nm"
proof -
  have l: "length (take n (cstr nm @ replicate n 0)) = n" for n by simp
  have e: "strncpy dst nm FileNameMaxLen =
      take FileNameMaxLen (cstr nm @ replicate FileNameMaxLen 0) @ drop FileNameMaxLen dst"
    unfolding strncpy_def blit_def l by simp
  show ?thesis unfolding name_key_def e take_cstr_pad by simp
qed

lemma length_strncpy [simp]: "length dst = 10 \<Longrightarrow> length (strncpy dst nm FileNameMaxLen) = 10"
  by (simp add: strncpy_def FileNameMaxLen_def)

section \<open>The interface: a table of names\<close>

text \<open>
  What a client of the directory sees: a map from keys to sectors with room for \<open>cap\<close> of them. The
  key of a name is what the table compares. Looking up, adding and removing are the map's operations.
\<close>

datatype 'n dir_op = OpAdd 'n int | OpRemove 'n

fun run_dir :: "('d \<Rightarrow> 'n \<Rightarrow> int \<Rightarrow> 'd \<times> bool) \<Rightarrow> ('d \<Rightarrow> 'n \<Rightarrow> 'd \<times> bool) \<Rightarrow> 'd \<Rightarrow> 'n dir_op list \<Rightarrow> 'd" where
  "run_dir add rem d [] = d"
| "run_dir add rem d (OpAdd n x # ops) = run_dir add rem (fst (add d n x)) ops"
| "run_dir add rem d (OpRemove n # ops) = run_dir add rem (fst (rem d n)) ops"

fun map_dir :: "('n \<Rightarrow> 'k) \<Rightarrow> nat \<Rightarrow> ('k \<Rightarrow> int option) \<Rightarrow> 'n dir_op list \<Rightarrow> ('k \<Rightarrow> int option)" where
  "map_dir key cap m [] = m"
| "map_dir key cap m (OpAdd n x # ops) =
     map_dir key cap (if m (key n) = None \<and> card (dom m) < cap then m(key n \<mapsto> x) else m) ops"
| "map_dir key cap m (OpRemove n # ops) = map_dir key cap (m(key n := None)) ops"

locale name_table =
  fixes find :: "'d \<Rightarrow> 'n \<Rightarrow> int"
    and add :: "'d \<Rightarrow> 'n \<Rightarrow> int \<Rightarrow> 'd \<times> bool"
    and rem :: "'d \<Rightarrow> 'n \<Rightarrow> 'd \<times> bool"
    and key :: "'n \<Rightarrow> 'k"
    and abs :: "'d \<Rightarrow> 'k \<Rightarrow> int option"
    and cap :: "'d \<Rightarrow> nat"
    and ok :: "'d \<Rightarrow> bool"
    and valid :: "int \<Rightarrow> bool"
  assumes find_ok: "ok d \<Longrightarrow> find d n = (case abs d (key n) of None \<Rightarrow> -1 | Some x \<Rightarrow> x)"
    and add_ok: "ok d \<Longrightarrow> valid x \<Longrightarrow> \<exists>d'. add d n x = (d', abs d (key n) = None \<and> card (dom (abs d)) < cap d) \<and>
      ok d' \<and> cap d' = cap d \<and>
      abs d' = (if abs d (key n) = None \<and> card (dom (abs d)) < cap d then (abs d)(key n \<mapsto> x) else abs d)"
    and rem_ok: "ok d \<Longrightarrow> \<exists>d'. rem d n = (d', abs d (key n) \<noteq> None) \<and> ok d' \<and> cap d' = cap d \<and>
      abs d' = (abs d)(key n := None)"
    and sectors_valid: "ok d \<Longrightarrow> abs d k = Some x \<Longrightarrow> valid x"
    and valid_nonneg: "valid x \<Longrightarrow> 0 \<le> x"
begin

lemma run_ok:
  assumes "ok d" and "\<forall>n x. OpAdd n x \<in> set ops \<longrightarrow> valid x"
  shows "ok (run_dir add rem d ops) \<and> cap (run_dir add rem d ops) = cap d \<and>
    abs (run_dir add rem d ops) = map_dir key (cap d) (abs d) ops"
  using assms
proof (induction ops arbitrary: d)
  case (Cons op ops)
  show ?case
  proof (cases op)
    case (OpAdd n x)
    then have "valid x" using Cons.prems(2) by simp
    then show ?thesis
      using add_ok [OF Cons.prems(1), of x n] Cons.IH Cons.prems(2) OpAdd by fastforce
  next
    case (OpRemove n)
    then show ?thesis using rem_ok [OF Cons.prems(1), of n] Cons.IH Cons.prems(2) by fastforce
  qed
qed simp

lemma find_run:
  assumes "ok d" and "\<forall>n x. OpAdd n x \<in> set ops \<longrightarrow> valid x"
  shows "find (run_dir add rem d ops) n =
    (case map_dir key (cap d) (abs d) ops (key n) of None \<Rightarrow> -1 | Some x \<Rightarrow> x)"
  using run_ok [OF assms] find_ok by metis

lemma find_minus_1: "ok d \<Longrightarrow> find d n = -1 \<longleftrightarrow> abs d (key n) = None"
  using find_ok [of d n] sectors_valid [of d "key n"] valid_nonneg by (fastforce split: option.splits)

lemma find_same_key: "ok d \<Longrightarrow> key n = key n' \<Longrightarrow> find d n = find d n'"
  by (simp add: find_ok)

end

section \<open>The directory is a table of names\<close>

definition used :: "directory_entry list \<Rightarrow> directory_entry list" where
  "used es = filter inUse es"

definition dmap :: "directory_entry list \<Rightarrow> 8 word list \<Rightarrow> int option" where
  "dmap es = map_of (map (\<lambda>e. (name_key (de_name e), de_sector e)) (used es))"

definition dir_ok :: "directory \<Rightarrow> bool" where
  "dir_ok d \<longleftrightarrow> int (length (dtable d)) = dtableSize d \<and>
     distinct (map (name_key \<circ> de_name) (used (dtable d))) \<and>
     (\<forall>e \<in> set (dtable d). length (de_name e) = 10 \<and> length (padding e) = 5 \<and> int32 (de_sector e)) \<and>
     (\<forall>e \<in> set (used (dtable d)). 0 \<le> de_sector e)"

lemma used_simps [simp]:
  "used [] = []" "used (e # es) = (if inUse e then e # used es else used es)"
  "used (xs @ ys) = used xs @ used ys"
  by (simp_all add: used_def)

lemma dmap_Cons: "dmap (e # es) = (if inUse e then (dmap es)(name_key (de_name e) \<mapsto> de_sector e) else dmap es)"
  by (simp add: dmap_def)

lemma dmap_None: "dmap es k = None \<longleftrightarrow> (\<forall>e \<in> set es. inUse e \<longrightarrow> name_key (de_name e) \<noteq> k)"
  by (auto simp: dmap_def map_of_eq_None_iff used_def image_iff)

lemma dom_dmap: "dom (dmap es) = set (map (name_key \<circ> de_name) (used es))"
  by (simp add: dmap_def dom_map_of_conv_image_fst image_image)

lemma card_dmap:
  "distinct (map (name_key \<circ> de_name) (used es)) \<Longrightarrow> card (dom (dmap es)) = length (used es)"
  unfolding dom_dmap by (metis distinct_card length_map)

lemma find_index_cases:
  "(\<forall>e \<in> set es. inUse e \<longrightarrow> name_key (de_name e) \<noteq> name_key nm) \<and> find_index es nm i = -1 \<or>
   (\<exists>xs e ys. es = xs @ e # ys \<and> inUse e \<and> name_key (de_name e) = name_key nm \<and>
     (\<forall>x \<in> set xs. inUse x \<longrightarrow> name_key (de_name x) \<noteq> name_key nm) \<and>
     find_index es nm i = i + int (length xs))"
proof (induction es arbitrary: i)
  case (Cons e es)
  have m: "strncmp_eq FileNameMaxLen (de_name e) nm \<longleftrightarrow> name_key (de_name e) = name_key nm"
    by (simp add: strncmp_eq_iff name_key_def)
  show ?case
  proof (cases "inUse e \<and> name_key (de_name e) = name_key nm")
    case True
    then have "find_index (e # es) nm i = i" by (simp add: m)
    with True show ?thesis by (intro disjI2 exI [of _ "[]"] exI [of _ e] exI [of _ es]) simp
  next
    case False
    then have f: "find_index (e # es) nm i = find_index es nm (i + 1)" by (auto simp: m)
    from Cons.IH [of "i + 1"] show ?thesis
    proof (elim disjE exE conjE)
      assume "\<forall>e \<in> set es. inUse e \<longrightarrow> name_key (de_name e) \<noteq> name_key nm"
        "find_index es nm (i + 1) = -1"
      then show ?thesis using False f by auto
    next
      fix xs e' ys
      assume "es = xs @ e' # ys" "inUse e'" "name_key (de_name e') = name_key nm"
        "\<forall>x \<in> set xs. inUse x \<longrightarrow> name_key (de_name x) \<noteq> name_key nm"
        "find_index es nm (i + 1) = i + 1 + int (length xs)"
      then show ?thesis using False f
        by (intro disjI2 exI [of _ "e # xs"] exI [of _ e'] exI [of _ ys]) auto
    qed
  qed
qed simp

lemma dmap_split:
  assumes "distinct (map (name_key \<circ> de_name) (used (xs @ e # ys)))" "inUse e"
  shows "dmap (xs @ e # ys) (name_key (de_name e)) = Some (de_sector e)"
    and "dmap (xs @ e\<lparr>inUse := False\<rparr> # ys) = (dmap (xs @ e # ys))(name_key (de_name e) := None)"
proof -
  have nx: "dmap xs (name_key (de_name e)) = None" "dmap ys (name_key (de_name e)) = None"
    using assms dom_dmap [of xs] dom_dmap [of ys] by (auto simp: domIff)
  have app: "dmap (as @ bs) = dmap bs ++ dmap as" for as bs
    by (simp add: dmap_def)
  show "dmap (xs @ e # ys) (name_key (de_name e)) = Some (de_sector e)"
    using nx assms(2) by (simp add: app dmap_Cons map_add_def)
  show "dmap (xs @ e\<lparr>inUse := False\<rparr> # ys) = (dmap (xs @ e # ys))(name_key (de_name e) := None)"
    using nx assms(2) by (auto simp: app dmap_Cons map_add_def fun_eq_iff split: option.splits)
qed

lemma used_full: "length (used es) < length es \<longleftrightarrow> (\<exists>e \<in> set es. \<not> inUse e)"
proof (induction es)
  case (Cons e es)
  have "length (used es) \<le> length es" by (simp add: used_def)
  with Cons show ?case by auto
qed simp

lemma dir_Find_ok:
  assumes "dir_ok d"
  shows "dir_Find d nm = (case dmap (dtable d) (name_key nm) of None \<Rightarrow> -1 | Some x \<Rightarrow> x)"
  using find_index_cases [of "dtable d" nm 0]
proof (elim disjE exE conjE)
  assume n: "\<forall>e \<in> set (dtable d). inUse e \<longrightarrow> name_key (de_name e) \<noteq> name_key nm"
    and i: "find_index (dtable d) nm 0 = -1"
  have "dmap (dtable d) (name_key nm) = None" using n by (simp add: dmap_None)
  then show ?thesis using i by (simp add: dir_Find_def FindIndex_def)
next
  fix xs e ys
  assume d: "dtable d = xs @ e # ys" and e: "inUse e" "name_key (de_name e) = name_key nm"
    and i: "find_index (dtable d) nm 0 = 0 + int (length xs)"
  have "dmap (dtable d) (name_key nm) = Some (de_sector e)"
    using dmap_split(1) [of xs e ys] assms e unfolding dir_ok_def d by simp
  then show ?thesis using i by (simp add: dir_Find_def FindIndex_def) (simp add: d)
qed

lemma dir_Remove_ok:
  assumes "dir_ok d"
  shows "\<exists>d'. dir_Remove d nm = (d', dmap (dtable d) (name_key nm) \<noteq> None) \<and> dir_ok d' \<and>
    length (dtable d') = length (dtable d) \<and> dmap (dtable d') = (dmap (dtable d))(name_key nm := None)"
  using find_index_cases [of "dtable d" nm 0]
proof (elim disjE exE conjE)
  assume n: "\<forall>e \<in> set (dtable d). inUse e \<longrightarrow> name_key (de_name e) \<noteq> name_key nm"
    and i: "find_index (dtable d) nm 0 = -1"
  have "dmap (dtable d) (name_key nm) = None" using n by (simp add: dmap_None)
  moreover from this have "(dmap (dtable d))(name_key nm := None) = dmap (dtable d)" by (auto simp: fun_eq_iff)
  ultimately show ?thesis using i assms by (simp add: dir_Remove_def FindIndex_def)
next
  fix xs e ys
  assume d: "dtable d = xs @ e # ys" and e: "inUse e" "name_key (de_name e) = name_key nm"
    and i: "find_index (dtable d) nm 0 = 0 + int (length xs)"
  let ?d = "d\<lparr>dtable := xs @ e\<lparr>inUse := False\<rparr> # ys\<rparr>"
  have run: "dir_Remove d nm = (?d, True)"
    using i by (simp add: dir_Remove_def FindIndex_def) (simp add: d)
  have m: "dmap (dtable d) (name_key nm) = Some (de_sector e)"
      "dmap (dtable ?d) = (dmap (dtable d))(name_key nm := None)"
    using dmap_split [of xs e ys] assms e unfolding dir_ok_def d by simp_all
  have "dir_ok ?d" using assms e unfolding dir_ok_def d by (auto simp: used_def)
  then show ?thesis using run m d by auto
qed

lemma add_entry_cases:
  "(\<forall>e \<in> set es. inUse e) \<and> add_entry es nm x = (es, False) \<or>
   (\<exists>xs e ys. es = xs @ e # ys \<and> (\<forall>y \<in> set xs. inUse y) \<and> \<not> inUse e \<and> add_entry es nm x =
     (xs @ e\<lparr>inUse := True, de_name := strncpy (de_name e) nm FileNameMaxLen, de_sector := x\<rparr> # ys, True))"
proof (induction es)
  case (Cons e es)
  show ?case
  proof (cases "inUse e")
    case False
    then show ?thesis by (intro disjI2 exI [of _ "[]"] exI [of _ e] exI [of _ es]) simp
  next
    case True
    from Cons show ?thesis
    proof (elim disjE exE conjE)
      fix xs e' ys
      assume "es = xs @ e' # ys" "\<forall>y \<in> set xs. inUse y" "\<not> inUse e'" "add_entry es nm x =
        (xs @ e'\<lparr>inUse := True, de_name := strncpy (de_name e') nm FileNameMaxLen, de_sector := x\<rparr> # ys, True)"
      then show ?thesis using True
        by (intro disjI2 exI [of _ "e # xs"] exI [of _ e'] exI [of _ ys]) simp
    qed (use True in simp)
  qed
qed simp

lemma FindIndex_iff: "dir_ok d \<Longrightarrow> FindIndex d nm = -1 \<longleftrightarrow> dmap (dtable d) (name_key nm) = None"
  using find_index_cases [of "dtable d" nm 0]
  by (elim disjE exE conjE) (auto simp: FindIndex_def dmap_None)

lemma dir_Add_ok:
  assumes ok: "dir_ok d" and x: "0 \<le> x" "int32 x"
  shows "\<exists>d'. dir_Add d nm x =
      (d', dmap (dtable d) (name_key nm) = None \<and> card (dom (dmap (dtable d))) < length (dtable d)) \<and>
    dir_ok d' \<and> length (dtable d') = length (dtable d) \<and>
    dmap (dtable d') = (if dmap (dtable d) (name_key nm) = None \<and> card (dom (dmap (dtable d))) < length (dtable d)
      then (dmap (dtable d))(name_key nm \<mapsto> x) else dmap (dtable d))"
proof (cases "dmap (dtable d) (name_key nm) = None")
  case False
  then have "dir_Add d nm x = (d, False)" using FindIndex_iff [OF ok] by (simp add: dir_Add_def)
  then show ?thesis using False ok by auto
next
  case True
  then have f: "FindIndex d nm = -1" using FindIndex_iff [OF ok] by simp
  have c: "card (dom (dmap (dtable d))) = length (used (dtable d))"
    using card_dmap ok by (simp add: dir_ok_def)
  from add_entry_cases [of "dtable d" nm x] show ?thesis
  proof (elim disjE exE conjE)
    assume "\<forall>e \<in> set (dtable d). inUse e" "add_entry (dtable d) nm x = (dtable d, False)"
    moreover from this have "\<not> length (used (dtable d)) < length (dtable d)" using used_full by blast
    ultimately show ?thesis using True ok f c by (simp add: dir_Add_def)
  next
    fix xs e ys
    assume d: "dtable d = xs @ e # ys" and e: "\<not> inUse e"
    let ?e = "e\<lparr>inUse := True, de_name := strncpy (de_name e) nm FileNameMaxLen, de_sector := x\<rparr>"
    assume a: "add_entry (dtable d) nm x = (xs @ ?e # ys, True)"
    let ?d = "d\<lparr>dtable := xs @ ?e # ys\<rparr>"
    have run: "dir_Add d nm x = (?d, True)" using f a by (simp add: dir_Add_def)
    have lt: "length (used (dtable d)) < length (dtable d)" unfolding used_full using d e by auto
    have k: "name_key (de_name ?e) = name_key nm" by (simp add: name_key_strncpy)
    have nin: "name_key nm \<notin> (name_key \<circ> de_name) ` set (used (dtable d))"
      using True dom_dmap [of "dtable d"] by (auto simp: domIff)
    have ok': "dir_ok ?d"
      using ok x e nin k unfolding dir_ok_def d by (auto simp: used_def)
    have app: "dmap (as @ bs) = dmap bs ++ dmap as" for as bs by (simp add: dmap_def)
    have nx: "dmap xs (name_key nm) = None" "dmap ys (name_key nm) = None"
      using True unfolding d by (auto simp: dmap_None)
    have "dmap (dtable ?d) = (dmap (dtable d))(name_key nm \<mapsto> x)"
      using nx e unfolding d
      by (auto simp: app dmap_Cons k map_add_def fun_eq_iff name_key_strncpy split: option.splits)
    then show ?thesis using run ok' lt c True d by auto
  qed
qed

definition sector_number :: "int \<Rightarrow> bool" where
  "sector_number x \<longleftrightarrow> 0 \<le> x \<and> int32 x"

interpretation dir: name_table dir_Find dir_Add dir_Remove name_key "\<lambda>d. dmap (dtable d)"
  "\<lambda>d. length (dtable d)" dir_ok sector_number
proof unfold_locales
  fix d assume ok: "dir_ok d"
  show "dir_Find d nm = (case dmap (dtable d) (name_key nm) of None \<Rightarrow> -1 | Some x \<Rightarrow> x)" for nm
    by (rule dir_Find_ok [OF ok])
  show "\<exists>d'. dir_Remove d nm = (d', dmap (dtable d) (name_key nm) \<noteq> None) \<and> dir_ok d' \<and>
      length (dtable d') = length (dtable d) \<and> dmap (dtable d') = (dmap (dtable d))(name_key nm := None)" for nm
    by (rule dir_Remove_ok [OF ok])
  fix k x assume "dmap (dtable d) k = Some x"
  then obtain e where "e \<in> set (used (dtable d))" "x = de_sector e"
    by (auto simp: dmap_def dest!: map_of_SomeD)
  then show "sector_number x" using ok by (auto simp: dir_ok_def sector_number_def used_def)
next
  fix d x nm assume "dir_ok d" "sector_number x"
  then show "\<exists>d'. dir_Add d nm x =
      (d', dmap (dtable d) (name_key nm) = None \<and> card (dom (dmap (dtable d))) < length (dtable d)) \<and>
    dir_ok d' \<and> length (dtable d') = length (dtable d) \<and>
    dmap (dtable d') = (if dmap (dtable d) (name_key nm) = None \<and> card (dom (dmap (dtable d))) < length (dtable d)
      then (dmap (dtable d))(name_key nm \<mapsto> x) else dmap (dtable d))"
    using dir_Add_ok by (simp add: sector_number_def)
qed (simp add: sector_number_def)

section \<open>The directory and its file\<close>

lemma length_entry_bytes: "length (de_name e) = 10 \<Longrightarrow> length (padding e) = 5 \<Longrightarrow> length (entry_bytes e) = 20"
  by (simp add: entry_bytes_def)

lemma entry_of_bytes:
  assumes "length (de_name e) = 10" "length (padding e) = 5" "int32 (de_sector e)"
  shows "entry_of (entry_bytes e) = e"
proof -
  have f: "entry_bytes e ! 0 \<noteq> 0 \<longleftrightarrow> inUse e" by (simp add: entry_bytes_def)
  have s: "slice (entry_bytes e) 4 4 = int_bytes (de_sector e)"
    using assms by (simp add: entry_bytes_def slice_def)
  have n: "slice (entry_bytes e) 8 10 = de_name e"
    using assms by (simp add: entry_bytes_def slice_def)
  have p: "slice (entry_bytes e) 1 3 = take 3 (padding e)" "slice (entry_bytes e) 18 2 = drop 3 (padding e)"
    using assms by (simp_all add: entry_bytes_def slice_def)
  show ?thesis using assms unfolding entry_of_def f s n p by simp
qed

lemma length_table_bytes:
  "\<forall>e \<in> set es. length (entry_bytes e) = 20 \<Longrightarrow> length (table_bytes es) = length es * 20"
  using length_concat_uniform [of "map entry_bytes es" 20] by (simp add: table_bytes_def)

lemma slice_concat_uniform:
  "\<forall>b \<in> set bss. length b = m \<Longrightarrow> i < length bss \<Longrightarrow> slice (concat bss) (i * m) m = bss ! i"
proof (induction bss arbitrary: i)
  case (Cons b bss)
  show ?case
  proof (cases i)
    case 0
    then show ?thesis using Cons.prems by (simp add: slice_append1 slice_all)
  next
    case (Suc j)
    then show ?thesis using Cons by (simp add: slice_append2)
  qed
qed simp

lemma table_of_bytes:
  assumes "\<forall>e \<in> set es. length (de_name e) = 10 \<and> length (padding e) = 5 \<and> int32 (de_sector e)"
    and "table_bytes es = take (length es * 20) bs"
  shows "table_of (length es) bs = es"
proof -
  have u: "\<forall>b \<in> set (map entry_bytes es). length b = 20" using assms(1) by (auto simp: length_entry_bytes)
  have "entry_of (slice bs (i * 20) 20) = es ! i" if i: "i < length es" for i
  proof -
    have le: "i * 20 + 20 \<le> length es * 20" using i by simp
    have "slice bs (i * 20) 20 = slice (take (length es * 20) bs) (i * 20) 20"
      using le by (simp add: slice_def drop_take min_def)
    also have "\<dots> = entry_bytes (es ! i)"
      unfolding assms(2) [symmetric] table_bytes_def using slice_concat_uniform [OF u, of i] i by simp
    finally show ?thesis using assms(1) i by (simp add: entry_of_bytes)
  qed
  then show ?thesis by (intro nth_equalityI) (simp_all add: table_of_def EntrySize_def)
qed

text \<open>A directory written to its file is the directory read back into any table of the same size.\<close>

lemma table_bytes_ok: "dir_ok d \<Longrightarrow> length (table_bytes (dtable d)) = length (dtable d) * 20"
  by (intro length_table_bytes) (auto simp: dir_ok_def length_entry_bytes)

lemma dir_FetchFrom_ok:
  assumes f: "file_ok (hdr file)" "synch_ok s" and n: "nat (numBytes (hdr file)) = length (dtable d) * 20"
    and d: "dir_ok d" and d0: "length (dtable d0) = length (dtable d)" "dtableSize d0 = dtableSize d"
      "length (table_bytes (dtable d0)) = length (dtable d) * 20"
    and c: "contents s (hdr file) = table_bytes (dtable d)"
  shows "\<exists>s'. dir_FetchFrom d0 file s = Inr (s', d\<lparr>dtable := dtable d\<rparr>) \<and> synch_ok s' \<and>
    (\<forall>j. 0 \<le> j \<and> j < DiskDev.NumSectors \<longrightarrow> sector_of s' j = sector_of s j)"
proof -
  have z: "(0::int) \<le> 0" by simp
  have l: "length (table_bytes (dtable d)) = length (dtable d) * 20" by (rule table_bytes_ok [OF d])
  have ds: "dtableSize d0 * int EntrySize = int (length (dtable d) * 20)"
    using d d0(2) by (simp add: dir_ok_def EntrySize_def)
  obtain s' where r: "ReadAt file s (int (length (dtable d) * 20)) 0 = Inr (s', table_bytes (dtable d),
      int (length (table_bytes (dtable d))))" "synch_ok s'"
      "\<forall>j. 0 \<le> j \<and> j < DiskDev.NumSectors \<longrightarrow> sector_of s' j = sector_of s j"
    using ReadAt_contents_ok [OF f z, of "int (length (dtable d) * 20)"] l unfolding c by auto
  have cp: "copy_into (table_bytes (dtable d0)) 0 (table_bytes (dtable d)) = Inr (table_bytes (dtable d))"
    using d0(3) l by (simp add: copy_into_def blit_def)
  have t: "table_of (length (dtable d)) (table_bytes (dtable d)) = dtable d"
    using d l by (intro table_of_bytes) (auto simp: dir_ok_def)
  have "d0\<lparr>dtable := dtable d\<rparr> = d\<lparr>dtable := dtable d\<rparr>" using d0(2) by simp
  then show ?thesis using r(2,3)
    unfolding dir_FetchFrom_def ds r(1) bindR_Inr prod.case cp d0(1) t by auto
qed

lemma dir_WriteBack_ok:
  assumes f: "file_ok (hdr file)" "synch_ok s" and n: "nat (numBytes (hdr file)) = length (dtable d) * 20"
    and d: "dir_ok d"
  shows "\<exists>s'. dir_WriteBack junk d file s = Inr s' \<and> synch_ok s' \<and>
    contents s' (hdr file) = table_bytes (dtable d) \<and>
    (\<forall>x. 0 \<le> x \<and> x < DiskDev.NumSectors \<and> x \<notin> set (blocks (hdr file)) \<longrightarrow> sector_of s' x = sector_of s x)"
proof -
  have z: "(0::int) \<le> 0" by simp
  have l: "length (table_bytes (dtable d)) = length (dtable d) * 20" by (rule table_bytes_ok [OF d])
  have ds: "dtableSize d * int EntrySize = int (length (dtable d) * 20)"
    using d by (simp add: dir_ok_def EntrySize_def)
  have nn: "nat (int (length (dtable d) * 20)) \<le> length (table_bytes (dtable d))" using l by simp
  define cnt where "cnt = (if int (length (dtable d) * 20) \<le> 0 \<or> numBytes (hdr file) \<le> 0 then 0
      else min (int (length (dtable d) * 20)) (numBytes (hdr file) - 0))"
  have cnt: "cnt = int (length (dtable d) * 20)"
    using n f(1) by (auto simp: cnt_def file_ok_def)
  obtain s' where w: "WriteAt junk file s (table_bytes (dtable d)) (int (length (dtable d) * 20)) 0 = Inr (s', cnt)"
      "synch_ok s'" "contents s' (hdr file) = (if cnt = 0 then contents s (hdr file)
        else blit (contents s (hdr file)) (nat 0) (take (nat cnt) (table_bytes (dtable d))))"
      "\<forall>x. 0 \<le> x \<and> x < DiskDev.NumSectors \<and> x \<notin> set (blocks (hdr file)) \<longrightarrow> sector_of s' x = sector_of s x"
    using WriteAt_contents_ok [OF f z nn, of junk] unfolding cnt_def by blast
  have "contents s' (hdr file) = table_bytes (dtable d)"
  proof (cases "cnt = 0")
    case True
    then have "dtable d = []" using cnt by simp
    moreover from this have "length (contents s' (hdr file)) = 0" using n by simp
    ultimately show ?thesis by (simp add: table_bytes_def contents_def)
  next
    case False
    then show ?thesis using w(3) cnt l n by (simp add: blit_def)
  qed
  then show ?thesis using w(1,2,4) unfolding dir_WriteBack_def ds by auto
qed

section \<open>Properties\<close>

text \<open>
  C25: whatever sequence of \<open>Add\<close> and \<open>Remove\<close> a directory goes through, \<open>Find\<close> answers as a map
  from the first nine bytes of the name to the sector of the file would, one that refuses to add a
  name it has and to grow beyond the size of the table.
\<close>

theorem directory_is_map:
  assumes "dir_ok d" and "\<forall>n x. OpAdd n x \<in> set ops \<longrightarrow> sector_number x"
  shows "dir_ok (run_dir dir_Add dir_Remove d ops) \<and>
    dir_Find (run_dir dir_Add dir_Remove d ops) nm =
      (case map_dir name_key (length (dtable d)) (dmap (dtable d)) ops (name_key nm) of
         None \<Rightarrow> -1 | Some x \<Rightarrow> x)"
  using dir.run_ok [OF assms] dir.find_run [OF assms] by blast

definition blank_entry :: directory_entry where
  "blank_entry = \<lparr>inUse = True, de_sector = 0, de_name = replicate 10 0, padding = replicate 5 0\<rparr>"

lemma Directory_new_ok:
  assumes "0 \<le> n" "\<forall>i. length (de_name (junk i)) = 10 \<and> length (padding (junk i)) = 5 \<and> int32 (de_sector (junk i))"
  shows "dir_ok (Directory_new junk n)" "dmap (dtable (Directory_new junk n)) = Map.empty"
  using assms by (auto simp: dir_ok_def Directory_new_def used_def dmap_def)

theorem directory_is_map_witness:
  "let d = Directory_new (\<lambda>_. blank_entry) 2; ops = [OpAdd [97] 5, OpAdd [98] 6, OpAdd [99] 7, OpRemove [97]]
   in dir_ok d \<and> (\<forall>n x. OpAdd n x \<in> set ops \<longrightarrow> sector_number x) \<and>
     dir_Find (run_dir dir_Add dir_Remove d ops) [98] = 6 \<and>
     dir_Find (run_dir dir_Add dir_Remove d ops) [97] = -1 \<and>
     dir_Find (run_dir dir_Add dir_Remove d ops) [99] = -1"
proof -
  define d where "d = Directory_new (\<lambda>_. blank_entry) 2"
  define ops :: "8 word list dir_op list" where
    "ops = [OpAdd [97] 5, OpAdd [98] 6, OpAdd [99] 7, OpRemove [97]]"
  have d: "dir_ok d" "dmap (dtable d) = Map.empty" "length (dtable d) = 2"
    using Directory_new_ok [of 2 "\<lambda>_. blank_entry"]
    by (simp_all add: d_def blank_entry_def int32_def) (simp add: Directory_new_def)
  have o: "\<forall>n x. OpAdd n x \<in> set ops \<longrightarrow> sector_number x"
    by (auto simp: ops_def sector_number_def int32_def)
  have k: "name_key [c] = (if c = 0 then [] else [c])" for c :: "8 word"
    by (simp add: name_key_def cstr_def FileNameMaxLen_def)
  have m: "map_dir name_key 2 Map.empty ops = [[98] \<mapsto> 6]"
    by (simp add: ops_def k fun_eq_iff)
  show ?thesis
    using directory_is_map [OF d(1) o, of "[98]"] directory_is_map [OF d(1) o, of "[97]"]
      directory_is_map [OF d(1) o, of "[99]"] d o
    unfolding Let_def d_def [symmetric] ops_def [symmetric] d(2,3) m by (simp add: k)
qed

text \<open>
  Two names that agree in their first nine bytes are one name to the directory: after a file was
  added under the first, \<open>Find\<close> of the second returns its sector, a second \<open>Add\<close> is refused, and
  \<open>Remove\<close> of the second removes the first.
\<close>

theorem long_names_alias:
  assumes "dir_ok d" and "name_key a = name_key b" and "sector_number x" and "sector_number y"
    and "dir_Add d a x = (d', True)"
  shows "dir_Find d' b = x \<and> dir_Add d' b y = (d', False) \<and>
    (\<exists>d''. dir_Remove d' b = (d'', True) \<and> dir_Find d'' a = -1)"
proof -
  have a: "dmap (dtable d) (name_key a) = None" "dir_ok d'" "dmap (dtable d') = (dmap (dtable d))(name_key a \<mapsto> x)"
    using dir.add_ok [OF assms(1,3), of a] assms(5) by (auto split: if_splits)
  have f: "dir_Find d' b = x" using dir.find_ok [OF a(2), of b] a(3) assms(2) by simp
  have "FindIndex d' b \<noteq> -1" using FindIndex_iff [OF a(2)] a(3) assms(2) by simp
  then have "dir_Add d' b y = (d', False)" by (simp add: dir_Add_def)
  moreover obtain d'' where "dir_Remove d' b = (d'', True)" "dir_ok d''"
      "dmap (dtable d'') = (dmap (dtable d'))(name_key b := None)"
    using dir.rem_ok [OF a(2), of b] a(3) assms(2) by auto
  moreover from this have "dir_Find d'' a = -1" using dir.find_ok [of d'' a] assms(2) by simp
  ultimately show ?thesis using f by blast
qed

theorem long_names_alias_witness:
  "let d = Directory_new (\<lambda>_. blank_entry) 2; a = replicate 9 97 @ [98]; b = replicate 9 97 @ [99] in
   dir_ok d \<and> name_key a = name_key b \<and> sector_number 5 \<and> sector_number 6 \<and>
   (\<exists>d'. dir_Add d a 5 = (d', True) \<and> dir_Find d' b = 5)"
proof -
  define d a b where "d = Directory_new (\<lambda>_. blank_entry) 2" and "a = replicate 9 97 @ [98 :: 8 word]"
    and "b = replicate 9 97 @ [99 :: 8 word]"
  have d: "dir_ok d" "dmap (dtable d) = Map.empty" "length (dtable d) = 2"
    using Directory_new_ok [of 2 "\<lambda>_. blank_entry"]
    by (simp_all add: d_def blank_entry_def int32_def) (simp add: Directory_new_def)
  have k: "name_key a = name_key b" unfolding a_def b_def by code_simp
  have x: "sector_number 5" "sector_number 6" by (simp_all add: sector_number_def int32_def)
  obtain d' where "dir_Add d a 5 = (d', True)"
    using dir.add_ok [OF d(1) x(1), of a] d by auto
  then show ?thesis
    using long_names_alias [OF d(1) k x] d k x unfolding Let_def d_def a_def b_def by blast
qed

end
