(* ===== verification/FileSys.thy ===== *)
theory FileSys
  imports Directories
begin

text \<open>
  \<open>filesys/filesys.cc\<close>: the file system, which keeps a bitmap of the used sectors and one directory as
  two files of the disk itself, their headers in sectors 0 and 1. The in-memory objects a call builds
  start from whatever memory held (\<open>garbage\<close>). The calls run one at a time, as the source requires.
\<close>

section \<open>The bitmap and its file\<close>

definition bitmap_bytes :: "bitmap \<Rightarrow> 8 word list" where
  "bitmap_bytes b = concat (map (le_bytes 4) (words b))"

definition words_of :: "nat \<Rightarrow> 8 word list \<Rightarrow> 32 word list" where
  "words_of n bs = map (\<lambda>i. le_word (slice bs (i * 4) 4)) [0..<n]"

definition map_FetchFrom :: "bitmap \<Rightarrow> open_file \<Rightarrow> synch_disk \<Rightarrow> (synch_disk \<times> bitmap) res" where
  "map_FetchFrom b file s =
     bindR (ReadAt file s (numWords b * 4) 0) (\<lambda>(s', bs, _).
     bindR (copy_into (bitmap_bytes b) 0 bs) (\<lambda>mem.
     Inr (s', b\<lparr>words := words_of (length (words b)) mem\<rparr>)))"

definition map_WriteBack :: "(nat \<Rightarrow> 8 word) \<Rightarrow> bitmap \<Rightarrow> open_file \<Rightarrow> synch_disk \<Rightarrow> synch_disk res" where
  "map_WriteBack junk b file s =
     bindR (WriteAt junk file s (bitmap_bytes b) (numWords b * 4) 0) (\<lambda>(s', _). Inr s')"

section \<open>State and operations\<close>

definition FreeMapSector :: int where "FreeMapSector = 0"
definition DirectorySector :: int where "DirectorySector = 1"
definition FreeMapFileSize :: int where "FreeMapFileSize = DiskDev.NumSectors div BitsInByte"
definition NumDirEntries :: int where "NumDirEntries = 10"
definition DirectoryFileSize :: int where "DirectoryFileSize = int EntrySize * NumDirEntries"

record file_system =
  freeMapFile :: open_file
  directoryFile :: open_file

record garbage =
  g_buffer :: "nat \<Rightarrow> 8 word"
  g_words :: "nat \<Rightarrow> 32 word"
  g_entries :: "nat \<Rightarrow> directory_entry"
  g_header :: file_header

definition FileSystem_new :: "garbage \<Rightarrow> bool \<Rightarrow> synch_disk \<Rightarrow> (synch_disk \<times> file_system) res" where
  "FileSystem_new g format s =
     (if format then
        bindR (BitMap_new (g_words g) DiskDev.NumSectors) (\<lambda>freeMap.
        let directory = Directory_new (g_entries g) NumDirEntries in
        bindR (Mark freeMap FreeMapSector) (\<lambda>freeMap.
        bindR (Mark freeMap DirectorySector) (\<lambda>freeMap.
        bindR (Allocate (g_header g) freeMap FreeMapFileSize) (\<lambda>(mapHdr, freeMap, okay). ASSERT okay (
        bindR (Allocate (g_header g) freeMap DirectoryFileSize) (\<lambda>(dirHdr, freeMap, okay). ASSERT okay (
        bindR (hdr_WriteBack s mapHdr FreeMapSector) (\<lambda>s.
        bindR (hdr_WriteBack s dirHdr DirectorySector) (\<lambda>s.
        bindR (OpenFile s FreeMapSector) (\<lambda>(s, mapFile).
        bindR (OpenFile s DirectorySector) (\<lambda>(s, dirFile).
        bindR (map_WriteBack (g_buffer g) freeMap mapFile s) (\<lambda>s.
        bindR (dir_WriteBack (g_buffer g) directory dirFile s) (\<lambda>s.
        Inr (s, \<lparr>freeMapFile = mapFile, directoryFile = dirFile\<rparr>))))))))))))))
      else
        bindR (OpenFile s FreeMapSector) (\<lambda>(s, mapFile).
        bindR (OpenFile s DirectorySector) (\<lambda>(s, dirFile).
        Inr (s, \<lparr>freeMapFile = mapFile, directoryFile = dirFile\<rparr>))))"

definition Create :: "garbage \<Rightarrow> file_system \<Rightarrow> synch_disk \<Rightarrow> 8 word list \<Rightarrow> int \<Rightarrow> (synch_disk \<times> bool) res" where
  "Create g fs s nm initialSize =
     bindR (dir_FetchFrom (Directory_new (g_entries g) NumDirEntries) (directoryFile fs) s) (\<lambda>(s, directory).
     if dir_Find directory nm \<noteq> -1 then Inr (s, False)
     else
       bindR (BitMap_new (g_words g) DiskDev.NumSectors) (\<lambda>freeMap.
       bindR (map_FetchFrom freeMap (freeMapFile fs) s) (\<lambda>(s, freeMap).
       bindR (Find freeMap) (\<lambda>(freeMap, sector).
       if sector = -1 then Inr (s, False)
       else
         case dir_Add directory nm sector of (directory, added) \<Rightarrow>
         if \<not> added then Inr (s, False)
         else
           bindR (Allocate (g_header g) freeMap initialSize) (\<lambda>(h, freeMap, okay).
           if \<not> okay then Inr (s, False)
           else
             bindR (hdr_WriteBack s h sector) (\<lambda>s.
             bindR (dir_WriteBack (g_buffer g) directory (directoryFile fs) s) (\<lambda>s.
             bindR (map_WriteBack (g_buffer g) freeMap (freeMapFile fs) s) (\<lambda>s.
             Inr (s, True)))))))))"

definition Open :: "garbage \<Rightarrow> file_system \<Rightarrow> synch_disk \<Rightarrow> 8 word list \<Rightarrow> (synch_disk \<times> open_file option) res" where
  "Open g fs s nm =
     bindR (dir_FetchFrom (Directory_new (g_entries g) NumDirEntries) (directoryFile fs) s) (\<lambda>(s, directory).
     let sector = dir_Find directory nm in
     if sector \<ge> 0 then bindR (OpenFile s sector) (\<lambda>(s, f). Inr (s, Some f)) else Inr (s, None))"

definition fs_Remove :: "garbage \<Rightarrow> file_system \<Rightarrow> synch_disk \<Rightarrow> 8 word list \<Rightarrow> (synch_disk \<times> bool) res" where
  "fs_Remove g fs s nm =
     bindR (dir_FetchFrom (Directory_new (g_entries g) NumDirEntries) (directoryFile fs) s) (\<lambda>(s, directory).
     let sector = dir_Find directory nm in
     if sector = -1 then Inr (s, False)
     else
       bindR (hdr_FetchFrom s sector) (\<lambda>(s, fileHdr).
       bindR (BitMap_new (g_words g) DiskDev.NumSectors) (\<lambda>freeMap.
       bindR (map_FetchFrom freeMap (freeMapFile fs) s) (\<lambda>(s, freeMap).
       bindR (Deallocate fileHdr freeMap) (\<lambda>freeMap.
       bindR (Clear freeMap sector) (\<lambda>freeMap.
       case dir_Remove directory nm of (directory, _) \<Rightarrow>
       bindR (map_WriteBack (g_buffer g) freeMap (freeMapFile fs) s) (\<lambda>s.
       bindR (dir_WriteBack (g_buffer g) directory (directoryFile fs) s) (\<lambda>s.
       Inr (s, True)))))))))"

definition fs_List :: "garbage \<Rightarrow> file_system \<Rightarrow> synch_disk \<Rightarrow> (synch_disk \<times> printed list) res" where
  "fs_List g fs s =
     bindR (dir_FetchFrom (Directory_new (g_entries g) NumDirEntries) (directoryFile fs) s) (\<lambda>(s, directory).
     bindR (dir_List directory) (\<lambda>out. Inr (s, out)))"

definition fs_Print :: "garbage \<Rightarrow> file_system \<Rightarrow> synch_disk \<Rightarrow> (synch_disk \<times> printed list) res" where
  "fs_Print g fs s =
     bindR (hdr_FetchFrom s FreeMapSector) (\<lambda>(s, bitHdr).
     bindR (hdr_Print bitHdr s) (\<lambda>(s, out1).
     bindR (hdr_FetchFrom s DirectorySector) (\<lambda>(s, dirHdr).
     bindR (hdr_Print dirHdr s) (\<lambda>(s, out2).
     bindR (BitMap_new (g_words g) DiskDev.NumSectors) (\<lambda>freeMap.
     bindR (map_FetchFrom freeMap (freeMapFile fs) s) (\<lambda>(s, freeMap).
     bindR (BitMap_Print freeMap) (\<lambda>bits.
     bindR (dir_FetchFrom (Directory_new (g_entries g) NumDirEntries) (directoryFile fs) s) (\<lambda>(s, directory).
     bindR (dir_Print directory s) (\<lambda>(s, out3).
     Inr (s, out1 @ out2 @ map Num bits @ out3))))))))))"

section \<open>The bitmap read back\<close>

lemma length_bitmap_bytes [simp]: "length (bitmap_bytes b) = length (words b) * 4"
  using length_concat_uniform [of "map (le_bytes 4) (words b)" 4] by (simp add: bitmap_bytes_def)

lemma words_of_bytes: "words_of (length (words b)) (bitmap_bytes b) = words b"
proof (rule nth_equalityI)
  fix i assume "i < length (words_of (length (words b)) (bitmap_bytes b))"
  then have i: "i < length (words b)" by (simp add: words_of_def)
  have "slice (bitmap_bytes b) (i * 4) 4 = le_bytes 4 (words b ! i)"
    using slice_concat_uniform [of "map (le_bytes 4) (words b)" 4 i] i by (simp add: bitmap_bytes_def)
  then show "words_of (length (words b)) (bitmap_bytes b) ! i = words b ! i"
    using i by (simp add: words_of_def)
qed (simp add: words_of_def)

lemma bitmap_size:
  "bitmap_ok b \<Longrightarrow> numBits b = 1024 \<Longrightarrow> length (words b) = 32 \<and> numWords b = 32"
  by (auto simp: bitmap_ok_def BitsInWord_def divRoundUp_def sdiv_nonneg_eq smod_nonneg_eq)

lemma bitmap_eqI:
  "numBits a = numBits b \<Longrightarrow> numWords a = numWords b \<Longrightarrow> words a = words b \<Longrightarrow> a = (b :: bitmap)"
  by simp

definition same_sectors :: "synch_disk \<Rightarrow> synch_disk \<Rightarrow> bool" where
  "same_sectors s s' \<longleftrightarrow> (\<forall>j. 0 \<le> j \<and> j < DiskDev.NumSectors \<longrightarrow> sector_of s' j = sector_of s j)"

definition map_file :: "open_file \<Rightarrow> bool" where
  "map_file f \<longleftrightarrow> file_ok (hdr f) \<and> numBytes (hdr f) = 128"

lemma map_FetchFrom_ok:
  assumes f: "map_file file" "synch_ok s" and fm: "bitmap_ok fm" "numBits fm = 1024"
    and b: "bitmap_ok b" "numBits b = 1024" and c: "contents s (hdr file) = bitmap_bytes fm"
  shows "\<exists>s'. map_FetchFrom b file s = Inr (s', fm) \<and> synch_ok s' \<and> same_sectors s s'"
proof -
  note sz = bitmap_size [OF fm] and szb = bitmap_size [OF b]
  have z: "(0::int) \<le> 0" by simp
  have ok: "file_ok (hdr file)" using f(1) by (simp add: map_file_def)
  obtain s' where r: "ReadAt file s 128 0 = Inr (s', bitmap_bytes fm, int (length (bitmap_bytes fm)))"
      "synch_ok s'" "same_sectors s s'"
    using ReadAt_contents_ok [OF ok f(2) z, of 128] sz unfolding c same_sectors_def by auto
  have n: "numWords b * 4 = 128" using szb by simp
  have cp: "copy_into (bitmap_bytes b) 0 (bitmap_bytes fm) = Inr (bitmap_bytes fm)"
    using sz szb by (simp add: copy_into_def blit_def)
  have l: "length (words b) = length (words fm)" using sz szb by simp
  have e: "b\<lparr>words := words fm\<rparr> = fm"
    using sz szb fm(2) b(2) by (intro bitmap_eqI) simp_all
  have "map_FetchFrom b file s = Inr (s', fm)"
    by (simp only: map_FetchFrom_def n r(1) bindR_Inr prod.case cp l words_of_bytes e)
  then show ?thesis using r(2,3) by blast
qed

lemma map_WriteBack_ok:
  assumes f: "map_file file" "synch_ok s" and fm: "bitmap_ok fm" "numBits fm = 1024"
  shows "\<exists>s'. map_WriteBack junk fm file s = Inr s' \<and> synch_ok s' \<and>
    contents s' (hdr file) = bitmap_bytes fm \<and>
    (\<forall>x. 0 \<le> x \<and> x < DiskDev.NumSectors \<and> x \<notin> set (blocks (hdr file)) \<longrightarrow> sector_of s' x = sector_of s x)"
proof -
  note sz = bitmap_size [OF fm]
  have z: "(0::int) \<le> 0" by simp
  have ok: "file_ok (hdr file)" "numBytes (hdr file) = 128" using f(1) by (simp_all add: map_file_def)
  have n: "numWords fm * 4 = 128" using sz by simp
  have l: "nat 128 \<le> length (bitmap_bytes fm)" using sz by simp
  obtain s' where w: "WriteAt junk file s (bitmap_bytes fm) 128 0 = Inr (s', 128)" "synch_ok s'"
      "contents s' (hdr file) = blit (contents s (hdr file)) (nat 0) (take (nat 128) (bitmap_bytes fm))"
      "\<forall>x. 0 \<le> x \<and> x < DiskDev.NumSectors \<and> x \<notin> set (blocks (hdr file)) \<longrightarrow> sector_of s' x = sector_of s x"
    using WriteAt_contents_ok [OF ok(1) f(2) z l, of junk] ok(2) by auto
  have "contents s' (hdr file) = bitmap_bytes fm" using w(3) sz ok(2) by (simp add: blit_def)
  moreover have "map_WriteBack junk fm file s = Inr s'"
    by (simp only: map_WriteBack_def n w(1) bindR_Inr prod.case)
  ultimately show ?thesis using w(2,4) by blast
qed

section \<open>The invariant of the file system\<close>

text \<open>
  On disk \<open>s\<close> the directory is \<open>d\<close> and the bitmap \<open>fm\<close>. Every file of the directory has its header in
  the sector the directory names; header sectors, data sectors and the sectors of the two system
  files are all different, and the marked sectors are exactly these.
\<close>

definition fhdr :: "synch_disk \<Rightarrow> int \<Rightarrow> file_header" where
  "fhdr s sector = header_of (sector_of s sector)"

definition owned :: "synch_disk \<Rightarrow> int \<Rightarrow> int set" where
  "owned s sector = insert sector (set (blocks (fhdr s sector)))"

definition dir_file :: "open_file \<Rightarrow> bool" where
  "dir_file f \<longleftrightarrow> file_ok (hdr f) \<and> numBytes (hdr f) = 200"

definition system_sectors :: "file_system \<Rightarrow> int set" where
  "system_sectors fs = {0, 1} \<union> set (blocks (hdr (freeMapFile fs))) \<union> set (blocks (hdr (directoryFile fs)))"

definition fs_files :: "file_system \<Rightarrow> bool" where
  "fs_files fs \<longleftrightarrow> map_file (freeMapFile fs) \<and> dir_file (directoryFile fs) \<and>
     {0, 1} \<inter> set (blocks (hdr (freeMapFile fs))) = {} \<and>
     {0, 1} \<inter> set (blocks (hdr (directoryFile fs))) = {} \<and>
     set (blocks (hdr (freeMapFile fs))) \<inter> set (blocks (hdr (directoryFile fs))) = {}"

definition files_ok :: "file_system \<Rightarrow> synch_disk \<Rightarrow> (8 word list \<Rightarrow> int option) \<Rightarrow> bool" where
  "files_ok fs s m \<longleftrightarrow>
     (\<forall>k sec. m k = Some sec \<longrightarrow> 0 \<le> sec \<and> sec < DiskDev.NumSectors \<and> file_ok (fhdr s sec) \<and>
        sec \<notin> set (blocks (fhdr s sec)) \<and> owned s sec \<inter> system_sectors fs = {}) \<and>
     (\<forall>k k' sec sec'. m k = Some sec \<longrightarrow> m k' = Some sec' \<longrightarrow> k \<noteq> k' \<longrightarrow> owned s sec \<inter> owned s sec' = {})"

definition fs_inv :: "file_system \<Rightarrow> synch_disk \<Rightarrow> directory \<Rightarrow> bitmap \<Rightarrow> bool" where
  "fs_inv fs s d fm \<longleftrightarrow> synch_ok s \<and> fs_files fs \<and> dir_ok d \<and> length (dtable d) = 10 \<and> bitmap_ok fm \<and>
     numBits fm = 1024 \<and> fhdr s 0 = hdr (freeMapFile fs) \<and> fhdr s 1 = hdr (directoryFile fs) \<and>
     contents s (hdr (freeMapFile fs)) = bitmap_bytes fm \<and>
     contents s (hdr (directoryFile fs)) = table_bytes (dtable d) \<and>
     files_ok fs s (dmap (dtable d)) \<and>
     marked fm = system_sectors fs \<union> (\<Union>sec \<in> ran (dmap (dtable d)). owned s sec)"

definition garbage_ok :: "garbage \<Rightarrow> bool" where
  "garbage_ok g \<longleftrightarrow> (\<forall>i. length (de_name (g_entries g i)) = 10 \<and> length (padding (g_entries g i)) = 5 \<and>
       int32 (de_sector (g_entries g i))) \<and>
     length (dataSectors (g_header g)) = NumDirect \<and> (\<forall>x \<in> set (dataSectors (g_header g)). int32 x)"

lemma contents_same:
  assumes "file_ok h" "\<forall>x \<in> set (blocks h). sector_of s' x = sector_of s x"
  shows "contents s' h = contents s h"
proof -
  have "file_byte s' h j = file_byte s h j" if "j < nat (numBytes h)" for j
  proof -
    have "int j < numBytes h" using that by linarith
    then have "int j < numSectors h * 128" using assms(1) by (simp add: file_ok_def)
    then have "int j div 128 < numSectors h" by (simp add: div_less_iff_less_mult)
    then have i: "0 \<le> int (j div 128)" "int (j div 128) < numSectors h" by (simp_all add: zdiv_int)
    show ?thesis using block_in(5) [OF assms(1) i] assms(2) by (simp add: file_byte_def)
  qed
  then show ?thesis by (simp add: contents_def)
qed

lemma fhdr_same: "sector_of s' x = sector_of s x \<Longrightarrow> fhdr s' x = fhdr s x"
  by (simp add: fhdr_def)

lemma owned_same: "sector_of s' x = sector_of s x \<Longrightarrow> owned s' x = owned s x"
  by (simp add: owned_def fhdr_def)

lemma same_sectors_trans: "same_sectors s s' \<Longrightarrow> same_sectors s' s'' \<Longrightarrow> same_sectors s s''"
  by (simp add: same_sectors_def)

lemma same_sectors_refl [simp]: "same_sectors s s"
  by (simp add: same_sectors_def)

lemma blocks_range: "file_ok h \<Longrightarrow> x \<in> set (blocks h) \<Longrightarrow> 0 \<le> x \<and> x < DiskDev.NumSectors"
  by (simp add: file_ok_def)

lemma contents_same_sectors: "file_ok h \<Longrightarrow> same_sectors s s' \<Longrightarrow> contents s' h = contents s h"
  by (rule contents_same) (auto simp: same_sectors_def dest: blocks_range)

text \<open>The files a change of some sectors leaves alone stay as they are.\<close>

lemma files_ok_frame:
  assumes "files_ok fs s m" and "\<forall>sec \<in> ran m. \<forall>x \<in> owned s sec. sector_of s' x = sector_of s x"
  shows "files_ok fs s' m" and "\<forall>sec \<in> ran m. owned s' sec = owned s sec \<and> fhdr s' sec = fhdr s sec"
proof -
  have o: "owned s' sec = owned s sec \<and> fhdr s' sec = fhdr s sec" if r: "sec \<in> ran m" for sec
  proof -
    have "sec \<in> owned s sec" by (simp add: owned_def)
    then have "sector_of s' sec = sector_of s sec" using assms(2) r by blast
    then show ?thesis by (simp add: owned_def fhdr_def)
  qed
  then show "\<forall>sec \<in> ran m. owned s' sec = owned s sec \<and> fhdr s' sec = fhdr s sec" by blast
  show "files_ok fs s' m"
    using assms(1) o unfolding files_ok_def by (metis ranI)
qed

lemma files_range: "files_ok fs s m \<Longrightarrow> sec \<in> ran m \<Longrightarrow> x \<in> owned s sec \<Longrightarrow> 0 \<le> x \<and> x < DiskDev.NumSectors"
  unfolding files_ok_def ran_def owned_def using blocks_range by blast

lemma fs_inv_same_sectors:
  assumes "fs_inv fs s d fm" "same_sectors s s'" "synch_ok s'"
  shows "fs_inv fs s' d fm"
proof -
  have sec: "sector_of s' x = sector_of s x" if "0 \<le> x" "x < DiskDev.NumSectors" for x
    using assms(2) that by (simp add: same_sectors_def)
  have fo: "files_ok fs s (dmap (dtable d))" using assms(1) by (simp add: fs_inv_def)
  have fr: "\<forall>sc \<in> ran (dmap (dtable d)). \<forall>x \<in> owned s sc. sector_of s' x = sector_of s x"
    using files_range [OF fo] sec by blast
  note ff = files_ok_frame [OF fo fr]
  have u: "(\<Union>sc \<in> ran (dmap (dtable d)). owned s' sc) = (\<Union>sc \<in> ran (dmap (dtable d)). owned s sc)"
    using ff(2) by simp
  have "fhdr s' 0 = fhdr s 0" "fhdr s' 1 = fhdr s 1"
    by (simp_all add: fhdr_def sec disk_consts)
  moreover have "contents s' (hdr (freeMapFile fs)) = contents s (hdr (freeMapFile fs))"
      "contents s' (hdr (directoryFile fs)) = contents s (hdr (directoryFile fs))"
    using assms contents_same_sectors by (auto simp: fs_inv_def fs_files_def map_file_def dir_file_def)
  ultimately show ?thesis using assms(1,3) ff(1) u by (simp add: fs_inv_def)
qed

section \<open>Reading the directory and the bitmap\<close>

lemma fetch_dir:
  assumes inv: "fs_inv fs s d fm" and g: "garbage_ok g"
  shows "\<exists>s'. dir_FetchFrom (Directory_new (g_entries g) NumDirEntries) (directoryFile fs) s = Inr (s', d) \<and>
    fs_inv fs s' d fm \<and> same_sectors s s'"
proof -
  let ?d0 = "Directory_new (g_entries g) NumDirEntries"
  have f: "file_ok (hdr (directoryFile fs))" "synch_ok s" "numBytes (hdr (directoryFile fs)) = 200"
      "dir_ok d" "length (dtable d) = 10" "contents s (hdr (directoryFile fs)) = table_bytes (dtable d)"
    using inv by (simp_all add: fs_inv_def fs_files_def dir_file_def)
  have n: "nat (numBytes (hdr (directoryFile fs))) = length (dtable d) * 20" using f by simp
  have d0: "length (dtable ?d0) = length (dtable d)" "dtableSize ?d0 = dtableSize d"
    using f(4,5) by (simp_all add: Directory_new_def NumDirEntries_def dir_ok_def)
  have tb: "length (table_bytes (dtable ?d0)) = length (dtable d) * 20"
    using g f(5) length_table_bytes [of "dtable ?d0"]
    by (auto simp: Directory_new_def NumDirEntries_def garbage_ok_def length_entry_bytes)
  obtain s' where "dir_FetchFrom ?d0 (directoryFile fs) s = Inr (s', d\<lparr>dtable := dtable d\<rparr>)" "synch_ok s'"
      "same_sectors s s'"
    using dir_FetchFrom_ok [OF f(1,2) n f(4) d0 tb f(6)] unfolding same_sectors_def by blast
  then show ?thesis using fs_inv_same_sectors [OF inv] by auto
qed

lemma fetch_map:
  assumes inv: "fs_inv fs s d fm"
  shows "\<exists>b s'. BitMap_new junk DiskDev.NumSectors = Inr b \<and>
    map_FetchFrom b (freeMapFile fs) s = Inr (s', fm) \<and> fs_inv fs s' d fm \<and> same_sectors s s'"
proof -
  have n: "(0::int) \<le> DiskDev.NumSectors" "DiskDev.NumSectors = 1024" by (simp_all add: disk_consts)
  obtain b where b: "BitMap_new junk DiskDev.NumSectors = Inr b" "bitmap_ok b" "numBits b = 1024"
    using BitMap_new_ok [OF n(1), of junk] n(2) by auto
  have f: "map_file (freeMapFile fs)" "synch_ok s" "bitmap_ok fm" "numBits fm = 1024"
      "contents s (hdr (freeMapFile fs)) = bitmap_bytes fm"
    using inv by (simp_all add: fs_inv_def fs_files_def)
  obtain s' where "map_FetchFrom b (freeMapFile fs) s = Inr (s', fm)" "synch_ok s'" "same_sectors s s'"
    using map_FetchFrom_ok [OF f(1-4) b(2,3) f(5)] by blast
  then show ?thesis using fs_inv_same_sectors [OF inv] b(1) by blast
qed

section \<open>Writing them back\<close>

lemma write_dir:
  assumes f: "fs_files fs" "synch_ok s" and d: "dir_ok d" "length (dtable d) = 10"
  shows "\<exists>s'. dir_WriteBack junk d (directoryFile fs) s = Inr s' \<and> synch_ok s' \<and>
    contents s' (hdr (directoryFile fs)) = table_bytes (dtable d) \<and>
    contents s' (hdr (freeMapFile fs)) = contents s (hdr (freeMapFile fs)) \<and>
    (\<forall>x. 0 \<le> x \<and> x < DiskDev.NumSectors \<and> x \<notin> set (blocks (hdr (directoryFile fs))) \<longrightarrow>
       sector_of s' x = sector_of s x)"
proof -
  have ok: "file_ok (hdr (directoryFile fs))" "file_ok (hdr (freeMapFile fs))"
      "nat (numBytes (hdr (directoryFile fs))) = length (dtable d) * 20"
    using f(1) d(2) by (simp_all add: fs_files_def dir_file_def map_file_def)
  obtain s' where s': "dir_WriteBack junk d (directoryFile fs) s = Inr s'" "synch_ok s'"
      "contents s' (hdr (directoryFile fs)) = table_bytes (dtable d)"
      "\<forall>x. 0 \<le> x \<and> x < DiskDev.NumSectors \<and> x \<notin> set (blocks (hdr (directoryFile fs))) \<longrightarrow>
         sector_of s' x = sector_of s x"
    using dir_WriteBack_ok [OF ok(1) f(2) ok(3) d(1)] by blast
  have "\<forall>x \<in> set (blocks (hdr (freeMapFile fs))). sector_of s' x = sector_of s x"
    using s'(4) blocks_range [OF ok(2)] f(1) unfolding fs_files_def by blast
  then show ?thesis using s' contents_same [OF ok(2)] by blast
qed

lemma write_map:
  assumes f: "fs_files fs" "synch_ok s" and fm: "bitmap_ok fm" "numBits fm = 1024"
  shows "\<exists>s'. map_WriteBack junk fm (freeMapFile fs) s = Inr s' \<and> synch_ok s' \<and>
    contents s' (hdr (freeMapFile fs)) = bitmap_bytes fm \<and>
    contents s' (hdr (directoryFile fs)) = contents s (hdr (directoryFile fs)) \<and>
    (\<forall>x. 0 \<le> x \<and> x < DiskDev.NumSectors \<and> x \<notin> set (blocks (hdr (freeMapFile fs))) \<longrightarrow>
       sector_of s' x = sector_of s x)"
proof -
  have ok: "file_ok (hdr (directoryFile fs))" "map_file (freeMapFile fs)"
    using f(1) by (simp_all add: fs_files_def dir_file_def)
  obtain s' where s': "map_WriteBack junk fm (freeMapFile fs) s = Inr s'" "synch_ok s'"
      "contents s' (hdr (freeMapFile fs)) = bitmap_bytes fm"
      "\<forall>x. 0 \<le> x \<and> x < DiskDev.NumSectors \<and> x \<notin> set (blocks (hdr (freeMapFile fs))) \<longrightarrow>
         sector_of s' x = sector_of s x"
    using map_WriteBack_ok [OF ok(2) f(2) fm] by blast
  have "\<forall>x \<in> set (blocks (hdr (directoryFile fs))). sector_of s' x = sector_of s x"
    using s'(4) blocks_range [OF ok(1)] f(1) unfolding fs_files_def by blast
  then show ?thesis using s' contents_same [OF ok(1)] by blast
qed

text \<open>What the last two writes of a call have to establish.\<close>

lemma fs_inv_intro:
  assumes s': "synch_ok s'" and fs: "fs_files fs" "fhdr s 0 = hdr (freeMapFile fs)" "fhdr s 1 = hdr (directoryFile fs)"
    and d: "dir_ok d" "length (dtable d) = 10" and fm: "bitmap_ok fm" "numBits fm = 1024"
    and c: "contents s' (hdr (freeMapFile fs)) = bitmap_bytes fm"
      "contents s' (hdr (directoryFile fs)) = table_bytes (dtable d)"
    and files: "files_ok fs s (dmap (dtable d))"
    and marks: "marked fm = system_sectors fs \<union> (\<Union>sec \<in> ran (dmap (dtable d)). owned s sec)"
    and same: "\<forall>x. 0 \<le> x \<and> x < DiskDev.NumSectors \<and> x \<notin> set (blocks (hdr (freeMapFile fs))) \<and>
      x \<notin> set (blocks (hdr (directoryFile fs))) \<longrightarrow> sector_of s' x = sector_of s x"
  shows "fs_inv fs s' d fm"
    and "\<forall>sec \<in> ran (dmap (dtable d)). owned s' sec = owned s sec \<and> fhdr s' sec = fhdr s sec \<and>
      contents s' (fhdr s' sec) = contents s (fhdr s sec)"
proof -
  have fr: "\<forall>sec \<in> ran (dmap (dtable d)). \<forall>x \<in> owned s sec. sector_of s' x = sector_of s x"
  proof (intro ballI)
    fix sec x assume sx: "sec \<in> ran (dmap (dtable d))" "x \<in> owned s sec"
    then obtain k where "dmap (dtable d) k = Some sec" by (auto simp: ran_def)
    then have "owned s sec \<inter> system_sectors fs = {}" using files by (simp add: files_ok_def)
    then have "x \<notin> system_sectors fs" using sx(2) by blast
    then show "sector_of s' x = sector_of s x"
      using same files_range [OF files sx] by (simp add: system_sectors_def)
  qed
  note ff = files_ok_frame [OF files fr]
  have ct: "contents s' (fhdr s sec) = contents s (fhdr s sec)" if r: "sec \<in> ran (dmap (dtable d))" for sec
  proof -
    obtain k where "dmap (dtable d) k = Some sec" using r by (auto simp: ran_def)
    then have "file_ok (fhdr s sec)" using files by (simp add: files_ok_def)
    then show ?thesis using fr r by (intro contents_same) (auto simp: owned_def)
  qed
  then show "\<forall>sec \<in> ran (dmap (dtable d)). owned s' sec = owned s sec \<and> fhdr s' sec = fhdr s sec \<and>
      contents s' (fhdr s' sec) = contents s (fhdr s sec)"
    using ff(2) by simp
  have "{0, 1} \<inter> (set (blocks (hdr (freeMapFile fs))) \<union> set (blocks (hdr (directoryFile fs)))) = {}"
    using fs(1) unfolding fs_files_def by blast
  then have "sector_of s' 0 = sector_of s 0" "sector_of s' 1 = sector_of s 1"
    using same by (simp_all add: disk_consts)
  then have "fhdr s' 0 = fhdr s 0" "fhdr s' 1 = fhdr s 1" by (simp_all add: fhdr_def)
  moreover have "(\<Union>sec \<in> ran (dmap (dtable d)). owned s' sec) = (\<Union>sec \<in> ran (dmap (dtable d)). owned s sec)"
    using ff(2) by simp
  ultimately show "fs_inv fs s' d fm"
    using assms ff(1) by (simp add: fs_inv_def)
qed

section \<open>Create\<close>

lemma marked_bounds: "fs_inv fs s d fm \<Longrightarrow> marked fm \<subseteq> {0..<1024}"
  using marked_range [of fm] by (simp add: fs_inv_def)

text \<open>A new header in a free sector makes a file of its own.\<close>

lemma files_ok_insert:
  assumes inv: "fs_inv fs s d fm" and m: "dmap (dtable d) k = None"
    and sec: "0 \<le> sec" "sec < DiskDev.NumSectors" "sec \<notin> marked fm"
    and h: "header_ok h" "file_ok h" "set (blocks h) \<inter> insert sec (marked fm) = {}"
    and s1: "sector_of s1 sec = header_bytes h"
      "\<forall>x. 0 \<le> x \<and> x < DiskDev.NumSectors \<and> x \<noteq> sec \<longrightarrow> sector_of s1 x = sector_of s x"
  shows "files_ok fs s1 ((dmap (dtable d))(k \<mapsto> sec))" and "fhdr s1 sec = h"
    and "\<forall>sc \<in> ran (dmap (dtable d)). owned s1 sc = owned s sc \<and> fhdr s1 sc = fhdr s sc"
    and "(\<Union>sc \<in> ran ((dmap (dtable d))(k \<mapsto> sec)). owned s1 sc) =
      insert sec (set (blocks h)) \<union> (\<Union>sc \<in> ran (dmap (dtable d)). owned s sc)"
proof -
  have fo: "files_ok fs s (dmap (dtable d))" and mk: "marked fm = system_sectors fs \<union>
      (\<Union>sec \<in> ran (dmap (dtable d)). owned s sec)" using inv by (simp_all add: fs_inv_def)
  show hs: "fhdr s1 sec = h" using s1(1) h(1) by (simp add: fhdr_def)
  then have os: "owned s1 sec = insert sec (set (blocks h))" by (simp add: owned_def)
  have fr: "\<forall>sc \<in> ran (dmap (dtable d)). \<forall>x \<in> owned s sc. sector_of s1 x = sector_of s x"
    using s1(2) files_range [OF fo] sec(3) mk by blast
  note ff = files_ok_frame [OF fo fr]
  then show o1: "\<forall>sc \<in> ran (dmap (dtable d)). owned s1 sc = owned s sc \<and> fhdr s1 sc = fhdr s sc" by blast
  have disj: "owned s1 sec \<inter> owned s1 sc = {}" if r: "sc \<in> ran (dmap (dtable d))" for sc
  proof -
    have "owned s1 sc \<subseteq> marked fm" using o1 r mk by auto
    then show ?thesis using os h(3) sec(3) by auto
  qed
  have "owned s1 sec \<inter> system_sectors fs = {}" "sec \<notin> set (blocks h)"
    using os h(3) sec(3) mk by auto
  then show "files_ok fs s1 ((dmap (dtable d))(k \<mapsto> sec))"
    using ff(1) disj hs h(2) sec(1,2) unfolding files_ok_def by (auto simp: ranI Int_commute)
  have "ran ((dmap (dtable d))(k \<mapsto> sec)) = insert sec (ran (dmap (dtable d)))" using m by simp
  then show "(\<Union>sc \<in> ran ((dmap (dtable d))(k \<mapsto> sec)). owned s1 sc) =
      insert sec (set (blocks h)) \<union> (\<Union>sc \<in> ran (dmap (dtable d)). owned s sc)"
    using os o1 by simp
qed

lemma Create_commit:
  assumes inv: "fs_inv fs s d fm" and m: "dmap (dtable d) k = None"
    and sec: "0 \<le> sec" "sec < DiskDev.NumSectors" "sec \<notin> marked fm"
    and h: "header_ok h" "file_ok h" "set (blocks h) \<inter> insert sec (marked fm) = {}"
    and d1: "dir_ok d1" "length (dtable d1) = 10" "dmap (dtable d1) = (dmap (dtable d))(k \<mapsto> sec)"
    and fm2: "bitmap_ok fm2" "numBits fm2 = 1024" "marked fm2 = insert sec (marked fm) \<union> set (blocks h)"
  shows "\<exists>s1 s2 s3. hdr_WriteBack s h sec = Inr s1 \<and> dir_WriteBack junk d1 (directoryFile fs) s1 = Inr s2 \<and>
    map_WriteBack junk fm2 (freeMapFile fs) s2 = Inr s3 \<and> fs_inv fs s3 d1 fm2 \<and> fhdr s3 sec = h \<and>
    (\<forall>sc \<in> ran (dmap (dtable d)). fhdr s3 sc = fhdr s sc \<and> contents s3 (fhdr s3 sc) = contents s (fhdr s sc))"
proof -
  have st: "synch_ok s" "fs_files fs" "fhdr s 0 = hdr (freeMapFile fs)" "fhdr s 1 = hdr (directoryFile fs)"
      "files_ok fs s (dmap (dtable d))"
      "marked fm = system_sectors fs \<union> (\<Union>sec \<in> ran (dmap (dtable d)). owned s sec)"
    using inv by (simp_all add: fs_inv_def)
  have hl: "length (header_bytes h) = 128" using h(1) by (simp add: header_ok_def length_header_bytes)
  obtain s1 where s1: "WriteSector s sec (header_bytes h) = Inr s1" "synch_ok s1"
      "sector_of s1 sec = header_bytes h"
      "\<forall>x. 0 \<le> x \<and> x < DiskDev.NumSectors \<and> x \<noteq> sec \<longrightarrow> sector_of s1 x = sector_of s x"
    using sd.wr_ok [OF st(1) sec(1,2) hl] by blast
  note fi = files_ok_insert [OF inv m sec h s1(3,4)]
  have sys: "sec \<notin> system_sectors fs" using sec(3) st(6) by blast
  then have "sector_of s1 0 = sector_of s 0" "sector_of s1 1 = sector_of s 1"
    using s1(4) by (simp_all add: disk_consts system_sectors_def)
  then have h01: "fhdr s1 0 = hdr (freeMapFile fs)" "fhdr s1 1 = hdr (directoryFile fs)"
    using st(3,4) by (simp_all add: fhdr_def)
  obtain s2 where s2: "dir_WriteBack junk d1 (directoryFile fs) s1 = Inr s2" "synch_ok s2"
      "contents s2 (hdr (directoryFile fs)) = table_bytes (dtable d1)"
      "\<forall>x. 0 \<le> x \<and> x < DiskDev.NumSectors \<and> x \<notin> set (blocks (hdr (directoryFile fs))) \<longrightarrow>
         sector_of s2 x = sector_of s1 x"
    using write_dir [OF st(2) s1(2) d1(1,2)] by blast
  obtain s3 where s3: "map_WriteBack junk fm2 (freeMapFile fs) s2 = Inr s3" "synch_ok s3"
      "contents s3 (hdr (freeMapFile fs)) = bitmap_bytes fm2"
      "contents s3 (hdr (directoryFile fs)) = contents s2 (hdr (directoryFile fs))"
      "\<forall>x. 0 \<le> x \<and> x < DiskDev.NumSectors \<and> x \<notin> set (blocks (hdr (freeMapFile fs))) \<longrightarrow>
         sector_of s3 x = sector_of s2 x"
    using write_map [OF st(2) s2(2) fm2(1,2)] by blast
  have c: "contents s3 (hdr (directoryFile fs)) = table_bytes (dtable d1)" using s3(4) s2(3) by simp
  have marks: "marked fm2 = system_sectors fs \<union> (\<Union>sec \<in> ran (dmap (dtable d1)). owned s1 sec)"
    unfolding d1(3) fi(4) fm2(3) st(6) by blast
  have same: "\<forall>x. 0 \<le> x \<and> x < DiskDev.NumSectors \<and> x \<notin> set (blocks (hdr (freeMapFile fs))) \<and>
      x \<notin> set (blocks (hdr (directoryFile fs))) \<longrightarrow> sector_of s3 x = sector_of s1 x"
    using s3(5) s2(4) by simp
  have files: "files_ok fs s1 (dmap (dtable d1))" unfolding d1(3) by (rule fi(1))
  note fin = fs_inv_intro [OF s3(2) st(2) h01 d1(1,2) fm2(1,2) s3(3) c files marks same]
  have ran1: "sec \<in> ran (dmap (dtable d1))" "ran (dmap (dtable d)) \<subseteq> ran (dmap (dtable d1))"
    using d1(3) m by auto
  have "fhdr s3 sec = h" using fin(2) ran1(1) fi(2) by simp
  moreover have "fhdr s3 sc = fhdr s sc \<and> contents s3 (fhdr s3 sc) = contents s (fhdr s sc)"
    if r: "sc \<in> ran (dmap (dtable d))" for sc
  proof -
    have 1: "fhdr s1 sc = fhdr s sc" using fi(3) r by blast
    obtain k' where "dmap (dtable d) k' = Some sc" using r by (auto simp: ran_def)
    then have "file_ok (fhdr s sc)" using st(5) by (simp add: files_ok_def)
    moreover have "\<forall>x \<in> set (blocks (fhdr s sc)). sector_of s1 x = sector_of s x"
    proof
      fix x assume x: "x \<in> set (blocks (fhdr s sc))"
      then have "x \<in> owned s sc" by (simp add: owned_def)
      then have "x \<in> marked fm" "0 \<le> x \<and> x < DiskDev.NumSectors"
        using st(6) r files_range [OF st(5) r] by auto
      then show "sector_of s1 x = sector_of s x" using s1(4) sec(3) by auto
    qed
    ultimately have "contents s1 (fhdr s sc) = contents s (fhdr s sc)" by (rule contents_same)
    moreover have "fhdr s3 sc = fhdr s1 sc" "contents s3 (fhdr s3 sc) = contents s1 (fhdr s1 sc)"
      using fin(2) ran1(2) r by blast+
    ultimately show ?thesis using 1 by simp
  qed
  moreover have "hdr_WriteBack s h sec = Inr s1" using s1(1) by (simp add: hdr_WriteBack_def)
  ultimately show ?thesis using s2(1) s3(1) fin(1) by blast
qed

lemma header_ok_Allocate:
  assumes g: "garbage_ok g" and js: "length js = nat n" "distinct js" "set js \<subseteq> {0..<1024}"
    and n: "n = divRoundUp fsize SecSize" "0 \<le> fsize" "fsize \<le> MaxFileSize"
  defines "h \<equiv> \<lparr>numBytes = fsize, numSectors = n, dataSectors = blit (dataSectors (g_header g)) 0 js\<rparr>"
  shows "header_ok h" "file_ok h" "blocks h = js"
proof -
  have nb: "0 \<le> n" "fsize \<le> n * 128" "n * 128 < fsize + 128"
    using divRoundUp_bounds [OF n(2), of SecSize] n(1) by (simp_all add: SecSize_def)
  then have n30: "n \<le> 30" using n(3) by (simp add: MaxFileSize_def NumDirect_def SecSize_def)
  have l: "length js \<le> 30" "length (dataSectors (g_header g)) = 30"
    using js(1) n30 g by (simp_all add: garbage_ok_def NumDirect_def)
  have ds: "length (dataSectors h) = NumDirect" using l by (simp add: h_def NumDirect_def)
  show bl: "blocks h = js" using js(1) l by (simp add: blocks_def h_def blit_def)
  have "\<forall>x \<in> set (dataSectors h). int32 x"
  proof
    fix x assume "x \<in> set (dataSectors h)"
    then have "x \<in> set js \<or> x \<in> set (dataSectors (g_header g))"
      by (auto simp: h_def blit_def dest: in_set_dropD)
    then show "int32 x" using js(3) g by (auto simp: garbage_ok_def int32_def)
  qed
  then show "header_ok h"
    using ds nb n n30 by (simp add: header_ok_def h_def int32_def MaxFileSize_def NumDirect_def SecSize_def)
  show "file_ok h"
    unfolding file_ok_def bl using js(2,3) ds nb n(2) n30
    by (auto simp: h_def NumDirect_def disk_consts)
qed

text \<open>Every branch of \<open>Create\<close>.\<close>

lemma Create_ok:
  fixes nm :: "8 word list"
  assumes inv: "fs_inv fs s d fm" and g: "garbage_ok g" and sz: "0 \<le> fsize" "fsize \<le> MaxFileSize"
  defines "n \<equiv> divRoundUp fsize SecSize"
    and "m \<equiv> dmap (dtable d)" and "k \<equiv> name_key nm"
  shows "if m k = None \<and> card (dom m) < 10 \<and> n < int (card ({0..<1024} - marked fm))
    then \<exists>s' d' fm' sec. Create g fs s nm fsize = Inr (s', True) \<and> fs_inv fs s' d' fm' \<and>
      dmap (dtable d') = m(k \<mapsto> sec) \<and> sec \<notin> ran m \<and> numBytes (fhdr s' sec) = fsize \<and> numSectors (fhdr s' sec) = n \<and>
      card (marked fm') = card (marked fm) + 1 + nat n \<and>
      (\<forall>sc \<in> ran m. fhdr s' sc = fhdr s sc \<and> contents s' (fhdr s' sc) = contents s (fhdr s sc))
    else \<exists>s'. Create g fs s nm fsize = Inr (s', False) \<and> fs_inv fs s' d fm \<and> same_sectors s s'"
proof -
  obtain s1 where s1: "dir_FetchFrom (Directory_new (g_entries g) NumDirEntries) (directoryFile fs) s = Inr (s1, d)"
      "fs_inv fs s1 d fm" "same_sectors s s1"
    using fetch_dir [OF inv g] by blast
  have ok: "dir_ok d" "length (dtable d) = 10" "bitmap_ok fm" "numBits fm = 1024"
      "marked fm = system_sectors fs \<union> (\<Union>sec \<in> ran m. owned s sec)"
    using inv by (simp_all add: fs_inv_def m_def)
  have mb: "marked fm \<subseteq> {0..<1024}" by (rule marked_bounds [OF inv])
  have nn: "0 \<le> n" using divRoundUp_bounds [OF sz(1), of SecSize] by (simp add: n_def SecSize_def)
  show ?thesis
  proof (cases "m k = None")
    case False
    then have "dir_Find d nm \<noteq> -1" using dir.find_minus_1 [OF ok(1)] by (simp add: m_def k_def)
    then have "Create g fs s nm fsize = Inr (s1, False)" by (simp add: Create_def s1(1))
    then show ?thesis using False s1(2,3) by auto
  next
    case True
    have f: "dir_Find d nm = -1" using True dir.find_minus_1 [OF ok(1)] by (simp add: m_def k_def)
    obtain b s2 where s2: "BitMap_new (g_words g) DiskDev.NumSectors = Inr b"
        "map_FetchFrom b (freeMapFile fs) s1 = Inr (s2, fm)" "fs_inv fs s2 d fm" "same_sectors s1 s2"
      using fetch_map [OF s1(2)] by blast
    have s12: "same_sectors s s2" using same_sectors_trans [OF s1(3) s2(4)] .
    show ?thesis
    proof (cases "marked fm = {0..<1024}")
      case full: True
      then have "Find fm = Inr (fm, -1)" using bm.alloc_full [OF ok(3)] ok(4) by simp
      then have "Create g fs s nm fsize = Inr (s2, False)" by (simp add: Create_def s1(1) f s2(1,2))
      then show ?thesis using full nn s2(3) s12 by auto
    next
      case free: False
      then obtain fm1 sec where fd: "Find fm = Inr (fm1, sec)" "0 \<le> sec" "sec < 1024" "sec \<notin> marked fm"
          "bitmap_ok fm1" "numBits fm1 = 1024" "marked fm1 = insert sec (marked fm)"
        using bm.alloc_free [OF ok(3)] ok(4) by auto
      have sn: "sector_number sec" "sec \<noteq> -1" using fd(2,3) by (simp_all add: sector_number_def int32_def)
      have card1: "card ({0..<1024} - marked fm) = Suc (card ({0..<1024} - marked fm1))"
      proof -
        have "sec \<in> {0..<1024} - marked fm" using fd(2-4) by simp
        from card_Suc_Diff1 [OF _ this] show ?thesis
          using Diff_insert [of "{0..<1024}" sec "marked fm"] fd(7) by simp
      qed
      obtain d1 where d1: "dir_Add d nm sec = (d1, card (dom m) < 10)" "dir_ok d1" "length (dtable d1) = 10"
          "dmap (dtable d1) = (if card (dom m) < 10 then m(k \<mapsto> sec) else m)"
        using dir.add_ok [OF ok(1) sn(1), of nm] True ok(2) by (auto simp: m_def k_def)
      show ?thesis
      proof (cases "card (dom m) < 10")
        case False
        then have "Create g fs s nm fsize = Inr (s2, False)"
          by (simp add: Create_def s1(1) f s2(1,2) fd(1) sn(2) d1(1))
        then show ?thesis using False s2(3) s12 by auto
      next
        case room: True
        show ?thesis
        proof (cases "n < int (card ({0..<1024} - marked fm))")
          case False
          then have "int (card ({0..<numBits fm1} - marked fm1)) < n" using card1 fd(6) by simp
          then have "\<exists>h'. Allocate (g_header g) fm1 fsize = Inr (h', fm1, False)"
            by (simp add: Allocate_def Let_def NumClear_ok [OF fd(5)] n_def)
          then have "Create g fs s nm fsize = Inr (s2, False)"
            using room by (auto simp: Create_def s1(1) f s2(1,2) fd(1) sn(2) d1(1))
          then show ?thesis using False s2(3) s12 by auto
        next
          case space: True
          have n30: "n \<le> int NumDirect"
            using sz divRoundUp_bounds(2) [OF sz(1), of SecSize]
            by (simp add: n_def MaxFileSize_def NumDirect_def SecSize_def)
          have av: "n \<le> int (card ({0..<numBits fm1} - marked fm1))" using space card1 fd(6) by simp
          have gl: "length (dataSectors (g_header g)) = NumDirect" using g by (simp add: garbage_ok_def)
          obtain js fm2 where al: "Allocate (g_header g) fm1 fsize =
              Inr (\<lparr>numBytes = fsize, numSectors = n, dataSectors = blit (dataSectors (g_header g)) 0 js\<rparr>, fm2, True)"
              "length js = nat n" "distinct js" "set js \<subseteq> {0..<numBits fm1} - marked fm1"
              "bitmap_ok fm2" "numBits fm2 = numBits fm1" "marked fm2 = marked fm1 \<union> set js"
            using Allocate_ok [OF fd(5) gl n_def [THEN meta_eq_to_obj_eq] nn n30 av] by blast
          define h where "h = \<lparr>numBytes = fsize, numSectors = n, dataSectors = blit (dataSectors (g_header g)) 0 js\<rparr>"
          have jr: "set js \<subseteq> {0..<1024}" using al(4) fd(6) by auto
          note hh = header_ok_Allocate [OF g al(2,3) jr n_def [THEN meta_eq_to_obj_eq] sz, folded h_def]
          have hd: "set (blocks h) \<inter> insert sec (marked fm) = {}"
            unfolding hh(3) using al(4) fd(7) by blast
          have m0: "dmap (dtable d) k = None" using True by (simp add: m_def)
          have d1m: "dmap (dtable d1) = (dmap (dtable d))(k \<mapsto> sec)" using d1(4) room by (simp add: m_def)
          have secN: "sec < DiskDev.NumSectors" using fd(3) by (simp add: disk_consts)
          have fm2: "numBits fm2 = 1024" "marked fm2 = insert sec (marked fm) \<union> set (blocks h)"
            using al(6,7) fd(6,7) hh(3) by simp_all
          obtain t1 t2 t3 where t: "hdr_WriteBack s2 h sec = Inr t1"
              "dir_WriteBack (g_buffer g) d1 (directoryFile fs) t1 = Inr t2"
              "map_WriteBack (g_buffer g) fm2 (freeMapFile fs) t2 = Inr t3"
              "fs_inv fs t3 d1 fm2" "fhdr t3 sec = h"
              "\<forall>sc \<in> ran m. fhdr t3 sc = fhdr s2 sc \<and> contents t3 (fhdr t3 sc) = contents s2 (fhdr s2 sc)"
            using Create_commit [OF s2(3) m0 fd(2) secN fd(4) hh(1,2) hd d1(2,3) d1m al(5) fm2]
            unfolding m_def by blast
          have run: "Create g fs s nm fsize = Inr (t3, True)"
            using al(1) t(1-3) room by (simp add: Create_def s1(1) f s2(1,2) fd(1) sn(2) d1(1) flip: h_def)
          have old: "fhdr s2 sc = fhdr s sc \<and> contents s2 (fhdr s2 sc) = contents s (fhdr s sc)"
            if r: "sc \<in> ran m" for sc
          proof -
            obtain k' where "m k' = Some sc" using r by (auto simp: ran_def)
            then have "file_ok (fhdr s sc)" "0 \<le> sc" "sc < DiskDev.NumSectors"
              using inv unfolding fs_inv_def files_ok_def m_def by blast+
            then show ?thesis
              using s12 contents_same_sectors [OF _ s12] by (simp add: same_sectors_def fhdr_def)
          qed
          have "sec \<notin> ran m" using fd(4) ok(5) by (auto simp: owned_def)
          moreover have "card (marked fm2) = card (marked fm) + 1 + nat n"
          proof -
            have "finite (marked fm)" by simp
            moreover have "card (set (blocks h)) = nat n" using al(2,3) hh(3) by (simp add: distinct_card)
            ultimately show ?thesis unfolding fm2(2) using hd fd(4)
              by (subst card_Un_disjoint) (auto simp: Int_commute)
          qed
          moreover have "numBytes (fhdr t3 sec) = fsize" "numSectors (fhdr t3 sec) = n" by (simp_all add: t(5) h_def)
          moreover have "dmap (dtable d1) = m(k \<mapsto> sec)" using d1m by (simp add: m_def)
          moreover have "\<forall>sc \<in> ran m. fhdr t3 sc = fhdr s sc \<and> contents t3 (fhdr t3 sc) = contents s (fhdr s sc)"
            using t(6) old by metis
          ultimately have "\<exists>s' d' fm' sec. Create g fs s nm fsize = Inr (s', True) \<and> fs_inv fs s' d' fm' \<and>
              dmap (dtable d') = m(k \<mapsto> sec) \<and> sec \<notin> ran m \<and> numBytes (fhdr s' sec) = fsize \<and> numSectors (fhdr s' sec) = n \<and>
              card (marked fm') = card (marked fm) + 1 + nat n \<and>
              (\<forall>sc \<in> ran m. fhdr s' sc = fhdr s sc \<and> contents s' (fhdr s' sc) = contents s (fhdr s sc))"
            using run t(4) by blast
          then show ?thesis using True room space by simp
        qed
      qed
    qed
  qed
qed

section \<open>Remove\<close>

lemma hdr_FetchFrom_ok:
  assumes inv: "fs_inv fs s d fm" and sec: "0 \<le> sec" "sec < DiskDev.NumSectors"
  shows "\<exists>s'. hdr_FetchFrom s sec = Inr (s', fhdr s sec) \<and> fs_inv fs s' d fm \<and> same_sectors s s'"
proof -
  have "synch_ok s" using inv by (simp add: fs_inv_def)
  then obtain s' where "ReadSector s sec = Inr (s', sector_of s sec)" "synch_ok s'" "same_sectors s s'"
    using sd.rd_ok [OF _ sec] unfolding same_sectors_def by blast
  then show ?thesis using fs_inv_same_sectors [OF inv] by (simp add: hdr_FetchFrom_def fhdr_def)
qed

text \<open>A file that goes leaves the others as they are.\<close>

lemma files_ok_delete:
  assumes fo: "files_ok fs s m" and m: "m k = Some sec"
  shows "files_ok fs s (m(k := None))" and "ran (m(k := None)) = ran m - {sec}"
    and "(\<Union>sc \<in> ran (m(k := None)). owned s sc) = (\<Union>sc \<in> ran m. owned s sc) - owned s sec"
    and "owned s sec \<inter> system_sectors fs = {}"
proof -
  show "files_ok fs s (m(k := None))" using fo unfolding files_ok_def by auto
  have dj: "owned s sc \<inter> owned s sec = {}" if "m k' = Some sc" "k' \<noteq> k" for k' sc
    using fo m that unfolding files_ok_def by blast
  have self: "sc \<in> owned s sc" for sc by (simp add: owned_def)
  have ne: "sc \<noteq> sec" if "m k' = Some sc" "k' \<noteq> k" for k' sc
    using dj [OF that] self by blast
  show r: "ran (m(k := None)) = ran m - {sec}"
  proof -
    have "x \<in> ran (m(k := None)) \<longleftrightarrow> (\<exists>a. a \<noteq> k \<and> m a = Some x)" for x by (auto simp: ran_def)
    moreover have "x \<in> ran m \<longleftrightarrow> (\<exists>a. m a = Some x)" for x by (auto simp: ran_def)
    ultimately show ?thesis using m ne by (auto simp del: ran_map_upd) (metis option.inject)
  qed
  have "owned s sc \<inter> owned s sec = {}" if r: "sc \<in> ran m - {sec}" for sc
  proof -
    obtain k' where "m k' = Some sc" using r by (auto simp: ran_def)
    moreover from this have "k' \<noteq> k" using r m by auto
    ultimately show ?thesis by (rule dj)
  qed
  moreover have "sec \<in> ran m" using m by (rule ranI)
  ultimately show "(\<Union>sc \<in> ran (m(k := None)). owned s sc) = (\<Union>sc \<in> ran m. owned s sc) - owned s sec"
    unfolding r by blast
  show "owned s sec \<inter> system_sectors fs = {}" using fo m unfolding files_ok_def by blast
qed

lemma Remove_commit:
  assumes inv: "fs_inv fs s d fm" and m: "dmap (dtable d) k = Some sec"
    and d1: "dir_ok d1" "length (dtable d1) = 10" "dmap (dtable d1) = (dmap (dtable d))(k := None)"
    and fm2: "bitmap_ok fm2" "numBits fm2 = 1024" "marked fm2 = marked fm - owned s sec"
  shows "\<exists>s2 s3. map_WriteBack junk fm2 (freeMapFile fs) s = Inr s2 \<and>
    dir_WriteBack junk d1 (directoryFile fs) s2 = Inr s3 \<and> fs_inv fs s3 d1 fm2 \<and>
    (\<forall>sc \<in> ran (dmap (dtable d1)). fhdr s3 sc = fhdr s sc \<and> contents s3 (fhdr s3 sc) = contents s (fhdr s sc))"
proof -
  have st: "synch_ok s" "fs_files fs" "fhdr s 0 = hdr (freeMapFile fs)" "fhdr s 1 = hdr (directoryFile fs)"
      "files_ok fs s (dmap (dtable d))"
      "marked fm = system_sectors fs \<union> (\<Union>sec \<in> ran (dmap (dtable d)). owned s sec)"
    using inv by (simp_all add: fs_inv_def)
  note del = files_ok_delete [OF st(5) m]
  obtain s2 where s2: "map_WriteBack junk fm2 (freeMapFile fs) s = Inr s2" "synch_ok s2"
      "contents s2 (hdr (freeMapFile fs)) = bitmap_bytes fm2"
      "\<forall>x. 0 \<le> x \<and> x < DiskDev.NumSectors \<and> x \<notin> set (blocks (hdr (freeMapFile fs))) \<longrightarrow>
         sector_of s2 x = sector_of s x"
    using write_map [OF st(2,1) fm2(1,2)] by blast
  obtain s3 where s3: "dir_WriteBack junk d1 (directoryFile fs) s2 = Inr s3" "synch_ok s3"
      "contents s3 (hdr (directoryFile fs)) = table_bytes (dtable d1)"
      "contents s3 (hdr (freeMapFile fs)) = contents s2 (hdr (freeMapFile fs))"
      "\<forall>x. 0 \<le> x \<and> x < DiskDev.NumSectors \<and> x \<notin> set (blocks (hdr (directoryFile fs))) \<longrightarrow>
         sector_of s3 x = sector_of s2 x"
    using write_dir [OF st(2) s2(2) d1(1,2)] by blast
  have c: "contents s3 (hdr (freeMapFile fs)) = bitmap_bytes fm2" using s3(4) s2(3) by simp
  have files: "files_ok fs s (dmap (dtable d1))" unfolding d1(3) by (rule del(1))
  have marks: "marked fm2 = system_sectors fs \<union> (\<Union>sec \<in> ran (dmap (dtable d1)). owned s sec)"
    unfolding fm2(3) d1(3) del(3) st(6) using del(4) by blast
  have same: "\<forall>x. 0 \<le> x \<and> x < DiskDev.NumSectors \<and> x \<notin> set (blocks (hdr (freeMapFile fs))) \<and>
      x \<notin> set (blocks (hdr (directoryFile fs))) \<longrightarrow> sector_of s3 x = sector_of s x"
    using s3(5) s2(4) by simp
  note fin = fs_inv_intro [OF s3(2) st(2-4) d1(1,2) fm2(1,2) c s3(3) files marks same]
  show ?thesis using s2(1) s3(1) fin by blast
qed

lemma Deallocate_ok:
  assumes "bitmap_ok fm" "file_ok h" "set (blocks h) \<subseteq> marked fm"
  shows "\<exists>fm'. Deallocate h fm = Inr fm' \<and> bitmap_ok fm' \<and> numBits fm' = numBits fm \<and>
    marked fm' = marked fm - set (blocks h)"
proof (cases h)
  case (fields b n ds)
  have "take (nat n) ds = blocks h" "length (blocks h) = nat n" "length ds = NumDirect" "0 \<le> n" "n \<le> int NumDirect"
    "distinct (blocks h)"
    using assms(2) unfolding fields by (auto simp: file_ok_def blocks_def)
  from Deallocate_Allocate [OF assms(1) this assms(3)] show ?thesis unfolding fields .
qed

text \<open>Every branch of \<open>Remove\<close>.\<close>

lemma fs_Remove_ok:
  fixes nm :: "8 word list"
  assumes inv: "fs_inv fs s d fm" and g: "garbage_ok g"
  defines "m \<equiv> dmap (dtable d)" and "k \<equiv> name_key nm"
  shows "case m k of
      None \<Rightarrow> \<exists>s'. fs_Remove g fs s nm = Inr (s', False) \<and> fs_inv fs s' d fm \<and> same_sectors s s'
    | Some sec \<Rightarrow> \<exists>s' d' fm'. fs_Remove g fs s nm = Inr (s', True) \<and> fs_inv fs s' d' fm' \<and>
        dmap (dtable d') = m(k := None) \<and> marked fm' = marked fm - owned s sec \<and> owned s sec \<subseteq> marked fm \<and>
        (\<forall>sc \<in> ran (m(k := None)). fhdr s' sc = fhdr s sc \<and> contents s' (fhdr s' sc) = contents s (fhdr s sc))"
proof -
  obtain s1 where s1: "dir_FetchFrom (Directory_new (g_entries g) NumDirEntries) (directoryFile fs) s = Inr (s1, d)"
      "fs_inv fs s1 d fm" "same_sectors s s1"
    using fetch_dir [OF inv g] by blast
  have ok: "dir_ok d" "length (dtable d) = 10" "bitmap_ok fm" "numBits fm = 1024" "files_ok fs s m"
      "marked fm = system_sectors fs \<union> (\<Union>sec \<in> ran m. owned s sec)"
    using inv by (simp_all add: fs_inv_def m_def)
  show ?thesis
  proof (cases "m k")
    case None
    then have "dir_Find d nm = -1" using dir.find_minus_1 [OF ok(1)] by (simp add: m_def k_def)
    then have "fs_Remove g fs s nm = Inr (s1, False)" by (simp add: fs_Remove_def s1(1))
    then show ?thesis using None s1(2,3) by simp
  next
    case (Some sec)
    have f: "dir_Find d nm = sec" using dir.find_ok [OF ok(1), of nm] Some by (simp add: m_def k_def)
    have sec: "0 \<le> sec" "sec < DiskDev.NumSectors" "file_ok (fhdr s sec)" "sec \<notin> set (blocks (fhdr s sec))"
      using ok(5) Some unfolding files_ok_def by blast+
    then have sec1024: "sec < 1024" "sec \<noteq> -1" by (simp_all add: disk_consts)
    obtain s2 where s2: "hdr_FetchFrom s1 sec = Inr (s2, fhdr s1 sec)" "fs_inv fs s2 d fm" "same_sectors s1 s2"
      using hdr_FetchFrom_ok [OF s1(2) sec(1,2)] by blast
    have h1: "fhdr s1 sec = fhdr s sec" using s1(3) sec(1,2) by (simp add: fhdr_def same_sectors_def)
    obtain b s3 where s3: "BitMap_new (g_words g) DiskDev.NumSectors = Inr b"
        "map_FetchFrom b (freeMapFile fs) s2 = Inr (s3, fm)" "fs_inv fs s3 d fm" "same_sectors s2 s3"
      using fetch_map [OF s2(2)] by blast
    have s03: "same_sectors s s3" using s1(3) s2(3) s3(4) by (blast intro: same_sectors_trans)
    have own: "owned s sec \<subseteq> marked fm" using ok(6) Some by (auto intro: ranI)
    then have mk: "sec \<in> marked fm" "set (blocks (fhdr s sec)) \<subseteq> marked fm" by (auto simp: owned_def)
    obtain fm1 where fm1: "Deallocate (fhdr s sec) fm = Inr fm1" "bitmap_ok fm1" "numBits fm1 = 1024"
        "marked fm1 = marked fm - set (blocks (fhdr s sec))"
      using Deallocate_ok [OF ok(3) sec(3) mk(2)] ok(4) by auto
    obtain fm2 where fm2: "Clear fm1 sec = Inr fm2" "bitmap_ok fm2" "numBits fm2 = 1024" "marked fm2 = marked fm1 - {sec}"
      using Clear_ok [OF fm1(2) sec(1)] fm1(3) sec1024 by auto
    have fm2m: "marked fm2 = marked fm - owned s3 sec"
      using fm2(4) fm1(4) owned_same [of s3 sec s] s03 sec(1,2) by (auto simp: owned_def same_sectors_def)
    obtain d1 where d1: "dir_Remove d nm = (d1, True)" "dir_ok d1" "length (dtable d1) = 10"
        "dmap (dtable d1) = m(k := None)"
      using dir.rem_ok [OF ok(1), of nm] Some ok(2) by (auto simp: m_def k_def)
    have mk3: "dmap (dtable d) k = Some sec" using Some by (simp add: m_def)
    obtain s4 s5 where s5: "map_WriteBack (g_buffer g) fm2 (freeMapFile fs) s3 = Inr s4"
        "dir_WriteBack (g_buffer g) d1 (directoryFile fs) s4 = Inr s5" "fs_inv fs s5 d1 fm2"
        "\<forall>sc \<in> ran (dmap (dtable d1)). fhdr s5 sc = fhdr s3 sc \<and> contents s5 (fhdr s5 sc) = contents s3 (fhdr s3 sc)"
      using Remove_commit [OF s3(3) mk3 d1(2,3) d1(4) [unfolded m_def] fm2(2,3) fm2m] by blast
    have run: "fs_Remove g fs s nm = Inr (s5, True)"
      by (simp add: fs_Remove_def s1(1) f sec1024 s2(1) s3(1,2) h1 fm1(1) fm2(1) d1(1) s5(1,2))
    have old: "fhdr s3 sc = fhdr s sc \<and> contents s3 (fhdr s3 sc) = contents s (fhdr s sc)"
      if r: "sc \<in> ran (m(k := None))" for sc
    proof -
      obtain k' where "m k' = Some sc" using r by (auto simp: ran_def split: if_splits)
      then have "file_ok (fhdr s sc)" "0 \<le> sc" "sc < DiskDev.NumSectors"
        using ok(5) unfolding files_ok_def by blast+
      then show ?thesis
        using s03 contents_same_sectors [OF _ s03] by (simp add: same_sectors_def fhdr_def)
    qed
    have "\<forall>sc \<in> ran (m(k := None)). fhdr s5 sc = fhdr s sc \<and> contents s5 (fhdr s5 sc) = contents s (fhdr s sc)"
      using s5(4) old unfolding d1(4) by metis
    moreover have "marked fm2 = marked fm - owned s sec"
      using fm2m owned_same [of s3 sec s] s03 sec(1,2) by (simp add: same_sectors_def)
    ultimately have "\<exists>s' d' fm'. fs_Remove g fs s nm = Inr (s', True) \<and> fs_inv fs s' d' fm' \<and>
        dmap (dtable d') = m(k := None) \<and> marked fm' = marked fm - owned s sec \<and> owned s sec \<subseteq> marked fm \<and>
        (\<forall>sc \<in> ran (m(k := None)). fhdr s' sc = fhdr s sc \<and> contents s' (fhdr s' sc) = contents s (fhdr s sc))"
      using run s5(3) d1(4) own by blast
    then show ?thesis unfolding Some by simp
  qed
qed

end
