(* ===== verification/FileSessions.thy ===== *)
theory FileSessions
  imports FileSys
begin

text \<open>
  What the users of \<open>filesys/filesys.cc\<close> see: formatting a new disk, opening files, and whole sessions
  of \<open>Create\<close>, \<open>Open\<close> and \<open>Remove\<close>, compared with a specification that only knows the length of each
  file and the number of free sectors.
\<close>

section \<open>Open\<close>

lemma Open_ok:
  fixes nm :: "8 word list"
  assumes inv: "fs_inv fs s d fm" and g: "garbage_ok g"
  defines "m \<equiv> dmap (dtable d)" and "k \<equiv> name_key nm"
  shows "\<exists>s'. Open g fs s nm = Inr (s', map_option (\<lambda>sec. \<lparr>hdr = fhdr s sec, seekPosition = 0\<rparr>) (m k)) \<and>
    fs_inv fs s' d fm \<and> same_sectors s s'"
proof -
  obtain s1 where s1: "dir_FetchFrom (Directory_new (g_entries g) NumDirEntries) (directoryFile fs) s = Inr (s1, d)"
      "fs_inv fs s1 d fm" "same_sectors s s1"
    using fetch_dir [OF inv g] by blast
  have ok: "dir_ok d" "files_ok fs s m" using inv by (simp_all add: fs_inv_def m_def)
  show ?thesis
  proof (cases "m k")
    case None
    then have "dir_Find d nm = -1" using dir.find_minus_1 [OF ok(1)] by (simp add: m_def k_def)
    then show ?thesis using s1 None by (simp add: Open_def)
  next
    case (Some sec)
    have f: "dir_Find d nm = sec" using dir.find_ok [OF ok(1), of nm] Some by (simp add: m_def k_def)
    have sec: "0 \<le> sec" "sec < DiskDev.NumSectors" using ok(2) Some unfolding files_ok_def by blast+
    obtain s2 where s2: "hdr_FetchFrom s1 sec = Inr (s2, fhdr s1 sec)" "fs_inv fs s2 d fm" "same_sectors s1 s2"
      using hdr_FetchFrom_ok [OF s1(2) sec] by blast
    have "fhdr s1 sec = fhdr s sec" using s1(3) sec by (simp add: fhdr_def same_sectors_def)
    then have "Open g fs s nm = Inr (s2, Some \<lparr>hdr = fhdr s sec, seekPosition = 0\<rparr>)"
      using sec(1) by (simp add: Open_def s1(1) f OpenFile_def s2(1))
    then show ?thesis using Some s2(2) same_sectors_trans [OF s1(3) s2(3)] by simp
  qed
qed

section \<open>Formatting a disk\<close>

lemma Find_some:
  assumes "bitmap_ok fm" "numBits fm = 1024" "card (marked fm) < 1024"
  shows "\<exists>fm' i. Find fm = Inr (fm', i) \<and> 0 \<le> i \<and> i < 1024 \<and> i \<notin> marked fm \<and> bitmap_ok fm' \<and>
    numBits fm' = 1024 \<and> marked fm' = insert i (marked fm)"
proof -
  have "marked fm \<noteq> {0..<numBits fm}" using assms(2,3) by auto
  then show ?thesis using bm.alloc_free [OF assms(1)] assms(2) by auto
qed

lemma FileSystem_format_ok:
  assumes s: "synch_ok s" and g: "garbage_ok g"
  shows "\<exists>s' fs d fm. FileSystem_new g True s = Inr (s', fs) \<and> fs_inv fs s' d fm \<and>
    dmap (dtable d) = Map.empty \<and> card (marked fm) = 5"
proof -
  let ?d = "Directory_new (g_entries g) NumDirEntries"
  have d: "dir_ok ?d" "dmap (dtable ?d) = Map.empty" "length (dtable ?d) = 10"
    using Directory_new_ok [of NumDirEntries "g_entries g"] g
    by (simp_all add: garbage_ok_def NumDirEntries_def Directory_new_def)
  have N: "DiskDev.NumSectors = 1024" by (simp add: disk_consts)
  obtain f0 where f0: "BitMap_new (g_words g) DiskDev.NumSectors = Inr f0" "bitmap_ok f0" "numBits f0 = 1024" "marked f0 = {}"
    using BitMap_new_ok [of DiskDev.NumSectors "g_words g"] N by auto
  obtain f1 where f1: "Mark f0 0 = Inr f1" "bitmap_ok f1" "numBits f1 = 1024" "marked f1 = {0}"
    using Mark_ok [OF f0(2), of 0] f0(3,4) by auto
  obtain f2 where f2: "Mark f1 1 = Inr f2" "bitmap_ok f2" "numBits f2 = 1024" "marked f2 = {0, 1}"
    using Mark_ok [OF f1(2), of 1] f1(3,4) by auto
  have gl: "length (dataSectors (g_header g)) = NumDirect" using g by (simp add: garbage_ok_def)
  have n1: "1 = divRoundUp FreeMapFileSize SecSize" "2 = divRoundUp DirectoryFileSize SecSize"
    by (simp_all add: FreeMapFileSize_def DirectoryFileSize_def NumDirEntries_def EntrySize_def BitsInByte_def N SecSize_def
      divRoundUp_def sdiv_nonneg_eq smod_nonneg_eq)
  have cm: "{0..<numBits f2} - marked f2 = {2..<1024}"
  proof -
    have "x \<in> {0..<1024} - {0, 1} \<longleftrightarrow> x \<in> {2..<1024}" for x :: int by (simp; linarith)
    then show ?thesis unfolding f2(3,4) by blast
  qed
  obtain js1 f3 where a1: "Allocate (g_header g) f2 FreeMapFileSize =
        Inr (\<lparr>numBytes = FreeMapFileSize, numSectors = 1, dataSectors = blit (dataSectors (g_header g)) 0 js1\<rparr>, f3, True)"
      "length js1 = nat 1" "distinct js1" "set js1 \<subseteq> {0..<numBits f2} - marked f2"
      "bitmap_ok f3" "numBits f3 = numBits f2" "marked f3 = marked f2 \<union> set js1"
    using Allocate_ok [OF f2(2) gl n1(1)] unfolding cm by (simp add: NumDirect_def) blast
  have fin: "finite (set js1)" "card (set js1) = 1" using a1(2,3) distinct_card [of js1] by simp_all
  have "{0..<numBits f3} - marked f3 = ({0..<numBits f2} - marked f2) - set js1" unfolding a1(6,7) by blast
  then have "int (card ({0..<numBits f3} - marked f3)) = 1021"
    using card_Diff_subset [OF fin(1) a1(4)] fin(2) unfolding cm by simp
  then obtain js2 f4 where a2: "Allocate (g_header g) f3 DirectoryFileSize =
        Inr (\<lparr>numBytes = DirectoryFileSize, numSectors = 2, dataSectors = blit (dataSectors (g_header g)) 0 js2\<rparr>, f4, True)"
      "length js2 = nat 2" "distinct js2" "set js2 \<subseteq> {0..<numBits f3} - marked f3"
      "bitmap_ok f4" "numBits f4 = numBits f3" "marked f4 = marked f3 \<union> set js2"
    using Allocate_ok [OF a1(5) gl n1(2)] by (simp add: NumDirect_def) blast
  define h1 h2 where "h1 = \<lparr>numBytes = FreeMapFileSize, numSectors = 1, dataSectors = blit (dataSectors (g_header g)) 0 js1\<rparr>"
    and "h2 = \<lparr>numBytes = DirectoryFileSize, numSectors = 2, dataSectors = blit (dataSectors (g_header g)) 0 js2\<rparr>"
  have sz: "0 \<le> FreeMapFileSize" "FreeMapFileSize \<le> MaxFileSize" "0 \<le> DirectoryFileSize" "DirectoryFileSize \<le> MaxFileSize"
    "FreeMapFileSize = 128" "DirectoryFileSize = 200"
    by (simp_all add: FreeMapFileSize_def DirectoryFileSize_def NumDirEntries_def EntrySize_def BitsInByte_def N
      MaxFileSize_def NumDirect_def SecSize_def)
  have jr: "set js1 \<subseteq> {0..<1024}" "set js2 \<subseteq> {0..<1024}" using a1(4,6) a2(4) f2(3) by auto
  note hh1 = header_ok_Allocate [OF g a1(2,3) jr(1) n1(1) sz(1,2), folded h1_def]
    and hh2 = header_ok_Allocate [OF g a2(2,3) jr(2) n1(2) sz(3,4), folded h2_def]
  obtain s1 where s1: "WriteSector s 0 (header_bytes h1) = Inr s1" "synch_ok s1" "sector_of s1 0 = header_bytes h1"
    using sd.wr_ok [OF s, of 0 "header_bytes h1"] hh1(1) N by (auto simp: header_ok_def length_header_bytes)
  obtain s2 where s2: "WriteSector s1 1 (header_bytes h2) = Inr s2" "synch_ok s2" "sector_of s2 1 = header_bytes h2"
      "sector_of s2 0 = sector_of s1 0"
    using sd.wr_ok [OF s1(2), of 1 "header_bytes h2"] hh2(1) N by (auto simp: header_ok_def length_header_bytes)
  obtain s3 where s3: "ReadSector s2 0 = Inr (s3, header_bytes h1)" "synch_ok s3" "same_sectors s2 s3"
    using sd.rd_ok [OF s2(2), of 0] N s2(4) s1(3) by (auto simp: same_sectors_def)
  have s31: "sector_of s3 1 = header_bytes h2" "sector_of s3 0 = header_bytes h1"
    using s3(3) s2(3,4) s1(3) N by (simp_all add: same_sectors_def)
  obtain s4 where s4: "ReadSector s3 1 = Inr (s4, header_bytes h2)" "synch_ok s4" "same_sectors s3 s4"
    using sd.rd_ok [OF s3(2), of 1] N s31(1) by (auto simp: same_sectors_def)
  have s4h: "fhdr s4 0 = h1" "fhdr s4 1 = h2"
    using s4(3) s31 hh1(1) hh2(1) N by (simp_all add: same_sectors_def fhdr_def)
  define fs where "fs = \<lparr>freeMapFile = \<lparr>hdr = h1, seekPosition = 0\<rparr>, directoryFile = \<lparr>hdr = h2, seekPosition = 0\<rparr>\<rparr>"
  have js: "set js1 \<inter> {0, 1} = {}" "set js2 \<inter> ({0, 1} \<union> set js1) = {}"
    using a1(4) a2(4) a1(7) f2(4) by auto
  have fsf: "fs_files fs"
    using hh1(2,3) hh2(2,3) js sz by (auto simp: fs_files_def fs_def map_file_def dir_file_def h1_def h2_def)
  have f4b: "bitmap_ok f4" "numBits f4 = 1024" using a2(5,6) a1(6) f2(3) by simp_all
  obtain s5 where s5: "map_WriteBack (g_buffer g) f4 (freeMapFile fs) s4 = Inr s5" "synch_ok s5"
      "contents s5 (hdr (freeMapFile fs)) = bitmap_bytes f4"
      "\<forall>x. 0 \<le> x \<and> x < DiskDev.NumSectors \<and> x \<notin> set (blocks (hdr (freeMapFile fs))) \<longrightarrow>
         sector_of s5 x = sector_of s4 x"
    using write_map [OF fsf s4(2) f4b] by blast
  obtain s6 where s6: "dir_WriteBack (g_buffer g) ?d (directoryFile fs) s5 = Inr s6" "synch_ok s6"
      "contents s6 (hdr (directoryFile fs)) = table_bytes (dtable ?d)"
      "contents s6 (hdr (freeMapFile fs)) = contents s5 (hdr (freeMapFile fs))"
      "\<forall>x. 0 \<le> x \<and> x < DiskDev.NumSectors \<and> x \<notin> set (blocks (hdr (directoryFile fs))) \<longrightarrow>
         sector_of s6 x = sector_of s5 x"
    using write_dir [OF fsf s5(2) d(1,3)] by blast
  have ff: "freeMapFile fs = \<lparr>hdr = h1, seekPosition = 0\<rparr>" "directoryFile fs = \<lparr>hdr = h2, seekPosition = 0\<rparr>"
    by (simp_all add: fs_def)
  have run: "FileSystem_new g True s = Inr (s6, fs)"
    by (simp add: FileSystem_new_def f0(1) FreeMapSector_def DirectorySector_def f1(1) f2(1) a1(1) a2(1)
      hdr_WriteBack_def OpenFile_def hdr_FetchFrom_def s1(1) s2(1) s3(1) s4(1) s5(1) [unfolded ff] s6(1) [unfolded ff] hh1(1) hh2(1)
      flip: h1_def h2_def fs_def)
  have hf: "fhdr s4 0 = hdr (freeMapFile fs)" "fhdr s4 1 = hdr (directoryFile fs)" using s4h by (simp_all add: fs_def)
  have c: "contents s6 (hdr (freeMapFile fs)) = bitmap_bytes f4" using s6(4) s5(3) by simp
  have files: "files_ok fs s4 (dmap (dtable ?d))" unfolding d(2) by (simp add: files_ok_def)
  have m4: "marked f4 = {0, 1} \<union> set js1 \<union> set js2" using a2(7) a1(7) f2(4) by simp
  have marks: "marked f4 = system_sectors fs \<union> (\<Union>sec \<in> ran (dmap (dtable ?d)). owned s4 sec)"
    unfolding d(2) m4 using hh1(3) hh2(3) by (simp add: system_sectors_def fs_def)
  have same: "\<forall>x. 0 \<le> x \<and> x < DiskDev.NumSectors \<and> x \<notin> set (blocks (hdr (freeMapFile fs))) \<and>
      x \<notin> set (blocks (hdr (directoryFile fs))) \<longrightarrow> sector_of s6 x = sector_of s4 x"
    using s6(5) s5(4) by simp
  have "fs_inv fs s6 ?d f4"
    by (rule fs_inv_intro(1) [OF s6(2) fsf hf d(1,3) f4b c s6(3) files marks same])
  moreover have "card (marked f4) = 5"
  proof -
    have "card (set js2) = 2" using a2(2,3) distinct_card [of js2] by simp
    moreover have "card ({0, 1} \<union> set js1) = 3" using js(1) fin by (subst card_Un_disjoint) auto
    ultimately show ?thesis unfolding m4 using js(2) by (subst card_Un_disjoint) auto
  qed
  ultimately show ?thesis using run d(2) by blast
qed

section \<open>Sessions\<close>

datatype file_op = OpCreate "8 word list" int | OpOpen "8 word list" | OpRemove "8 word list"

datatype file_out = Status bool | Opened "int option"

definition fs_step :: "file_system \<Rightarrow> synch_disk \<Rightarrow> garbage \<times> file_op \<Rightarrow> (synch_disk \<times> file_out) res" where
  "fs_step fs s gop = (case gop of (g, op) \<Rightarrow>
     (case op of
        OpCreate nm n \<Rightarrow> bindR (Create g fs s nm n) (\<lambda>(s', b). Inr (s', Status b))
      | OpOpen nm \<Rightarrow> bindR (Open g fs s nm) (\<lambda>(s', f). Inr (s', Opened (map_option (\<lambda>f. Length f) f)))
      | OpRemove nm \<Rightarrow> bindR (fs_Remove g fs s nm) (\<lambda>(s', b). Inr (s', Status b))))"

text \<open>The specification: the length of each file and the number of free sectors.\<close>

record file_spec =
  lengths :: "8 word list \<Rightarrow> int option"
  free_sectors_left :: int

definition sectors_for :: "int \<Rightarrow> int" where
  "sectors_for n = 1 + (n + 127) div 128"

definition spec_step :: "file_spec \<Rightarrow> garbage \<times> file_op \<Rightarrow> file_spec \<times> file_out" where
  "spec_step a gop = (case snd gop of
      OpCreate nm n \<Rightarrow>
        if lengths a (name_key nm) = None \<and> card (dom (lengths a)) < 10 \<and> sectors_for n \<le> free_sectors_left a
        then (a\<lparr>lengths := (lengths a)(name_key nm \<mapsto> n),
                free_sectors_left := free_sectors_left a - sectors_for n\<rparr>, Status True)
        else (a, Status False)
    | OpOpen nm \<Rightarrow> (a, Opened (lengths a (name_key nm)))
    | OpRemove nm \<Rightarrow>
        (case lengths a (name_key nm) of
           None \<Rightarrow> (a, Status False)
         | Some n \<Rightarrow> (a\<lparr>lengths := (lengths a)(name_key nm := None),
                        free_sectors_left := free_sectors_left a + sectors_for n\<rparr>, Status True)))"

definition fs_lengths :: "synch_disk \<Rightarrow> directory \<Rightarrow> 8 word list \<Rightarrow> int option" where
  "fs_lengths s d = (\<lambda>k. map_option (\<lambda>sec. numBytes (fhdr s sec)) (dmap (dtable d) k))"

definition fs_implements :: "file_system \<Rightarrow> synch_disk \<Rightarrow> file_spec \<Rightarrow> bool" where
  "fs_implements fs s a \<longleftrightarrow> (\<exists>d fm. fs_inv fs s d fm \<and> lengths a = fs_lengths s d \<and>
     free_sectors_left a = 1024 - int (card (marked fm)) \<and>
     (\<forall>sec \<in> ran (dmap (dtable d)). 0 \<le> numBytes (fhdr s sec) \<and>
        numSectors (fhdr s sec) = divRoundUp (numBytes (fhdr s sec)) SecSize))"

lemma fs_implementsI:
  "fs_inv fs s d fm \<Longrightarrow> lengths a = fs_lengths s d \<Longrightarrow> free_sectors_left a = 1024 - int (card (marked fm)) \<Longrightarrow>
   \<forall>sec \<in> ran (dmap (dtable d)). 0 \<le> numBytes (fhdr s sec) \<and>
     numSectors (fhdr s sec) = divRoundUp (numBytes (fhdr s sec)) SecSize \<Longrightarrow> fs_implements fs s a"
  unfolding fs_implements_def by blast

definition call_ok :: "garbage \<times> file_op \<Rightarrow> bool" where
  "call_ok gop \<longleftrightarrow> garbage_ok (fst gop) \<and>
     (case snd gop of OpCreate nm n \<Rightarrow> 0 \<le> n \<and> n \<le> MaxFileSize | _ \<Rightarrow> True)"

lemma divRoundUp_sectors: "0 \<le> n \<Longrightarrow> 1 + divRoundUp n SecSize = sectors_for n"
proof -
  assume n: "0 \<le> n"
  have "n \<le> divRoundUp n 128 * 128" "divRoundUp n 128 * 128 < n + 128"
    using divRoundUp_bounds [OF n, of 128] by simp_all
  then have "(n + 127) div 128 = divRoundUp n 128" by linarith
  then show ?thesis by (simp add: sectors_for_def SecSize_def)
qed

lemma fs_lengths_simps:
  "fs_lengths s d k = None \<longleftrightarrow> dmap (dtable d) k = None"
  "dom (fs_lengths s d) = dom (dmap (dtable d))"
  by (auto simp: fs_lengths_def dom_def)

lemma card_marked_free: "fs_inv fs s d fm \<Longrightarrow> int (card ({0..<1024} - marked fm)) = 1024 - int (card (marked fm))"
proof -
  assume i: "fs_inv fs s d fm"
  have "finite (marked fm)" using marked_bounds [OF i] finite_subset by blast
  then have "card ({0..<1024::int} - marked fm) = 1024 - card (marked fm)"
    using card_Diff_subset [OF _ marked_bounds [OF i]] by simp
  moreover have "card (marked fm) \<le> 1024" using card_mono [OF _ marked_bounds [OF i]] by simp
  ultimately show ?thesis by simp
qed

lemma fs_implements_same:
  assumes "fs_implements fs s a" "fs_inv fs s' d fm" "same_sectors s s'" "fs_inv fs s d fm"
    and "lengths a = fs_lengths s d" "free_sectors_left a = 1024 - int (card (marked fm))"
    and "\<forall>sec \<in> ran (dmap (dtable d)). 0 \<le> numBytes (fhdr s sec) \<and>
        numSectors (fhdr s sec) = divRoundUp (numBytes (fhdr s sec)) SecSize"
  shows "fs_implements fs s' a"
proof -
  have "files_ok fs s (dmap (dtable d))" using assms(4) by (simp add: fs_inv_def)
  then have h: "fhdr s' sec = fhdr s sec" if "dmap (dtable d) k = Some sec" for k sec
    using that assms(3) unfolding files_ok_def same_sectors_def fhdr_def by metis
  then have "fs_lengths s' d = fs_lengths s d"
    unfolding fs_lengths_def by (intro ext) (auto simp: map_option_case split: option.splits)
  moreover have "\<forall>sec \<in> ran (dmap (dtable d)). fhdr s' sec = fhdr s sec" using h by (auto simp: ran_def)
  ultimately show ?thesis using assms unfolding fs_implements_def by metis
qed

lemma spec_Create:
  assumes r: "fs_implements fs s a" and g: "garbage_ok g" and n: "0 \<le> n" "n \<le> MaxFileSize"
  shows "\<exists>s'. fs_step fs s (g, OpCreate nm n) = Inr (s', snd (spec_step a (g, OpCreate nm n))) \<and>
    fs_implements fs s' (fst (spec_step a (g, OpCreate nm n)))"
proof -
  obtain d fm where i: "fs_inv fs s d fm" "lengths a = fs_lengths s d"
      "free_sectors_left a = 1024 - int (card (marked fm))"
      "\<forall>sec \<in> ran (dmap (dtable d)). 0 \<le> numBytes (fhdr s sec) \<and>
        numSectors (fhdr s sec) = divRoundUp (numBytes (fhdr s sec)) SecSize"
    using r by (auto simp: fs_implements_def)
  let ?m = "dmap (dtable d)" and ?k = "name_key nm"
  let ?c = "?m ?k = None \<and> card (dom ?m) < 10 \<and> divRoundUp n SecSize < int (card ({0..<1024} - marked fm))"
  have c: "?c \<longleftrightarrow> lengths a ?k = None \<and> card (dom (lengths a)) < 10 \<and> sectors_for n \<le> free_sectors_left a"
    unfolding i(2,3) fs_lengths_simps card_marked_free [OF i(1)] using divRoundUp_sectors [OF n(1)] by auto
  note C = Create_ok [OF i(1) g n, of nm]
  show ?thesis
  proof (cases ?c)
    case False
    then obtain s' where s': "Create g fs s nm n = Inr (s', False)" "same_sectors s s'" "fs_inv fs s' d fm"
      using C by meson
    have "spec_step a (g, OpCreate nm n) = (a, Status False)" using False c by (auto simp: spec_step_def)
    moreover have "fs_implements fs s' a" using fs_implements_same [OF r s'(3,2) i] .
    ultimately show ?thesis using s'(1) by (simp add: fs_step_def)
  next
    case True
    then obtain s' d' fm' sec where s': "Create g fs s nm n = Inr (s', True)" "fs_inv fs s' d' fm'"
        "dmap (dtable d') = ?m(?k \<mapsto> sec)" "sec \<notin> ran ?m" "numBytes (fhdr s' sec) = n"
        "numSectors (fhdr s' sec) = divRoundUp n SecSize"
        "card (marked fm') = card (marked fm) + 1 + nat (divRoundUp n SecSize)"
        "\<forall>sc \<in> ran ?m. fhdr s' sc = fhdr s sc \<and> contents s' (fhdr s' sc) = contents s (fhdr s sc)"
      using C by (simp only: if_True) metis
    have st: "spec_step a (g, OpCreate nm n) = (a\<lparr>lengths := (lengths a)(?k \<mapsto> n),
          free_sectors_left := free_sectors_left a - sectors_for n\<rparr>, Status True)"
      using True c by (simp add: spec_step_def)
    have "fs_lengths s' d' = (lengths a)(?k \<mapsto> n)"
      unfolding i(2) fs_lengths_def s'(3)
      using s'(5,8) by (intro ext) (auto simp: map_option_case ranI split: option.splits)
    moreover have "1024 - int (card (marked fm')) = free_sectors_left a - sectors_for n"
      using s'(7) i(3) divRoundUp_sectors [OF n(1)] divRoundUp_bounds(3) [OF n(1), of SecSize]
      by (simp add: SecSize_def)
    moreover have "ran (dmap (dtable d')) = insert sec (ran ?m)" unfolding s'(3) using True by simp
    then have "\<forall>sc \<in> ran (dmap (dtable d')). 0 \<le> numBytes (fhdr s' sc) \<and>
        numSectors (fhdr s' sc) = divRoundUp (numBytes (fhdr s' sc)) SecSize"
      using s'(5,6,8) i(4) n(1) by auto
    ultimately have "fs_implements fs s' (a\<lparr>lengths := (lengths a)(?k \<mapsto> n),
          free_sectors_left := free_sectors_left a - sectors_for n\<rparr>)"
      using s'(2) by (intro fs_implementsI [where d = d' and fm = fm']) simp_all
    then show ?thesis using s'(1) st by (simp add: fs_step_def)
  qed
qed

lemma spec_Open:
  assumes r: "fs_implements fs s a" and g: "garbage_ok g"
  shows "\<exists>s'. fs_step fs s (g, OpOpen nm) = Inr (s', snd (spec_step a (g, OpOpen nm))) \<and>
    fs_implements fs s' (fst (spec_step a (g, OpOpen nm)))"
proof -
  obtain d fm where i: "fs_inv fs s d fm" "lengths a = fs_lengths s d"
      "free_sectors_left a = 1024 - int (card (marked fm))"
      "\<forall>sec \<in> ran (dmap (dtable d)). 0 \<le> numBytes (fhdr s sec) \<and>
        numSectors (fhdr s sec) = divRoundUp (numBytes (fhdr s sec)) SecSize"
    using r by (auto simp: fs_implements_def)
  obtain s' where s': "Open g fs s nm =
        Inr (s', map_option (\<lambda>sec. \<lparr>hdr = fhdr s sec, seekPosition = 0\<rparr>) (dmap (dtable d) (name_key nm)))"
      "fs_inv fs s' d fm" "same_sectors s s'"
    using Open_ok [OF i(1) g, of nm] by blast
  have "map_option (\<lambda>f. Length f) (map_option (\<lambda>sec. \<lparr>hdr = fhdr s sec, seekPosition = 0\<rparr>)
      (dmap (dtable d) (name_key nm))) = lengths a (name_key nm)"
    unfolding i(2) by (simp add: fs_lengths_def option.map_comp o_def Length_def FileLength_def)
  then show ?thesis using s'(1) fs_implements_same [OF r s'(2,3) i] by (simp add: fs_step_def spec_step_def)
qed

lemma card_owned:
  "file_ok (fhdr s sec) \<Longrightarrow> sec \<notin> set (blocks (fhdr s sec)) \<Longrightarrow> int (card (owned s sec)) = 1 + numSectors (fhdr s sec)"
  by (simp add: owned_def file_ok_def distinct_card blocks_def min_absorb2 nat_le_iff)

lemma spec_Remove:
  assumes r: "fs_implements fs s a" and g: "garbage_ok g"
  shows "\<exists>s'. fs_step fs s (g, OpRemove nm) = Inr (s', snd (spec_step a (g, OpRemove nm))) \<and>
    fs_implements fs s' (fst (spec_step a (g, OpRemove nm)))"
proof -
  obtain d fm where i: "fs_inv fs s d fm" "lengths a = fs_lengths s d"
      "free_sectors_left a = 1024 - int (card (marked fm))"
      "\<forall>sec \<in> ran (dmap (dtable d)). 0 \<le> numBytes (fhdr s sec) \<and>
        numSectors (fhdr s sec) = divRoundUp (numBytes (fhdr s sec)) SecSize"
    using r by (auto simp: fs_implements_def)
  let ?m = "dmap (dtable d)" and ?k = "name_key nm"
  note C = fs_Remove_ok [OF i(1) g, of nm]
  show ?thesis
  proof (cases "?m ?k")
    case None
    then obtain s' where s': "fs_Remove g fs s nm = Inr (s', False)" "fs_inv fs s' d fm" "same_sectors s s'"
      using C by auto
    have "lengths a ?k = None" unfolding i(2) fs_lengths_simps using None .
    then show ?thesis using s'(1) fs_implements_same [OF r s'(2,3) i] by (simp add: fs_step_def spec_step_def)
  next
    case (Some sec)
    obtain s' d' fm' where s': "fs_Remove g fs s nm = Inr (s', True)" "fs_inv fs s' d' fm'"
        "dmap (dtable d') = ?m(?k := None)" "marked fm' = marked fm - owned s sec" "owned s sec \<subseteq> marked fm"
        "\<forall>sc \<in> ran (?m(?k := None)). fhdr s' sc = fhdr s sc \<and> contents s' (fhdr s' sc) = contents s (fhdr s sc)"
      using C unfolding Some option.case by metis
    let ?n = "numBytes (fhdr s sec)"
    have l: "lengths a ?k = Some ?n" unfolding i(2) by (simp add: fs_lengths_def Some)
    have fo: "files_ok fs s ?m" using i(1) by (simp add: fs_inv_def)
    then have f: "file_ok (fhdr s sec)" "sec \<notin> set (blocks (fhdr s sec))"
      using Some unfolding files_ok_def by blast+
    have sn: "0 \<le> ?n" "numSectors (fhdr s sec) = divRoundUp ?n SecSize" using i(4) Some by (auto intro: ranI)
    have own: "int (card (owned s sec)) = sectors_for ?n"
      using card_owned [OF f] sn divRoundUp_sectors [OF sn(1)] by simp
    have fin: "finite (marked fm)" using marked_bounds [OF i(1)] finite_subset by blast
    then have "int (card (marked fm')) = int (card (marked fm)) - sectors_for ?n"
      unfolding s'(4) own [symmetric]
      using card_Diff_subset [OF finite_subset [OF s'(5) fin] s'(5)] card_mono [OF fin s'(5)] by simp
    then have free: "free_sectors_left a + sectors_for ?n = 1024 - int (card (marked fm'))" using i(3) by simp
    have "fs_lengths s' d' = (lengths a)(?k := None)"
    proof
      fix k
      show "fs_lengths s' d' k = ((lengths a)(?k := None)) k"
      proof (cases "k = ?k")
        case False
        moreover have "fhdr s' sc = fhdr s sc" if "?m k = Some sc" for sc
          using s'(6) that False by (metis fun_upd_other ranI)
        ultimately show ?thesis unfolding i(2) fs_lengths_def s'(3) by (cases "?m k") simp_all
      qed (simp add: fs_lengths_def s'(3))
    qed
    moreover have "\<forall>sc \<in> ran (dmap (dtable d')). 0 \<le> numBytes (fhdr s' sc) \<and>
        numSectors (fhdr s' sc) = divRoundUp (numBytes (fhdr s' sc)) SecSize"
      unfolding s'(3) using s'(6) i(4) files_ok_delete(2) [OF fo Some] by (metis DiffD1)
    ultimately have "fs_implements fs s' (a\<lparr>lengths := (lengths a)(?k := None),
        free_sectors_left := free_sectors_left a + sectors_for ?n\<rparr>)"
      using s'(2) free by (intro fs_implementsI [where d = d' and fm = fm']) simp_all
    then show ?thesis using s'(1) l by (simp add: fs_step_def spec_step_def)
  qed
qed

interpretation fss: simulation "fs_step fs" spec_step "fs_implements fs" call_ok for fs
proof unfold_locales
  fix s a gop assume r: "fs_implements fs s a" and c: "call_ok gop"
  obtain g op where gop: "gop = (g, op)" by fastforce
  have g: "garbage_ok g" using c gop by (simp add: call_ok_def)
  show "\<exists>s'. fs_step fs s gop = Inr (s', snd (spec_step a gop)) \<and> fs_implements fs s' (fst (spec_step a gop))"
    unfolding gop
  proof (cases op)
    case (OpCreate nm n)
    then have "0 \<le> n" "n \<le> MaxFileSize" using c gop by (simp_all add: call_ok_def)
    then show "\<exists>s'. fs_step fs s (g, op) = Inr (s', snd (spec_step a (g, op))) \<and>
        fs_implements fs s' (fst (spec_step a (g, op)))"
      unfolding OpCreate by (rule spec_Create [OF r g])
  qed (use spec_Open [OF r g] spec_Remove [OF r g] in simp_all)
qed

section \<open>Writing to an open file\<close>

lemma dmap_ran: "dmap t k = Some sec \<Longrightarrow> sec \<in> ran (dmap t)"
  by (rule ranI)

lemma WriteAt_keeps_fs:
  assumes inv: "fs_inv fs s d fm" and k: "dmap (dtable d) k = Some sec"
    and p: "0 \<le> p" and l: "nat n \<le> length src"
  defines "h \<equiv> fhdr s sec"
  shows "\<exists>s' cnt. WriteAt junk \<lparr>hdr = h, seekPosition = q\<rparr> s src n p = Inr (s', cnt) \<and> fs_inv fs s' d fm \<and>
    cnt = (if n \<le> 0 \<or> numBytes h \<le> p then 0 else min n (numBytes h - p)) \<and>
    fhdr s' sec = h \<and>
    contents s' h = (if cnt = 0 then contents s h else blit (contents s h) (nat p) (take (nat cnt) src)) \<and>
    (\<forall>k' sec'. dmap (dtable d) k' = Some sec' \<and> k' \<noteq> k \<longrightarrow>
       fhdr s' sec' = fhdr s sec' \<and> contents s' (fhdr s' sec') = contents s (fhdr s sec'))"
proof -
  have st: "synch_ok s" "fs_files fs" "fhdr s 0 = hdr (freeMapFile fs)" "fhdr s 1 = hdr (directoryFile fs)"
      "files_ok fs s (dmap (dtable d))" "dir_ok d" "length (dtable d) = 10" "bitmap_ok fm" "numBits fm = 1024"
      "contents s (hdr (freeMapFile fs)) = bitmap_bytes fm"
      "contents s (hdr (directoryFile fs)) = table_bytes (dtable d)"
      "marked fm = system_sectors fs \<union> (\<Union>sec \<in> ran (dmap (dtable d)). owned s sec)"
    using inv by (simp_all add: fs_inv_def)
  have h: "file_ok h" "sec \<notin> set (blocks h)" "0 \<le> sec" "sec < DiskDev.NumSectors" "owned s sec \<inter> system_sectors fs = {}"
    using st(5) k unfolding files_ok_def h_def by blast+
  then have bs: "set (blocks h) \<inter> system_sectors fs = {}" by (auto simp: owned_def h_def)
  obtain s' cnt where w: "WriteAt junk \<lparr>hdr = h, seekPosition = q\<rparr> s src n p = Inr (s', cnt)" "synch_ok s'"
      "cnt = (if n \<le> 0 \<or> numBytes h \<le> p then 0 else min n (numBytes h - p))"
      "contents s' h = (if cnt = 0 then contents s h else blit (contents s h) (nat p) (take (nat cnt) src))"
      "\<forall>x. 0 \<le> x \<and> x < DiskDev.NumSectors \<and> x \<notin> set (blocks h) \<longrightarrow> sector_of s' x = sector_of s x"
    using WriteAt_contents_ok [of "\<lparr>hdr = h, seekPosition = q\<rparr>", unfolded open_file.simps, OF h(1) st(1) p l,
      of junk] by blast
  have other: "\<forall>x \<in> owned s sec'. sector_of s' x = sector_of s x"
    if "dmap (dtable d) k' = Some sec'" "k' \<noteq> k" for k' sec'
  proof
    fix x assume x: "x \<in> owned s sec'"
    have "owned s sec' \<inter> owned s sec = {}" using st(5) k that unfolding files_ok_def by blast
    then have "x \<notin> set (blocks h)" using x by (auto simp: owned_def h_def)
    then show "sector_of s' x = sector_of s x"
      using w(5) files_range [OF st(5) dmap_ran [OF that(1)] x] by blast
  qed
  have hs: "sector_of s' sec = sector_of s sec" using w(5) h(2-4) by blast
  have hd: "fhdr s' sc = fhdr s sc \<and> owned s' sc = owned s sc" if r: "sc \<in> ran (dmap (dtable d))" for sc
  proof -
    obtain k' where k': "dmap (dtable d) k' = Some sc" using r by (auto simp: ran_def)
    have "sector_of s' sc = sector_of s sc"
    proof (cases "k' = k")
      case True then show ?thesis using hs k k' by simp
    next
      case False then show ?thesis using other [OF k' False] by (simp add: owned_def)
    qed
    then show ?thesis by (simp add: fhdr_def owned_def)
  qed
  have files: "files_ok fs s' (dmap (dtable d))"
    using st(5) hd unfolding files_ok_def by (metis ranI)
  have u: "(\<Union>sc \<in> ran (dmap (dtable d)). owned s' sc) = (\<Union>sc \<in> ran (dmap (dtable d)). owned s sc)" using hd by simp
  have sys: "sector_of s' x = sector_of s x" if "x \<in> system_sectors fs" "0 \<le> x" "x < DiskDev.NumSectors" for x
    using w(5) bs that by blast
  have "fhdr s' 0 = fhdr s 0" "fhdr s' 1 = fhdr s 1"
    using sys [of 0] sys [of 1] by (simp_all add: fhdr_def system_sectors_def disk_consts)
  moreover have "contents s' (hdr (freeMapFile fs)) = contents s (hdr (freeMapFile fs))"
      "contents s' (hdr (directoryFile fs)) = contents s (hdr (directoryFile fs))"
  proof -
    have ok: "file_ok (hdr (freeMapFile fs))" "file_ok (hdr (directoryFile fs))"
      using st(2) by (simp_all add: fs_files_def map_file_def dir_file_def)
    show "contents s' (hdr (freeMapFile fs)) = contents s (hdr (freeMapFile fs))"
      by (rule contents_same [OF ok(1)]) (auto simp: system_sectors_def dest: blocks_range [OF ok(1)] intro!: sys)
    show "contents s' (hdr (directoryFile fs)) = contents s (hdr (directoryFile fs))"
      by (rule contents_same [OF ok(2)]) (auto simp: system_sectors_def dest: blocks_range [OF ok(2)] intro!: sys)
  qed
  ultimately have "fs_inv fs s' d fm" using st w(2) files u by (simp add: fs_inv_def)
  moreover have "fhdr s' sec' = fhdr s sec' \<and> contents s' (fhdr s' sec') = contents s (fhdr s sec')"
    if o: "dmap (dtable d) k' = Some sec'" "k' \<noteq> k" for k' sec'
  proof -
    have "file_ok (fhdr s sec')" using st(5) o unfolding files_ok_def by blast
    then have "contents s' (fhdr s sec') = contents s (fhdr s sec')"
      using other [OF o] by (intro contents_same) (auto simp: owned_def)
    then show ?thesis using hd [OF dmap_ran [OF o(1)]] by simp
  qed
  moreover have "fhdr s' sec = h" using hd [OF dmap_ran [OF k]] by (simp add: h_def)
  ultimately show ?thesis using w(1,3,4) by blast
qed

section \<open>Properties\<close>

text \<open>
  C1: after formatting, every session of creates of sizes from 0 to \<open>MaxFileSize\<close>, opens and removes returns exactly what the
  specification says (a larger size is not refused and overruns the header: \<open>Allocate_Deallocate\<close> in theory \<open>FileHdr\<close>), whatever the memory of each call held before: a create succeeds when the name is new,
  one of the ten entries is free and the sectors are enough, an open finds the length the file was
  created with, a remove gives all the sectors of the file back.
\<close>

theorem sessions_refine:
  assumes "synch_ok s" and "garbage_ok g" and "\<forall>op \<in> set ops. call_ok op"
  shows "\<exists>s1 fs s2. FileSystem_new g True s = Inr (s1, fs) \<and>
    run_ops (fs_step fs) s1 ops = Inr (s2, snd (spec_ops spec_step \<lparr>lengths = Map.empty, free_sectors_left = 1019\<rparr> ops)) \<and>
    fs_implements fs s2 (fst (spec_ops spec_step \<lparr>lengths = Map.empty, free_sectors_left = 1019\<rparr> ops))"
proof -
  obtain s1 fs d fm where f: "FileSystem_new g True s = Inr (s1, fs)" "fs_inv fs s1 d fm"
      "dmap (dtable d) = Map.empty" "card (marked fm) = 5"
    using FileSystem_format_ok [OF assms(1,2)] by blast
  have "fs_implements fs s1 \<lparr>lengths = Map.empty, free_sectors_left = 1019\<rparr>"
    using f by (intro fs_implementsI [OF f(2)]) (simp_all add: fs_lengths_def)
  then show ?thesis using fss.simulates_run [OF _ assms(3)] f(1) by blast
qed

definition zero_garbage :: garbage where
  "zero_garbage = \<lparr>g_buffer = (\<lambda>_. 0), g_words = (\<lambda>_. 0), g_entries = (\<lambda>_. blank_entry),
     g_header = \<lparr>numBytes = 0, numSectors = 0, dataSectors = replicate NumDirect 0\<rparr>\<rparr>"

lemma zero_garbage_ok: "garbage_ok zero_garbage"
  by (simp add: garbage_ok_def zero_garbage_def blank_entry_def int32_def)

lemma new_disk_ok: "\<exists>s. SynchDisk_new None Statistics_new = Inr s \<and> synch_ok s"
  by (auto simp: SynchDisk_new_def Disk_new_def disk_consts DiskSize_def synch_ok_def disk_ok_def Statistics_new_def)

theorem sessions_refine_witness:
  "\<exists>s. SynchDisk_new None Statistics_new = Inr s \<and> synch_ok s \<and> garbage_ok zero_garbage \<and>
    (let ops = map (Pair zero_garbage) [OpCreate [97] 300, OpCreate [97] 5, OpOpen [97], OpRemove [97], OpOpen [97]] in
     (\<forall>op \<in> set ops. call_ok op) \<and>
     (\<exists>s1 fs s2. FileSystem_new zero_garbage True s = Inr (s1, fs) \<and> run_ops (fs_step fs) s1 ops =
       Inr (s2, [Status True, Status False, Opened (Some 300), Status True, Opened None])))"
proof -
  let ?ops = "map (Pair zero_garbage) [OpCreate [97] 300, OpCreate [97] 5, OpOpen [97], OpRemove [97], OpOpen [97]]"
  obtain s where s: "SynchDisk_new None Statistics_new = Inr s" "synch_ok s" using new_disk_ok by blast
  have ops: "\<forall>op \<in> set ?ops. call_ok op"
    by (simp add: call_ok_def zero_garbage_ok MaxFileSize_def NumDirect_def SecSize_def)
  have r: "snd (spec_ops spec_step \<lparr>lengths = Map.empty, free_sectors_left = 1019\<rparr> ?ops) =
      [Status True, Status False, Opened (Some 300), Status True, Opened None]"
    by (simp add: spec_step_def sectors_for_def)
  show ?thesis
    using sessions_refine [OF s(2) zero_garbage_ok ops, unfolded r] s zero_garbage_ok ops unfolding Let_def by blast
qed

text \<open>
  C13: a file of a file system in order is its own: opening it and writing at a position stores the bytes that
  fit before its end at that position of its contents, changes no byte of any other file, no length,
  and neither the directory nor the bitmap, so the file system stays in order.
\<close>

theorem write_isolated:
  assumes "fs_inv fs s d fm" and "garbage_ok g" and "dmap (dtable d) (name_key nm) = Some sec"
    and "0 \<le> p" and "nat n \<le> length src"
  shows "\<exists>s1 f s2 cnt. Open g fs s nm = Inr (s1, Some f) \<and> WriteAt junk f s1 src n p = Inr (s2, cnt) \<and>
    cnt = (if n \<le> 0 \<or> Length f \<le> p then 0 else min n (Length f - p)) \<and>
    fs_inv fs s2 d fm \<and> fhdr s2 sec = hdr f \<and>
    contents s2 (hdr f) = (if cnt = 0 then contents s (hdr f) else blit (contents s (hdr f)) (nat p) (take (nat cnt) src)) \<and>
    (\<forall>k' sec'. dmap (dtable d) k' = Some sec' \<and> k' \<noteq> name_key nm \<longrightarrow>
       contents s2 (fhdr s2 sec') = contents s (fhdr s sec'))"
proof -
  obtain s1 where o: "Open g fs s nm = Inr (s1, Some \<lparr>hdr = fhdr s sec, seekPosition = 0\<rparr>)" "fs_inv fs s1 d fm"
      "same_sectors s s1"
    using Open_ok [OF assms(1,2), of nm] assms(3) by auto
  have fo: "files_ok fs s (dmap (dtable d))" using assms(1) by (simp add: fs_inv_def)
  have old: "fhdr s1 sc = fhdr s sc \<and> contents s1 (fhdr s sc) = contents s (fhdr s sc)"
    if "dmap (dtable d) k' = Some sc" for k' sc
  proof -
    have f: "file_ok (fhdr s sc)" "0 \<le> sc" "sc < DiskDev.NumSectors"
      using fo that unfolding files_ok_def by blast+
    then show ?thesis using o(3) contents_same_sectors [OF f(1) o(3)] by (simp add: same_sectors_def fhdr_def)
  qed
  obtain s2 cnt where w: "WriteAt junk \<lparr>hdr = fhdr s1 sec, seekPosition = 0\<rparr> s1 src n p = Inr (s2, cnt)"
      "fs_inv fs s2 d fm" "cnt = (if n \<le> 0 \<or> numBytes (fhdr s1 sec) \<le> p then 0 else min n (numBytes (fhdr s1 sec) - p))"
      "fhdr s2 sec = fhdr s1 sec"
      "contents s2 (fhdr s1 sec) = (if cnt = 0 then contents s1 (fhdr s1 sec)
        else blit (contents s1 (fhdr s1 sec)) (nat p) (take (nat cnt) src))"
      "\<forall>k' sec'. dmap (dtable d) k' = Some sec' \<and> k' \<noteq> name_key nm \<longrightarrow>
         fhdr s2 sec' = fhdr s1 sec' \<and> contents s2 (fhdr s2 sec') = contents s1 (fhdr s1 sec')"
    using WriteAt_keeps_fs [OF o(2) assms(3-5), of junk 0] by blast
  have "\<forall>k' sec'. dmap (dtable d) k' = Some sec' \<and> k' \<noteq> name_key nm \<longrightarrow>
       contents s2 (fhdr s2 sec') = contents s (fhdr s sec')"
    using w(6) old by metis
  then show ?thesis using o(1) w(1-5) old [OF assms(3)] by (auto simp: Length_def FileLength_def)
qed

text \<open>A file system with one file, for the witnesses.\<close>

lemma one_file:
  "\<exists>s fs d fm sec. fs_inv fs s d fm \<and> dmap (dtable d) = [name_key [97] \<mapsto> sec] \<and> numBytes (fhdr s sec) = 300 \<and>
    card (marked fm) = 9"
proof -
  obtain s0 where s0: "synch_ok s0" using new_disk_ok by blast
  obtain s1 fs d1 fm1 where f: "fs_inv fs s1 d1 fm1" "dmap (dtable d1) = Map.empty" "card (marked fm1) = 5"
    using FileSystem_format_ok [OF s0 zero_garbage_ok] by blast
  have n: "divRoundUp 300 SecSize = 3" using divRoundUp_sectors [of 300] by (simp add: sectors_for_def)
  have c: "dmap (dtable d1) (name_key [97]) = None \<and> card (dom (dmap (dtable d1))) < 10 \<and>
      divRoundUp 300 SecSize < int (card ({0..<1024} - marked fm1))"
    unfolding f(2) card_marked_free [OF f(1)] n using f(3) by simp
  have "(0::int) \<le> 300" "300 \<le> MaxFileSize" by (simp_all add: MaxFileSize_def NumDirect_def SecSize_def)
  from Create_ok [OF f(1) zero_garbage_ok this, of "[97]", unfolded if_P [OF c]]
  show ?thesis using f(2,3) n by (simp; metis)
qed

theorem write_isolated_witness:
  "\<exists>s fs d fm sec. fs_inv fs s d fm \<and> garbage_ok zero_garbage \<and> dmap (dtable d) (name_key [97]) = Some sec \<and>
    (0::int) \<le> 298 \<and> nat 3 \<le> length [1, 2, 3 :: 8 word] \<and>
    (\<exists>s1 f s2. Open zero_garbage fs s [97] = Inr (s1, Some f) \<and> WriteAt (\<lambda>_. 0) f s1 [1, 2, 3] 3 298 = Inr (s2, 2))"
proof -
  obtain s fs d fm sec where f: "fs_inv fs s d fm" "dmap (dtable d) = [name_key [97] \<mapsto> sec]" "numBytes (fhdr s sec) = 300"
    using one_file by blast
  have h: "dmap (dtable d) (name_key [97]) = Some sec" "(0::int) \<le> 298" "nat 3 \<le> length [1, 2, 3 :: 8 word]"
    by (simp_all add: f(2))
  obtain s1 o1 s2 cnt where r: "Open zero_garbage fs s [97] = Inr (s1, Some o1)"
      "WriteAt (\<lambda>_. 0) o1 s1 [1, 2, 3] 3 298 = Inr (s2, cnt)"
      "cnt = (if (3::int) \<le> 0 \<or> Length o1 \<le> 298 then 0 else min 3 (Length o1 - 298))"
    using write_isolated [OF f(1) zero_garbage_ok h, of "\<lambda>_. 0"] by blast
  obtain s3 where "Open zero_garbage fs s [97] = Inr (s3, Some \<lparr>hdr = fhdr s sec, seekPosition = 0\<rparr>)"
    using Open_ok [OF f(1) zero_garbage_ok, of "[97]"] h(1) by auto
  then have "Length o1 = 300" using r(1) f(3) by (auto simp: Length_def FileLength_def)
  then have "cnt = 2" using r(3) by simp
  then show ?thesis using f(1) zero_garbage_ok h r(1,2) by blast
qed

text \<open>
  \<open>Create\<close> does not check the size it is asked for: with a new name, a free directory entry and
  enough free sectors, a file of more than \<open>MaxFileSize\<close> bytes (30 sectors) makes \<open>Allocate\<close> write past
  the end of the sector table of the header.
\<close>

theorem Create_oversized:
  assumes "fs_inv fs s d fm" and "garbage_ok g" and "MaxFileSize < size_wanted"
    and "dmap (dtable d) (name_key nm) = None" and "card (dom (dmap (dtable d))) < 10"
    and "sectors_for size_wanted \<le> int (card ({0..<1024} - marked fm))"
  shows "Create g fs s nm size_wanted = Inl BadAccess"
proof -
  have n0: "0 \<le> size_wanted" using assms(3) by (simp add: MaxFileSize_def NumDirect_def SecSize_def)
  obtain s1 where s1: "dir_FetchFrom (Directory_new (g_entries g) NumDirEntries) (directoryFile fs) s = Inr (s1, d)"
      "fs_inv fs s1 d fm"
    using fetch_dir [OF assms(1,2)] by blast
  obtain b s2 where s2: "BitMap_new (g_words g) DiskDev.NumSectors = Inr b"
      "map_FetchFrom b (freeMapFile fs) s1 = Inr (s2, fm)"
    using fetch_map [OF s1(2)] by blast
  have ok: "dir_ok d" "length (dtable d) = 10" "bitmap_ok fm" "numBits fm = 1024"
    using assms(1) by (simp_all add: fs_inv_def)
  have f: "dir_Find d nm = -1" using assms(4) dir.find_minus_1 [OF ok(1)] by simp
  have n: "int NumDirect < divRoundUp size_wanted SecSize" "divRoundUp size_wanted SecSize + 1 \<le> int (card ({0..<1024} - marked fm))"
    using divRoundUp_bounds(1) [OF n0, of SecSize] assms(3,6) divRoundUp_sectors [OF n0]
    by (simp_all add: MaxFileSize_def NumDirect_def SecSize_def)
  have "card (marked fm) < 1024" using n card_marked_free [OF assms(1)] by simp
  then obtain fm1 sec where fd: "Find fm = Inr (fm1, sec)" "0 \<le> sec" "sec < 1024" "sec \<notin> marked fm"
      "bitmap_ok fm1" "numBits fm1 = 1024" "marked fm1 = insert sec (marked fm)"
    using Find_some [OF ok(3,4)] by blast
  have "sector_number sec" using fd(2,3) by (simp add: sector_number_def int32_def)
  then obtain d1 where d1: "dir_Add d nm sec = (d1, True)"
    using dir.add_ok [OF ok(1), of sec nm] assms(4,5) ok(2) by auto
  have "sec \<in> {0..<1024} - marked fm" using fd(2-4) by simp
  from card_Suc_Diff1 [OF _ this]
  have av: "divRoundUp size_wanted SecSize \<le> int (card ({0..<numBits fm1} - marked fm1))"
    using n(2) Diff_insert [of "{0..<1024}" sec "marked fm"] fd(6,7) by simp
  have gl: "length (dataSectors (g_header g\<lparr>numBytes := size_wanted, numSectors := divRoundUp size_wanted SecSize\<rparr>)) = NumDirect"
    using assms(2) by (simp add: garbage_ok_def)
  have "alloc_sectors (g_header g\<lparr>numBytes := size_wanted, numSectors := divRoundUp size_wanted SecSize\<rparr>) fm1
      [0..divRoundUp size_wanted SecSize - 1] = Inl BadAccess"
    by (rule alloc_sectors_overflow [OF fd(5) gl n(1) av])
  then have "Allocate (g_header g) fm1 size_wanted = Inl BadAccess"
    using av by (simp add: Allocate_def Let_def NumClear_ok [OF fd(5)])
  then show ?thesis using fd(2) by (simp add: Create_def s1(1) f s2 fd(1) d1)
qed

theorem Create_oversized_witness:
  "\<exists>s fs d fm. fs_inv fs s d fm \<and> garbage_ok zero_garbage \<and> MaxFileSize < 4000 \<and>
    dmap (dtable d) (name_key [98]) = None \<and> card (dom (dmap (dtable d))) < 10 \<and>
    sectors_for 4000 \<le> int (card ({0..<1024} - marked fm)) \<and> Create zero_garbage fs s [98] 4000 = Inl BadAccess"
proof -
  obtain s fs d fm sec where f: "fs_inv fs s d fm" "dmap (dtable d) = [name_key [97] \<mapsto> sec]" "card (marked fm) = 9"
    using one_file by blast
  have h: "MaxFileSize < 4000" "dmap (dtable d) (name_key [98]) = None" "card (dom (dmap (dtable d))) < 10"
      "sectors_for 4000 \<le> int (card ({0..<1024} - marked fm))"
    unfolding card_marked_free [OF f(1)] f(2,3)
    by (simp_all add: MaxFileSize_def NumDirect_def SecSize_def sectors_for_def name_key_def FileNameMaxLen_def cstr_def)
  show ?thesis using f(1) zero_garbage_ok h Create_oversized [OF f(1) zero_garbage_ok h] by blast
qed

end
