(* ===== verification/Interrupts.thy ===== *)
theory Interrupts
  imports LinkedList Machine DiskDev
begin

text \<open>
  \<open>machine/interrupt.cc\<close> and \<open>machine/timer.cc\<close>: the simulation of the interrupt hardware and of time, the
  timer device, and the timer's handler in \<open>threads/system.cc\<close>. What an interrupt handler does is a
  parameter (\<open>dispatch\<close>, of a handler and its argument), as is the \<open>Yield\<close> of the current thread; the
  locale \<open>interrupt_handlers\<close> says what the simulation relies on, and the timer's handler provides it.
\<close>

section \<open>State\<close>

datatype IntStatus = IntOff | IntOn

datatype IntType = TimerInt | DiskInt | ConsoleWriteInt | ConsoleReadInt | NetworkSendInt | NetworkRecvInt

record 'h PendingInterrupt =
  pi_handler :: 'h
  pi_arg :: int
  pi_when :: int
  pi_type :: IntType

record 'h interrupt =
  level :: IntStatus
  pending :: "'h PendingInterrupt lst"
  inHandler :: bool
  yieldOnReturn :: bool
  int_status :: MachineStatus

text \<open>The interrupt hardware with the global \<open>stats\<close> and \<open>machine\<close>, and the rest of the kernel.\<close>

record ('h, 'k) isys =
  intr :: "'h interrupt"
  istats :: statistics
  imachine :: "machine option"
  ikernel :: 'k

type_synonym ('h, 'k) dispatch = "'h \<Rightarrow> int \<Rightarrow> ('h, 'k) isys \<Rightarrow> ('h, 'k) isys res"

definition Interrupt_new :: "'h interrupt" where
  "Interrupt_new = \<lparr>level = IntOff, pending = empty_list, inHandler = False, yieldOnReturn = False,
     int_status = SystemMode\<rparr>"

text \<open>Sums of \<open>int\<close>s wrap around on the host; the code tests the sign of the result.\<close>

definition wrap32 :: "int \<Rightarrow> int" where
  "wrap32 x = signed_take_bit 31 x"

definition now :: "('h, 'k) isys \<Rightarrow> int" where
  "now s = totalTicks (istats s)"

section \<open>Operations\<close>

definition ChangeLevel :: "IntStatus \<Rightarrow> ('h, 'k) isys \<Rightarrow> ('h, 'k) isys" where
  "ChangeLevel lv s = s\<lparr>intr := (intr s)\<lparr>level := lv\<rparr>\<rparr>"

definition set_pending :: "'h PendingInterrupt lst \<Rightarrow> ('h, 'k) isys \<Rightarrow> ('h, 'k) isys" where
  "set_pending q s = s\<lparr>intr := (intr s)\<lparr>pending := q\<rparr>\<rparr>"

definition Schedule :: "'h \<Rightarrow> int \<Rightarrow> int \<Rightarrow> IntType \<Rightarrow> ('h, 'k) isys \<Rightarrow> ('h, 'k) isys res" where
  "Schedule handler arg fromNow type s =
     (let when = wrap32 (now s + fromNow) in
      ASSERT (\<not> (when < now s \<or> when < 0)) (
      ASSERT (fromNow > 0) (
      bindR (lst_SortedInsert (pending (intr s))
        (Some \<lparr>pi_handler = handler, pi_arg = arg, pi_when = when, pi_type = type\<rparr>) when) (\<lambda>q.
      Inr (set_pending q s)))))"

definition delayed_load_0 :: "('h, 'k) isys \<Rightarrow> ('h, 'k) isys res" where
  "delayed_load_0 s = (case imachine s of None \<Rightarrow> Inr s
     | Some m \<Rightarrow> bindR (DelayedLoad 0 0 m) (\<lambda>m'. Inr (s\<lparr>imachine := Some m'\<rparr>)))"

text \<open>The last part of \<open>CheckIfDue\<close>, for an interrupt \<open>p\<close> that was taken off the list.\<close>

definition fire :: "('h, 'k) dispatch \<Rightarrow> 'h PendingInterrupt \<Rightarrow> int \<Rightarrow> ('h, 'k) isys \<Rightarrow> (('h, 'k) isys \<times> bool) res" where
  "fire dispatch p when s =
     (let old = int_status (intr s) in
      if old = IdleMode \<and> pi_type p = TimerInt \<and> lst_IsEmpty (pending (intr s)) then
        bindR (lst_SortedInsert (pending (intr s)) (Some p) when) (\<lambda>q. Inr (set_pending q s, False))
      else
        bindR (delayed_load_0 s) (\<lambda>s.
        bindR (dispatch (pi_handler p) (pi_arg p)
          (s\<lparr>intr := (intr s)\<lparr>inHandler := True, int_status := SystemMode\<rparr>\<rparr>)) (\<lambda>s.
        Inr (s\<lparr>intr := (intr s)\<lparr>int_status := old, inHandler := False\<rparr>\<rparr>, True))))"

definition CheckIfDue :: "('h, 'k) dispatch \<Rightarrow> bool \<Rightarrow> ('h, 'k) isys \<Rightarrow> (('h, 'k) isys \<times> bool) res" where
  "CheckIfDue dispatch advanceClock s =
     ASSERT (level (intr s) = IntOff) (
     bindR (lst_SortedRemove (pending (intr s))) (\<lambda>(q, toOccur, key).
     let s = set_pending q s in
     case (toOccur, key) of
       (Some p, Some when) \<Rightarrow>
         ASSERT (when \<ge> 0) (
         if advanceClock \<and> when > now s then
           fire dispatch p when (s\<lparr>istats := (istats s)\<lparr>idleTicks := idleTicks (istats s) + (when - now s),
             totalTicks := when\<rparr>\<rparr>)
         else if when > now s then
           bindR (lst_SortedInsert (pending (intr s)) (Some p) when) (\<lambda>q. Inr (set_pending q s, False))
         else fire dispatch p when s)
     | _ \<Rightarrow> Inr (s, False)))"

text \<open>The loop \<open>while (CheckIfDue(FALSE));\<close>, at most \<open>n\<close> times.\<close>

primrec fire_due :: "('h, 'k) dispatch \<Rightarrow> nat \<Rightarrow> ('h, 'k) isys \<Rightarrow> ('h, 'k) isys res" where
  "fire_due dispatch 0 s = Inl OutOfFuel"
| "fire_due dispatch (Suc n) s =
     bindR (CheckIfDue dispatch False s) (\<lambda>(s', fired). if fired then fire_due dispatch n s' else Inr s')"

definition tick :: "('h, 'k) isys \<Rightarrow> statistics" where
  "tick s = (let st = istats s in
     if int_status (intr s) = SystemMode
     then st\<lparr>totalTicks := wrap32 (totalTicks st + SystemTick), systemTicks := wrap32 (systemTicks st + SystemTick)\<rparr>
     else st\<lparr>totalTicks := wrap32 (totalTicks st + UserTick), userTicks := wrap32 (userTicks st + UserTick)\<rparr>)"

definition OneTick :: "('h, 'k) dispatch \<Rightarrow> (('h, 'k) isys \<Rightarrow> ('h, 'k) isys res) \<Rightarrow> nat \<Rightarrow>
    ('h, 'k) isys \<Rightarrow> ('h, 'k) isys res" where
  "OneTick dispatch yield n s =
     (let old = int_status (intr s); s = s\<lparr>istats := tick s\<rparr> in
      ASSERT (\<not> now s < 0) (
      bindR (fire_due dispatch n (ChangeLevel IntOff s)) (\<lambda>s.
      let s = ChangeLevel IntOn s in
      if yieldOnReturn (intr s) then
        bindR (yield (s\<lparr>intr := (intr s)\<lparr>yieldOnReturn := False, int_status := SystemMode\<rparr>\<rparr>)) (\<lambda>s.
        Inr (s\<lparr>intr := (intr s)\<lparr>int_status := old\<rparr>\<rparr>))
      else Inr s)))"

definition SetLevel :: "('h, 'k) dispatch \<Rightarrow> (('h, 'k) isys \<Rightarrow> ('h, 'k) isys res) \<Rightarrow> nat \<Rightarrow> IntStatus \<Rightarrow>
    ('h, 'k) isys \<Rightarrow> (('h, 'k) isys \<times> IntStatus) res" where
  "SetLevel dispatch yield n lv s =
     (let old = level (intr s) in
      ASSERT (lv = IntOff \<or> \<not> inHandler (intr s)) (
      let s = ChangeLevel lv s in
      if lv = IntOn \<and> old = IntOff then bindR (OneTick dispatch yield n s) (\<lambda>s. Inr (s, old))
      else Inr (s, old)))"

definition Enable :: "('h, 'k) dispatch \<Rightarrow> (('h, 'k) isys \<Rightarrow> ('h, 'k) isys res) \<Rightarrow> nat \<Rightarrow>
    ('h, 'k) isys \<Rightarrow> ('h, 'k) isys res" where
  "Enable dispatch yield n s = bindR (SetLevel dispatch yield n IntOn s) (\<lambda>(s, _). Inr s)"

definition YieldOnReturn :: "('h, 'k) isys \<Rightarrow> ('h, 'k) isys res" where
  "YieldOnReturn s = ASSERT (inHandler (intr s)) (Inr (s\<lparr>intr := (intr s)\<lparr>yieldOnReturn := True\<rparr>\<rparr>))"



definition PrintPending :: "'h PendingInterrupt option \<Rightarrow> (IntType \<times> int) list \<Rightarrow> (IntType \<times> int) list" where
  "PrintPending x out = (case x of None \<Rightarrow> out | Some p \<Rightarrow> out @ [(pi_type p, pi_when p)])"

definition DumpState :: "('h, 'k) isys \<Rightarrow> (int \<times> IntStatus \<times> (IntType \<times> int) list) res" where
  "DumpState s = (case pending (intr s) of (h, l) \<Rightarrow>
     bindR (Mapcar (brk h) h (lfirst l) PrintPending []) (\<lambda>out. Inr (now s, level (intr s), out)))"

section \<open>The timer device\<close>

text \<open>
  \<open>Random()\<close> is the host's generator: the \<open>i\<close>-th call returns \<open>random i\<close>, which is not negative. The
  timer is the only device of this system, so its handler is the only one.
\<close>

datatype timer_handler = TimerHandler

record timer =
  randomize :: bool
  t_arg :: int
  calls :: nat

type_synonym timer_sys = "(timer_handler, timer) isys"

definition TimeOfNextInterrupt :: "(nat \<Rightarrow> nat) \<Rightarrow> timer \<Rightarrow> timer \<times> int" where
  "TimeOfNextInterrupt random t =
     (if randomize t then (t\<lparr>calls := Suc (calls t)\<rparr>, 1 + int (random (calls t)) smod (TimerTicks * 2))
      else (t, TimerTicks))"

definition TimerInterruptHandler :: "int \<Rightarrow> ('h, 'k) isys \<Rightarrow> ('h, 'k) isys res" where
  "TimerInterruptHandler dummy s = (if int_status (intr s) \<noteq> IdleMode then YieldOnReturn s else Inr s)"

definition TimerExpired :: "(nat \<Rightarrow> nat) \<Rightarrow> int \<Rightarrow> timer_sys \<Rightarrow> timer_sys res" where
  "TimerExpired random self s =
     (case TimeOfNextInterrupt random (ikernel s) of (t, fromNow) \<Rightarrow>
      bindR (Schedule TimerHandler self fromNow TimerInt (s\<lparr>ikernel := t\<rparr>)) (\<lambda>s.
      TimerInterruptHandler (t_arg (ikernel s)) s))"

definition Timer_new :: "(nat \<Rightarrow> nat) \<Rightarrow> int \<Rightarrow> int \<Rightarrow> bool \<Rightarrow> timer_sys \<Rightarrow> timer_sys res" where
  "Timer_new random self callArg doRandom s =
     (case TimeOfNextInterrupt random \<lparr>randomize = doRandom, t_arg = callArg, calls = calls (ikernel s)\<rparr> of (t, fromNow) \<Rightarrow>
      Schedule TimerHandler self fromNow TimerInt (s\<lparr>ikernel := t\<rparr>))"

primrec timer_dispatch :: "(nat \<Rightarrow> nat) \<Rightarrow> (timer_handler, timer) dispatch" where
  "timer_dispatch random TimerHandler = TimerExpired random"

section \<open>What the simulation relies on\<close>

definition pend :: "('h, 'k) isys \<Rightarrow> (int \<times> 'h PendingInterrupt option) list" where
  "pend s = lst_elems (pending (intr s))"

definition due :: "('h, 'k) isys \<Rightarrow> (int \<times> 'h PendingInterrupt option) list" where
  "due s = filter (\<lambda>e. fst e \<le> now s) (pend s)"

definition int_sys_ok :: "('h, 'k) isys \<Rightarrow> bool" where
  "int_sys_ok s \<longleftrightarrow> lst_ok (pending (intr s)) \<and> key_sorted (pend s) \<and>
     (\<forall>e \<in> set (pend s). 0 \<le> fst e \<and> (\<exists>p. snd e = Some p \<and> pi_when p = fst e)) \<and>
     (case imachine s of None \<Rightarrow> True | Some m \<Rightarrow> machine_ok m) \<and> 0 \<le> now s \<and> now s < 2 ^ 31"

text \<open>
  A handler runs with interrupts off and the flag \<open>inHandler\<close> set, and returns; it may ask for a
  yield and schedule interrupts for later, at most \<open>horizon\<close> ticks ahead, and takes no time.
\<close>

locale interrupt_handlers =
  fixes dispatch :: "('h, 'k) dispatch"
    and horizon :: int
  assumes handles: "int_sys_ok s \<Longrightarrow> level (intr s) = IntOff \<Longrightarrow> inHandler (intr s) \<Longrightarrow>
      int_status (intr s) = SystemMode \<Longrightarrow> now s + horizon < 2 ^ 31 \<Longrightarrow>
      \<exists>s'. dispatch h a s = Inr s' \<and> int_sys_ok s' \<and> level (intr s') = IntOff \<and> inHandler (intr s') \<and>
        now s' = now s \<and> due s' = due s"

lemma wrap32_id [simp]: "- (2 ^ 31) \<le> x \<Longrightarrow> x < 2 ^ 31 \<Longrightarrow> wrap32 x = x"
  by (simp add: wrap32_def signed_take_bit_int_eq_self)

lemma now_simps [simp]:
  "now (set_pending q s) = now s" "now (ChangeLevel lv s) = now s" "now (s\<lparr>intr := i\<rparr>) = now s"
  "now (s\<lparr>imachine := mm\<rparr>) = now s" "now (s\<lparr>ikernel := k\<rparr>) = now s" "now (s\<lparr>istats := st\<rparr>) = totalTicks st"
  by (simp_all add: now_def set_pending_def ChangeLevel_def)

lemma pend_simps [simp]:
  "pend (set_pending q s) = lst_elems q" "pend (ChangeLevel lv s) = pend s"
  "pend (s\<lparr>imachine := mm\<rparr>) = pend s" "pend (s\<lparr>ikernel := k\<rparr>) = pend s" "pend (s\<lparr>istats := st\<rparr>) = pend s"
  "pend (s\<lparr>intr := i\<rparr>) = lst_elems (pending i)"
  by (simp_all add: pend_def set_pending_def ChangeLevel_def)

lemma due_simps [simp]:
  "due (ChangeLevel lv s) = due s" "due (s\<lparr>imachine := mm\<rparr>) = due s" "due (s\<lparr>ikernel := k\<rparr>) = due s"
  by (simp_all add: due_def)

lemma set_pending_simps [simp]:
  "pending (intr (set_pending q s)) = q" "level (intr (set_pending q s)) = level (intr s)"
  "inHandler (intr (set_pending q s)) = inHandler (intr s)" "int_status (intr (set_pending q s)) = int_status (intr s)"
  "yieldOnReturn (intr (set_pending q s)) = yieldOnReturn (intr s)" "imachine (set_pending q s) = imachine s"
  "istats (set_pending q s) = istats s" "ikernel (set_pending q s) = ikernel s"
  by (simp_all add: set_pending_def)

lemma set_pending_self [simp]: "set_pending (pending (intr s)) s = s"
  by (simp add: set_pending_def)

lemma ChangeLevel_simps [simp]:
  "pending (intr (ChangeLevel lv s)) = pending (intr s)" "level (intr (ChangeLevel lv s)) = lv"
  "inHandler (intr (ChangeLevel lv s)) = inHandler (intr s)" "int_status (intr (ChangeLevel lv s)) = int_status (intr s)"
  "yieldOnReturn (intr (ChangeLevel lv s)) = yieldOnReturn (intr s)" "imachine (ChangeLevel lv s) = imachine s"
  "istats (ChangeLevel lv s) = istats s" "ikernel (ChangeLevel lv s) = ikernel s"
  by (simp_all add: ChangeLevel_def)

lemma delayed_load_0_ok:
  assumes "int_sys_ok s"
  shows "\<exists>mm. delayed_load_0 s = Inr (s\<lparr>imachine := mm\<rparr>) \<and> (case mm of None \<Rightarrow> True | Some m \<Rightarrow> machine_ok m)"
proof (cases "imachine s")
  case None
  then have "s\<lparr>imachine := None\<rparr> = s" by simp
  then show ?thesis using None by (intro exI [of _ None]) (simp add: delayed_load_0_def)
next
  case (Some m)
  then have "machine_wf m" using assms by (simp add: int_sys_ok_def machine_ok_def)
  then obtain m' where "DelayedLoad 0 0 m = Inr m'" "machine_ok m'"
    using DelayedLoad_ok [of m 0 0] by auto
  then show ?thesis using Some by (intro exI [of _ "Some m'"]) (simp add: delayed_load_0_def)
qed

lemma due_Cons:
  assumes "int_sys_ok s" "pend s = e # es"
  shows "due s = (if fst e \<le> now s then e # filter (\<lambda>e. fst e \<le> now s) es else [])"
  using assms by (auto simp: due_def int_sys_ok_def key_sorted_def filter_empty_conv)

text \<open>
  What a check does that runs a handler: the earliest interrupt is due, or the clock may move to its
  time, and it is not the timer's alone while the machine idles.
\<close>

lemma CheckIfDue_runs:
  assumes s: "int_sys_ok s" "level (intr s) = IntOff" and p: "pend s = (w, Some p) # es" and t: "adv \<or> w \<le> now s"
    and busy: "\<not> (int_status (intr s) = IdleMode \<and> pi_type p = TimerInt \<and> es = [])"
  shows "\<exists>s1. CheckIfDue dispatch adv s =
      bindR (dispatch (pi_handler p) (pi_arg p) s1) (\<lambda>s2. Inr (s2\<lparr>intr := (intr s2)\<lparr>int_status := int_status (intr s), inHandler := False\<rparr>\<rparr>, True)) \<and>
    pend s1 = es \<and> now s1 = max (now s) w \<and> ikernel s1 = ikernel s \<and> level (intr s1) = IntOff \<and> inHandler (intr s1) \<and>
    int_status (intr s1) = SystemMode \<and> yieldOnReturn (intr s1) = yieldOnReturn (intr s) \<and>
    (imachine s = None \<longrightarrow> imachine s1 = None) \<and> (w < 2 ^ 31 \<longrightarrow> int_sys_ok s1)"
proof -
  have ok: "lst_ok (pending (intr s))" "0 \<le> w" "pi_when p = w" using s(1) p by (auto simp: int_sys_ok_def)
  obtain q where q: "lst_SortedRemove (pending (intr s)) = Inr (q, Some p, Some w)" "lst_ok q" "lst_elems q = es"
    using lq.rem_Cons [OF ok(1)] p by (auto simp: pend_def)
  let ?t = "set_pending q s"
  have t': "int_sys_ok ?t" using s(1) q p by (simp add: int_sys_ok_def key_sorted_def)
  let ?u = "if w > now s then ?t\<lparr>istats := (istats ?t)\<lparr>idleTicks := idleTicks (istats ?t) + (w - now s), totalTicks := w\<rparr>\<rparr> else ?t"
  have e: "lst_IsEmpty q \<longleftrightarrow> es = []" using q(2,3) lst_IsEmpty_iff by blast
  obtain mm where mm: "delayed_load_0 ?u = Inr (?u\<lparr>imachine := mm\<rparr>)" "case mm of None \<Rightarrow> True | Some m \<Rightarrow> machine_ok m"
      "imachine s = None \<longrightarrow> mm = None"
  proof (cases "imachine s")
    case None
    then have "delayed_load_0 ?u = Inr (?u\<lparr>imachine := None\<rparr>)" by (simp add: delayed_load_0_def)
    then show ?thesis using that by simp
  next
    case (Some m)
    then have "machine_wf m" using s(1) by (simp add: int_sys_ok_def machine_ok_def)
    then obtain m' where "DelayedLoad 0 0 m = Inr m'" "machine_ok m'" using DelayedLoad_ok [of m 0 0] by auto
    then show ?thesis using Some that [of "Some m'"] by (simp add: delayed_load_0_def)
  qed
  let ?s1 = "?u\<lparr>imachine := mm, intr := (intr ?u)\<lparr>inHandler := True, int_status := SystemMode\<rparr>\<rparr>"
  have u: "w < 2 ^ 31 \<longrightarrow> int_sys_ok ?s1" "pend ?s1 = es" "now ?s1 = max (now s) w" "ikernel ?s1 = ikernel s" "level (intr ?s1) = IntOff"
    using t' q(2,3) ok(2) mm(2) s by (auto simp: int_sys_ok_def pend_def now_def max_def)
  have "CheckIfDue dispatch adv s = fire dispatch p w ?u"
    using q(1) s(2) ok(2) t by (auto simp: CheckIfDue_def Let_def now_def set_pending_def)
  also have "\<dots> = bindR (dispatch (pi_handler p) (pi_arg p) ?s1)
      (\<lambda>s2. Inr (s2\<lparr>intr := (intr s2)\<lparr>int_status := int_status (intr s), inHandler := False\<rparr>\<rparr>, True))"
    using busy e mm(1) by (auto simp: fire_def Let_def)
  finally show ?thesis using u mm(3) by (intro exI [of _ ?s1]) (simp split del: if_split, simp)
qed

lemma sorted_ins_head: "key_sorted es \<Longrightarrow> \<forall>e \<in> set es. j < fst e \<Longrightarrow> j < k \<Longrightarrow>
    filter (\<lambda>e. fst e \<le> j) (sorted_ins k x es) = []"
  by (auto simp: filter_empty_conv set_sorted_ins)

context interrupt_handlers
begin

text \<open>The check that finds nothing due puts the interrupt it looked at back.\<close>

lemma CheckIfDue_idle:
  assumes s: "int_sys_ok s" "level (intr s) = IntOff" and d: "due s = []"
  shows "\<exists>q. CheckIfDue dispatch False s = Inr (set_pending q s, False) \<and> int_sys_ok (set_pending q s) \<and>
    mset (lst_elems q) = mset (pend s) \<and> due (set_pending q s) = []"
proof -
  have ok: "lst_ok (pending (intr s))" "key_sorted (pend s)"
      "\<forall>e \<in> set (pend s). 0 \<le> fst e \<and> (\<exists>p. snd e = Some p \<and> pi_when p = fst e)"
    using s(1) by (simp_all add: int_sys_ok_def)
  show ?thesis
  proof (cases "pend s")
    case Nil
    then have "lst_SortedRemove (pending (intr s)) = Inr (pending (intr s), None, None)"
      using lq.rem_Nil [OF ok(1)] by (simp add: pend_def)
    then show ?thesis using s d
      by (intro exI [of _ "pending (intr s)"]) (simp add: CheckIfDue_def pend_def)
  next
    case (Cons e es)
    then obtain p where e: "e = (pi_when p, Some p)" "0 \<le> pi_when p" using ok(3) by (cases e) auto
    have late: "now s < pi_when p" using d due_Cons [OF s(1) Cons] e by (simp split: if_splits)
    obtain q where q: "lst_SortedRemove (pending (intr s)) = Inr (q, Some p, Some (pi_when p))" "lst_ok q"
        "lst_elems q = es"
      using lq.rem_Cons [OF ok(1)] Cons e by (auto simp: pend_def)
    obtain q' where q': "lst_SortedInsert q (Some p) (pi_when p) = Inr q'" "lst_ok q'"
        "lst_elems q' = sorted_ins (pi_when p) (Some p) es"
      using lq.ins_ok [OF q(2), of "Some p" "pi_when p"] unfolding q(3) by blast
    have run: "CheckIfDue dispatch False s = Inr (set_pending q' s, False)"
      using q(1) q'(1) late e s(2) by (simp add: CheckIfDue_def set_pending_def)
    have es: "key_sorted es" "\<forall>x \<in> set es. now s < fst x"
      using ok(2) Cons e late by (auto simp: key_sorted_def)
    have m: "mset (lst_elems q') = mset (pend s)" using q'(3) Cons e by (simp add: mset_sorted_ins)
    have "set (lst_elems q') = set (pend s)" using mset_eq_setD [OF m] .
    then have "int_sys_ok (set_pending q' s)"
      using s(1) q'(2,3) key_sorted_ins [OF es(1)] by (simp add: int_sys_ok_def)
    moreover have "due (set_pending q' s) = []"
      using sorted_ins_head [OF es late] q'(3) by (simp add: due_def)
    ultimately show ?thesis using run m by blast
  qed
qed

text \<open>The check that finds something due runs the handler of the earliest interrupt.\<close>

lemma CheckIfDue_fires:
  assumes s: "int_sys_ok s" "level (intr s) = IntOff" "now s + horizon < 2 ^ 31" and d: "due s = e # es"
    and st: "int_status (intr s) \<noteq> IdleMode"
  shows "\<exists>s'. CheckIfDue dispatch False s = Inr (s', True) \<and> int_sys_ok s' \<and> level (intr s') = IntOff \<and>
    int_status (intr s') = int_status (intr s) \<and> \<not> inHandler (intr s') \<and> now s' = now s \<and> due s' = es"
proof -
  obtain ps where ps: "pend s = e # ps" "fst e \<le> now s" "es = filter (\<lambda>e. fst e \<le> now s) ps"
  proof (cases "pend s")
    case Nil then show ?thesis using d by (simp add: due_def)
  next
    case (Cons a as)
    then show ?thesis using d due_Cons [OF s(1) Cons] that by (simp split: if_splits)
  qed
  obtain w p where e: "e = (w, Some p)" using s(1) ps(1) by (cases e) (auto simp: int_sys_ok_def)
  have w: "w \<le> now s" "now s < 2 ^ 31" using ps(2) e s(1) by (simp_all add: int_sys_ok_def)
  have p: "pend s = (w, Some p) # ps" using ps(1) e by simp
  obtain s1 where c: "CheckIfDue dispatch False s =
      bindR (dispatch (pi_handler p) (pi_arg p) s1) (\<lambda>s2. Inr (s2\<lparr>intr := (intr s2)\<lparr>int_status := int_status (intr s), inHandler := False\<rparr>\<rparr>, True))"
      and s1: "pend s1 = ps" "now s1 = now s" "level (intr s1) = IntOff" "inHandler (intr s1)"
      "int_status (intr s1) = SystemMode" "int_sys_ok s1"
    using CheckIfDue_runs [OF s(1,2) p, of False dispatch] st w by auto
  have "now s1 + horizon < 2 ^ 31" "due s1 = es" using s(3) s1(1,2) ps(3) by (simp_all add: due_def)
  then obtain s3 where s3: "dispatch (pi_handler p) (pi_arg p) s1 = Inr s3" "int_sys_ok s3" "level (intr s3) = IntOff"
      "inHandler (intr s3)" "now s3 = now s" "due s3 = es"
    using handles [OF s1(6,3-5)] s1(2) by auto
  let ?s4 = "s3\<lparr>intr := (intr s3)\<lparr>int_status := int_status (intr s), inHandler := False\<rparr>\<rparr>"
  have "CheckIfDue dispatch False s = Inr (?s4, True)" using c s3(1) by simp
  moreover have "int_sys_ok ?s4" using s3(2) by (simp add: int_sys_ok_def pend_def)
  moreover have "due ?s4 = es" using s3(6) by (simp add: due_def pend_def)
  ultimately show ?thesis using s3 by (intro exI [of _ ?s4]) simp
qed

lemma fire_due_ok:
  assumes "int_sys_ok s" "level (intr s) = IntOff" "now s + horizon < 2 ^ 31" "int_status (intr s) \<noteq> IdleMode"
    and "\<not> inHandler (intr s)" "length (due s) < n"
  shows "\<exists>s'. fire_due dispatch n s = Inr s' \<and> int_sys_ok s' \<and> level (intr s') = IntOff \<and>
    int_status (intr s') = int_status (intr s) \<and> \<not> inHandler (intr s') \<and> now s' = now s \<and> due s' = []"
  using assms
proof (induction n arbitrary: s)
  case (Suc n)
  show ?case
  proof (cases "due s")
    case Nil
    obtain q where "CheckIfDue dispatch False s = Inr (set_pending q s, False)" "int_sys_ok (set_pending q s)"
        "due (set_pending q s) = []"
      using CheckIfDue_idle [OF Suc.prems(1,2) Nil] by blast
    then show ?thesis using Suc.prems by simp
  next
    case (Cons e es)
    obtain s1 where s1: "CheckIfDue dispatch False s = Inr (s1, True)" "int_sys_ok s1" "level (intr s1) = IntOff"
        "int_status (intr s1) = int_status (intr s)" "\<not> inHandler (intr s1)" "now s1 = now s" "due s1 = es"
      using CheckIfDue_fires [OF Suc.prems(1-3) Cons Suc.prems(4)] by blast
    have "now s1 + horizon < 2 ^ 31" "int_status (intr s1) \<noteq> IdleMode" "length (due s1) < n"
      using Suc.prems s1 Cons by simp_all
    from Suc.IH [OF s1(2,3) this(1,2) s1(5) this(3)] show ?thesis using s1(1,4,6) by simp
  qed
qed simp

lemma OneTick_run:
  assumes s: "int_sys_ok s" "\<not> inHandler (intr s)" "int_status (intr s) \<noteq> IdleMode"
    and t: "t = (if int_status (intr s) = SystemMode then SystemTick else UserTick)"
    and time: "now s + t + horizon < 2 ^ 31" "0 \<le> horizon"
    and fuel: "length (filter (\<lambda>e. fst e \<le> now s + t) (pend s)) < n"
  shows "\<exists>s1. OneTick dispatch yield n s =
      (if yieldOnReturn (intr s1) then
        bindR (yield (s1\<lparr>intr := (intr s1)\<lparr>yieldOnReturn := False, int_status := SystemMode\<rparr>\<rparr>)) (\<lambda>s2.
        Inr (s2\<lparr>intr := (intr s2)\<lparr>int_status := int_status (intr s)\<rparr>\<rparr>))
      else Inr s1) \<and>
    fire_due dispatch n (ChangeLevel IntOff (s\<lparr>istats := tick s\<rparr>)) = Inr (ChangeLevel IntOff s1) \<and>
    int_sys_ok s1 \<and> level (intr s1) = IntOn \<and> \<not> inHandler (intr s1) \<and> int_status (intr s1) = int_status (intr s) \<and>
    now s1 = now s + t \<and> due s1 = []"
proof -
  let ?s0 = "s\<lparr>istats := tick s\<rparr>"
  have now0: "now ?s0 = now s + t" "0 \<le> now s + t"
    using s(1) t time by (auto simp: tick_def Let_def now_def int_sys_ok_def SystemTick_def UserTick_def)
  have tot: "totalTicks (tick s) = now s + t" using now0(1) by simp
  let ?s1 = "ChangeLevel IntOff ?s0"
  have 1: "int_sys_ok ?s1" "level (intr ?s1) = IntOff" "now ?s1 + horizon < 2 ^ 31" "int_status (intr ?s1) \<noteq> IdleMode"
      "\<not> inHandler (intr ?s1)" "length (due ?s1) < n"
    using s now0 time fuel tot by (simp_all add: int_sys_ok_def due_def)
  obtain s2 where s2: "fire_due dispatch n ?s1 = Inr s2" "int_sys_ok s2" "level (intr s2) = IntOff"
      "int_status (intr s2) = int_status (intr s)" "\<not> inHandler (intr s2)" "now s2 = now s + t" "due s2 = []"
    using fire_due_ok [OF 1] tot by auto
  have ch: "ChangeLevel IntOff (ChangeLevel IntOn s2) = s2" using s2(3) by (simp add: ChangeLevel_def)
  have "OneTick dispatch yield n s = (let s = ChangeLevel IntOn s2 in
      if yieldOnReturn (intr s) then
        bindR (yield (s\<lparr>intr := (intr s)\<lparr>yieldOnReturn := False, int_status := SystemMode\<rparr>\<rparr>)) (\<lambda>s'.
        Inr (s'\<lparr>intr := (intr s')\<lparr>int_status := int_status (intr s)\<rparr>\<rparr>))
      else Inr s)"
    using s2(1,4) now0(2) tot by (simp add: OneTick_def Let_def)
  moreover have "int_sys_ok (ChangeLevel IntOn s2)" using s2(2) by (simp add: int_sys_ok_def)
  ultimately show ?thesis
    using s2 ch by (intro exI [of _ "ChangeLevel IntOn s2"]) (simp add: Let_def)
qed

end

section \<open>Scheduling an interrupt\<close>

lemma filter_sorted_ins_late: "j < k \<Longrightarrow> filter (\<lambda>e. fst e \<le> j) (sorted_ins k x xs) = filter (\<lambda>e. fst e \<le> j) xs"
  by (induction xs) (auto simp: sorted_ins_Cons)

lemma Schedule_ok:
  assumes s: "int_sys_ok s" and t: "0 < fromNow" "now s + fromNow < 2 ^ 31"
  shows "\<exists>q. Schedule h a fromNow ty s = Inr (set_pending q s) \<and> int_sys_ok (set_pending q s) \<and>
    due (set_pending q s) = due s \<and> lst_elems q = sorted_ins (now s + fromNow)
      (Some \<lparr>pi_handler = h, pi_arg = a, pi_when = now s + fromNow, pi_type = ty\<rparr>) (pend s)"
proof -
  let ?p = "\<lparr>pi_handler = h, pi_arg = a, pi_when = now s + fromNow, pi_type = ty\<rparr>"
  have ok: "lst_ok (pending (intr s))" "0 \<le> now s" using s by (simp_all add: int_sys_ok_def)
  then have w: "wrap32 (now s + fromNow) = now s + fromNow" using t by simp
  obtain q where q: "lst_SortedInsert (pending (intr s)) (Some ?p) (now s + fromNow) = Inr q" "lst_ok q"
      "lst_elems q = sorted_ins (now s + fromNow) (Some ?p) (pend s)"
    using lq.ins_ok [OF ok(1), of "Some ?p" "now s + fromNow"] unfolding pend_def by blast
  have "Schedule h a fromNow ty s = Inr (set_pending q s)"
    using q(1) w t ok(2) by (simp add: Schedule_def Let_def)
  moreover have "int_sys_ok (set_pending q s)"
    using s q(2,3) t ok(2) key_sorted_ins [of "pend s"] by (auto simp: int_sys_ok_def set_sorted_ins)
  moreover have "due (set_pending q s) = due s" using q(3) t by (simp add: due_def filter_sorted_ins_late)
  ultimately show ?thesis using q(3) by blast
qed

section \<open>The timer's handler provides it\<close>

lemma TimeOfNextInterrupt_bounds:
  "\<exists>t' d. TimeOfNextInterrupt random t = (t', d) \<and> 1 \<le> d \<and> d \<le> 200 \<and> randomize t' = randomize t \<and> t_arg t' = t_arg t"
proof (cases "randomize t")
  case True
  have "int (random (calls t)) smod 200 = int (random (calls t)) mod 200" by (simp add: smod_nonneg_eq)
  moreover have "0 \<le> int (random (calls t)) mod 200" "int (random (calls t)) mod 200 < 200" by simp_all
  ultimately show ?thesis using True by (simp add: TimeOfNextInterrupt_def TimerTicks_def)
qed (simp add: TimeOfNextInterrupt_def TimerTicks_def)

lemma TimerExpired_ok:
  assumes s: "int_sys_ok s" "inHandler (intr s)" "int_status (intr s) = SystemMode" "now s + 200 < 2 ^ 31"
  shows "\<exists>t' d q. TimeOfNextInterrupt random (ikernel s) = (t', d) \<and>
    TimerExpired random self s = Inr (set_pending q s\<lparr>ikernel := t', intr := (intr (set_pending q s))\<lparr>yieldOnReturn := True\<rparr>\<rparr>) \<and>
    int_sys_ok (set_pending q s) \<and> due (set_pending q s) = due s \<and> lst_elems q = sorted_ins (now s + d)
      (Some \<lparr>pi_handler = TimerHandler, pi_arg = self, pi_when = now s + d, pi_type = TimerInt\<rparr>) (pend s)"
proof -
  obtain t' d where t: "TimeOfNextInterrupt random (ikernel s) = (t', d)" "1 \<le> d" "d \<le> 200"
    using TimeOfNextInterrupt_bounds by metis
  have "0 < d" "now s + d < 2 ^ 31" using t(2,3) s(4) by auto
  have s': "int_sys_ok (s\<lparr>ikernel := t'\<rparr>)" using s(1) by (simp add: int_sys_ok_def)
  obtain q where q: "Schedule TimerHandler self d TimerInt (s\<lparr>ikernel := t'\<rparr>) = Inr (set_pending q (s\<lparr>ikernel := t'\<rparr>))"
      "int_sys_ok (set_pending q (s\<lparr>ikernel := t'\<rparr>))" "due (set_pending q (s\<lparr>ikernel := t'\<rparr>)) = due s"
      "lst_elems q = sorted_ins (now s + d)
        (Some \<lparr>pi_handler = TimerHandler, pi_arg = self, pi_when = now s + d, pi_type = TimerInt\<rparr>) (pend s)"
    using Schedule_ok [OF s', of d TimerHandler self TimerInt] \<open>0 < d\<close> \<open>now s + d < 2 ^ 31\<close> by auto
  have "TimerExpired random self s = Inr (set_pending q s\<lparr>ikernel := t', intr := (intr (set_pending q s))\<lparr>yieldOnReturn := True\<rparr>\<rparr>)"
    using t(1) q(1) s(2,3) by (simp add: TimerExpired_def TimerInterruptHandler_def YieldOnReturn_def set_pending_def)
  moreover have "int_sys_ok (set_pending q s)" "due (set_pending q s) = due s"
    using q(2,3) by (simp_all add: int_sys_ok_def due_def)
  ultimately show ?thesis using t(1) q(4) by blast
qed

interpretation tm: interrupt_handlers "timer_dispatch random" 200 for random
proof unfold_locales
  fix s :: timer_sys and h a
  assume s: "int_sys_ok s" "level (intr s) = IntOff" "inHandler (intr s)" "int_status (intr s) = SystemMode"
      "now s + 200 < 2 ^ 31"
  obtain t' q where r: "TimerExpired random a s = Inr (set_pending q s\<lparr>ikernel := t', intr := (intr (set_pending q s))\<lparr>yieldOnReturn := True\<rparr>\<rparr>)"
      "int_sys_ok (set_pending q s)" "due (set_pending q s) = due s"
    using TimerExpired_ok [OF s(1,3-5), of random a] by blast
  have "timer_dispatch random h a s = TimerExpired random a s" by (cases h) simp
  moreover have "int_sys_ok (set_pending q s\<lparr>ikernel := t', intr := (intr (set_pending q s))\<lparr>yieldOnReturn := True\<rparr>\<rparr>)"
    using r(2) by (simp add: int_sys_ok_def)
  moreover have "due (set_pending q s\<lparr>ikernel := t', intr := (intr (set_pending q s))\<lparr>yieldOnReturn := True\<rparr>\<rparr>) = due s"
    using r(3) by (simp add: due_def)
  ultimately show "\<exists>s'. timer_dispatch random h a s = Inr s' \<and> int_sys_ok s' \<and> level (intr s') = IntOff \<and>
      inHandler (intr s') \<and> now s' = now s \<and> due s' = due s"
    using r(1) s(2,3) by simp
qed

section \<open>What the timer does when it fires\<close>

text \<open>
  \<open>rearm random j es\<close>: the handler of each interrupt of \<open>es\<close>, in this order, takes the time of the next one from the
  timer and schedules it that much after \<open>j\<close>.
\<close>

fun rearm :: "(nat \<Rightarrow> nat) \<Rightarrow> int \<Rightarrow> (int \<times> timer_handler PendingInterrupt option) list \<Rightarrow>
    timer \<times> (int \<times> timer_handler PendingInterrupt option) multiset \<Rightarrow> timer \<times> (int \<times> timer_handler PendingInterrupt option) multiset" where
  "rearm random j [] tm = tm"
| "rearm random j (e # es) (t, m) =
     (case TimeOfNextInterrupt random t of (t', d) \<Rightarrow>
        rearm random j es (t', add_mset (j + d, Some \<lparr>pi_handler = TimerHandler, pi_arg = pi_arg (the (snd e)), pi_when = j + d,
          pi_type = TimerInt\<rparr>) m))"

definition late :: "('h, 'k) isys \<Rightarrow> (int \<times> 'h PendingInterrupt option) list" where
  "late s = filter (\<lambda>e. now s < fst e) (pend s)"

lemma no_due_late: "due s = [] \<Longrightarrow> late s = pend s"
  by (auto simp: due_def late_def filter_id_conv filter_empty_conv)

lemma timer_fires:
  fixes s :: timer_sys
  assumes s: "int_sys_ok s" "level (intr s) = IntOff" "now s + 200 < 2 ^ 31" "int_status (intr s) \<noteq> IdleMode" and d: "due s = e # es"
  shows "\<exists>s' t' d. CheckIfDue (timer_dispatch random) False s = Inr (s', True) \<and> int_sys_ok s' \<and> level (intr s') = IntOff \<and>
    int_status (intr s') = int_status (intr s) \<and> now s' = now s \<and> due s' = es \<and> yieldOnReturn (intr s') \<and>
    TimeOfNextInterrupt random (ikernel s) = (t', d) \<and> ikernel s' = t' \<and>
    mset (late s') = add_mset (now s + d, Some \<lparr>pi_handler = TimerHandler, pi_arg = pi_arg (the (snd e)), pi_when = now s + d,
      pi_type = TimerInt\<rparr>) (mset (late s))"
proof -
  obtain ps where ps: "pend s = e # ps" "fst e \<le> now s" "es = filter (\<lambda>e. fst e \<le> now s) ps"
  proof (cases "pend s")
    case Nil then show ?thesis using d by (simp add: due_def)
  next
    case (Cons a as)
    then show ?thesis using d due_Cons [OF s(1) Cons] that by (simp split: if_splits)
  qed
  obtain w p where e: "e = (w, Some p)" using s(1) ps(1) by (cases e) (auto simp: int_sys_ok_def)
  have w: "w \<le> now s" "now s < 2 ^ 31" using ps(2) e s(1) by (simp_all add: int_sys_ok_def)
  have p: "pend s = (w, Some p) # ps" using ps(1) e by simp
  obtain s1 where c: "CheckIfDue (timer_dispatch random) False s =
      bindR (timer_dispatch random (pi_handler p) (pi_arg p) s1)
        (\<lambda>s2. Inr (s2\<lparr>intr := (intr s2)\<lparr>int_status := int_status (intr s), inHandler := False\<rparr>\<rparr>, True))"
      and s1: "pend s1 = ps" "now s1 = now s" "level (intr s1) = IntOff" "inHandler (intr s1)"
      "int_status (intr s1) = SystemMode" "int_sys_ok s1" "ikernel s1 = ikernel s"
    using CheckIfDue_runs [OF s(1,2) p, of False "timer_dispatch random"] s(4) w by auto
  have t: "timer_dispatch random (pi_handler p) (pi_arg p) s1 = TimerExpired random (pi_arg p) s1" by (cases "pi_handler p") simp
  have "now s1 + 200 < 2 ^ 31" using s(3) s1(2) by simp
  then obtain t' dl q where q: "TimeOfNextInterrupt random (ikernel s) = (t', dl)"
      "TimerExpired random (pi_arg p) s1 = Inr (set_pending q s1\<lparr>ikernel := t', intr := (intr (set_pending q s1))\<lparr>yieldOnReturn := True\<rparr>\<rparr>)"
      "int_sys_ok (set_pending q s1)" "due (set_pending q s1) = due s1" "lst_elems q = sorted_ins (now s + dl)
        (Some \<lparr>pi_handler = TimerHandler, pi_arg = pi_arg p, pi_when = now s + dl, pi_type = TimerInt\<rparr>) ps"
    using TimerExpired_ok [OF s1(6,4,5), of random "pi_arg p"] s1(1,2,7) by auto
  have dl: "0 < dl" using TimeOfNextInterrupt_bounds [of random "ikernel s"] q(1) by auto
  let ?s = "set_pending q s1\<lparr>ikernel := t', intr := (intr (set_pending q s1))\<lparr>yieldOnReturn := True, int_status := int_status (intr s), inHandler := False\<rparr>\<rparr>"
  have l: "mset (late ?s) = add_mset (now s + dl, Some \<lparr>pi_handler = TimerHandler, pi_arg = pi_arg p, pi_when = now s + dl,
      pi_type = TimerInt\<rparr>) (mset (late s))"
    using q(5) dl w(1) s1(2) by (simp add: late_def p mset_filter mset_sorted_ins)
  have "CheckIfDue (timer_dispatch random) False s = Inr (?s, True)" using c q(2) by (simp add: t)
  moreover have "int_sys_ok ?s" using q(3) by (simp add: int_sys_ok_def pend_def)
  moreover have "due ?s = es" using q(4) s1(1,2) ps(3) by (simp add: due_def pend_def)
  ultimately show ?thesis using s1 q(1) l e by (intro exI [of _ ?s] exI [of _ t'] exI [of _ dl]) simp
qed

lemma timer_fire_due:
  fixes s :: timer_sys
  assumes "int_sys_ok s" "level (intr s) = IntOff" "now s + 200 < 2 ^ 31" "int_status (intr s) \<noteq> IdleMode" "length (due s) < n"
    and "fire_due (timer_dispatch random) n s = Inr s'"
  shows "rearm random (now s) (due s) (ikernel s, mset (late s)) = (ikernel s', mset (pend s')) \<and>
    (yieldOnReturn (intr s') \<longleftrightarrow> yieldOnReturn (intr s) \<or> due s \<noteq> [])"
  using assms
proof (induction n arbitrary: s)
  case (Suc n)
  show ?case
  proof (cases "due s")
    case Nil
    obtain q where "CheckIfDue (timer_dispatch random) False s = Inr (set_pending q s, False)" "mset (lst_elems q) = mset (pend s)"
      using tm.CheckIfDue_idle [OF Suc.prems(1,2) Nil] by blast
    then show ?thesis using Suc.prems(6) Nil no_due_late [OF Nil] by auto
  next
    case (Cons e es)
    obtain s1 t' d where s1: "CheckIfDue (timer_dispatch random) False s = Inr (s1, True)" "int_sys_ok s1" "level (intr s1) = IntOff"
        "int_status (intr s1) = int_status (intr s)" "now s1 = now s" "due s1 = es" "yieldOnReturn (intr s1)"
        "TimeOfNextInterrupt random (ikernel s) = (t', d)" "ikernel s1 = t'"
        "mset (late s1) = add_mset (now s + d, Some \<lparr>pi_handler = TimerHandler, pi_arg = pi_arg (the (snd e)), pi_when = now s + d,
          pi_type = TimerInt\<rparr>) (mset (late s))"
      using timer_fires [OF Suc.prems(1-4) Cons] by blast
    have "now s1 + 200 < 2 ^ 31" "int_status (intr s1) \<noteq> IdleMode" "length (due s1) < n"
        "fire_due (timer_dispatch random) n s1 = Inr s'"
      using Suc.prems s1 Cons by simp_all
    from Suc.IH [OF s1(2,3) this] show ?thesis using s1(5-10) Cons by simp
  qed
qed simp

section \<open>Properties\<close>

lemma Schedule_late: "- (2 ^ 31) \<le> n \<Longrightarrow> n < 2 ^ 31 \<Longrightarrow> 0 \<le> m \<Longrightarrow> m < 2 ^ 31 \<Longrightarrow>
    \<not> (wrap32 (m + n) < m \<or> wrap32 (m + n) < 0) \<and> n > 0 \<longleftrightarrow> 0 < n \<and> m + n < 2 ^ 31"
proof -
  assume a: "- (2 ^ 31) \<le> n" "n < 2 ^ 31" "0 \<le> m" "m < 2 ^ 31"
  show ?thesis
  proof (cases "m + n < 2 ^ 31")
    case True
    then have "wrap32 (m + n) = m + n" using a by simp
    then show ?thesis using True a by auto
  next
    case False
    have "signed_take_bit 31 (m + n) = m + n - 2 ^ 32"
      using a False by (subst signed_take_bit_int_eq_self_iff [of 31 "m + n - 2 ^ 32", THEN iffD2, symmetric])
        (auto simp: signed_take_bit_eq_iff_take_bit_eq take_bit_eq_mod)
    then have "wrap32 (m + n) < 0" using a by (simp add: wrap32_def)
    then show ?thesis using False by simp
  qed
qed

text \<open>
  \<open>Schedule\<close> accepts an interrupt exactly when it lies in the future and before the end of time
  (\<open>2^31\<close> ticks, where the sum overflows), and then puts it in order of time behind those of the same
  time, with no effect on the interrupts already due; otherwise an \<open>ASSERT\<close> fails.
\<close>

theorem Schedule_in_order:
  assumes "int_sys_ok s" and "- (2 ^ 31) \<le> fromNow" and "fromNow < 2 ^ 31"
  shows "if 0 < fromNow \<and> now s + fromNow < 2 ^ 31
    then \<exists>s'. Schedule h a fromNow ty s = Inr s' \<and> int_sys_ok s' \<and> now s' = now s \<and> due s' = due s \<and>
      pend s' = sorted_ins (now s + fromNow)
        (Some \<lparr>pi_handler = h, pi_arg = a, pi_when = now s + fromNow, pi_type = ty\<rparr>) (pend s)
    else Schedule h a fromNow ty s = Inl AssertFailed"
proof (cases "0 < fromNow \<and> now s + fromNow < 2 ^ 31")
  case True
  then obtain q where "Schedule h a fromNow ty s = Inr (set_pending q s)" "int_sys_ok (set_pending q s)"
      "due (set_pending q s) = due s" "lst_elems q = sorted_ins (now s + fromNow)
        (Some \<lparr>pi_handler = h, pi_arg = a, pi_when = now s + fromNow, pi_type = ty\<rparr>) (pend s)"
    using Schedule_ok [OF assms(1)] by blast
  then show ?thesis using True by (intro if_P [THEN iffD2] exI [of _ "set_pending q s"]) simp_all
next
  case False
  have "0 \<le> now s" "now s < 2 ^ 31" using assms(1) by (simp_all add: int_sys_ok_def)
  then have "\<not> (\<not> (wrap32 (now s + fromNow) < now s \<or> wrap32 (now s + fromNow) < 0) \<and> fromNow > 0)"
    using Schedule_late [OF assms(2,3)] False by blast
  then show ?thesis using False by (auto simp: Schedule_def Let_def ASSERT_def)
qed

definition idle_timer_sys :: timer_sys where
  "idle_timer_sys = \<lparr>intr = Interrupt_new, istats = Statistics_new, imachine = None,
     ikernel = \<lparr>randomize = False, t_arg = 0, calls = 0\<rparr>\<rparr>"

lemma idle_timer_sys_simps:
  "int_sys_ok idle_timer_sys" "now idle_timer_sys = 0" "pend idle_timer_sys = []"
  "int_status (intr idle_timer_sys) = SystemMode" "\<not> inHandler (intr idle_timer_sys)" "level (intr idle_timer_sys) = IntOff"
  by (simp_all add: idle_timer_sys_def int_sys_ok_def pend_def Interrupt_new_def key_sorted_def now_def Statistics_new_def)

theorem Schedule_in_order_witness:
  "int_sys_ok idle_timer_sys \<and> - (2 ^ 31) \<le> (50::int) \<and> (50::int) < 2 ^ 31 \<and>
   (\<exists>s'. Schedule TimerHandler 0 50 TimerInt idle_timer_sys = Inr s' \<and> map fst (pend s') = [50]) \<and>
   Schedule TimerHandler 0 0 TimerInt idle_timer_sys = Inl AssertFailed"
  using Schedule_in_order [OF idle_timer_sys_simps(1), of 50 TimerHandler 0 TimerInt]
    Schedule_in_order [OF idle_timer_sys_simps(1), of 0 TimerHandler 0 TimerInt]
  by (auto simp: idle_timer_sys_simps)

text \<open>
  C16: with the timer as the device, one tick advances the time by 10 in the kernel and by 1 in user
  code and then runs the handler of every interrupt that has become due, once each and in the order of their times:
  for each the timer is asked for the time of the next interrupt, which is scheduled that much later, and
  nothing else happens to the pending interrupts. Nothing is due afterwards, and the processor is given up exactly when
  an interrupt fired (or a yield was asked for before), with the machine status restored afterwards.
\<close>

theorem OneTick_fires_due:
  fixes s :: timer_sys
  assumes "int_sys_ok s" and "\<not> inHandler (intr s)" and "int_status (intr s) \<noteq> IdleMode" and "now s < 2 ^ 31 - 210"
    and "length (pend s) < n" and "t = now s + (if int_status (intr s) = SystemMode then 10 else 1)"
  shows "\<exists>s1. OneTick (timer_dispatch random) yield n s =
      (if yieldOnReturn (intr s1) then
        bindR (yield (s1\<lparr>intr := (intr s1)\<lparr>yieldOnReturn := False, int_status := SystemMode\<rparr>\<rparr>)) (\<lambda>s2.
        Inr (s2\<lparr>intr := (intr s2)\<lparr>int_status := int_status (intr s)\<rparr>\<rparr>))
      else Inr s1) \<and>
    int_sys_ok s1 \<and> level (intr s1) = IntOn \<and> \<not> inHandler (intr s1) \<and> now s1 = t \<and> due s1 = [] \<and>
    rearm random t (filter (\<lambda>e. fst e \<le> t) (pend s)) (ikernel s, mset (filter (\<lambda>e. t < fst e) (pend s))) = (ikernel s1, mset (pend s1)) \<and>
    (yieldOnReturn (intr s1) \<longleftrightarrow> yieldOnReturn (intr s) \<or> (\<exists>e \<in> set (pend s). fst e \<le> t))"
proof -
  let ?t = "if int_status (intr s) = SystemMode then SystemTick else UserTick"
  let ?s0 = "ChangeLevel IntOff (s\<lparr>istats := tick s\<rparr>)"
  have t: "t = now s + ?t" using assms(6) by (simp add: SystemTick_def UserTick_def)
  have time: "now s + ?t + 200 < 2 ^ 31" using assms(4) by (simp add: SystemTick_def UserTick_def)
  have fuel: "length (filter (\<lambda>e. fst e \<le> now s + ?t) (pend s)) < n"
    using assms(5) length_filter_le le_less_trans by blast
  obtain s1 where s1: "OneTick (timer_dispatch random) yield n s =
      (if yieldOnReturn (intr s1) then
        bindR (yield (s1\<lparr>intr := (intr s1)\<lparr>yieldOnReturn := False, int_status := SystemMode\<rparr>\<rparr>)) (\<lambda>s2.
        Inr (s2\<lparr>intr := (intr s2)\<lparr>int_status := int_status (intr s)\<rparr>\<rparr>))
      else Inr s1)"
    "fire_due (timer_dispatch random) n ?s0 = Inr (ChangeLevel IntOff s1)"
    "int_sys_ok s1" "level (intr s1) = IntOn" "\<not> inHandler (intr s1)" "now s1 = t" "due s1 = []"
    using tm.OneTick_run [OF assms(1-3) refl time _ fuel, of random yield] t by auto
  have "0 \<le> now s" using assms(1) by (simp add: int_sys_ok_def)
  then have now0: "now ?s0 = t" using t time assms(3) by (auto simp: tick_def Let_def now_def SystemTick_def UserTick_def)
  have ok0: "int_sys_ok ?s0" using assms(1) now0 t time \<open>0 \<le> now s\<close> by (simp add: int_sys_ok_def SystemTick_def UserTick_def)
  have d0: "due ?s0 = filter (\<lambda>e. fst e \<le> t) (pend s)" "late ?s0 = filter (\<lambda>e. t < fst e) (pend s)"
    using now0 by (simp_all add: due_def late_def)
  have "level (intr ?s0) = IntOff" "now ?s0 + 200 < 2 ^ 31" "int_status (intr ?s0) \<noteq> IdleMode" "length (due ?s0) < n"
    using now0 t time assms(3) fuel d0 by simp_all
  from timer_fire_due [OF ok0 this s1(2)] show ?thesis
    using s1 d0 now0 by (auto simp: filter_empty_conv)
qed

theorem OneTick_fires_due_witness:
  "\<exists>s s1. Schedule TimerHandler 3 7 TimerInt idle_timer_sys = Inr s \<and> int_sys_ok s \<and> \<not> inHandler (intr s) \<and>
    int_status (intr s) \<noteq> IdleMode \<and> now s < 2 ^ 31 - 210 \<and> length (pend s) < 2 \<and>
    OneTick (timer_dispatch (\<lambda>_. 0)) Inr 2 s = Inr s1 \<and> map fst (pend s) = [7] \<and> mset (map fst (pend s1)) = {#110#}"
proof -
  obtain q where q: "Schedule TimerHandler 3 7 TimerInt idle_timer_sys = Inr (set_pending q idle_timer_sys)" "int_sys_ok (set_pending q idle_timer_sys)"
      "lst_elems q = [(7, Some \<lparr>pi_handler = TimerHandler, pi_arg = 3, pi_when = 7, pi_type = TimerInt\<rparr>)]"
    using Schedule_ok [OF idle_timer_sys_simps(1), of 7 TimerHandler 3 TimerInt] by (auto simp: idle_timer_sys_simps)
  let ?s = "set_pending q idle_timer_sys"
  have h: "\<not> inHandler (intr ?s)" "int_status (intr ?s) \<noteq> IdleMode" "now ?s < 2 ^ 31 - 210" "length (pend ?s) < 2"
    "10 = now ?s + (if int_status (intr ?s) = SystemMode then 10 else 1)"
    using q(3) by (simp_all add: idle_timer_sys_simps)
  have t: "TimeOfNextInterrupt (\<lambda>_. 0) (ikernel ?s) = (ikernel ?s, 100)"
    by (simp add: TimeOfNextInterrupt_def idle_timer_sys_def TimerTicks_def)
  obtain s1 where s1: "OneTick (timer_dispatch (\<lambda>_. 0)) Inr 2 ?s = (if yieldOnReturn (intr s1)
        then bindR (Inr (s1\<lparr>intr := (intr s1)\<lparr>yieldOnReturn := False, int_status := SystemMode\<rparr>\<rparr>)) (\<lambda>s2.
          Inr (s2\<lparr>intr := (intr s2)\<lparr>int_status := int_status (intr ?s)\<rparr>\<rparr>))
        else Inr s1)"
      "rearm (\<lambda>_. 0) 10 (filter (\<lambda>e. fst e \<le> 10) (pend ?s)) (ikernel ?s, mset (filter (\<lambda>e. 10 < fst e) (pend ?s))) = (ikernel s1, mset (pend s1))"
    using OneTick_fires_due [OF q(2) h, of "\<lambda>_. 0" Inr] by blast
  have m: "mset (pend s1) = {#(110, Some \<lparr>pi_handler = TimerHandler, pi_arg = 3, pi_when = 110, pi_type = TimerInt\<rparr>)#}"
    using s1(2) q(3) t by simp
  have "mset (map fst (pend s1)) = image_mset fst (mset (pend s1))" by simp
  then have f: "mset (map fst (pend s1)) = {#110#}" unfolding m by simp
  obtain s2 where "OneTick (timer_dispatch (\<lambda>_. 0)) Inr 2 ?s = Inr s2" "pend s2 = pend s1"
    using s1(1) by (cases "yieldOnReturn (intr s1)") (auto simp: pend_def)
  then show ?thesis using q h f by (intro exI [of _ ?s] exI [of _ s2]) simp
qed



section \<open>The next interrupt of a device\<close>

text \<open>With the clock allowed to advance, the check always takes the earliest interrupt.\<close>

lemma CheckIfDue_next:
  assumes s: "int_sys_ok s" "level (intr s) = IntOff" "imachine s = None" and p: "pend s = (w, Some p) # es" "pi_type p \<noteq> TimerInt" "w < 2 ^ 31"
  shows "\<exists>s1. CheckIfDue dispatch True s =
      bindR (dispatch (pi_handler p) (pi_arg p) s1) (\<lambda>s2. Inr (s2\<lparr>intr := (intr s2)\<lparr>int_status := int_status (intr s), inHandler := False\<rparr>\<rparr>, True)) \<and>
    int_sys_ok s1 \<and> pend s1 = es \<and> now s1 = max (now s) w \<and> ikernel s1 = ikernel s \<and> level (intr s1) = IntOff \<and> imachine s1 = None"
  using CheckIfDue_runs [OF s(1,2) p(1), of True dispatch] p(2,3) s(3) by blast

end
