(* ===== verification/Kernel.thy ===== *)
theory Kernel
  imports Interrupts
begin

text \<open>
  The thread kernel: \<open>threads/thread.cc\<close>, \<open>threads/scheduler.cc\<close>, \<open>threads/synch.cc\<close>,
  \<open>threads/synchlist.cc\<close> and \<open>threads/Whale.cc\<close>. On the one processor a routine runs without
  interference while interrupts are off, so each routine is a sequence of atomic sections
  (\<open>frame\<close>s), cut where the code calls \<open>SWITCH\<close> and where it turns interrupts on again. A thread
  that is not running keeps the sections it still has to do, as its stack does in the source.
\<close>

section \<open>State\<close>

datatype ThreadStatus = JUST_CREATED | RUNNING | READY | BLOCKED

text \<open>Threads, semaphores, locks, condition variables and the other objects are named by numbers.\<close>

record thread =
  t_name :: string
  t_status :: ThreadStatus
  t_priority :: int
  t_join :: int
  t_joinCalled :: bool
  t_threadFinished :: bool
  t_finishedJoining :: bool
  t_threadLock :: nat
  t_condition :: nat

record semaphore =
  s_value :: int
  s_queue :: "nat lst"

record lock =
  l_held :: bool
  l_threadName :: string
  l_Q :: "nat lst"

record condition =
  c_waitList :: "nat lst"

record mailbox =
  m_boxLock :: nat
  m_bufferLock :: nat
  m_numItems :: int
  m_buffer :: int
  m_bufferSet :: bool
  m_mailboxCV :: nat
  m_bufferCV :: nat
  m_empty :: nat
  m_full :: nat

record synch_list =
  sl_list :: "int lst"
  sl_lock :: nat
  sl_listEmpty :: nat

record whale =
  w_numMales :: int
  w_numFemales :: int
  w_numMM :: int
  w_tripletsCounter :: int
  w_tripletsMade :: int
  w_whaleLock :: nat
  w_maleCV :: nat
  w_femaleCV :: nat
  w_mmCV :: nat

text \<open>
  The sections. The argument \<open>old\<close> is the local variable \<open>oldLevel\<close> of the routine.
\<close>

datatype frame =
  FSetLevel IntStatus
| FAfterSwitch
| FSleep
| FYield
| FFork nat
| FP nat
| FP_loop nat (old: IntStatus)
| FV nat
| FAcquire nat
| FAcquire_loop nat (old: IntStatus)
| FRelease nat
| FWait nat nat
| FSignal nat nat
| FBroadcast nat nat
| FFinish
| FFinish_set
| FFinish_loop
| FFinish_end
| FJoin nat
| FJoin_loop nat
| FJoin_set nat
| FSend_arrive nat
| FSend_loop nat
| FSend_put nat int
| FReceive_arrive nat
| FReceive_loop nat
| FReceive_take nat
| FList_append nat int
| FList_loop nat
| FList_take nat
| FMale nat
| FFemale nat
| FMatchmaker nat
| FDone nat

record kern =
  threads :: "nat \<Rightarrow> thread option"
  stacks :: "nat \<Rightarrow> frame list"
  currentThread :: nat
  threadToBeDestroyed :: "nat option"
  klevel :: IntStatus
  readyList :: "nat lst"
  semaphores :: "semaphore list"
  locks :: "lock list"
  conditions :: "condition list"
  mailboxes :: "mailbox list"
  synch_lists :: "synch_list list"
  whales :: "whale list"
  results :: "nat \<Rightarrow> int option"

text \<open>Access to the objects; a pointer that is none of them is a bad access.\<close>

definition fetch :: "'a list \<Rightarrow> nat \<Rightarrow> 'a res" where
  "fetch xs i = (if i < length xs then Inr (xs ! i) else Inl BadAccess)"

definition thread_of :: "kern \<Rightarrow> nat \<Rightarrow> thread res" where
  "thread_of k t = (case threads k t of None \<Rightarrow> Inl BadAccess | Some th \<Rightarrow> Inr th)"

definition upd_thread :: "nat \<Rightarrow> (thread \<Rightarrow> thread) \<Rightarrow> kern \<Rightarrow> kern res" where
  "upd_thread t f k = bindR (thread_of k t) (\<lambda>th. Inr (k\<lparr>threads := (threads k)(t \<mapsto> f th)\<rparr>))"

definition push :: "frame list \<Rightarrow> kern \<Rightarrow> kern" where
  "push fs k = k\<lparr>stacks := (stacks k)(currentThread k := fs @ stacks k (currentThread k))\<rparr>"

definition set_level :: "IntStatus \<Rightarrow> kern \<Rightarrow> kern" where
  "set_level lv k = k\<lparr>klevel := lv\<rparr>"

section \<open>Scheduler\<close>

definition getPriority :: "kern \<Rightarrow> nat \<Rightarrow> int res" where
  "getPriority k t = bindR (thread_of k t) (\<lambda>th. Inr (t_priority th))"

definition setPriority :: "nat \<Rightarrow> int \<Rightarrow> kern \<Rightarrow> kern res" where
  "setPriority t newPriority = upd_thread t (\<lambda>th. th\<lparr>t_priority := - newPriority\<rparr>)"

definition setStatus_of :: "nat \<Rightarrow> ThreadStatus \<Rightarrow> kern \<Rightarrow> kern res" where
  "setStatus_of t st = upd_thread t (\<lambda>th. th\<lparr>t_status := st\<rparr>)"

definition ReadyToRun :: "nat \<Rightarrow> kern \<Rightarrow> kern res" where
  "ReadyToRun t k =
     bindR (setStatus_of t READY k) (\<lambda>k.
     bindR (getPriority k t) (\<lambda>p.
     bindR (lst_SortedInsert (readyList k) (Some t) p) (\<lambda>q.
     Inr (k\<lparr>readyList := q\<rparr>))))"

definition FindNextToRun :: "kern \<Rightarrow> (kern \<times> nat option) res" where
  "FindNextToRun k =
     bindR (lst_SortedRemove (readyList k)) (\<lambda>(q, x, _). Inr (k\<lparr>readyList := q\<rparr>, x))"

text \<open>
  \<open>SWITCH\<close> leaves the old thread inside \<open>Run\<close>: what is left of it is \<open>FAfterSwitch\<close>, which the
  old thread does when it is switched to again.
\<close>

definition Run :: "nat \<Rightarrow> kern \<Rightarrow> kern res" where
  "Run nextThread k =
     (let k = push [FAfterSwitch] k in
      setStatus_of nextThread RUNNING (k\<lparr>currentThread := nextThread\<rparr>))"

definition delete_thread :: "nat \<Rightarrow> kern \<Rightarrow> kern res" where
  "delete_thread t k = ASSERT (t \<noteq> currentThread k) (
     bindR (thread_of k t) (\<lambda>_. Inr (k\<lparr>threads := (threads k)(t := None)\<rparr>)))"

definition after_switch :: "kern \<Rightarrow> kern res" where
  "after_switch k = (case threadToBeDestroyed k of None \<Rightarrow> Inr k
     | Some t \<Rightarrow> bindR (delete_thread t k) (\<lambda>k. Inr (k\<lparr>threadToBeDestroyed := None\<rparr>)))"

section \<open>Threads\<close>

text \<open>
  \<open>Sleep\<close> blocks the current thread; its loop looks for another one to run, and idles (waiting for
  an interrupt) while there is none.
\<close>

definition Sleep :: "frame list \<Rightarrow> kern \<Rightarrow> kern res" where
  "Sleep rest k = ASSERT (klevel k = IntOff) (
     bindR (setStatus_of (currentThread k) BLOCKED k) (\<lambda>k. Inr (push (FSleep # rest) k)))"

definition Sleep_loop :: "kern \<Rightarrow> kern res" where
  "Sleep_loop k =
     bindR (FindNextToRun k) (\<lambda>(k, nextThread).
     case nextThread of None \<Rightarrow> Inr (push [FSleep] k) | Some t \<Rightarrow> Run t k)"

definition Yield :: "kern \<Rightarrow> kern res" where
  "Yield k =
     (let oldLevel = klevel k; k = set_level IntOff k in
      bindR (FindNextToRun k) (\<lambda>(k, nextThread).
      case nextThread of None \<Rightarrow> Inr (set_level oldLevel k)
      | Some t \<Rightarrow>
          bindR (ReadyToRun (currentThread k) k) (\<lambda>k.
          Run t (push [FSetLevel oldLevel] k))))"

text \<open>\<open>StackAllocate\<close> makes a stack that starts in \<open>ThreadRoot\<close>, which turns interrupts on.\<close>

definition Fork :: "nat \<Rightarrow> kern \<Rightarrow> kern res" where
  "Fork t k =
     bindR (thread_of k t) (\<lambda>_.
     let k = k\<lparr>stacks := (stacks k)(t := [FSetLevel IntOn])\<rparr>; oldLevel = klevel k; k = set_level IntOff k in
     bindR (ReadyToRun t k) (\<lambda>k. Inr (set_level oldLevel k)))"

section \<open>Semaphores\<close>

definition set_sem :: "nat \<Rightarrow> semaphore \<Rightarrow> kern \<Rightarrow> kern" where
  "set_sem i x k = k\<lparr>semaphores := (semaphores k)[i := x]\<rparr>"

definition set_lock :: "nat \<Rightarrow> lock \<Rightarrow> kern \<Rightarrow> kern" where
  "set_lock i x k = k\<lparr>locks := (locks k)[i := x]\<rparr>"

definition set_cond :: "nat \<Rightarrow> condition \<Rightarrow> kern \<Rightarrow> kern" where
  "set_cond i x k = k\<lparr>conditions := (conditions k)[i := x]\<rparr>"

definition wake :: "nat option \<Rightarrow> kern \<Rightarrow> kern res" where
  "wake thread k = (case thread of None \<Rightarrow> Inr k | Some t \<Rightarrow> ReadyToRun t k)"

definition P_loop :: "nat \<Rightarrow> IntStatus \<Rightarrow> kern \<Rightarrow> kern res" where
  "P_loop i oldLevel k =
     bindR (fetch (semaphores k) i) (\<lambda>s.
     if s_value s = 0 then
       bindR (getPriority k (currentThread k)) (\<lambda>p.
       bindR (lst_SortedInsert (s_queue s) (Some (currentThread k)) p) (\<lambda>q.
       Sleep [FP_loop i oldLevel] (set_sem i (s\<lparr>s_queue := q\<rparr>) k)))
     else Inr (set_level oldLevel (set_sem i (s\<lparr>s_value := s_value s - 1\<rparr>) k)))"

definition P :: "nat \<Rightarrow> kern \<Rightarrow> kern res" where
  "P i k = P_loop i (klevel k) (set_level IntOff k)"

definition V :: "nat \<Rightarrow> kern \<Rightarrow> kern res" where
  "V i k =
     (let oldLevel = klevel k; k = set_level IntOff k in
      bindR (fetch (semaphores k) i) (\<lambda>s.
      bindR (lst_Remove (s_queue s)) (\<lambda>(q, thread).
      bindR (wake thread (set_sem i (s\<lparr>s_queue := q\<rparr>) k)) (\<lambda>k.
      Inr (set_level oldLevel (set_sem i (s\<lparr>s_queue := q, s_value := s_value s + 1\<rparr>) k))))))"

section \<open>Locks\<close>

text \<open>
  A lock records the name of the thread that took it, in an array of 1024 bytes. The name is
  compared character by character up to the terminating NUL, which HOL strings leave out.
\<close>

definition isHeldByCurrentThread :: "kern \<Rightarrow> lock \<Rightarrow> bool res" where
  "isHeldByCurrentThread k l =
     bindR (thread_of k (currentThread k)) (\<lambda>th.
     let threadNameSize = length (l_threadName l); threadNameSize2 = length (t_name th) in
     if threadNameSize \<noteq> threadNameSize2 then Inr False
     else if \<exists>i \<in> {0..<threadNameSize}. l_threadName l ! i \<noteq> t_name th ! i then Inr False
     else Inr (l_held l))"

definition Acquire_loop :: "nat \<Rightarrow> IntStatus \<Rightarrow> kern \<Rightarrow> kern res" where
  "Acquire_loop i oldLevel k =
     bindR (fetch (locks k) i) (\<lambda>l.
     if l_held l then
       bindR (getPriority k (currentThread k)) (\<lambda>p.
       bindR (lst_SortedInsert (l_Q l) (Some (currentThread k)) p) (\<lambda>q.
       Sleep [FAcquire_loop i oldLevel] (set_lock i (l\<lparr>l_Q := q\<rparr>) k)))
     else
       bindR (thread_of k (currentThread k)) (\<lambda>th.
       if length (t_name th) \<ge> 1024 then Inl BadAccess
       else Inr (set_level oldLevel (set_lock i (l\<lparr>l_held := True, l_threadName := t_name th\<rparr>) k))))"

definition Acquire :: "nat \<Rightarrow> kern \<Rightarrow> kern res" where
  "Acquire i k =
     (let oldLevel = klevel k; k = set_level IntOff k in
      bindR (fetch (locks k) i) (\<lambda>l.
      bindR (isHeldByCurrentThread k l) (\<lambda>mine.
      if \<not> mine then Acquire_loop i oldLevel k else Inr (set_level oldLevel k))))"

definition Release :: "nat \<Rightarrow> kern \<Rightarrow> kern res" where
  "Release i k =
     (let oldLevel = klevel k; k = set_level IntOff k in
      bindR (fetch (locks k) i) (\<lambda>l.
      bindR (isHeldByCurrentThread k l) (\<lambda>mine. ASSERT mine (
      bindR (if lst_IsEmpty (l_Q l) then Inr (l_Q l, None) else lst_Remove (l_Q l)) (\<lambda>(q, thread).
      bindR (wake thread (set_lock i (l\<lparr>l_Q := q\<rparr>) k)) (\<lambda>k.
      Inr (set_level oldLevel (set_lock i (l\<lparr>l_Q := q, l_held := False\<rparr>) k))))))))"

section \<open>Condition variables\<close>

definition holds_lock :: "kern \<Rightarrow> nat \<Rightarrow> bool res" where
  "holds_lock k i = bindR (fetch (locks k) i) (isHeldByCurrentThread k)"

definition Wait :: "nat \<Rightarrow> nat \<Rightarrow> kern \<Rightarrow> kern res" where
  "Wait c i k =
     bindR (holds_lock k i) (\<lambda>mine. ASSERT mine (
     let oldLevel = klevel k; k = set_level IntOff k in
     bindR (fetch (conditions k) c) (\<lambda>cv.
     bindR (getPriority k (currentThread k)) (\<lambda>p.
     bindR (lst_SortedInsert (c_waitList cv) (Some (currentThread k)) p) (\<lambda>q.
     bindR (Release i (set_cond c (cv\<lparr>c_waitList := q\<rparr>) k)) (\<lambda>k.
     Sleep [FAcquire i, FSetLevel oldLevel] k))))))"

definition Signal :: "nat \<Rightarrow> nat \<Rightarrow> kern \<Rightarrow> kern res" where
  "Signal c i k =
     bindR (holds_lock k i) (\<lambda>mine. ASSERT mine (
     let oldLevel = klevel k; k = set_level IntOff k in
     bindR (fetch (conditions k) c) (\<lambda>cv.
     if \<not> lst_IsEmpty (c_waitList cv) then
       bindR (lst_Remove (c_waitList cv)) (\<lambda>(q, thread).
       case thread of None \<Rightarrow> Inl BadAccess
       | Some t \<Rightarrow> bindR (ReadyToRun t (set_cond c (cv\<lparr>c_waitList := q\<rparr>) k)) (\<lambda>k. Inr (set_level oldLevel k)))
     else Inr (set_level oldLevel k))))"

text \<open>The loop of \<open>Broadcast\<close> ends at the first null pointer; \<open>n\<close> bounds its rounds.\<close>

primrec wake_all :: "nat \<Rightarrow> nat \<Rightarrow> kern \<Rightarrow> kern res" where
  "wake_all c 0 k = Inl OutOfFuel"
| "wake_all c (Suc n) k =
     bindR (fetch (conditions k) c) (\<lambda>cv.
     bindR (lst_Remove (c_waitList cv)) (\<lambda>(q, thread).
     case thread of None \<Rightarrow> Inr (set_cond c (cv\<lparr>c_waitList := q\<rparr>) k)
     | Some t \<Rightarrow> bindR (ReadyToRun t (set_cond c (cv\<lparr>c_waitList := q\<rparr>) k)) (wake_all c n)))"

definition Broadcast :: "nat \<Rightarrow> nat \<Rightarrow> kern \<Rightarrow> kern res" where
  "Broadcast c i k =
     bindR (holds_lock k i) (\<lambda>mine. ASSERT mine (
     let oldLevel = klevel k; k = set_level IntOff k in
     bindR (fetch (conditions k) c) (\<lambda>cv.
     bindR (wake_all c (Suc (length (lst_elems (c_waitList cv)))) k) (\<lambda>k.
     Inr (set_level oldLevel k)))))"

section \<open>Finishing and joining threads\<close>

definition Finish :: "kern \<Rightarrow> kern res" where
  "Finish k =
     bindR (thread_of k (currentThread k)) (\<lambda>th.
     ASSERT (t_join th \<noteq> 0 \<longrightarrow> t_joinCalled th) (
     Inr (if t_join th \<noteq> 0
       then push [FAcquire (t_threadLock th), FFinish_set, FFinish_loop, FRelease (t_threadLock th), FFinish_end] k
       else push [FFinish_end] k)))"

definition Finish_set :: "kern \<Rightarrow> kern res" where
  "Finish_set k =
     bindR (thread_of k (currentThread k)) (\<lambda>th.
     bindR (upd_thread (currentThread k) (\<lambda>th. th\<lparr>t_threadFinished := True\<rparr>) k)
       (Signal (t_condition th) (t_threadLock th)))"

definition Finish_loop :: "kern \<Rightarrow> kern res" where
  "Finish_loop k =
     bindR (thread_of k (currentThread k)) (\<lambda>th.
     if \<not> t_finishedJoining th
     then Wait (t_condition th) (t_threadLock th) (push [FFinish_loop] k) else Inr k)"

definition Finish_end :: "kern \<Rightarrow> kern res" where
  "Finish_end k = Sleep [] (set_level IntOff (k\<lparr>threadToBeDestroyed := Some (currentThread k)\<rparr>))"

definition Join :: "nat \<Rightarrow> kern \<Rightarrow> kern res" where
  "Join t k = ASSERT (t \<noteq> currentThread k) (
     bindR (thread_of k t) (\<lambda>th. ASSERT (\<not> t_joinCalled th) (
     bindR (upd_thread t (\<lambda>th. th\<lparr>t_joinCalled := True\<rparr>) k) (\<lambda>k.
     if t_threadFinished th then Inr k
     else ASSERT (t_join th \<noteq> 0) (ASSERT (t_status th \<noteq> JUST_CREATED) (
       Inr (push [FAcquire (t_threadLock th), FJoin_loop t, FJoin_set t, FRelease (t_threadLock th)] k)))))))"

definition Join_loop :: "nat \<Rightarrow> kern \<Rightarrow> kern res" where
  "Join_loop t k =
     bindR (thread_of k t) (\<lambda>th.
     if \<not> t_threadFinished th
     then Wait (t_condition th) (t_threadLock th) (push [FJoin_loop t] k) else Inr k)"

definition Join_set :: "nat \<Rightarrow> kern \<Rightarrow> kern res" where
  "Join_set t k =
     bindR (thread_of k t) (\<lambda>th.
     bindR (upd_thread t (\<lambda>th. th\<lparr>t_finishedJoining := True\<rparr>) k) (Signal (t_condition th) (t_threadLock th)))"

section \<open>Mailboxes\<close>

definition set_mailbox :: "nat \<Rightarrow> mailbox \<Rightarrow> kern \<Rightarrow> kern" where
  "set_mailbox i x k = k\<lparr>mailboxes := (mailboxes k)[i := x]\<rparr>"

definition Send_arrive :: "nat \<Rightarrow> kern \<Rightarrow> kern res" where
  "Send_arrive i k =
     bindR (fetch (mailboxes k) i) (\<lambda>m.
     let k = set_mailbox i (m\<lparr>m_numItems := m_numItems m + 1\<rparr>) k in
     if m_numItems m + 1 > 0 then Wait (m_mailboxCV m) (m_boxLock m) k else Signal (m_mailboxCV m) (m_boxLock m) k)"

definition Send_loop :: "nat \<Rightarrow> kern \<Rightarrow> kern res" where
  "Send_loop i k =
     bindR (fetch (mailboxes k) i) (\<lambda>m.
     if m_bufferSet m then Wait (m_bufferCV m) (m_bufferLock m) (push [FSend_loop i] k) else Inr k)"

definition Send_put :: "nat \<Rightarrow> int \<Rightarrow> kern \<Rightarrow> kern res" where
  "Send_put i message k =
     bindR (fetch (mailboxes k) i) (\<lambda>m.
     Signal (m_bufferCV m) (m_bufferLock m) (set_mailbox i (m\<lparr>m_buffer := message, m_bufferSet := True\<rparr>) k))"

definition Send :: "mailbox \<Rightarrow> nat \<Rightarrow> int \<Rightarrow> frame list" where
  "Send m i message =
     [FAcquire (m_boxLock m), FSend_arrive i, FRelease (m_boxLock m),
      FP (m_empty m), FAcquire (m_bufferLock m), FSend_loop i, FSend_put i message,
      FRelease (m_bufferLock m), FV (m_full m)]"

definition Receive_arrive :: "nat \<Rightarrow> kern \<Rightarrow> kern res" where
  "Receive_arrive i k =
     bindR (fetch (mailboxes k) i) (\<lambda>m.
     let k = set_mailbox i (m\<lparr>m_numItems := m_numItems m - 1\<rparr>) k in
     if m_numItems m - 1 < 0 then Wait (m_mailboxCV m) (m_boxLock m) k else Signal (m_mailboxCV m) (m_boxLock m) k)"

definition Receive_loop :: "nat \<Rightarrow> kern \<Rightarrow> kern res" where
  "Receive_loop i k =
     bindR (fetch (mailboxes k) i) (\<lambda>m.
     if \<not> m_bufferSet m then Wait (m_bufferCV m) (m_bufferLock m) (push [FReceive_loop i] k) else Inr k)"

definition Receive_take :: "nat \<Rightarrow> kern \<Rightarrow> kern res" where
  "Receive_take i k =
     bindR (fetch (mailboxes k) i) (\<lambda>m.
     Signal (m_bufferCV m) (m_bufferLock m)
       (set_mailbox i (m\<lparr>m_bufferSet := False\<rparr>)
         (k\<lparr>results := (results k)(currentThread k \<mapsto> m_buffer m)\<rparr>)))"

definition Receive :: "mailbox \<Rightarrow> nat \<Rightarrow> frame list" where
  "Receive m i =
     [FAcquire (m_boxLock m), FReceive_arrive i, FRelease (m_boxLock m),
      FP (m_full m), FAcquire (m_bufferLock m), FReceive_loop i, FReceive_take i,
      FRelease (m_bufferLock m), FV (m_empty m)]"

section \<open>Synchronized lists\<close>

definition set_synch_list :: "nat \<Rightarrow> synch_list \<Rightarrow> kern \<Rightarrow> kern" where
  "set_synch_list i x k = k\<lparr>synch_lists := (synch_lists k)[i := x]\<rparr>"

definition List_append :: "nat \<Rightarrow> int \<Rightarrow> kern \<Rightarrow> kern res" where
  "List_append i item k =
     bindR (fetch (synch_lists k) i) (\<lambda>sl.
     bindR (lst_Append (sl_list sl) (Some item)) (\<lambda>q.
     Signal (sl_listEmpty sl) (sl_lock sl) (set_synch_list i (sl\<lparr>sl_list := q\<rparr>) k)))"

definition SynchList_Append :: "synch_list \<Rightarrow> nat \<Rightarrow> int \<Rightarrow> frame list" where
  "SynchList_Append sl i item = [FAcquire (sl_lock sl), FList_append i item, FRelease (sl_lock sl)]"

definition List_loop :: "nat \<Rightarrow> kern \<Rightarrow> kern res" where
  "List_loop i k =
     bindR (fetch (synch_lists k) i) (\<lambda>sl.
     if lst_IsEmpty (sl_list sl) then Wait (sl_listEmpty sl) (sl_lock sl) (push [FList_loop i] k) else Inr k)"

definition List_take :: "nat \<Rightarrow> kern \<Rightarrow> kern res" where
  "List_take i k =
     bindR (fetch (synch_lists k) i) (\<lambda>sl.
     bindR (lst_Remove (sl_list sl)) (\<lambda>(q, item). ASSERT (item \<noteq> None) (
     Inr (set_synch_list i (sl\<lparr>sl_list := q\<rparr>) (k\<lparr>results := (results k)(currentThread k := item)\<rparr>)))))"

definition SynchList_Remove :: "synch_list \<Rightarrow> nat \<Rightarrow> frame list" where
  "SynchList_Remove sl i = [FAcquire (sl_lock sl), FList_loop i, FList_take i, FRelease (sl_lock sl)]"

section \<open>The whale\<close>

definition set_whale :: "nat \<Rightarrow> whale \<Rightarrow> kern \<Rightarrow> kern" where
  "set_whale i x k = k\<lparr>whales := (whales k)[i := x]\<rparr>"

definition signal_both :: "nat \<Rightarrow> nat \<Rightarrow> nat \<Rightarrow> kern \<Rightarrow> kern res" where
  "signal_both c c' l k = bindR (Signal c l k) (Signal c' l)"

definition Male :: "nat \<Rightarrow> kern \<Rightarrow> kern res" where
  "Male i k =
     bindR (fetch (whales k) i) (\<lambda>w.
     let n = w_numMales w + 1; k = set_whale i (w\<lparr>w_numMales := n\<rparr>) k in
     if w_numFemales w < n \<or> w_numMM w < n then Wait (w_maleCV w) (w_whaleLock w) k
     else signal_both (w_femaleCV w) (w_mmCV w) (w_whaleLock w) k)"

definition Female :: "nat \<Rightarrow> kern \<Rightarrow> kern res" where
  "Female i k =
     bindR (fetch (whales k) i) (\<lambda>w.
     let n = w_numFemales w + 1; k = set_whale i (w\<lparr>w_numFemales := n\<rparr>) k in
     if w_numMales w < n \<or> w_numMM w < n then Wait (w_femaleCV w) (w_whaleLock w) k
     else signal_both (w_maleCV w) (w_mmCV w) (w_whaleLock w) k)"

definition Matchmaker :: "nat \<Rightarrow> kern \<Rightarrow> kern res" where
  "Matchmaker i k =
     bindR (fetch (whales k) i) (\<lambda>w.
     let n = w_numMM w + 1; k = set_whale i (w\<lparr>w_numMM := n\<rparr>) k in
     if w_numFemales w < n \<or> w_numMales w < n then Wait (w_mmCV w) (w_whaleLock w) k
     else signal_both (w_maleCV w) (w_femaleCV w) (w_whaleLock w) k)"

definition Done :: "nat \<Rightarrow> kern \<Rightarrow> kern res" where
  "Done i k =
     bindR (fetch (whales k) i) (\<lambda>w.
     Inr (set_whale i (w\<lparr>w_tripletsMade := w_tripletsMade w + 1,
       w_tripletsCounter := (w_tripletsMade w + 1) sdiv 3\<rparr>) k))"

definition whale_call :: "(nat \<Rightarrow> frame) \<Rightarrow> whale \<Rightarrow> nat \<Rightarrow> frame list" where
  "whale_call arrive w i = [FAcquire (w_whaleLock w), arrive i, FDone i, FRelease (w_whaleLock w)]"

section \<open>New objects\<close>

text \<open>
  The constructor without a join value, and the one with: the latter leaves two flags as the memory
  held them (\<open>f\<close>, \<open>g\<close>), and makes no lock and no condition, when the value is 0. The address \<open>t\<close>
  comes from \<open>new\<close>; \<open>junk\<close> is what the array of a new lock holds.
\<close>

definition Lock_new :: "string \<Rightarrow> lock" where
  "Lock_new junk = \<lparr>l_held = False, l_threadName = junk, l_Q = empty_list\<rparr>"

definition Condition_new :: condition where
  "Condition_new = \<lparr>c_waitList = empty_list\<rparr>"

definition Semaphore_new :: "int \<Rightarrow> semaphore" where
  "Semaphore_new initialValue = \<lparr>s_value = initialValue, s_queue = empty_list\<rparr>"

definition add_semaphore :: "int \<Rightarrow> kern \<Rightarrow> kern" where
  "add_semaphore initialValue k = k\<lparr>semaphores := semaphores k @ [Semaphore_new initialValue]\<rparr>"

definition add_lock :: "string \<Rightarrow> kern \<Rightarrow> kern" where
  "add_lock junk k = k\<lparr>locks := locks k @ [Lock_new junk]\<rparr>"

definition add_condition :: "kern \<Rightarrow> kern" where
  "add_condition k = k\<lparr>conditions := conditions k @ [Condition_new]\<rparr>"

definition Mailbox_new :: "string \<Rightarrow> string \<Rightarrow> int \<Rightarrow> kern \<Rightarrow> kern" where
  "Mailbox_new junk junk' b k =
     (let l = length (locks k); c = length (conditions k); s = length (semaphores k);
          m = \<lparr>m_boxLock = l, m_bufferLock = l + 1, m_numItems = 0, m_buffer = b, m_bufferSet = False,
               m_mailboxCV = c + 1, m_bufferCV = c, m_empty = s, m_full = s + 1\<rparr>;
          k = add_semaphore 0 (add_semaphore 1 (add_condition (add_condition (add_lock junk' (add_lock junk k)))))
      in k\<lparr>mailboxes := mailboxes k @ [m]\<rparr>)"

definition SynchList_new :: "string \<Rightarrow> kern \<Rightarrow> kern" where
  "SynchList_new junk k =
     (let sl = \<lparr>sl_list = empty_list, sl_lock = length (locks k), sl_listEmpty = length (conditions k)\<rparr>;
          k = add_condition (add_lock junk k)
      in k\<lparr>synch_lists := synch_lists k @ [sl]\<rparr>)"

definition Whale_new :: "string \<Rightarrow> kern \<Rightarrow> kern" where
  "Whale_new junk k =
     (let c = length (conditions k);
          w = \<lparr>w_numMales = 0, w_numFemales = 0, w_numMM = 0, w_tripletsCounter = 0, w_tripletsMade = 0,
               w_whaleLock = length (locks k), w_maleCV = c, w_femaleCV = c + 1, w_mmCV = c + 2\<rparr>;
          k = add_condition (add_condition (add_condition (add_lock junk k)))
      in k\<lparr>whales := whales k @ [w]\<rparr>)"

definition Thread_new :: "nat \<Rightarrow> string \<Rightarrow> string \<Rightarrow> bool \<Rightarrow> kern \<Rightarrow> kern" where
  "Thread_new t threadName junk g k =
     (add_condition (add_lock junk k))\<lparr>threads := (threads k)(t \<mapsto>
        \<lparr>t_name = threadName, t_status = JUST_CREATED, t_priority = 0, t_join = 0, t_joinCalled = False,
         t_threadFinished = False, t_finishedJoining = g, t_threadLock = length (locks k),
         t_condition = length (conditions k)\<rparr>), stacks := (stacks k)(t := [])\<rparr>"

definition Thread_new_join :: "nat \<Rightarrow> string \<Rightarrow> int \<Rightarrow> string \<Rightarrow> bool \<Rightarrow> bool \<Rightarrow> kern \<Rightarrow> kern" where
  "Thread_new_join t threadName joinValue junk f g k =
     (if joinValue \<noteq> 0 then add_condition (add_lock junk k) else k)\<lparr>threads := (threads k)(t \<mapsto>
        \<lparr>t_name = threadName, t_status = JUST_CREATED, t_priority = 0, t_join = joinValue, t_joinCalled = False,
         t_threadFinished = (joinValue = 0 \<and> f), t_finishedJoining = (joinValue = 0 \<and> g),
         t_threadLock = length (locks k), t_condition = length (conditions k)\<rparr>),
       stacks := (stacks k)(t := [])\<rparr>"

section \<open>Running\<close>

text \<open>The current thread does its next section.\<close>

primrec exec :: "frame \<Rightarrow> kern \<Rightarrow> kern res" where
  "exec (FSetLevel lv) k = Inr (set_level lv k)"
| "exec FAfterSwitch k = after_switch k"
| "exec FSleep k = Sleep_loop k"
| "exec FYield k = Yield k"
| "exec (FFork t) k = Fork t k"
| "exec (FP i) k = P i k"
| "exec (FP_loop i lv) k = P_loop i lv k"
| "exec (FV i) k = V i k"
| "exec (FAcquire i) k = Acquire i k"
| "exec (FAcquire_loop i lv) k = Acquire_loop i lv k"
| "exec (FRelease i) k = Release i k"
| "exec (FWait c i) k = Wait c i k"
| "exec (FSignal c i) k = Signal c i k"
| "exec (FBroadcast c i) k = Broadcast c i k"
| "exec FFinish k = Finish k"
| "exec FFinish_set k = Finish_set k"
| "exec FFinish_loop k = Finish_loop k"
| "exec FFinish_end k = Finish_end k"
| "exec (FJoin t) k = Join t k"
| "exec (FJoin_loop t) k = Join_loop t k"
| "exec (FJoin_set t) k = Join_set t k"
| "exec (FSend_arrive i) k = Send_arrive i k"
| "exec (FSend_loop i) k = Send_loop i k"
| "exec (FSend_put i m) k = Send_put i m k"
| "exec (FReceive_arrive i) k = Receive_arrive i k"
| "exec (FReceive_loop i) k = Receive_loop i k"
| "exec (FReceive_take i) k = Receive_take i k"
| "exec (FList_append i x) k = List_append i x k"
| "exec (FList_loop i) k = List_loop i k"
| "exec (FList_take i) k = List_take i k"
| "exec (FMale i) k = Male i k"
| "exec (FFemale i) k = Female i k"
| "exec (FMatchmaker i) k = Matchmaker i k"
| "exec (FDone i) k = Done i k"

definition run_frame :: "kern \<Rightarrow> kern res" where
  "run_frame k = (case stacks k (currentThread k) of [] \<Rightarrow> Inl Blocked
     | f # fs \<Rightarrow> exec f (k\<lparr>stacks := (stacks k)(currentThread k := fs)\<rparr>))"

text \<open>
  What can happen next: the current thread does its next section (\<open>Step\<close>); its own code, between
  calls, calls a routine (\<open>Call\<close>), makes an object or sets a priority; the timer makes it yield while interrupts are
  on (\<open>Preempt\<close>); or a device handler does a \<open>V\<close>, while interrupts are on or the machine idles.
\<close>

datatype event =
  Step
| Call "frame list"
| New nat string string bool
| New_join nat string int string bool bool
| New_semaphore int
| New_lock string
| New_condition
| New_mailbox string string int
| New_synch_list string
| New_whale string
| Set_priority nat int
| Preempt
| Handler_V nat

definition idling :: "kern \<Rightarrow> bool" where
  "idling k \<longleftrightarrow> (case stacks k (currentThread k) of FSleep # _ \<Rightarrow> lst_IsEmpty (readyList k) | _ \<Rightarrow> False)"

definition user_code :: "kern \<Rightarrow> bool" where
  "user_code k \<longleftrightarrow> stacks k (currentThread k) = [] \<and> klevel k = IntOn"

primrec kstep :: "event \<Rightarrow> kern \<Rightarrow> kern res" where
  "kstep Step k = run_frame k"
| "kstep (Call fs) k = (if user_code k then Inr (push fs k) else Inl Blocked)"
| "kstep (New t nm junk g) k =
     (if user_code k \<and> threads k t = None then Inr (Thread_new t nm junk g k) else Inl Blocked)"
| "kstep (New_semaphore v) k = (if user_code k then Inr (add_semaphore v k) else Inl Blocked)"
| "kstep (New_lock junk) k = (if user_code k then Inr (add_lock junk k) else Inl Blocked)"
| "kstep New_condition k = (if user_code k then Inr (add_condition k) else Inl Blocked)"
| "kstep (New_mailbox junk junk' b) k = (if user_code k then Inr (Mailbox_new junk junk' b k) else Inl Blocked)"
| "kstep (New_synch_list junk) k = (if user_code k then Inr (SynchList_new junk k) else Inl Blocked)"
| "kstep (New_whale junk) k = (if user_code k then Inr (Whale_new junk k) else Inl Blocked)"
| "kstep (New_join t nm join junk f g) k =
     (if user_code k \<and> threads k t = None then Inr (Thread_new_join t nm join junk f g k) else Inl Blocked)"
| "kstep (Set_priority t p) k = (if user_code k then setPriority t p k else Inl Blocked)"
| "kstep Preempt k = (if klevel k = IntOn then Yield k else Inl Blocked)"
| "kstep (Handler_V i) k = (if klevel k = IntOn \<or> idling k then V i k else Inl Blocked)"

primrec krun :: "event list \<Rightarrow> kern \<Rightarrow> kern res" where
  "krun [] k = Inr k"
| "krun (e # es) k = bindR (kstep e k) (krun es)"

text \<open>
  What the callers owe: they call only routines, not the inner sections of one, and fork a thread
  once, after making it.
\<close>

primrec api_frame :: "frame \<Rightarrow> bool" where
  "api_frame (FSetLevel lv) = False"
| "api_frame FAfterSwitch = False"
| "api_frame FSleep = False"
| "api_frame FYield = True"
| "api_frame (FFork t) = True"
| "api_frame (FP i) = True"
| "api_frame (FP_loop i lv) = False"
| "api_frame (FV i) = True"
| "api_frame (FAcquire i) = True"
| "api_frame (FAcquire_loop i lv) = False"
| "api_frame (FRelease i) = True"
| "api_frame (FWait c i) = True"
| "api_frame (FSignal c i) = True"
| "api_frame (FBroadcast c i) = True"
| "api_frame FFinish = True"
| "api_frame FFinish_set = False"
| "api_frame FFinish_loop = False"
| "api_frame FFinish_end = False"
| "api_frame (FJoin t) = True"
| "api_frame (FJoin_loop t) = False"
| "api_frame (FJoin_set t) = False"
| "api_frame (FSend_arrive i) = True"
| "api_frame (FSend_loop i) = True"
| "api_frame (FSend_put i m) = True"
| "api_frame (FReceive_arrive i) = True"
| "api_frame (FReceive_loop i) = True"
| "api_frame (FReceive_take i) = True"
| "api_frame (FList_append i x) = True"
| "api_frame (FList_loop i) = True"
| "api_frame (FList_take i) = True"
| "api_frame (FMale i) = True"
| "api_frame (FFemale i) = True"
| "api_frame (FMatchmaker i) = True"
| "api_frame (FDone i) = True"

definition event_ok :: "event \<Rightarrow> kern \<Rightarrow> bool" where
  "event_ok e k = (case e of
     Call fs \<Rightarrow> list_all api_frame fs
   | Step \<Rightarrow> (case stacks k (currentThread k) of
       FFork t # _ \<Rightarrow> map_option t_status (threads k t) = Some JUST_CREATED
     | _ \<Rightarrow> True)
   | _ \<Rightarrow> True)"

inductive reachable :: "kern \<Rightarrow> kern \<Rightarrow> bool" for k0 where
  start: "reachable k0 k0"
| step: "reachable k0 k \<Longrightarrow> event_ok e k \<Longrightarrow> kstep e k = Inr k' \<Longrightarrow> reachable k0 k'"

inductive_cases reachableE: "reachable k0 k"

text \<open>\<open>Initialize\<close>: the thread \<open>main\<close> (number 0) runs, with interrupts on, and nothing else exists.\<close>

definition boot :: "string \<Rightarrow> bool \<Rightarrow> kern" where
  "boot junk g =
     (let k = Thread_new 0 ''main'' junk g
        \<lparr>threads = (\<lambda>_. None), stacks = (\<lambda>_. []), currentThread = 0, threadToBeDestroyed = None, klevel = IntOn,
         readyList = empty_list, semaphores = [], locks = [], conditions = [], mailboxes = [],
         synch_lists = [], whales = [], results = (\<lambda>_. None)\<rparr>
      in k\<lparr>threads := (threads k)(0 \<mapsto> (the (threads k 0))\<lparr>t_status := RUNNING\<rparr>)\<rparr>)"

end
