(* ===== verification/KernelInv.thy ===== *)
theory KernelInv
  imports Kernel
begin

text \<open>
  The invariant of the thread kernel: every thread is accounted for. A thread is in the ready list
  exactly while its status is \<open>READY\<close>, once; it waits in at most one queue of a semaphore, lock or
  condition, and only while it is \<open>BLOCKED\<close>; only the current thread is \<open>RUNNING\<close>; and no queue
  refers to a thread that was deleted.
\<close>

section \<open>Queues of threads\<close>

definition queue_ok :: "nat lst \<Rightarrow> bool" where
  "queue_ok q \<longleftrightarrow> lst_ok q \<and> key_sorted (lst_elems q) \<and> (\<forall>e \<in> set (lst_elems q). snd e \<noteq> None)"

definition ids :: "nat lst \<Rightarrow> nat multiset" where
  "ids q = mset (map (the \<circ> snd) (lst_elems q))"

lemma queue_ok_empty [simp]: "queue_ok empty_list" "ids empty_list = {#}"
  by (simp_all add: queue_ok_def ids_def key_sorted_def)

lemma insert_queue:
  assumes "queue_ok q"
  shows "\<exists>q'. lst_SortedInsert q (Some t) p = Inr q' \<and> queue_ok q' \<and> ids q' = add_mset t (ids q)"
proof -
  have ok: "lst_ok q" using assms by (simp add: queue_ok_def)
  obtain q' where q': "lst_SortedInsert q (Some t) p = Inr q'" "lst_ok q'"
      "lst_elems q' = sorted_ins p (Some t) (lst_elems q)"
    using lq.ins_ok [OF ok, of "Some t" p] by blast
  have "mset (lst_elems q') = add_mset (p, Some t) (mset (lst_elems q))" using q'(3) by (simp add: mset_sorted_ins)
  then have "ids q' = add_mset t (ids q)" by (simp add: ids_def)
  moreover have "queue_ok q'"
    using assms q'(2,3) key_sorted_ins [of "lst_elems q"] by (auto simp: queue_ok_def set_sorted_ins)
  ultimately show ?thesis using q'(1) by blast
qed

lemma remove_queue:
  assumes "queue_ok q"
  shows "\<exists>q' x key. lst_SortedRemove q = Inr (q', x, key) \<and> lst_Remove q = Inr (q', x) \<and> queue_ok q' \<and>
    (case x of None \<Rightarrow> ids q = {#} \<and> q' = q | Some t \<Rightarrow> ids q = add_mset t (ids q'))"
proof -
  have ok: "lst_ok q" "key_sorted (lst_elems q)" "\<forall>e \<in> set (lst_elems q). snd e \<noteq> None"
    using assms by (simp_all add: queue_ok_def)
  have rm: "lst_Remove q = bindR (lst_SortedRemove q) (\<lambda>(q', x, _). Inr (q', x))"
    by (simp add: lst_Remove_def lst_SortedRemove_def Remove_def bindR_assoc split_def)
  show ?thesis
  proof (cases "lst_elems q")
    case Nil
    then show ?thesis using lq.rem_Nil [OF ok(1) Nil] assms by (simp add: rm ids_def)
  next
    case (Cons e es)
    obtain q' where q': "lst_SortedRemove q = Inr (q', snd e, Some (fst e))" "lst_ok q'" "lst_elems q' = es"
      using lq.rem_Cons [OF ok(1) Cons] by blast
    obtain t where t: "snd e = Some t" using ok(3) Cons by auto
    have "queue_ok q'" using ok q'(2,3) Cons by (simp add: queue_ok_def key_sorted_def)
    moreover have "ids q = add_mset t (ids q')" using Cons q'(3) t by (simp add: ids_def)
    ultimately show ?thesis using q'(1) t by (auto simp: rm)
  qed
qed

lemma IsEmpty_queue: "queue_ok q \<Longrightarrow> lst_IsEmpty q \<longleftrightarrow> ids q = {#}"
  by (simp add: queue_ok_def lst_IsEmpty_iff ids_def)

section \<open>The invariant\<close>

definition rq :: "kern \<Rightarrow> nat multiset" where
  "rq k = ids (readyList k)"

definition wq :: "kern \<Rightarrow> nat multiset" where
  "wq k = (\<Sum>s \<leftarrow> semaphores k. ids (s_queue s)) + (\<Sum>l \<leftarrow> locks k. ids (l_Q l)) +
     (\<Sum>c \<leftarrow> conditions k. ids (c_waitList c))"

definition queues_ok :: "kern \<Rightarrow> bool" where
  "queues_ok k \<longleftrightarrow> queue_ok (readyList k) \<and> (\<forall>s \<in> set (semaphores k). queue_ok (s_queue s)) \<and>
     (\<forall>l \<in> set (locks k). queue_ok (l_Q l)) \<and> (\<forall>c \<in> set (conditions k). queue_ok (c_waitList c))"

definition st :: "kern \<Rightarrow> nat \<Rightarrow> ThreadStatus option" where
  "st k t = map_option t_status (threads k t)"

text \<open>\<open>lim\<close> holds the threads that a routine is moving.\<close>

definition placed :: "nat set \<Rightarrow> kern \<Rightarrow> bool" where
  "placed lim k \<longleftrightarrow> queues_ok k \<and>
     (\<forall>t. count (rq k) t = (if st k t = Some READY \<and> t \<notin> lim then 1 else 0)) \<and>
     (\<forall>t. count (wq k) t \<le> (if st k t = Some BLOCKED \<or> t \<in> lim then 1 else 0))"

lemma placedI:
  "queues_ok k \<Longrightarrow> (\<And>t. count (rq k) t = (if st k t = Some READY \<and> t \<notin> lim then 1 else 0)) \<Longrightarrow>
   (\<And>t. count (wq k) t \<le> (if st k t = Some BLOCKED \<or> t \<in> lim then 1 else 0)) \<Longrightarrow> placed lim k"
  by (simp add: placed_def)

lemma placedD:
  assumes "placed lim k"
  shows "queues_ok k" "count (rq k) t = (if st k t = Some READY \<and> t \<notin> lim then 1 else 0)"
    "count (wq k) t \<le> (if st k t = Some BLOCKED \<or> t \<in> lim then 1 else 0)"
  using assms by (simp_all add: placed_def)

definition carcass_ok :: "kern \<Rightarrow> bool" where
  "carcass_ok k \<longleftrightarrow> (\<forall>t. threadToBeDestroyed k = Some t \<longrightarrow> st k t = Some BLOCKED \<and> t \<notin># wq k)"

definition only_current_runs :: "kern \<Rightarrow> bool" where
  "only_current_runs k \<longleftrightarrow> (\<forall>t. st k t = Some RUNNING \<longrightarrow> t = currentThread k)"

text \<open>The current thread runs; or it sleeps, with interrupts off, and looks for another one.\<close>

definition running :: "nat set \<Rightarrow> kern \<Rightarrow> bool" where
  "running lim k \<longleftrightarrow> placed lim k \<and> carcass_ok k \<and> only_current_runs k \<and>
     st k (currentThread k) = Some RUNNING \<and> (\<forall>t. FSleep \<notin> set (stacks k t))"

definition sleeping :: "kern \<Rightarrow> bool" where
  "sleeping k \<longleftrightarrow> placed {} k \<and> carcass_ok k \<and> only_current_runs k \<and> klevel k = IntOff \<and>
     st k (currentThread k) \<in> {Some BLOCKED, Some READY} \<and>
     (\<exists>fs. stacks k (currentThread k) = FSleep # fs \<and> FSleep \<notin> set fs) \<and>
     (\<forall>t. t \<noteq> currentThread k \<longrightarrow> FSleep \<notin> set (stacks k t))"

definition kinv :: "kern \<Rightarrow> bool" where
  "kinv k \<longleftrightarrow> running {} k \<or> sleeping k"

section \<open>Frame lemmas\<close>

lemma sum_list_update_mset:
  "i < length xs \<Longrightarrow> f x + (\<Sum>y \<leftarrow> xs. f y) = f (xs ! i) + ((\<Sum>y \<leftarrow> xs[i := x]. f y) :: 'b multiset)"
proof (induction xs arbitrary: i)
  case (Cons a xs)
  then show ?case by (cases i) (auto simp: ac_simps)
qed simp

lemma wq_set_sem: "i < length (semaphores k) \<Longrightarrow>
    ids (s_queue x) + wq k = ids (s_queue (semaphores k ! i)) + wq (set_sem i x k)"
  using sum_list_update_mset [of i "semaphores k" "\<lambda>s. ids (s_queue s)" x] by (simp add: wq_def set_sem_def ac_simps)

lemma wq_set_lock: "i < length (locks k) \<Longrightarrow>
    ids (l_Q x) + wq k = ids (l_Q (locks k ! i)) + wq (set_lock i x k)"
  using sum_list_update_mset [of i "locks k" "\<lambda>s. ids (l_Q s)" x] by (simp add: wq_def set_lock_def ac_simps)

lemma wq_set_cond: "i < length (conditions k) \<Longrightarrow>
    ids (c_waitList x) + wq k = ids (c_waitList (conditions k ! i)) + wq (set_cond i x k)"
  using sum_list_update_mset [of i "conditions k" "\<lambda>s. ids (c_waitList s)" x] by (simp add: wq_def set_cond_def ac_simps)

lemma fetch_ok [simp]: "fetch xs i = Inr x \<longleftrightarrow> i < length xs \<and> x = xs ! i"
  by (auto simp: fetch_def)

lemma thread_of_ok [simp]: "thread_of k t = Inr th \<longleftrightarrow> threads k t = Some th"
  by (auto simp: thread_of_def split: option.splits)

text \<open>A routine that only moves threads to the ready list.\<close>

definition same_rest :: "kern \<Rightarrow> kern \<Rightarrow> bool" where
  "same_rest k k' \<longleftrightarrow> stacks k' = stacks k \<and> currentThread k' = currentThread k \<and> klevel k' = klevel k \<and>
     threadToBeDestroyed k' = threadToBeDestroyed k \<and> semaphores k' = semaphores k \<and> locks k' = locks k \<and>
     conditions k' = conditions k"

lemma same_rest_refl [simp]: "same_rest k k"
  by (simp add: same_rest_def)

lemma same_rest_trans: "same_rest k k' \<Longrightarrow> same_rest k' k'' \<Longrightarrow> same_rest k k''"
  by (simp add: same_rest_def)

lemma wq_same: "same_rest k k' \<Longrightarrow> wq k' = wq k"
  by (simp add: same_rest_def wq_def)

text \<open>Fields the invariant does not look at, and fields that some of its parts do not look at.\<close>

lemma queue_simps [simp]:
  "rq (push fs k) = rq k" "wq (push fs k) = wq k" "st (push fs k) = st k" "queues_ok (push fs k) = queues_ok k"
  "rq (set_level lv k) = rq k" "wq (set_level lv k) = wq k" "st (set_level lv k) = st k"
  "queues_ok (set_level lv k) = queues_ok k"
  "rq (k\<lparr>stacks := ss\<rparr>) = rq k" "wq (k\<lparr>stacks := ss\<rparr>) = wq k" "st (k\<lparr>stacks := ss\<rparr>) = st k"
  "queues_ok (k\<lparr>stacks := ss\<rparr>) = queues_ok k"
  "rq (k\<lparr>currentThread := c\<rparr>) = rq k" "wq (k\<lparr>currentThread := c\<rparr>) = wq k" "st (k\<lparr>currentThread := c\<rparr>) = st k"
  "queues_ok (k\<lparr>currentThread := c\<rparr>) = queues_ok k"
  "rq (k\<lparr>threadToBeDestroyed := d\<rparr>) = rq k" "wq (k\<lparr>threadToBeDestroyed := d\<rparr>) = wq k"
  "st (k\<lparr>threadToBeDestroyed := d\<rparr>) = st k" "queues_ok (k\<lparr>threadToBeDestroyed := d\<rparr>) = queues_ok k"
  "rq (k\<lparr>threads := ts\<rparr>) = rq k" "wq (k\<lparr>threads := ts\<rparr>) = wq k" "queues_ok (k\<lparr>threads := ts\<rparr>) = queues_ok k"
  "rq (k\<lparr>results := rs\<rparr>) = rq k" "wq (k\<lparr>results := rs\<rparr>) = wq k" "st (k\<lparr>results := rs\<rparr>) = st k"
  "queues_ok (k\<lparr>results := rs\<rparr>) = queues_ok k"
  "rq (set_mailbox i m k) = rq k" "wq (set_mailbox i m k) = wq k" "st (set_mailbox i m k) = st k"
  "queues_ok (set_mailbox i m k) = queues_ok k"
  "rq (set_synch_list i sl k) = rq k" "wq (set_synch_list i sl k) = wq k" "st (set_synch_list i sl k) = st k"
  "queues_ok (set_synch_list i sl k) = queues_ok k"
  "rq (set_whale i w k) = rq k" "wq (set_whale i w k) = wq k" "st (set_whale i w k) = st k"
  "queues_ok (set_whale i w k) = queues_ok k"
  "rq (set_sem i x k) = rq k" "st (set_sem i x k) = st k"
  "rq (set_lock i y k) = rq k" "st (set_lock i y k) = st k"
  "rq (set_cond i z k) = rq k" "st (set_cond i z k) = st k"
  by (simp_all add: rq_def wq_def st_def queues_ok_def push_def set_level_def set_mailbox_def
      set_synch_list_def set_whale_def set_sem_def set_lock_def set_cond_def fun_eq_iff)

lemma field_simps_k [simp]:
  "currentThread (push fs k) = currentThread k" "klevel (push fs k) = klevel k"
  "threadToBeDestroyed (push fs k) = threadToBeDestroyed k"
  "currentThread (set_level lv k) = currentThread k" "klevel (set_level lv k) = lv" "stacks (set_level lv k) = stacks k"
  "threadToBeDestroyed (set_level lv k) = threadToBeDestroyed k" "threads (set_level lv k) = threads k"
  "currentThread (set_sem i x k) = currentThread k" "klevel (set_sem i x k) = klevel k" "stacks (set_sem i x k) = stacks k"
  "threadToBeDestroyed (set_sem i x k) = threadToBeDestroyed k" "threads (set_sem i x k) = threads k"
  "currentThread (set_lock i y k) = currentThread k" "klevel (set_lock i y k) = klevel k" "stacks (set_lock i y k) = stacks k"
  "threadToBeDestroyed (set_lock i y k) = threadToBeDestroyed k" "threads (set_lock i y k) = threads k"
  "currentThread (set_cond i z k) = currentThread k" "klevel (set_cond i z k) = klevel k" "stacks (set_cond i z k) = stacks k"
  "threadToBeDestroyed (set_cond i z k) = threadToBeDestroyed k" "threads (set_cond i z k) = threads k"
  "currentThread (set_mailbox i m k) = currentThread k" "klevel (set_mailbox i m k) = klevel k" "stacks (set_mailbox i m k) = stacks k"
  "threadToBeDestroyed (set_mailbox i m k) = threadToBeDestroyed k"
  "currentThread (set_synch_list i sl k) = currentThread k" "klevel (set_synch_list i sl k) = klevel k"
  "stacks (set_synch_list i sl k) = stacks k" "threadToBeDestroyed (set_synch_list i sl k) = threadToBeDestroyed k"
  "currentThread (set_whale i w k) = currentThread k" "klevel (set_whale i w k) = klevel k" "stacks (set_whale i w k) = stacks k"
  "threadToBeDestroyed (set_whale i w k) = threadToBeDestroyed k" "threads (push fs k) = threads k"
  "semaphores (set_level lv k) = semaphores k" "locks (set_level lv k) = locks k" "conditions (set_level lv k) = conditions k"
  "semaphores (push fs k) = semaphores k" "locks (push fs k) = locks k" "conditions (push fs k) = conditions k"
  "locks (set_cond i z k) = locks k" "conditions (set_cond i z k) = (conditions k)[i := z]"
  "semaphores (set_sem i x k) = (semaphores k)[i := x]" "locks (set_lock i y k) = (locks k)[i := y]"
  by (simp_all add: push_def set_level_def set_sem_def set_lock_def set_cond_def set_mailbox_def
      set_synch_list_def set_whale_def)

lemma st_upd [simp]: "st (k\<lparr>threads := (threads k)(t \<mapsto> th)\<rparr>) = (st k)(t \<mapsto> t_status th)"
  by (simp add: st_def fun_eq_iff)

lemma st_None_iff: "st k t = None \<longleftrightarrow> threads k t = None"
  by (simp add: st_def)

lemma st_SomeE: "st k t = Some s \<Longrightarrow> \<exists>th. threads k t = Some th \<and> t_status th = s"
  by (auto simp: st_def)

section \<open>The scheduler keeps the invariant\<close>

lemma ReadyToRun_ok:
  assumes p: "placed lim k" and t: "t \<notin> lim" "st k t \<noteq> None" "st k t \<noteq> Some READY" "t \<notin># wq k"
  shows "\<exists>k'. ReadyToRun t k = Inr k' \<and> placed lim k' \<and> st k' = (st k)(t \<mapsto> READY) \<and> same_rest k k' \<and>
    rq k' = add_mset t (rq k)"
proof -
  obtain th where th: "threads k t = Some th" using t(2) by (auto simp: st_def)
  let ?k1 = "k\<lparr>threads := (threads k)(t \<mapsto> th\<lparr>t_status := READY\<rparr>)\<rparr>"
  have q: "queue_ok (readyList k)" using p by (simp add: placed_def queues_ok_def)
  obtain q' where q': "lst_SortedInsert (readyList k) (Some t) (t_priority th) = Inr q'" "queue_ok q'"
      "ids q' = add_mset t (ids (readyList k))"
    using insert_queue [OF q] by blast
  let ?k2 = "?k1\<lparr>readyList := q'\<rparr>"
  have run: "ReadyToRun t k = Inr ?k2"
    using q'(1) th by (simp add: ReadyToRun_def setStatus_of_def upd_thread_def getPriority_def thread_of_def)
  have st2: "st ?k2 = (st k)(t \<mapsto> READY)" by (simp add: st_def fun_eq_iff)
  have rq2: "rq ?k2 = add_mset t (rq k)" using q'(3) by (simp add: rq_def)
  have wq2: "wq ?k2 = wq k" by (simp add: wq_def)
  have cr: "count (rq k) t = 0" "count (wq k) t = 0"
    using placedD(2) [OF p, of t] t(3,4) by (simp_all add: not_in_iff)
  have "placed lim ?k2"
  proof (rule placedI)
    show "queues_ok ?k2" using placedD(1) [OF p] q'(2) by (simp add: queues_ok_def)
    fix u
    show "count (rq ?k2) u = (if st ?k2 u = Some READY \<and> u \<notin> lim then 1 else 0)"
      unfolding st2 rq2 using placedD(2) [OF p, of u] t(1) cr by (auto split: if_splits)
    show "count (wq ?k2) u \<le> (if st ?k2 u = Some BLOCKED \<or> u \<in> lim then 1 else 0)"
      unfolding st2 wq2 using placedD(3) [OF p, of u] t(1) cr by (auto split: if_splits)
  qed
  then show ?thesis using run st2 rq2 by (auto simp: same_rest_def)
qed

lemma FindNextToRun_ok:
  assumes p: "placed {} k"
  shows "\<exists>q x. FindNextToRun k = Inr (k\<lparr>readyList := q\<rparr>, x) \<and>
    (case x of None \<Rightarrow> k\<lparr>readyList := q\<rparr> = k \<and> rq k = {#}
     | Some t \<Rightarrow> st k t = Some READY \<and> placed {t} (k\<lparr>readyList := q\<rparr>) \<and> t \<notin># wq k)"
proof -
  have q: "queue_ok (readyList k)" using p by (simp add: placed_def queues_ok_def)
  obtain q' x key where q': "lst_SortedRemove (readyList k) = Inr (q', x, key)" "queue_ok q'"
      "case x of None \<Rightarrow> ids (readyList k) = {#} \<and> q' = readyList k | Some t \<Rightarrow> ids (readyList k) = add_mset t (ids q')"
    using remove_queue [OF q] by blast
  have run: "FindNextToRun k = Inr (k\<lparr>readyList := q'\<rparr>, x)" using q'(1) by (simp add: FindNextToRun_def)
  show ?thesis
  proof (cases x)
    case None
    then show ?thesis using run q'(3) by (intro exI [of _ q'] exI [of _ x]) (simp add: rq_def)
  next
    case (Some t)
    let ?k1 = "k\<lparr>readyList := q'\<rparr>"
    have r: "rq k = add_mset t (rq ?k1)" using q'(3) Some by (simp add: rq_def)
    have same: "st ?k1 = st k" "wq ?k1 = wq k" by (simp_all add: st_def wq_def fun_eq_iff)
    have pk: "\<forall>u. count (rq k) u = (if st k u = Some READY then 1 else 0)" "\<forall>u. count (wq k) u \<le> (if st k u = Some BLOCKED then 1 else 0)"
      using p by (simp_all add: placed_def)
    have rt: "st k t = Some READY" using spec [OF pk(1), of t] r by (simp split: if_splits)
    then have wt: "count (wq k) t = 0" using spec [OF pk(2), of t] by simp
    have "count (rq ?k1) u = (if st ?k1 u = Some READY \<and> u \<notin> {t} then 1 else 0)" for u
      using spec [OF pk(1), of u] r same by (cases "u = t") (auto split: if_splits)
    moreover have "count (wq ?k1) u \<le> (if st ?k1 u = Some BLOCKED \<or> u \<in> {t} then 1 else 0)" for u
      using spec [OF pk(2), of u] wt same by (cases "u = t") auto
    moreover have "queues_ok ?k1" using p q'(2) by (simp add: placed_def queues_ok_def)
    ultimately have "placed {t} ?k1" by (simp add: placed_def)
    then show ?thesis using run rt wt Some by (intro exI [of _ q'] exI [of _ x]) (simp add: not_in_iff)
  qed
qed

lemma Run_ok:
  assumes p: "placed {t} k" and t: "st k t = Some READY" "t \<notin># wq k"
    and c: "carcass_ok k" "only_current_runs k" "st k (currentThread k) \<noteq> Some RUNNING"
    and s: "\<forall>u. FSleep \<notin> set (stacks k u)"
  shows "\<exists>k'. Run t k = Inr k' \<and> running {} k'"
proof -
  obtain th where th: "threads k t = Some th" using t(1) by (auto simp: st_def)
  let ?k1 = "(push [FAfterSwitch] k)\<lparr>currentThread := t\<rparr>"
  let ?k2 = "?k1\<lparr>threads := (threads k)(t \<mapsto> th\<lparr>t_status := RUNNING\<rparr>)\<rparr>"
  have run: "Run t k = Inr ?k2"
    using th by (simp add: Run_def setStatus_of_def upd_thread_def thread_of_def push_def)
  have st2: "st ?k2 = (st k)(t \<mapsto> RUNNING)" by (simp add: st_def fun_eq_iff)
  have rw: "rq ?k2 = rq k" "wq ?k2 = wq k" "queues_ok ?k2 = queues_ok k" by simp_all
  have wt: "count (wq k) t = 0" using t(2) by (simp add: not_in_iff)
  have "placed {} ?k2"
  proof (rule placedI)
    show "queues_ok ?k2" using placedD(1) [OF p] by simp
    fix u
    show "count (rq ?k2) u = (if st ?k2 u = Some READY \<and> u \<notin> {} then 1 else 0)"
      unfolding st2 rw using placedD(2) [OF p, of u] by (auto split: if_splits)
    show "count (wq ?k2) u \<le> (if st ?k2 u = Some BLOCKED \<or> u \<in> {} then 1 else 0)"
      unfolding st2 rw using placedD(3) [OF p, of u] wt by (auto split: if_splits)
  qed
  moreover have "carcass_ok ?k2" using c(1) t(1) unfolding carcass_ok_def st2 rw by auto
  moreover have "only_current_runs ?k2" using c(2,3) unfolding only_current_runs_def st2 by auto
  moreover have "\<forall>u. FSleep \<notin> set (stacks ?k2 u)" using s by (simp add: push_def)
  ultimately have "running {} ?k2" using st2 by (simp add: running_def)
  then show ?thesis using run by blast
qed

section \<open>Moving threads between the queues\<close>

lemma runningD:
  assumes "running lim k"
  shows "placed lim k" "carcass_ok k" "only_current_runs k" "st k (currentThread k) = Some RUNNING"
    "\<forall>t. FSleep \<notin> set (stacks k t)"
  using assms by (simp_all add: running_def)

text \<open>A state that differs only in what the invariant does not look at.\<close>

lemma running_cong:
  assumes "running lim k" "queues_ok k'" "st k' = st k" "rq k' = rq k" "wq k' = wq k"
    "currentThread k' = currentThread k" "threadToBeDestroyed k' = threadToBeDestroyed k"
    "\<forall>t. FSleep \<notin> set (stacks k' t)"
  shows "running lim k'"
  using assms by (simp add: running_def placed_def carcass_ok_def only_current_runs_def)

lemma running_level [simp]: "running lim (set_level lv k) = running lim k"
  by (simp add: running_def placed_def carcass_ok_def only_current_runs_def)

lemma running_push: "running lim k \<Longrightarrow> FSleep \<notin> set fs \<Longrightarrow> running lim (push fs k)"
  by (rule running_cong) (auto simp: running_def placed_def push_def)

lemma running_results [simp]: "running lim (k\<lparr>results := rs\<rparr>) = running lim k"
  by (simp add: running_def placed_def carcass_ok_def only_current_runs_def)

lemma running_mailbox [simp]: "running lim (set_mailbox i m k) = running lim k"
  by (simp add: running_def placed_def carcass_ok_def only_current_runs_def)

lemma running_synch_list [simp]: "running lim (set_synch_list i sl k) = running lim k"
  by (simp add: running_def placed_def carcass_ok_def only_current_runs_def)

lemma running_whale [simp]: "running lim (set_whale i w k) = running lim k"
  by (simp add: running_def placed_def carcass_ok_def only_current_runs_def)

lemma running_upd_thread:
  assumes "running lim k" "upd_thread t f k = Inr k'" "\<And>th. t_status (f th) = t_status th"
  shows "running lim k'"
proof -
  obtain th where th: "threads k t = Some th" "k' = k\<lparr>threads := (threads k)(t \<mapsto> f th)\<rparr>"
    using assms(2) by (auto simp: upd_thread_def res_simps)
  then have "st k' = st k" using assms(3) by (auto simp: st_def fun_eq_iff)
  then show ?thesis using th(2) assms(1) by (intro running_cong [OF assms(1)]) (simp_all add: running_def placed_def)
qed

lemma wake_core:
  assumes p: "placed lim k" "carcass_ok k" "only_current_runs k"
    and q: "queues_ok k1" "st k1 = st k" "rq k1 = rq k" "wq k = add_mset t (wq k1)"
    and rest: "currentThread k1 = currentThread k" "threadToBeDestroyed k1 = threadToBeDestroyed k"
    and t: "t \<notin> lim"
  shows "\<exists>k2. ReadyToRun t k1 = Inr k2 \<and> placed lim k2 \<and> carcass_ok k2 \<and> only_current_runs k2 \<and> same_rest k1 k2 \<and>
    st k2 = (st k)(t \<mapsto> READY) \<and> st k t = Some BLOCKED"
proof -
  have tw: "count (wq k) t = Suc (count (wq k1) t)" using q(4) by simp
  then have b: "st k t = Some BLOCKED" "count (wq k1) t = 0"
    using placedD(3) [OF p(1), of t] t by (auto split: if_splits)
  have "placed lim k1"
  proof (rule placedI)
    fix u
    show "count (rq k1) u = (if st k1 u = Some READY \<and> u \<notin> lim then 1 else 0)"
      unfolding q(2,3) by (rule placedD(2) [OF p(1)])
    show "count (wq k1) u \<le> (if st k1 u = Some BLOCKED \<or> u \<in> lim then 1 else 0)"
      unfolding q(2) using placedD(3) [OF p(1), of u] q(4) b by (cases "u = t") auto
  qed (rule q(1))
  then obtain k2 where k2: "ReadyToRun t k1 = Inr k2" "placed lim k2" "st k2 = (st k)(t \<mapsto> READY)" "same_rest k1 k2"
    using ReadyToRun_ok [of lim k1 t] t b q(2) by (auto simp: not_in_iff)
  have s: "currentThread k2 = currentThread k" "threadToBeDestroyed k2 = threadToBeDestroyed k" "wq k2 = wq k1"
    using k2(4) rest wq_same by (simp_all add: same_rest_def)
  have "carcass_ok k2" using p(2) unfolding carcass_ok_def s k2(3) q(4) by auto
  moreover have "only_current_runs k2" using p(3) unfolding only_current_runs_def s k2(3) by auto
  ultimately show ?thesis using k2 b(1) by blast
qed

text \<open>Waking a thread, or none.\<close>

definition moved :: "nat option \<Rightarrow> kern \<Rightarrow> kern \<Rightarrow> bool" where
  "moved x k k1 \<longleftrightarrow> queues_ok k1 \<and> st k1 = st k \<and> rq k1 = rq k \<and> stacks k1 = stacks k \<and>
     currentThread k1 = currentThread k \<and> threadToBeDestroyed k1 = threadToBeDestroyed k \<and>
     (case x of None \<Rightarrow> wq k1 = wq k | Some t \<Rightarrow> wq k = add_mset t (wq k1))"

lemma wake_running:
  assumes r: "running lim k" and m: "moved x k k1" and x: "set_option x \<inter> lim = {}"
  shows "\<exists>k2. wake x k1 = Inr k2 \<and> running lim k2 \<and> same_rest k1 k2 \<and> wq k2 = wq k1 \<and>
    st k2 = (case x of None \<Rightarrow> st k | Some t \<Rightarrow> (st k)(t \<mapsto> READY)) \<and> x \<noteq> Some (currentThread k)"
proof (cases x)
  case None
  have "running lim k1" using m None by (intro running_cong [OF r]) (use runningD(5) [OF r] in \<open>simp_all add: moved_def\<close>)
  then show ?thesis using None m by (simp add: wake_def moved_def)
next
  case (Some t)
  have mm: "queues_ok k1" "st k1 = st k" "rq k1 = rq k" "wq k = add_mset t (wq k1)" "currentThread k1 = currentThread k"
      "threadToBeDestroyed k1 = threadToBeDestroyed k" "stacks k1 = stacks k"
    using m Some by (simp_all add: moved_def)
  have "t \<notin> lim" using x Some by simp
  then obtain k2 where k2: "ReadyToRun t k1 = Inr k2" "placed lim k2" "carcass_ok k2" "only_current_runs k2"
      "same_rest k1 k2" "st k2 = (st k)(t \<mapsto> READY)" "st k t = Some BLOCKED"
    using wake_core [OF runningD(1-3) [OF r] mm(1-6)] by blast
  have c: "currentThread k2 = currentThread k" "stacks k2 = stacks k" using k2(5) mm(5,7) by (simp_all add: same_rest_def)
  have tc: "t \<noteq> currentThread k" using k2(7) runningD(4) [OF r] by auto
  then have "running lim k2" unfolding running_def c k2(6) using k2(2-4) runningD(4,5) [OF r] by simp
  then show ?thesis using k2 Some tc wq_same [OF k2(5)] by (simp add: wake_def)
qed

lemma wake_sleeping:
  assumes r: "sleeping k" and m: "moved x k k1" and o: "klevel k1 = IntOff"
  shows "\<exists>k2. wake x k1 = Inr k2 \<and> sleeping k2 \<and> same_rest k1 k2"
proof (cases x)
  case None
  have "sleeping k1" using r m None o
    by (simp add: moved_def sleeping_def placed_def carcass_ok_def only_current_runs_def)
  then show ?thesis using None by (simp add: wake_def)
next
  case (Some t)
  have mm: "queues_ok k1" "st k1 = st k" "rq k1 = rq k" "wq k = add_mset t (wq k1)" "currentThread k1 = currentThread k"
      "threadToBeDestroyed k1 = threadToBeDestroyed k" "stacks k1 = stacks k"
    using m Some by (simp_all add: moved_def)
  have rs: "placed {} k" "carcass_ok k" "only_current_runs k" using r by (simp_all add: sleeping_def)
  obtain k2 where k2: "ReadyToRun t k1 = Inr k2" "placed {} k2" "carcass_ok k2" "only_current_runs k2"
      "same_rest k1 k2" "st k2 = (st k)(t \<mapsto> READY)"
    using wake_core [OF rs mm(1-6)] by blast
  have c: "currentThread k2 = currentThread k" "stacks k2 = stacks k" "klevel k2 = IntOff"
    using k2(5) mm(5,7) o by (simp_all add: same_rest_def)
  have "st k2 (currentThread k2) \<in> {Some BLOCKED, Some READY}" using r unfolding c k2(6) sleeping_def by simp
  then have "sleeping k2" using r k2(2-4) c unfolding sleeping_def by simp
  then show ?thesis using k2 Some by (simp add: wake_def)
qed

lemma enqueue_ok:
  assumes r: "running {} k" and q: "queues_ok k1" "st k1 = st k" "rq k1 = rq k" "wq k1 = add_mset (currentThread k) (wq k)"
    and rest: "stacks k1 = stacks k" "currentThread k1 = currentThread k" "threadToBeDestroyed k1 = threadToBeDestroyed k"
  shows "running {currentThread k} k1"
proof -
  note p = runningD [OF r]
  have w: "count (wq k) (currentThread k) = 0" using placedD(3) [OF p(1), of "currentThread k"] p(4) by simp
  have "placed {currentThread k} k1"
  proof (rule placedI)
    fix u
    show "count (rq k1) u = (if st k1 u = Some READY \<and> u \<notin> {currentThread k} then 1 else 0)"
      unfolding q(2,3) using placedD(2) [OF p(1), of u] p(4) by auto
    show "count (wq k1) u \<le> (if st k1 u = Some BLOCKED \<or> u \<in> {currentThread k} then 1 else 0)"
      unfolding q(2,4) using placedD(3) [OF p(1), of u] w by auto
  qed (rule q(1))
  moreover have "carcass_ok k1" using p(2,4) unfolding carcass_ok_def q(2,4) rest by auto
  moreover have "only_current_runs k1" using p(3) unfolding only_current_runs_def q(2) rest .
  moreover have "st k1 (currentThread k1) = Some RUNNING" using p(4) unfolding q(2) rest .
  moreover have "\<forall>t. FSleep \<notin> set (stacks k1 t)" using p(5) unfolding rest .
  ultimately show ?thesis unfolding running_def by blast
qed

lemma Sleep_ok:
  assumes p: "placed {currentThread k} k" "only_current_runs k" "st k (currentThread k) = Some RUNNING"
      "\<forall>t. FSleep \<notin> set (stacks k t)"
    and c: "\<forall>t. threadToBeDestroyed k = Some t \<longrightarrow> (t = currentThread k \<or> st k t = Some BLOCKED) \<and> t \<notin># wq k"
    and o: "klevel k = IntOff" "FSleep \<notin> set rest"
  shows "\<exists>k'. Sleep rest k = Inr k' \<and> sleeping k'"
proof -
  obtain th where th: "threads k (currentThread k) = Some th" using p(3) by (auto simp: st_def)
  define k2 where "k2 = push (FSleep # rest) (k\<lparr>threads := (threads k)(currentThread k \<mapsto> th\<lparr>t_status := BLOCKED\<rparr>)\<rparr>)"
  have run: "Sleep rest k = Inr k2"
    using o(1) th by (simp add: k2_def Sleep_def setStatus_of_def upd_thread_def thread_of_def)
  have s2: "st k2 = (st k)(currentThread k \<mapsto> BLOCKED)" by (simp add: k2_def)
  have rw: "rq k2 = rq k" "wq k2 = wq k" "currentThread k2 = currentThread k" "threadToBeDestroyed k2 = threadToBeDestroyed k"
      "klevel k2 = IntOff" using o(1) by (simp_all add: k2_def)
  have "placed {} k2"
  proof (rule placedI)
    show "queues_ok k2" using placedD(1) [OF p(1)] by (simp add: k2_def)
    fix u
    show "count (rq k2) u = (if st k2 u = Some READY \<and> u \<notin> {} then 1 else 0)"
      unfolding s2 rw using placedD(2) [OF p(1), of u] by auto
    show "count (wq k2) u \<le> (if st k2 u = Some BLOCKED \<or> u \<in> {} then 1 else 0)"
      unfolding s2 rw using placedD(3) [OF p(1), of u] by auto
  qed
  moreover have "carcass_ok k2" using c unfolding carcass_ok_def s2 rw by auto
  moreover have "only_current_runs k2" using p(2) unfolding only_current_runs_def s2 rw by auto
  moreover have "\<forall>t. t \<noteq> currentThread k2 \<longrightarrow> FSleep \<notin> set (stacks k2 t)" using p(4) by (simp add: k2_def push_def)
  moreover have "stacks k2 (currentThread k2) = FSleep # (rest @ stacks k (currentThread k))" by (simp add: k2_def push_def)
  moreover have "FSleep \<notin> set (rest @ stacks k (currentThread k))" using o(2) p(4) by simp
  moreover have "st k2 (currentThread k2) = Some BLOCKED" using s2 rw(3) by simp
  ultimately have "sleeping k2" using rw(5) unfolding sleeping_def by blast
  then show ?thesis using run by blast
qed

lemma running_Sleep:
  assumes r: "running {currentThread k} k" and o: "klevel k = IntOff" "FSleep \<notin> set rest"
  shows "\<exists>k'. Sleep rest k = Inr k' \<and> sleeping k'"
  using Sleep_ok [OF runningD(1) [OF r] runningD(3-5) [OF r] _ o] runningD(2) [OF r] by (simp add: carcass_ok_def)

lemma Sleep_inv:
  assumes "running {currentThread k} k" "FSleep \<notin> set rest" "Sleep rest k = Inr k'"
  shows "sleeping k'"
proof -
  have "klevel k = IntOff" using assms(3) by (auto simp: Sleep_def res_simps)
  from running_Sleep [OF assms(1) this assms(2)] show ?thesis using assms(3) by auto
qed

section \<open>Semaphores, locks and conditions keep the invariant\<close>

lemma queues_ok_set [intro]:
  "queues_ok k \<Longrightarrow> queue_ok (s_queue x) \<Longrightarrow> queues_ok (set_sem i x k)"
  "queues_ok k \<Longrightarrow> queue_ok (l_Q y) \<Longrightarrow> queues_ok (set_lock i y k)"
  "queues_ok k \<Longrightarrow> queue_ok (c_waitList z) \<Longrightarrow> queues_ok (set_cond i z k)"
  by (auto simp: queues_ok_def set_sem_def set_lock_def set_cond_def dest!: set_update_subset_insert [THEN subsetD])

lemma queues_okD:
  "queues_ok k \<Longrightarrow> i < length (semaphores k) \<Longrightarrow> queue_ok (s_queue (semaphores k ! i))"
  "queues_ok k \<Longrightarrow> i < length (locks k) \<Longrightarrow> queue_ok (l_Q (locks k ! i))"
  "queues_ok k \<Longrightarrow> i < length (conditions k) \<Longrightarrow> queue_ok (c_waitList (conditions k ! i))"
  by (auto simp: queues_ok_def)

lemma kinvI: "running {} k \<Longrightarrow> kinv k" "sleeping k \<Longrightarrow> kinv k"
  by (simp_all add: kinv_def)

lemma P_loop_inv:
  assumes r: "running {} k" and e: "P_loop i lv k = Inr k'"
  shows "kinv k'"
proof -
  let ?s = "semaphores k ! i"
  have i: "i < length (semaphores k)" using e by (auto simp: P_loop_def res_simps)
  have qs: "queues_ok k" using runningD(1) [OF r] placedD(1) by blast
  show ?thesis
  proof (cases "s_value ?s = 0")
    case False
    then have k': "k' = set_level lv (set_sem i (?s\<lparr>s_value := s_value ?s - 1\<rparr>) k)"
      using e i by (simp add: P_loop_def fetch_def)
    have "wq (set_sem i (?s\<lparr>s_value := s_value ?s - 1\<rparr>) k) = wq k"
      using wq_set_sem [OF i, of "?s\<lparr>s_value := s_value ?s - 1\<rparr>"] by simp
    then have "running {} (set_sem i (?s\<lparr>s_value := s_value ?s - 1\<rparr>) k)"
      using queues_okD(1) [OF qs i] qs runningD(5) [OF r] by (intro running_cong [OF r]) auto
    then show ?thesis unfolding k' by (simp add: kinv_def)
  next
    case True
    obtain th where th: "threads k (currentThread k) = Some th" using runningD(4) [OF r] by (auto simp: st_def)
    obtain q where q: "lst_SortedInsert (s_queue ?s) (Some (currentThread k)) (t_priority th) = Inr q" "queue_ok q"
        "ids q = add_mset (currentThread k) (ids (s_queue ?s))"
      using insert_queue [OF queues_okD(1) [OF qs i]] by blast
    let ?k1 = "set_sem i (?s\<lparr>s_queue := q\<rparr>) k"
    have e1: "Sleep [FP_loop i lv] ?k1 = Inr k'"
      using e True i th q(1) by (simp add: P_loop_def fetch_def getPriority_def thread_of_def)
    have "wq ?k1 = add_mset (currentThread k) (wq k)"
      using wq_set_sem [OF i, of "?s\<lparr>s_queue := q\<rparr>"] q(3) by simp
    then have "running {currentThread k} ?k1" using q(2) qs by (intro enqueue_ok [OF r]) auto
    then show ?thesis using Sleep_inv [OF _ _ e1] by (simp add: kinv_def)
  qed
qed

lemma V_moved:
  assumes qs: "queues_ok k" and i: "i < length (semaphores k)"
  shows "\<exists>q x. lst_Remove (s_queue (semaphores k ! i)) = Inr (q, x) \<and> queue_ok q \<and>
    moved x k (set_sem i ((semaphores k ! i)\<lparr>s_queue := q\<rparr>) k)"
proof -
  let ?s = "semaphores k ! i"
  obtain q x where q: "lst_Remove (s_queue ?s) = Inr (q, x)" "queue_ok q"
      "case x of None \<Rightarrow> ids (s_queue ?s) = {#} \<and> q = s_queue ?s | Some t \<Rightarrow> ids (s_queue ?s) = add_mset t (ids q)"
    using remove_queue [OF queues_okD(1) [OF qs i]] by blast
  have "moved x k (set_sem i (?s\<lparr>s_queue := q\<rparr>) k)"
    using q(2,3) qs wq_set_sem [OF i, of "?s\<lparr>s_queue := q\<rparr>"]
    by (auto simp: moved_def split: option.splits)
  then show ?thesis using q by blast
qed

lemma V_inv:
  assumes k: "kinv k" and e: "V i k = Inr k'"
  shows "kinv k'" and "running {} k \<Longrightarrow> running {} k'"
proof -
  let ?k0 = "set_level IntOff k" and ?s = "semaphores k ! i"
  have i: "i < length (semaphores k)" using e by (auto simp: V_def Let_def res_simps)
  have qs: "queues_ok k" using k by (auto simp: kinv_def running_def sleeping_def placed_def)
  obtain q x where q: "lst_Remove (s_queue ?s) = Inr (q, x)" "queue_ok q"
      "moved x ?k0 (set_sem i (?s\<lparr>s_queue := q\<rparr>) ?k0)"
    using V_moved [of ?k0 i] qs i by auto
  let ?k1 = "set_sem i (?s\<lparr>s_queue := q\<rparr>) ?k0"
  have e1: "bindR (wake x ?k1) (\<lambda>k2. Inr (set_level (klevel k)
      (set_sem i (?s\<lparr>s_queue := q, s_value := s_value ?s + 1\<rparr>) k2))) = Inr k'"
    using e q(1) i by (simp add: V_def Let_def fetch_def)
  have fin: "queues_ok (set_sem i (?s\<lparr>s_queue := q, s_value := v\<rparr>) k2)"
      "wq (set_sem i (?s\<lparr>s_queue := q, s_value := v\<rparr>) k2) = wq k2"
    if s: "same_rest ?k1 k2" "queues_ok k2" for k2 v
  proof -
    have "i < length (semaphores k2)" "semaphores k2 ! i = ?s\<lparr>s_queue := q\<rparr>" using s(1) i by (simp_all add: same_rest_def)
    then show "wq (set_sem i (?s\<lparr>s_queue := q, s_value := v\<rparr>) k2) = wq k2"
      using wq_set_sem [of i k2 "?s\<lparr>s_queue := q, s_value := v\<rparr>"] by simp
    show "queues_ok (set_sem i (?s\<lparr>s_queue := q, s_value := v\<rparr>) k2)" using s(2) q(2) by auto
  qed
  have R: "running {} k'" if r: "running {} k"
  proof -
    obtain k2 where k2: "wake x ?k1 = Inr k2" "running {} k2" "same_rest ?k1 k2"
      using wake_running [of "{}" ?k0 x ?k1] q(3) r by auto
    have k': "k' = set_level (klevel k) (set_sem i (?s\<lparr>s_queue := q, s_value := s_value ?s + 1\<rparr>) k2)"
      using e1 k2(1) by simp
    have "queues_ok k2" using runningD(1) [OF k2(2)] placedD(1) by blast
    note f = fin [OF k2(3) this]
    show ?thesis unfolding k' running_level
      using f runningD(5) [OF k2(2)] by (intro running_cong [OF k2(2)]) simp_all
  qed
  then show "running {} k \<Longrightarrow> running {} k'" .
  have S: "sleeping k'" if s: "sleeping k"
  proof -
    have lv: "klevel k = IntOff" using s by (simp add: sleeping_def)
    then have k0: "?k0 = k" by (simp add: set_level_def)
    obtain k2 where k2: "wake x ?k1 = Inr k2" "sleeping k2" "same_rest ?k1 k2"
      using wake_sleeping [of k x ?k1] q(3) s unfolding k0 by (auto simp: lv)
    have k': "k' = set_level IntOff (set_sem i (?s\<lparr>s_queue := q, s_value := s_value ?s + 1\<rparr>) k2)"
      using e1 k2(1) lv by simp
    have "queues_ok k2" using k2(2) by (simp add: sleeping_def placed_def)
    note f = fin [OF k2(3) this]
    show ?thesis unfolding k' using f k2(2)
      by (simp add: sleeping_def placed_def carcass_ok_def only_current_runs_def)
  qed
  show "kinv k'" using k R S by (auto simp: kinv_def)
qed

lemma Acquire_loop_inv:
  assumes r: "running {} k" and e: "Acquire_loop i lv k = Inr k'"
  shows "kinv k'"
proof -
  let ?l = "locks k ! i"
  have i: "i < length (locks k)" using e by (auto simp: Acquire_loop_def res_simps)
  have qs: "queues_ok k" using runningD(1) [OF r] placedD(1) by blast
  obtain th where th: "threads k (currentThread k) = Some th" using runningD(4) [OF r] by (auto simp: st_def)
  show ?thesis
  proof (cases "l_held ?l")
    case False
    let ?x = "?l\<lparr>l_held := True, l_threadName := t_name th\<rparr>"
    have k': "k' = set_level lv (set_lock i ?x k)"
      using e i False th by (simp add: Acquire_loop_def fetch_def thread_of_def split: if_splits)
    have "wq (set_lock i ?x k) = wq k" using wq_set_lock [OF i, of ?x] by simp
    then have "running {} (set_lock i ?x k)"
      using queues_okD(2) [OF qs i] qs runningD(5) [OF r] by (intro running_cong [OF r]) auto
    then show ?thesis unfolding k' by (simp add: kinv_def)
  next
    case True
    obtain q where q: "lst_SortedInsert (l_Q ?l) (Some (currentThread k)) (t_priority th) = Inr q" "queue_ok q"
        "ids q = add_mset (currentThread k) (ids (l_Q ?l))"
      using insert_queue [OF queues_okD(2) [OF qs i]] by blast
    let ?k1 = "set_lock i (?l\<lparr>l_Q := q\<rparr>) k"
    have e1: "Sleep [FAcquire_loop i lv] ?k1 = Inr k'"
      using e True i th q(1) by (simp add: Acquire_loop_def fetch_def getPriority_def thread_of_def)
    have "wq ?k1 = add_mset (currentThread k) (wq k)"
      using wq_set_lock [OF i, of "?l\<lparr>l_Q := q\<rparr>"] q(3) by simp
    then have "running {currentThread k} ?k1" using q(2) qs by (intro enqueue_ok [OF r]) auto
    then show ?thesis using Sleep_inv [OF _ _ e1] by (simp add: kinv_def)
  qed
qed

lemma Acquire_inv:
  assumes r: "running {} k" and e: "Acquire i k = Inr k'"
  shows "kinv k'"
proof -
  obtain mine where m: "(if \<not> mine then Acquire_loop i (klevel k) (set_level IntOff k)
      else Inr (set_level (klevel k) (set_level IntOff k))) = Inr k'"
    using e by (auto simp: Acquire_def Let_def res_simps)
  show ?thesis
  proof (cases mine)
    case True
    then show ?thesis using m r by (auto simp: kinv_def)
  next
    case False
    then show ?thesis using m Acquire_loop_inv [of "set_level IntOff k" i "klevel k"] r by simp
  qed
qed

lemma lock_queue_subset: "i < length (locks k) \<Longrightarrow> t \<in># ids (l_Q (locks k ! i)) \<Longrightarrow> t \<in># wq k"
proof -
  assume i: "i < length (locks k)" and t: "t \<in># ids (l_Q (locks k ! i))"
  have "locks k ! i \<in> set (locks k)" using i by simp
  then obtain xs ys where "locks k = xs @ locks k ! i # ys" by (meson split_list)
  then have "(\<Sum>l \<leftarrow> locks k. ids (l_Q l)) = (\<Sum>l \<leftarrow> xs @ locks k ! i # ys. ids (l_Q l))" by simp
  then show ?thesis using t by (simp add: wq_def)
qed

lemma Release_inv:
  assumes r: "running lim k" and lim: "\<forall>t \<in># ids (l_Q (locks k ! i)). t \<notin> lim" and e: "Release i k = Inr k'"
  shows "running lim k'" and "currentThread k' = currentThread k" and "klevel k' = klevel k" and "stacks k' = stacks k"
proof -
  let ?k0 = "set_level IntOff k" and ?l = "locks k ! i"
  have i: "i < length (locks k)" using e by (auto simp: Release_def Let_def res_simps)
  have qs: "queues_ok k" using runningD(1) [OF r] placedD(1) by blast
  note ql = queues_okD(2) [OF qs i]
  obtain q x where q: "(if lst_IsEmpty (l_Q ?l) then Inr (l_Q ?l, None) else lst_Remove (l_Q ?l)) = Inr (q, x)" "queue_ok q"
      "case x of None \<Rightarrow> ids (l_Q ?l) = ids q | Some t \<Rightarrow> ids (l_Q ?l) = add_mset t (ids q)"
  proof (cases "lst_IsEmpty (l_Q ?l)")
    case True then show ?thesis using ql that by simp
  next
    case False then show ?thesis using remove_queue [OF ql] that by (fastforce split: option.splits)
  qed
  let ?k1 = "set_lock i (?l\<lparr>l_Q := q\<rparr>) ?k0"
  have e1: "bindR (wake x ?k1) (\<lambda>k2. Inr (set_level (klevel k) (set_lock i (?l\<lparr>l_Q := q, l_held := False\<rparr>) k2))) = Inr k'"
    using e q(1) i by (auto simp: Release_def Let_def fetch_def bindR_eq_Inr ASSERT_eq_Inr)
  have m: "moved x ?k0 ?k1"
    using q(2,3) qs wq_set_lock [of i ?k0 "?l\<lparr>l_Q := q\<rparr>"] i by (auto simp: moved_def split: option.splits)
  have "set_option x \<inter> lim = {}" using lim q(3) by (cases x) auto
  then obtain k2 where k2: "wake x ?k1 = Inr k2" "running lim k2" "same_rest ?k1 k2"
    using wake_running [of lim ?k0 x ?k1] m r by auto
  let ?y = "?l\<lparr>l_Q := q, l_held := False\<rparr>"
  have k': "k' = set_level (klevel k) (set_lock i ?y k2)" using e1 k2(1) by simp
  have "i < length (locks k2)" "locks k2 ! i = ?l\<lparr>l_Q := q\<rparr>" using k2(3) i by (simp_all add: same_rest_def)
  then have "wq (set_lock i ?y k2) = wq k2" using wq_set_lock [of i k2 ?y] by simp
  moreover have "queues_ok k2" using runningD(1) [OF k2(2)] placedD(1) by blast
  ultimately show "running lim k'" unfolding k' running_level
    using q(2) runningD(5) [OF k2(2)] by (intro running_cong [OF k2(2)]) auto
  show "currentThread k' = currentThread k" "klevel k' = klevel k" "stacks k' = stacks k"
    using k2(3) by (simp_all add: k' same_rest_def)
qed

lemma Wait_inv:
  assumes r: "running {} k" and e: "Wait c i k = Inr k'"
  shows "kinv k'"
proof -
  let ?k0 = "set_level IntOff k" and ?c = "conditions k ! c"
  have c: "c < length (conditions k)" using e by (auto simp: Wait_def Let_def res_simps)
  have i: "i < length (locks k)" using e by (auto simp: Wait_def holds_lock_def Let_def res_simps)
  have qs: "queues_ok k" using runningD(1) [OF r] placedD(1) by blast
  obtain th where th: "threads k (currentThread k) = Some th" using runningD(4) [OF r] by (auto simp: st_def)
  obtain q where q: "lst_SortedInsert (c_waitList ?c) (Some (currentThread k)) (t_priority th) = Inr q" "queue_ok q"
      "ids q = add_mset (currentThread k) (ids (c_waitList ?c))"
    using insert_queue [OF queues_okD(3) [OF qs c]] by blast
  let ?k1 = "set_cond c (?c\<lparr>c_waitList := q\<rparr>) ?k0"
  have e1: "bindR (Release i ?k1) (Sleep [FAcquire i, FSetLevel (klevel k)]) = Inr k'"
    using e q(1) c th
    by (auto simp: Wait_def Let_def fetch_def getPriority_def thread_of_def bindR_eq_Inr ASSERT_eq_Inr)
  have r1: "running {currentThread k} ?k1"
    using wq_set_cond [of c ?k0 "?c\<lparr>c_waitList := q\<rparr>"] q(2,3) c qs r
    by (intro enqueue_ok [of ?k0, simplified]) auto
  have "currentThread k \<notin># wq k"
    using placedD(3) [OF runningD(1) [OF r], of "currentThread k"] runningD(4) [OF r] by (simp add: not_in_iff)
  then have "\<forall>t \<in># ids (l_Q (locks ?k1 ! i)). t \<notin> {currentThread k}" using lock_queue_subset [OF i] by auto
  note rel = Release_inv [OF r1 this]
  obtain k2 where k2: "Release i ?k1 = Inr k2" "Sleep [FAcquire i, FSetLevel (klevel k)] k2 = Inr k'"
    using e1 by (auto simp: bindR_eq_Inr)
  have k2r: "running {currentThread k2} k2" "klevel k2 = IntOff"
    using rel(1-3) [OF k2(1)] by simp_all
  show ?thesis using running_Sleep [OF k2r, of "[FAcquire i, FSetLevel (klevel k)]"] k2(2) by (auto simp: kinv_def)
qed

lemma Condition_moved:
  assumes qs: "queues_ok k" and c: "c < length (conditions k)"
  shows "\<exists>q x. lst_Remove (c_waitList (conditions k ! c)) = Inr (q, x) \<and> queue_ok q \<and>
    moved x k (set_cond c ((conditions k ! c)\<lparr>c_waitList := q\<rparr>) k) \<and>
    (x = None \<longleftrightarrow> ids (c_waitList (conditions k ! c)) = {#}) \<and>
    size (ids q) = size (ids (c_waitList (conditions k ! c))) - 1"
proof -
  let ?c = "conditions k ! c"
  obtain q x where q: "lst_Remove (c_waitList ?c) = Inr (q, x)" "queue_ok q"
      "case x of None \<Rightarrow> ids (c_waitList ?c) = {#} \<and> q = c_waitList ?c | Some t \<Rightarrow> ids (c_waitList ?c) = add_mset t (ids q)"
    using remove_queue [OF queues_okD(3) [OF qs c]] by blast
  have "moved x k (set_cond c (?c\<lparr>c_waitList := q\<rparr>) k)"
    using q(2,3) qs wq_set_cond [OF c, of "?c\<lparr>c_waitList := q\<rparr>"]
    by (auto simp: moved_def split: option.splits)
  moreover have "(x = None \<longleftrightarrow> ids (c_waitList ?c) = {#}) \<and> size (ids q) = size (ids (c_waitList ?c)) - 1"
    using q(3) by (cases x) auto
  ultimately show ?thesis using q by blast
qed

lemma Signal_inv:
  assumes r: "running {} k" and e: "Signal c i k = Inr k'"
  shows "running {} k'"
proof -
  let ?k0 = "set_level IntOff k" and ?c = "conditions k ! c"
  have c: "c < length (conditions k)" using e by (auto simp: Signal_def Let_def res_simps)
  have qs: "queues_ok ?k0" using runningD(1) [OF r] placedD(1) by simp
  obtain q x where q: "lst_Remove (c_waitList ?c) = Inr (q, x)" "moved x ?k0 (set_cond c (?c\<lparr>c_waitList := q\<rparr>) ?k0)"
    using Condition_moved [OF qs, of c] c by auto
  show ?thesis
  proof (cases "lst_IsEmpty (c_waitList ?c)")
    case True
    then have "k' = set_level (klevel k) ?k0" using e c by (auto simp: Signal_def Let_def res_simps)
    then show ?thesis using r by simp
  next
    case False
    then obtain t k2 where t: "x = Some t" "ReadyToRun t (set_cond c (?c\<lparr>c_waitList := q\<rparr>) ?k0) = Inr k2"
        "k' = set_level (klevel k) k2"
      using e c q(1) by (cases x) (auto simp: Signal_def Let_def res_simps)
    have "running {} ?k0" using r by simp
    from wake_running [OF this q(2)] show ?thesis using t by (auto simp: wake_def)
  qed
qed

lemma wake_all_inv:
  "running {} k \<Longrightarrow> wake_all c n k = Inr k' \<Longrightarrow> running {} k'"
proof (induction n arbitrary: k)
  case (Suc n)
  let ?c = "conditions k ! c"
  have c: "c < length (conditions k)" using Suc.prems(2) by (auto simp: res_simps)
  have qs: "queues_ok k" using runningD(1) [OF Suc.prems(1)] placedD(1) by blast
  obtain q x where q: "lst_Remove (c_waitList ?c) = Inr (q, x)" "moved x k (set_cond c (?c\<lparr>c_waitList := q\<rparr>) k)"
    using Condition_moved [OF qs c] by blast
  obtain k2 where k2: "wake x (set_cond c (?c\<lparr>c_waitList := q\<rparr>) k) = Inr k2" "running {} k2"
    using wake_running [OF Suc.prems(1) q(2)] by auto
  show ?case
  proof (cases x)
    case None
    then show ?thesis using Suc.prems(2) q(1) c k2 by (auto simp: fetch_def wake_def)
  next
    case (Some t)
    then have "wake_all c n k2 = Inr k'" using Suc.prems(2) q(1) c k2(1) by (simp add: fetch_def wake_def)
    then show ?thesis by (rule Suc.IH [OF k2(2)])
  qed
qed simp

lemma Broadcast_inv:
  assumes r: "running {} k" and e: "Broadcast c i k = Inr k'"
  shows "running {} k'"
proof -
  obtain n k1 where "wake_all c n (set_level IntOff k) = Inr k1" "k' = set_level (klevel k) k1"
    using e by (auto simp: Broadcast_def Let_def res_simps simp del: wake_all.simps)
  then show ?thesis using wake_all_inv [of "set_level IntOff k"] r by simp
qed

section \<open>The other sections keep the invariant\<close>

lemma Yield_inv:
  assumes r: "running {} k" and e: "Yield k = Inr k'"
  shows "running {} k'"
proof -
  let ?k0 = "set_level IntOff k" and ?cur = "currentThread k"
  have r0: "running {} ?k0" using r by simp
  note p = runningD [OF r0]
  obtain q x where f: "FindNextToRun ?k0 = Inr (?k0\<lparr>readyList := q\<rparr>, x)"
      "case x of None \<Rightarrow> ?k0\<lparr>readyList := q\<rparr> = ?k0 \<and> rq ?k0 = {#}
       | Some t \<Rightarrow> st ?k0 t = Some READY \<and> placed {t} (?k0\<lparr>readyList := q\<rparr>) \<and> t \<notin># wq ?k0"
    using FindNextToRun_ok [OF p(1)] by blast
  show ?thesis
  proof (cases x)
    case None
    then have "k' = set_level (klevel k) ?k0" using e f by (simp add: Yield_def Let_def)
    then show ?thesis using r0 by simp
  next
    case (Some t)
    define k1 where "k1 = ?k0\<lparr>readyList := q\<rparr>"
    have t: "st k t = Some READY" "placed {t} k1" "t \<notin># wq k" using f(2) Some by (simp_all add: k1_def)
    have same: "st k1 = st k" "wq k1 = wq k" "stacks k1 = stacks k" "currentThread k1 = ?cur"
        "threadToBeDestroyed k1 = threadToBeDestroyed k"
      by (simp_all add: k1_def set_level_def st_def wq_def fun_eq_iff)
    have cur: "st k ?cur = Some RUNNING" "?cur \<notin># wq k" "?cur \<noteq> t"
      using p(4) placedD(3) [OF p(1), of ?cur] t(1) by (auto simp: not_in_iff)
    obtain k2 where k2: "ReadyToRun ?cur k1 = Inr k2" "placed {t} k2" "st k2 = (st k)(?cur \<mapsto> READY)" "same_rest k1 k2"
      using ReadyToRun_ok [OF t(2), of ?cur] cur same by auto
    have e2: "Run t (push [FSetLevel (klevel k)] k2) = Inr k'"
      using e f(1) Some k2(1) by (simp add: Yield_def Let_def k1_def)
    let ?k3 = "push [FSetLevel (klevel k)] k2"
    have s2: "stacks k2 = stacks k" "currentThread k2 = ?cur" "threadToBeDestroyed k2 = threadToBeDestroyed k" "wq k2 = wq k"
      using k2(4) same wq_same [OF k2(4)] by (simp_all add: same_rest_def)
    have "placed {t} ?k3" using k2(2) by (simp add: placed_def)
    moreover have "st ?k3 t = Some READY" "t \<notin># wq ?k3" using k2(3) s2 t cur by simp_all
    moreover have "carcass_ok ?k3" using p(2) cur unfolding carcass_ok_def by (simp add: k2(3) s2) auto
    moreover have "only_current_runs ?k3" "st ?k3 (currentThread ?k3) \<noteq> Some RUNNING"
      using p(3) unfolding only_current_runs_def by (simp_all add: k2(3) s2)
    moreover have "\<forall>u. FSleep \<notin> set (stacks ?k3 u)" using p(5) by (simp add: push_def s2)
    ultimately show ?thesis using Run_ok [of t ?k3] e2 by auto
  qed
qed

lemma Sleep_loop_inv:
  assumes s: "sleeping k" and e: "run_frame k = Inr k'"
  shows "kinv k'"
proof -
  obtain fs where fs: "stacks k (currentThread k) = FSleep # fs" "FSleep \<notin> set fs" using s by (auto simp: sleeping_def)
  define k0 where "k0 = k\<lparr>stacks := (stacks k)(currentThread k := fs)\<rparr>"
  have e0: "Sleep_loop k0 = Inr k'" using e fs by (simp add: run_frame_def k0_def)
  have same: "st k0 = st k" "wq k0 = wq k" "rq k0 = rq k" "currentThread k0 = currentThread k"
      "threadToBeDestroyed k0 = threadToBeDestroyed k" "queues_ok k0 = queues_ok k" "klevel k0 = klevel k"
    by (simp_all add: k0_def)
  have p: "placed {} k0" "carcass_ok k0" "only_current_runs k0" "st k0 (currentThread k0) \<noteq> Some RUNNING"
      "\<forall>u. FSleep \<notin> set (stacks k0 u)"
  proof -
    show "placed {} k0" using s unfolding sleeping_def placed_def same by blast
    show "carcass_ok k0" using s unfolding sleeping_def carcass_ok_def same by blast
    show "only_current_runs k0" using s unfolding sleeping_def only_current_runs_def same by blast
    show "st k0 (currentThread k0) \<noteq> Some RUNNING" using s unfolding sleeping_def same by auto
    show "\<forall>u. FSleep \<notin> set (stacks k0 u)" using s fs(2) by (simp add: sleeping_def k0_def)
  qed
  obtain q x where f: "FindNextToRun k0 = Inr (k0\<lparr>readyList := q\<rparr>, x)"
      "case x of None \<Rightarrow> k0\<lparr>readyList := q\<rparr> = k0 \<and> rq k0 = {#}
       | Some t \<Rightarrow> st k0 t = Some READY \<and> placed {t} (k0\<lparr>readyList := q\<rparr>) \<and> t \<notin># wq k0"
    using FindNextToRun_ok [OF p(1)] by blast
  show ?thesis
  proof (cases x)
    case None
    then have "k' = push [FSleep] k0" using e0 f by (simp add: Sleep_loop_def)
    also have "\<dots> = k" using fs by (simp add: push_def k0_def fun_upd_idem)
    finally show ?thesis using s by (simp add: kinv_def)
  next
    case (Some t)
    let ?k1 = "k0\<lparr>readyList := q\<rparr>"
    have eq: "st ?k1 = st k0" "wq ?k1 = wq k0" by (simp_all add: st_def wq_def fun_eq_iff)
    have "carcass_ok ?k1" "only_current_runs ?k1" "st ?k1 (currentThread ?k1) \<noteq> Some RUNNING"
        "\<forall>u. FSleep \<notin> set (stacks ?k1 u)"
      using p(2-5) unfolding carcass_ok_def only_current_runs_def eq by simp_all
    then have "\<exists>k'. Run t ?k1 = Inr k' \<and> running {} k'"
      using Run_ok [of t ?k1] f(2) Some eq by simp
    then show ?thesis using e0 f(1) Some by (auto simp: Sleep_loop_def kinv_def)
  qed
qed

lemma after_switch_inv:
  assumes r: "running {} k" and e: "after_switch k = Inr k'"
  shows "running {} k'"
proof (cases "threadToBeDestroyed k")
  case None
  then show ?thesis using r e by (simp add: after_switch_def)
next
  case (Some t)
  note p = runningD [OF r]
  have t: "st k t = Some BLOCKED" "t \<notin># wq k" using p(2) Some by (simp_all add: carcass_ok_def)
  have k': "k' = k\<lparr>threads := (threads k)(t := None), threadToBeDestroyed := None\<rparr>" "t \<noteq> currentThread k"
    using e Some by (auto simp: after_switch_def delete_thread_def res_simps)
  have s: "st k' = (st k)(t := None)" unfolding k' by (simp add: st_def fun_eq_iff)
  have same: "wq k' = wq k" "rq k' = rq k" "queues_ok k' = queues_ok k" "currentThread k' = currentThread k" "stacks k' = stacks k"
    by (simp_all add: k')
  have "placed {} k'"
  proof (rule placedI)
    show "queues_ok k'" using placedD(1) [OF p(1)] same by simp
    fix u
    show "count (rq k') u = (if st k' u = Some READY \<and> u \<notin> {} then 1 else 0)"
      unfolding s same using placedD(2) [OF p(1), of u] t by (auto split: if_splits)
    show "count (wq k') u \<le> (if st k' u = Some BLOCKED \<or> u \<in> {} then 1 else 0)"
      unfolding s same using placedD(3) [OF p(1), of u] t by (auto simp: not_in_iff split: if_splits)
  qed
  moreover have "carcass_ok k'" by (simp add: carcass_ok_def k')
  moreover have "only_current_runs k'" using p(3) unfolding only_current_runs_def s same by auto
  ultimately show ?thesis using p(4,5) k'(2) unfolding running_def s same by simp
qed

lemma Fork_inv:
  assumes r: "running {} k" and t: "st k t = Some JUST_CREATED" and e: "Fork t k = Inr k'"
  shows "running {} k'"
proof -
  let ?k0 = "set_level IntOff (k\<lparr>stacks := (stacks k)(t := [FSetLevel IntOn])\<rparr>)"
  have r0: "running {} ?k0"
    using runningD(5) [OF r] placedD(1) [OF runningD(1) [OF r]] by (intro running_cong [OF r]) simp_all
  note p = runningD [OF r0]
  have "count (wq k) t = 0" using placedD(3) [OF p(1), of t] t by simp
  then obtain k2 where k2: "ReadyToRun t ?k0 = Inr k2" "placed {} k2" "st k2 = (st k)(t \<mapsto> READY)" "same_rest ?k0 k2"
    using ReadyToRun_ok [OF p(1), of t] t by (auto simp: not_in_iff)
  have k': "k' = set_level (klevel k) k2" using e k2(1) by (auto simp: Fork_def Let_def res_simps)
  have s: "stacks k2 = stacks ?k0" "currentThread k2 = currentThread k" "threadToBeDestroyed k2 = threadToBeDestroyed k" "wq k2 = wq k"
    using k2(4) wq_same [OF k2(4)] by (simp_all add: same_rest_def)
  have "carcass_ok k2" using p(2) t unfolding carcass_ok_def k2(3) s by auto
  moreover have "only_current_runs k2" using p(3) unfolding only_current_runs_def k2(3) s by auto
  moreover have "st k2 (currentThread k2) = Some RUNNING" using p(4) t unfolding k2(3) s by auto
  ultimately have "running {} k2" using k2(2) p(5) unfolding running_def s by simp
  then show ?thesis using k' by simp
qed

lemma Finish_inv:
  "running {} k \<Longrightarrow> Finish k = Inr k' \<Longrightarrow> running {} k'"
  by (auto simp: Finish_def res_simps intro!: running_push)

lemma Finish_set_inv:
  assumes r: "running {} k" and e: "Finish_set k = Inr k'"
  shows "running {} k'"
proof -
  obtain c l k1 where "upd_thread (currentThread k) (\<lambda>th. th\<lparr>t_threadFinished := True\<rparr>) k = Inr k1" "Signal c l k1 = Inr k'"
    using e by (auto simp: Finish_set_def bindR_eq_Inr)
  then show ?thesis using running_upd_thread [OF r] Signal_inv by (metis thread.select_convs(2) thread.surjective thread.update_convs(6))
qed

lemma Wait_after_push: "running {} k \<Longrightarrow> FSleep \<notin> set fs \<Longrightarrow> Wait c i (push fs k) = Inr k' \<Longrightarrow> kinv k'"
  using Wait_inv running_push by blast

lemma Finish_loop_inv:
  assumes r: "running {} k" and e: "Finish_loop k = Inr k'"
  shows "kinv k'"
  using r e Wait_after_push [OF r, of "[FFinish_loop]"]
  by (auto simp: Finish_loop_def bindR_eq_Inr kinv_def split: if_splits)

lemma Finish_end_inv:
  assumes r: "running {} k" and e: "Finish_end k = Inr k'"
  shows "sleeping k'"
proof -
  let ?k1 = "set_level IntOff (k\<lparr>threadToBeDestroyed := Some (currentThread k)\<rparr>)"
  note p = runningD [OF r]
  have w: "count (wq k) (currentThread k) = 0" using placedD(3) [OF p(1), of "currentThread k"] p(4) by simp
  have "placed {currentThread k} ?k1"
  proof (rule placedI)
    show "queues_ok ?k1" using placedD(1) [OF p(1)] by simp
    fix u
    show "count (rq ?k1) u = (if st ?k1 u = Some READY \<and> u \<notin> {currentThread k} then 1 else 0)"
      using placedD(2) [OF p(1), of u] p(4) by (auto split: if_splits)
    show "count (wq ?k1) u \<le> (if st ?k1 u = Some BLOCKED \<or> u \<in> {currentThread k} then 1 else 0)"
      using placedD(3) [OF p(1), of u] w by (auto split: if_splits)
  qed
  moreover have "only_current_runs ?k1" using p(3) by (simp add: only_current_runs_def)
  ultimately have "\<exists>k'. Sleep [] ?k1 = Inr k' \<and> sleeping k'"
    using p(4,5) w by (intro Sleep_ok) (simp_all add: not_in_iff)
  then show ?thesis using e by (auto simp: Finish_end_def)
qed

lemma Join_inv:
  assumes r: "running {} k" and e: "Join t k = Inr k'"
  shows "running {} k'"
proof -
  have u: "upd_thread t (\<lambda>th. th\<lparr>t_joinCalled := True\<rparr>) k = Inr k1 \<Longrightarrow> running {} k1" for k1
    using running_upd_thread [OF r, of t "\<lambda>th. th\<lparr>t_joinCalled := True\<rparr>" k1] by simp
  show ?thesis using e
    by (auto simp: Join_def bindR_eq_Inr ASSERT_eq_Inr split: if_splits dest!: u intro!: running_push)
qed

lemma Join_loop_inv:
  assumes r: "running {} k" and e: "Join_loop t k = Inr k'"
  shows "kinv k'"
  using r e Wait_after_push [OF r, of "[FJoin_loop t]"]
  by (auto simp: Join_loop_def bindR_eq_Inr kinv_def split: if_splits)

lemma Join_set_inv:
  assumes r: "running {} k" and e: "Join_set t k = Inr k'"
  shows "running {} k'"
proof -
  obtain c l k1 where k1: "upd_thread t (\<lambda>th. th\<lparr>t_finishedJoining := True\<rparr>) k = Inr k1" "Signal c l k1 = Inr k'"
    using e by (auto simp: Join_set_def bindR_eq_Inr)
  have "running {} k1" by (rule running_upd_thread [OF r k1(1)]) simp
  then show ?thesis using Signal_inv k1(2) by blast
qed

lemma kinv_dests:
  "Wait c i k = Inr k' \<Longrightarrow> running {} k \<Longrightarrow> kinv k'"
  "Signal c i k = Inr k' \<Longrightarrow> running {} k \<Longrightarrow> kinv k'"
  "Wait c i (push fs k) = Inr k' \<Longrightarrow> running {} k \<Longrightarrow> FSleep \<notin> set fs \<Longrightarrow> kinv k'"
  using Wait_inv Signal_inv Wait_after_push by (auto simp: kinv_def)

lemma mailbox_inv:
  assumes r: "running {} k"
  shows "Send_arrive i k = Inr k' \<Longrightarrow> kinv k'" "Send_loop i k = Inr k' \<Longrightarrow> kinv k'"
    "Send_put i m k = Inr k' \<Longrightarrow> kinv k'" "Receive_arrive i k = Inr k' \<Longrightarrow> kinv k'"
    "Receive_loop i k = Inr k' \<Longrightarrow> kinv k'" "Receive_take i k = Inr k' \<Longrightarrow> kinv k'"
  using r
  by (auto simp: Send_arrive_def Send_loop_def Send_put_def Receive_arrive_def Receive_loop_def
      Receive_take_def Let_def bindR_eq_Inr kinvI(1) split: if_splits dest: kinv_dests)

lemma synch_list_inv:
  assumes r: "running {} k"
  shows "List_append i x k = Inr k' \<Longrightarrow> kinv k'" "List_loop i k = Inr k' \<Longrightarrow> kinv k'" "List_take i k = Inr k' \<Longrightarrow> kinv k'"
  using r
  by (auto simp: List_append_def List_loop_def List_take_def bindR_eq_Inr ASSERT_eq_Inr kinvI(1)
      split: if_splits dest: kinv_dests)

lemma signal_both_inv: "signal_both c c' l k = Inr k' \<Longrightarrow> running {} k \<Longrightarrow> kinv k'"
  unfolding signal_both_def bindR_eq_Inr using Signal_inv by (blast intro: kinvI)

lemma whale_inv:
  assumes r: "running {} k"
  shows "Male i k = Inr k' \<Longrightarrow> kinv k'" "Female i k = Inr k' \<Longrightarrow> kinv k'"
    "Matchmaker i k = Inr k' \<Longrightarrow> kinv k'" "Done i k = Inr k' \<Longrightarrow> kinv k'"
  using r
  by (auto simp: Male_def Female_def Matchmaker_def Done_def Let_def bindR_eq_Inr kinvI(1)
      split: if_splits dest: kinv_dests signal_both_inv)

lemma P_inv: "running {} k \<Longrightarrow> P i k = Inr k' \<Longrightarrow> kinv k'"
  using P_loop_inv [of "set_level IntOff k"] by (simp add: P_def)

lemma exec_inv:
  assumes r: "running {} k" and f: "f \<noteq> FSleep" "\<And>t. f = FFork t \<Longrightarrow> st k t = Some JUST_CREATED"
    and e: "exec f k = Inr k'"
  shows "kinv k'"
proof (cases f)
  case (FFork t)
  then show ?thesis using Fork_inv [OF r, of t] f(2) e by (simp add: kinv_def)
next
  case FSleep
  then show ?thesis using f(1) by simp
next
  case (FSetLevel lv)
  then show ?thesis using r e by (auto simp: kinv_def)
next
  case (FRelease i)
  then show ?thesis using Release_inv(1) [OF r, of i] e by (simp add: kinv_def)
qed (use e in \<open>auto intro: kinvI dest: after_switch_inv [OF r] Yield_inv [OF r] V_inv(2) [OF kinvI(1) [OF r] _ r]
      P_inv [OF r] P_loop_inv [OF r] Acquire_inv [OF r] Acquire_loop_inv [OF r]
      Wait_inv [OF r] Signal_inv [OF r] Broadcast_inv [OF r] Finish_inv [OF r] Finish_set_inv [OF r]
      Finish_loop_inv [OF r] Finish_end_inv [OF r] Join_inv [OF r] Join_loop_inv [OF r] Join_set_inv [OF r]
      mailbox_inv [OF r] synch_list_inv [OF r] whale_inv [OF r]\<close>)

lemma api_frame_no_sleep: "list_all api_frame fs \<Longrightarrow> FSleep \<notin> set fs"
  by (induction fs) auto

lemma running_new_thread:
  assumes r: "running {} k" and t: "threads k t = None" "t_status th = JUST_CREATED"
  shows "running {} (k\<lparr>threads := (threads k)(t \<mapsto> th), stacks := (stacks k)(t := [])\<rparr>)" (is "running {} ?k")
proof -
  note p = runningD [OF r]
  have n: "st k t = None" using t by (simp add: st_def)
  have s: "st ?k = (st k)(t \<mapsto> JUST_CREATED)" using t(2) by (simp add: st_def fun_eq_iff)
  have same: "rq ?k = rq k" "wq ?k = wq k" "queues_ok ?k = queues_ok k" "currentThread ?k = currentThread k"
      "threadToBeDestroyed ?k = threadToBeDestroyed k" "stacks ?k = (stacks k)(t := [])"
    by simp_all
  have z: "count (rq k) t = 0" "count (wq k) t = 0"
    using placedD(2,3) [OF p(1), of t] n by simp_all
  have "placed {} ?k"
  proof (rule placedI)
    show "queues_ok ?k" using placedD(1) [OF p(1)] same by simp
    fix u
    show "count (rq ?k) u = (if st ?k u = Some READY \<and> u \<notin> {} then 1 else 0)"
      unfolding s same using placedD(2) [OF p(1), of u] z n by auto
    show "count (wq ?k) u \<le> (if st ?k u = Some BLOCKED \<or> u \<in> {} then 1 else 0)"
      unfolding s same using placedD(3) [OF p(1), of u] z n by auto
  qed
  moreover have "carcass_ok ?k" using p(2) n unfolding carcass_ok_def s same by auto
  moreover have "only_current_runs ?k" using p(3) unfolding only_current_runs_def s same by auto
  ultimately show ?thesis using p(4,5) n unfolding running_def s same by auto
qed

lemma running_new_object:
  assumes r: "running {} k"
  shows "running {} (add_semaphore v k)" "running {} (add_lock junk k)" "running {} (add_condition k)"
    "running {} (k\<lparr>mailboxes := ms\<rparr>)" "running {} (k\<lparr>synch_lists := sls\<rparr>)" "running {} (k\<lparr>whales := ws\<rparr>)"
proof -
  note p = runningD [OF r] and q = placedD(1) [OF runningD(1) [OF r]]
  show "running {} (add_semaphore v k)" "running {} (add_lock junk k)" "running {} (add_condition k)"
    "running {} (k\<lparr>mailboxes := ms\<rparr>)" "running {} (k\<lparr>synch_lists := sls\<rparr>)" "running {} (k\<lparr>whales := ws\<rparr>)"
    by (rule running_cong [OF r]; use p(5) q in \<open>simp add: add_semaphore_def add_lock_def add_condition_def
        Semaphore_new_def Lock_new_def Condition_new_def rq_def wq_def st_def queues_ok_def fun_eq_iff\<close>)+
qed

lemma new_inv:
  assumes r: "running {} k"
  shows "threads k t = None \<Longrightarrow> running {} (Thread_new t nm junk g k)"
    "threads k t = None \<Longrightarrow> running {} (Thread_new_join t nm join junk f g k)"
    "running {} (Mailbox_new junk junk' b k)" "running {} (SynchList_new junk k)" "running {} (Whale_new junk k)"
proof -
  let ?k = "add_condition (add_lock junk k)"
  have k: "running {} ?k" by (intro running_new_object r)
  have same: "threads ?k = threads k" "stacks ?k = stacks k" by (simp_all add: add_condition_def add_lock_def)
  show "threads k t = None \<Longrightarrow> running {} (Thread_new t nm junk g k)"
    using running_new_thread [OF k] by (simp add: Thread_new_def same)
  show "threads k t = None \<Longrightarrow> running {} (Thread_new_join t nm join junk f g k)"
    using running_new_thread [OF k] running_new_thread [OF r] by (simp add: Thread_new_join_def same)
  show "running {} (Mailbox_new junk junk' b k)" "running {} (SynchList_new junk k)" "running {} (Whale_new junk k)"
    unfolding Mailbox_new_def SynchList_new_def Whale_new_def Let_def by (intro running_new_object r)+
qed

lemma kstep_inv:
  assumes k: "kinv k" and ok: "event_ok e k" and e: "kstep e k = Inr k'"
  shows "kinv k'"
proof -
  have idle: "running {} k" if "user_code k \<or> klevel k = IntOn"
    using k that by (auto simp: kinv_def sleeping_def user_code_def)
  show ?thesis
  proof (cases e)
    case Step
    show ?thesis
    proof (cases "sleeping k")
      case True
      then show ?thesis using Sleep_loop_inv e Step by simp
    next
      case False
      then have r: "running {} k" using k by (simp add: kinv_def)
      obtain f fs where f: "stacks k (currentThread k) = f # fs"
          "exec f (k\<lparr>stacks := (stacks k)(currentThread k := fs)\<rparr>) = Inr k'"
        using e Step by (auto simp: run_frame_def split: list.splits)
      have ns: "FSleep \<notin> set (stacks k u)" for u using runningD(5) [OF r] by blast
      then have "f \<noteq> FSleep" "FSleep \<notin> set fs" using f(1) by (metis list.set_intros)+
      then have "running {} (k\<lparr>stacks := (stacks k)(currentThread k := fs)\<rparr>)"
        using ns placedD(1) [OF runningD(1) [OF r]] by (intro running_cong [OF r]) simp_all
      moreover have "st k t = Some JUST_CREATED" if "f = FFork t" for t
        using ok Step f(1) that by (simp add: event_ok_def st_def)
      ultimately show ?thesis using exec_inv [of _ f k'] f(2) \<open>f \<noteq> FSleep\<close> by simp
    qed
  next
    case (Call fs)
    then have "user_code k" "k' = push fs k" "list_all api_frame fs"
      using e ok by (auto simp: event_ok_def split: if_splits)
    then show ?thesis using idle running_push api_frame_no_sleep by (auto simp: kinv_def)
  next
    case (New t nm junk g)
    then have n: "user_code k" "threads k t = None" "k' = Thread_new t nm junk g k"
      using e by (auto split: if_splits)
    then show ?thesis using idle new_inv(1) by (simp add: kinv_def)
  next
    case (New_join t nm j junk f g)
    then have n: "user_code k" "threads k t = None" "k' = Thread_new_join t nm j junk f g k"
      using e by (auto split: if_splits)
    then show ?thesis using idle new_inv(2) by (simp add: kinv_def)
  next
    case (Set_priority t p)
    then have n: "user_code k" "upd_thread t (\<lambda>th. th\<lparr>t_priority := - p\<rparr>) k = Inr k'"
      using e by (auto simp: setPriority_def split: if_splits)
    then have "running {} k'" using idle by (intro running_upd_thread [OF _ n(2)]) simp_all
    then show ?thesis by (simp add: kinv_def)
  next
    case Preempt
    then show ?thesis using e idle Yield_inv by (auto simp: kinv_def split: if_splits)
  next
    case (Handler_V i)
    then show ?thesis using e V_inv(1) [OF k] by (auto split: if_splits)
  qed (use e idle in \<open>auto intro: kinvI running_new_object new_inv split: if_splits\<close>)
qed

lemma reachable_inv: "reachable k0 k \<Longrightarrow> kinv k0 \<Longrightarrow> kinv k"
  by (induction rule: reachable.induct) (auto intro: kstep_inv)

lemma boot_inv: "kinv (boot junk g)"
proof -
  have s: "st (boot junk g) t = (if t = 0 then Some RUNNING else None)" for t
    by (simp add: boot_def Let_def Thread_new_def add_lock_def add_condition_def st_def)
  have same: "rq (boot junk g) = {#}" "wq (boot junk g) = {#}" "queues_ok (boot junk g)"
      "currentThread (boot junk g) = 0" "threadToBeDestroyed (boot junk g) = None" "stacks (boot junk g) = (\<lambda>_. [])"
    by (simp_all add: boot_def Let_def Thread_new_def add_lock_def add_condition_def rq_def wq_def queues_ok_def
        Lock_new_def Condition_new_def fun_eq_iff)
  have "running {} (boot junk g)"
    unfolding running_def placed_def carcass_ok_def only_current_runs_def s same using same(3) by simp
  then show ?thesis by (simp add: kinv_def)
qed

section \<open>Runs of events\<close>

text \<open>A run in which the callers do what they owe.\<close>

primrec krun_ok :: "event list \<Rightarrow> kern \<Rightarrow> kern res" where
  "krun_ok [] k = Inr k"
| "krun_ok (e # es) k = (if event_ok e k then bindR (kstep e k) (krun_ok es) else Inl Blocked)"

lemma krun_ok_reachable:
  "krun_ok es k = Inr k' \<Longrightarrow> krun es k = Inr k' \<and> (reachable k0 k \<longrightarrow> reachable k0 k')"
proof (induction es arbitrary: k)
  case (Cons e es)
  then obtain k1 where k1: "event_ok e k" "kstep e k = Inr k1" "krun_ok es k1 = Inr k'"
    by (auto simp: bindR_eq_Inr split: if_splits)
  then show ?case using Cons.IH [OF k1(3)] reachable.step [of k0 k e k1] by simp
qed simp

text \<open>A concrete run from the boot state, evaluated.\<close>

lemma run_case:
  assumes "case krun_ok es (boot junk g) of Inl _ \<Rightarrow> False | Inr k' \<Rightarrow> Q k'"
  obtains k' where "krun es (boot junk g) = Inr k'" "reachable (boot junk g) k'" "kinv k'" "Q k'"
proof (cases "krun_ok es (boot junk g)")
  case (Inr k')
  then have "krun es (boot junk g) = Inr k'" "reachable (boot junk g) k'"
    using krun_ok_reachable reachable.start by blast+
  then show ?thesis using that assms Inr reachable_inv [OF _ boot_inv] by simp
qed (use assms in simp)

lemma user_code_running: "kinv k \<Longrightarrow> klevel k = IntOn \<Longrightarrow> running {} k"
  by (auto simp: kinv_def sleeping_def)

section \<open>The first thread of a queue\<close>

definition waiting :: "nat lst \<Rightarrow> nat list" where
  "waiting q = map (the \<circ> snd) (lst_elems q)"

lemma mset_waiting: "mset (waiting q) = ids q"
  by (simp add: waiting_def ids_def)

lemma Remove_waiting:
  assumes "queue_ok q"
  shows "waiting q = [] \<Longrightarrow> lst_Remove q = Inr (q, None)"
    and "waiting q = t # ts \<Longrightarrow> \<exists>q'. lst_Remove q = Inr (q', Some t) \<and> queue_ok q' \<and> waiting q' = ts"
proof -
  have ok: "lst_ok q" "key_sorted (lst_elems q)" "\<forall>e \<in> set (lst_elems q). snd e \<noteq> None"
    using assms by (simp_all add: queue_ok_def)
  have rm: "lst_Remove q = bindR (lst_SortedRemove q) (\<lambda>(q', x, _). Inr (q', x))"
    by (simp add: lst_Remove_def lst_SortedRemove_def Remove_def bindR_assoc split_def)
  show "waiting q = [] \<Longrightarrow> lst_Remove q = Inr (q, None)"
    using lq.rem_Nil [OF ok(1)] by (simp add: rm waiting_def)
  assume "waiting q = t # ts"
  then obtain e es where e: "lst_elems q = e # es" "the (snd e) = t" "map (the \<circ> snd) es = ts"
    by (auto simp: waiting_def)
  obtain q' where q': "lst_SortedRemove q = Inr (q', snd e, Some (fst e))" "lst_ok q'" "lst_elems q' = es"
    using lq.rem_Cons [OF ok(1) e(1)] by blast
  have "queue_ok q'" using ok q'(2,3) e(1) by (simp add: queue_ok_def key_sorted_def)
  moreover have "snd e = Some t" using ok(3) e(1,2) by auto
  ultimately show "\<exists>q'. lst_Remove q = Inr (q', Some t) \<and> queue_ok q' \<and> waiting q' = ts"
    using q' e(3) by (auto simp: rm waiting_def)
qed

lemma IsEmpty_waiting: "queue_ok q \<Longrightarrow> lst_IsEmpty q \<longleftrightarrow> waiting q = []"
  by (simp add: queue_ok_def lst_IsEmpty_iff waiting_def)

text \<open>Taking the first thread off a queue; \<open>woken\<close> is what waking it does to the statuses.\<close>

definition woken :: "nat list \<Rightarrow> (nat \<Rightarrow> ThreadStatus option) \<Rightarrow> nat \<Rightarrow> ThreadStatus option" where
  "woken ts f = (case ts of [] \<Rightarrow> f | t # _ \<Rightarrow> f(t \<mapsto> READY))"

lemma Remove_first:
  assumes "queue_ok q"
  shows "\<exists>q' x. lst_Remove q = Inr (q', x) \<and> queue_ok q' \<and> waiting q' = tl (waiting q) \<and>
    x = (case waiting q of [] \<Rightarrow> None | t # _ \<Rightarrow> Some t) \<and>
    (case x of None \<Rightarrow> ids q' = ids q | Some t \<Rightarrow> ids q = add_mset t (ids q'))"
proof (cases "waiting q")
  case Nil
  then show ?thesis using Remove_waiting(1) [OF assms] assms by simp
next
  case (Cons t ts)
  then obtain q' where "lst_Remove q = Inr (q', Some t)" "queue_ok q'" "waiting q' = ts"
    using Remove_waiting(2) [OF assms] by blast
  moreover have "ids q = add_mset t (ids q')" using Cons calculation(3) by (simp flip: mset_waiting)
  ultimately show ?thesis using Cons by auto
qed

end
