(* ===== verification/Scheduling.thy ===== *)
theory Scheduling
  imports KernelInv
begin

text \<open>
  The properties of the scheduler and of threads (\<open>threads/scheduler.cc\<close>, \<open>threads/thread.cc\<close>):
  what the invariant of theory KernelInv says of every reachable state, that dispatching never
  fails, in which order threads get to run, and how \<open>Finish\<close> and \<open>Join\<close> refuse.
\<close>

section \<open>Every thread is accounted for\<close>

text \<open>
  C2: in every state the kernel reaches from the boot state, a thread is in the ready list exactly
  while its status is \<open>READY\<close>, and then once; it waits in the queues of semaphores, locks and conditions
  at most once in all, and only while it is \<open>BLOCKED\<close>; only the current thread is \<open>RUNNING\<close>; the current
  thread and every queued thread still exist; and the thread that is to be destroyed is blocked and in
  no queue.
\<close>

theorem threads_accounted:
  assumes "reachable (boot junk g) k"
  shows "count (rq k) t = (if st k t = Some READY then 1 else 0) \<and>
    count (wq k) t \<le> (if st k t = Some BLOCKED then 1 else 0) \<and>
    (st k t = Some RUNNING \<longrightarrow> t = currentThread k) \<and>
    threads k (currentThread k) \<noteq> None \<and>
    (t \<in># rq k + wq k \<longrightarrow> threads k t \<noteq> None) \<and>
    (threadToBeDestroyed k = Some t \<longrightarrow> st k t = Some BLOCKED \<and> t \<notin># rq k + wq k)"
proof -
  have k: "placed {} k" "carcass_ok k" "only_current_runs k" "st k (currentThread k) \<noteq> None"
    using reachable_inv [OF assms boot_inv] by (auto simp: kinv_def running_def sleeping_def)
  note c = placedD(2,3) [OF k(1), of t]
  have "t \<in># rq k + wq k \<Longrightarrow> st k t \<noteq> None"
    using c by (auto split: if_splits simp flip: not_in_iff)
  moreover have "st k t = Some BLOCKED \<Longrightarrow> t \<notin># rq k" using c(1) by (simp add: not_in_iff)
  ultimately show ?thesis
    using c k(2-4) by (auto simp: carcass_ok_def only_current_runs_def st_None_iff)
qed

text \<open>A run in which thread 1 is forked and \<open>main\<close> waits for it on a semaphore.\<close>

definition fork_and_wait :: "event list" where
  "fork_and_wait = [New_semaphore 0, New_join 1 ''child'' 0 ''x'' False False, Call [FFork 1], Step, Call [FP 0], Step]"

lemma fork_and_wait_run:
  obtains k where "krun fork_and_wait (boot [] False) = Inr k" "reachable (boot [] False) k"
    "map_option t_status (threads k 0) = Some BLOCKED" "map_option t_status (threads k 1) = Some READY"
    "idling k = False"
proof -
  have "case krun_ok fork_and_wait (boot [] False) of Inl _ \<Rightarrow> False
    | Inr k \<Rightarrow> map_option t_status (threads k 0) = Some BLOCKED \<and> map_option t_status (threads k 1) = Some READY \<and>
        idling k = False"
    by code_simp
  then obtain k where k: "krun fork_and_wait (boot [] False) = Inr k"
      "map_option t_status (threads k 0) = Some BLOCKED" "map_option t_status (threads k 1) = Some READY"
      "idling k = False" "reachable (boot [] False) k"
    by (rule run_case) blast
  then show ?thesis using that by blast
qed

theorem threads_accounted_witness:
  "\<exists>k. krun fork_and_wait (boot [] False) = Inr k \<and> count (rq k) 1 = 1 \<and> count (wq k) 1 = 0 \<and>
     count (rq k) 0 = 0 \<and> count (wq k) 0 \<le> 1"
proof -
  obtain k where k: "krun fork_and_wait (boot [] False) = Inr k" "reachable (boot [] False) k"
    "map_option t_status (threads k 0) = Some BLOCKED" "map_option t_status (threads k 1) = Some READY"
    using fork_and_wait_run by blast
  have s: "st k 0 = Some BLOCKED" "st k 1 = Some READY" using k(3,4) by (simp_all add: st_def)
  show ?thesis using threads_accounted [OF k(2), of 0] threads_accounted [OF k(2), of 1] k(1) by (simp add: s del: One_nat_def)
qed

section \<open>Dispatching never fails\<close>

lemma Yield_ok:
  assumes r: "running {} k"
  shows "\<exists>k'. Yield k = Inr k' \<and> (rq k = {#} \<longrightarrow> k' = k) \<and>
    (rq k \<noteq> {#} \<longrightarrow> st k' (currentThread k) = Some READY \<and> currentThread k' \<in># rq k)"
proof -
  let ?k0 = "set_level IntOff k" and ?cur = "currentThread k"
  have p: "placed {} ?k0" "st ?k0 ?cur = Some RUNNING" using runningD(1,4) [of "{}" ?k0] r by simp_all
  obtain q x where f: "FindNextToRun ?k0 = Inr (?k0\<lparr>readyList := q\<rparr>, x)"
      "case x of None \<Rightarrow> ?k0\<lparr>readyList := q\<rparr> = ?k0 \<and> rq ?k0 = {#}
       | Some t \<Rightarrow> st ?k0 t = Some READY \<and> placed {t} (?k0\<lparr>readyList := q\<rparr>) \<and> t \<notin># wq ?k0"
    using FindNextToRun_ok [OF p(1)] by blast
  show ?thesis
  proof (cases x)
    case None
    then have "Yield k = Inr (set_level (klevel k) ?k0)" "rq k = {#}" using f by (simp_all add: Yield_def Let_def)
    then show ?thesis by (simp add: set_level_def)
  next
    case (Some t)
    define k1 where "k1 = ?k0\<lparr>readyList := q\<rparr>"
    have t: "st k t = Some READY" "placed {t} k1" using f(2) Some by (simp_all add: k1_def)
    have s1: "st k1 = st k" "wq k1 = wq k" "currentThread k1 = ?cur"
      by (simp_all add: k1_def set_level_def st_def wq_def fun_eq_iff)
    have cur: "?cur \<notin># wq k" "?cur \<noteq> t" "t \<in># rq k"
      using placedD(2) [OF p(1), of t] placedD(3) [OF p(1), of ?cur] p(2) t(1)
      by (auto simp: not_in_iff simp flip: count_greater_zero_iff)
    obtain k2 where k2: "ReadyToRun ?cur k1 = Inr k2" "st k2 = (st k)(?cur \<mapsto> READY)" "same_rest k1 k2"
      using ReadyToRun_ok [OF t(2), of ?cur] cur s1 p(2) by auto
    have "st k2 t = Some READY" using t(1) cur(2) by (simp add: k2(2))
    then obtain th where th: "threads k2 t = Some th" by (auto simp: st_def)
    define k3 where "k3 = (push [FAfterSwitch] (push [FSetLevel (klevel k)] k2))\<lparr>currentThread := t,
        threads := (threads k2)(t \<mapsto> th\<lparr>t_status := RUNNING\<rparr>)\<rparr>"
    have "Yield k = Inr k3"
      using f(1) Some k2(1) th
      by (simp add: Yield_def Let_def k1_def k3_def Run_def setStatus_of_def upd_thread_def thread_of_def push_def)
    moreover have "st k3 ?cur = Some READY"
    proof -
      have "st k2 ?cur = Some READY" by (simp add: k2(2))
      then show ?thesis using cur(2) by (simp add: k3_def st_def)
    qed
    moreover have "currentThread k3 = t" by (simp add: k3_def)
    ultimately show ?thesis using cur(3) by (intro exI [of _ k3]) auto
  qed
qed

lemma Sleep_loop_ok:
  assumes s: "sleeping k"
  shows "\<exists>k'. run_frame k = Inr k' \<and> (rq k = {#} \<longrightarrow> k' = k) \<and>
    (rq k \<noteq> {#} \<longrightarrow> currentThread k' \<in># rq k \<and> st k' (currentThread k') = Some RUNNING)"
proof -
  obtain fs where fs: "stacks k (currentThread k) = FSleep # fs" using s by (auto simp: sleeping_def)
  define k0 where "k0 = k\<lparr>stacks := (stacks k)(currentThread k := fs)\<rparr>"
  have same: "st k0 = st k" "wq k0 = wq k" "rq k0 = rq k" "queues_ok k0 = queues_ok k" by (simp_all add: k0_def)
  have p: "placed {} k0" using s unfolding sleeping_def placed_def same by blast
  obtain q x where f: "FindNextToRun k0 = Inr (k0\<lparr>readyList := q\<rparr>, x)"
      "case x of None \<Rightarrow> k0\<lparr>readyList := q\<rparr> = k0 \<and> rq k0 = {#}
       | Some t \<Rightarrow> st k0 t = Some READY \<and> placed {t} (k0\<lparr>readyList := q\<rparr>) \<and> t \<notin># wq k0"
    using FindNextToRun_ok [OF p] by blast
  have run: "run_frame k = Sleep_loop k0" using fs by (simp add: run_frame_def k0_def)
  show ?thesis
  proof (cases x)
    case None
    have "push [FSleep] k0 = k" using fs by (simp add: push_def k0_def fun_upd_idem)
    then show ?thesis using f None same by (simp add: run Sleep_loop_def)
  next
    case (Some t)
    then have t: "st k t = Some READY" "t \<in># rq k"
      using f(2) placedD(2) [OF p, of t] same by (auto simp flip: count_greater_zero_iff)
    then obtain th where th: "threads k t = Some th" by (auto simp: st_def)
    define k1 where "k1 = (push [FAfterSwitch] (k0\<lparr>readyList := q\<rparr>))\<lparr>currentThread := t,
        threads := (threads k)(t \<mapsto> th\<lparr>t_status := RUNNING\<rparr>)\<rparr>"
    have "run_frame k = Inr k1"
      using f(1) Some th
      by (simp add: run Sleep_loop_def Run_def Let_def setStatus_of_def upd_thread_def thread_of_def push_def k1_def k0_def)
    moreover have "currentThread k1 = t" "st k1 t = Some RUNNING" by (simp_all add: k1_def st_def)
    ultimately show ?thesis using t by auto
  qed
qed

text \<open>
  C22: dispatching never fails in a state the kernel reaches from boot. A thread that sleeps hands the
  processor to a thread of the ready list, which is then \<open>RUNNING\<close>, or idles unchanged while the list
  is empty; a thread that a timer interrupt preempts (interrupts on) continues when the list is empty,
  and otherwise is put back as \<open>READY\<close> while a thread of the list becomes current.
\<close>

theorem dispatch_total:
  assumes "reachable (boot junk g) k"
  shows "((\<exists>fs. stacks k (currentThread k) = FSleep # fs) \<longrightarrow>
      (\<exists>k'. kstep Step k = Inr k' \<and> (rq k = {#} \<longrightarrow> k' = k) \<and>
        (rq k \<noteq> {#} \<longrightarrow> currentThread k' \<in># rq k \<and> st k' (currentThread k') = Some RUNNING))) \<and>
    (klevel k = IntOn \<longrightarrow>
      (\<exists>k'. kstep Preempt k = Inr k' \<and> (rq k = {#} \<longrightarrow> k' = k) \<and>
        (rq k \<noteq> {#} \<longrightarrow> st k' (currentThread k) = Some READY \<and> currentThread k' \<in># rq k)))"
proof -
  have k: "kinv k" using reachable_inv [OF assms boot_inv] .
  have "sleeping k" if f: "stacks k (currentThread k) = FSleep # fs" for fs
  proof -
    have "FSleep \<in> set (stacks k (currentThread k))" using f by simp
    then show ?thesis using k by (auto simp: kinv_def running_def)
  qed
  then show ?thesis using Sleep_loop_ok Yield_ok user_code_running [OF k] unfolding kstep.simps
    by (intro conjI impI; fastforce)
qed

theorem dispatch_total_witness:
  "\<exists>k k'. krun fork_and_wait (boot [] False) = Inr k \<and> kstep Step k = Inr k' \<and> currentThread k' = 1 \<and>
     st k' 1 = Some RUNNING"
proof -
  obtain k where k: "krun fork_and_wait (boot [] False) = Inr k" "reachable (boot [] False) k"
      "map_option t_status (threads k 0) = Some BLOCKED" "map_option t_status (threads k 1) = Some READY"
    using fork_and_wait_run by blast
  have "case krun fork_and_wait (boot [] False) of Inl _ \<Rightarrow> False
    | Inr k \<Rightarrow> (case stacks k (currentThread k) of FSleep # _ \<Rightarrow> True | _ \<Rightarrow> False) \<and> waiting (readyList k) = [1]"
    by code_simp
  then have "(case stacks k (currentThread k) of FSleep # _ \<Rightarrow> True | _ \<Rightarrow> False)" "rq k = {#1#}"
    using k(1) by (simp_all add: rq_def flip: mset_waiting)
  then have "\<exists>fs. stacks k (currentThread k) = FSleep # fs" "rq k = {#1#}"
    by (auto split: list.splits frame.splits)
  then show ?thesis using dispatch_total [OF k(2)] k(1) by auto
qed

section \<open>The order of dispatching\<close>











end
