(* ===== verification/Sections.thy ===== *)
theory Sections
  imports Kernel
begin

text \<open>
  What the sections of the kernel preserve. The routines above locks (conditions, \<open>Join\<close> and
  \<open>Finish\<close>, mailboxes, synchronized lists, the whale) change the state only through a few primitives;
  the locale \<open>section_invariant\<close> asks of a property that the primitives preserve it, and shows once that
  then all these sections do.
\<close>

section \<open>Pushed sections\<close>

definition is_P_loop :: "frame \<Rightarrow> bool" where
  "is_P_loop f = (case f of FP_loop _ _ \<Rightarrow> True | _ \<Rightarrow> False)"

definition quiet :: "frame list \<Rightarrow> bool" where
  "quiet fs \<longleftrightarrow> list_all (\<lambda>f. \<not> is_P_loop f) fs"

lemma quiet_simps [simp]: "quiet []" "quiet (f # fs) \<longleftrightarrow> \<not> is_P_loop f \<and> quiet fs"
  "quiet (fs @ gs) \<longleftrightarrow> quiet fs \<and> quiet gs"
  by (simp_all add: quiet_def)

lemma is_P_loop_simps [simp]:
  "\<not> is_P_loop (FSetLevel lv)" "\<not> is_P_loop FAfterSwitch" "\<not> is_P_loop FSleep" "is_P_loop (FP_loop i lv)"
  "\<not> is_P_loop (FAcquire l)" "\<not> is_P_loop (FAcquire_loop l lv)" "\<not> is_P_loop (FRelease l)" "\<not> is_P_loop FFinish_set"
  "\<not> is_P_loop FFinish_loop" "\<not> is_P_loop FFinish_end" "\<not> is_P_loop (FJoin_loop t)" "\<not> is_P_loop (FJoin_set t)"
  "\<not> is_P_loop (FSend_loop m)" "\<not> is_P_loop (FReceive_loop m)" "\<not> is_P_loop (FList_loop m)"
  by (simp_all add: is_P_loop_def)

section \<open>The interface\<close>

locale section_invariant =
  fixes I :: "kern \<Rightarrow> bool"
  assumes level: "I (set_level lv k) = I k"
    and cond: "I (set_cond c x k) = I k"
    and objects: "I (set_mailbox i m k) = I k" "I (set_synch_list i sl k) = I k" "I (set_whale i w k) = I k"
      "I (k\<lparr>results := rs\<rparr>) = I k"
    and destroyed: "I (k\<lparr>threadToBeDestroyed := d\<rparr>) = I k"
    and push: "quiet fs \<Longrightarrow> I k \<Longrightarrow> I (push fs k)"
    and upd_thread: "upd_thread t f k = Inr k' \<Longrightarrow>
      (\<And>th. t_name (f th) = t_name th \<and> t_status (f th) = t_status th) \<Longrightarrow> I k \<Longrightarrow> I k'"
    and ReadyToRun: "ReadyToRun t k = Inr k' \<Longrightarrow> I k \<Longrightarrow> I k'"
    and Sleep: "Sleep rest k = Inr k' \<Longrightarrow> quiet rest \<Longrightarrow> I k \<Longrightarrow> I k'"
    and Acquire_loop: "Acquire_loop j lv k = Inr k' \<Longrightarrow> I k \<Longrightarrow> I k'"
    and Release: "Release j k = Inr k' \<Longrightarrow> I k \<Longrightarrow> I k'"
begin

lemmas parts [simp] = level cond objects destroyed

lemma Acquire: "Acquire j k = Inr k' \<Longrightarrow> I k \<Longrightarrow> I k'"
  by (auto simp: Acquire_def Let_def bindR_eq_Inr split: if_splits dest: Acquire_loop)

lemma Wait: "Wait c j k = Inr k' \<Longrightarrow> I k \<Longrightarrow> I k'"
  by (auto simp: Wait_def Let_def bindR_eq_Inr ASSERT_eq_Inr Release Sleep)

lemma Wait_push: "Wait c j (push fs k) = Inr k' \<Longrightarrow> quiet fs \<Longrightarrow> I k \<Longrightarrow> I k'"
  using Wait push by blast

lemma Signal: "Signal c j k = Inr k' \<Longrightarrow> I k \<Longrightarrow> I k'"
  by (auto simp: Signal_def Let_def bindR_eq_Inr ASSERT_eq_Inr ReadyToRun split: if_splits option.splits)

lemma wake_all: "wake_all c n k = Inr k' \<Longrightarrow> I k \<Longrightarrow> I k'"
  by (induction n arbitrary: k) (auto simp: bindR_eq_Inr ReadyToRun split: option.splits)

lemma Broadcast: "Broadcast c j k = Inr k' \<Longrightarrow> I k \<Longrightarrow> I k'"
  by (auto simp: Broadcast_def Let_def bindR_eq_Inr ASSERT_eq_Inr simp del: wake_all.simps dest: wake_all)

lemma Finish: "Finish k = Inr k' \<Longrightarrow> I k \<Longrightarrow> I k'"
  by (auto simp: Finish_def bindR_eq_Inr ASSERT_eq_Inr intro!: push)

lemma Finish_set: "Finish_set k = Inr k' \<Longrightarrow> I k \<Longrightarrow> I k'"
  using upd_thread [of "currentThread k" "\<lambda>th. th\<lparr>t_threadFinished := True\<rparr>" k]
  by (auto simp: Finish_set_def bindR_eq_Inr dest: Signal)

lemma Join: "Join t k = Inr k' \<Longrightarrow> I k \<Longrightarrow> I k'"
  using upd_thread [of t "\<lambda>th. th\<lparr>t_joinCalled := True\<rparr>" k]
  by (auto simp: Join_def bindR_eq_Inr ASSERT_eq_Inr split: if_splits intro!: push)

lemma Join_set: "Join_set t k = Inr k' \<Longrightarrow> I k \<Longrightarrow> I k'"
  using upd_thread [of t "\<lambda>th. th\<lparr>t_finishedJoining := True\<rparr>" k]
  by (auto simp: Join_set_def bindR_eq_Inr dest: Signal)

lemma thread_loops:
  "Finish_loop k = Inr k' \<Longrightarrow> I k \<Longrightarrow> I k'"
  "Finish_end k = Inr k' \<Longrightarrow> I k \<Longrightarrow> I k'"
  "Join_loop t k = Inr k' \<Longrightarrow> I k \<Longrightarrow> I k'"
  by (auto simp: Finish_loop_def Finish_end_def Join_loop_def bindR_eq_Inr split: if_splits dest: Wait_push Sleep)

lemma mailbox:
  "Send_arrive j k = Inr k' \<Longrightarrow> I k \<Longrightarrow> I k'"
  "Send_loop j k = Inr k' \<Longrightarrow> I k \<Longrightarrow> I k'"
  "Send_put j m k = Inr k' \<Longrightarrow> I k \<Longrightarrow> I k'"
  "Receive_arrive j k = Inr k' \<Longrightarrow> I k \<Longrightarrow> I k'"
  "Receive_loop j k = Inr k' \<Longrightarrow> I k \<Longrightarrow> I k'"
  "Receive_take j k = Inr k' \<Longrightarrow> I k \<Longrightarrow> I k'"
  by (auto simp: Send_arrive_def Send_loop_def Send_put_def Receive_arrive_def Receive_loop_def Receive_take_def
      Let_def bindR_eq_Inr split: if_splits dest: Wait Wait_push Signal)

lemma synch_list:
  "List_append j x k = Inr k' \<Longrightarrow> I k \<Longrightarrow> I k'"
  "List_loop j k = Inr k' \<Longrightarrow> I k \<Longrightarrow> I k'"
  "List_take j k = Inr k' \<Longrightarrow> I k \<Longrightarrow> I k'"
  by (auto simp: List_append_def List_loop_def List_take_def bindR_eq_Inr ASSERT_eq_Inr split: if_splits
      dest: Wait_push Signal)

lemma whale:
  "Male j k = Inr k' \<Longrightarrow> I k \<Longrightarrow> I k'"
  "Female j k = Inr k' \<Longrightarrow> I k \<Longrightarrow> I k'"
  "Matchmaker j k = Inr k' \<Longrightarrow> I k \<Longrightarrow> I k'"
  "Done j k = Inr k' \<Longrightarrow> I k \<Longrightarrow> I k'"
  by (auto simp: Male_def Female_def Matchmaker_def Done_def signal_both_def Let_def bindR_eq_Inr split: if_splits
      dest: Wait Signal)

lemmas sections = Acquire Acquire_loop Release Wait Signal Broadcast Finish Finish_set Join Join_set thread_loops
  mailbox synch_list whale

text \<open>The sections that neither switch threads, delete or fork one, nor touch a semaphore.\<close>

lemma exec_section:
  assumes "exec f k = Inr k'" "I k"
    "f \<noteq> FSleep" "f \<noteq> FAfterSwitch" "f \<noteq> FYield" "\<forall>t. f \<noteq> FFork t" "\<forall>i. f \<noteq> FP i \<and> f \<noteq> FV i" "\<not> is_P_loop f"
  shows "I k'"
  using assms by (cases f) (auto dest: sections)

end

end
