(* ===== verification/Locks.thy ===== *)
theory Locks
  imports KernelInv Sections
begin

text \<open>
  Mutual exclusion of \<open>Lock\<close> (\<open>threads/synch.cc\<close>). A lock knows its holder by the name of the thread:
  no section that a thread of another name runs takes the lock away from the holder (the lemmas
  \<open>safe_*\<close> for the primitives, the interpretation \<open>lk\<close> for the
  sections above them, and \<open>owned_kstep\<close>); two threads of one name share it.
\<close>

section \<open>Who holds a lock\<close>

text \<open>Lock \<open>i\<close> is held in the name \<open>nm\<close>; the current thread has another name.\<close>

definition owned :: "nat \<Rightarrow> string \<Rightarrow> kern \<Rightarrow> bool" where
  "owned i nm k \<longleftrightarrow> i < length (locks k) \<and> l_held (locks k ! i) \<and> l_threadName (locks k ! i) = nm"

definition other :: "string \<Rightarrow> kern \<Rightarrow> bool" where
  "other nm k \<longleftrightarrow> map_option t_name (threads k (currentThread k)) \<noteq> Some nm"

definition safe :: "nat \<Rightarrow> string \<Rightarrow> kern \<Rightarrow> bool" where
  "safe i nm k \<longleftrightarrow> owned i nm k \<and> other nm k"

lemma differ_iff: "length (a :: 'a list) = length b \<Longrightarrow> (\<exists>i \<in> {0..<length a}. a ! i \<noteq> b ! i) \<longleftrightarrow> a \<noteq> b"
  using nth_equalityI [of a b] by fastforce

lemma isHeld_iff: "isHeldByCurrentThread k l = Inr mine \<longleftrightarrow>
    (\<exists>th. threads k (currentThread k) = Some th \<and> (mine \<longleftrightarrow> l_threadName l = t_name th \<and> l_held l))"
  unfolding isHeldByCurrentThread_def bindR_eq_Inr Let_def thread_of_ok
  by (cases "threads k (currentThread k)") (use differ_iff in \<open>force split: if_splits\<close>)+

section \<open>The sections of other threads\<close>

lemma safe_simps [simp]:
  "safe i nm (push fs k) = safe i nm k" "safe i nm (set_level lv k) = safe i nm k"
  "safe i nm (set_sem j s k) = safe i nm k" "safe i nm (set_cond j c k) = safe i nm k"
  "safe i nm (set_mailbox j m k) = safe i nm k" "safe i nm (set_synch_list j sl k) = safe i nm k"
  "safe i nm (set_whale j w k) = safe i nm k" "safe i nm (k\<lparr>stacks := ss\<rparr>) = safe i nm k"
  "safe i nm (k\<lparr>results := rs\<rparr>) = safe i nm k" "safe i nm (k\<lparr>readyList := q\<rparr>) = safe i nm k"
  "safe i nm (k\<lparr>threadToBeDestroyed := d\<rparr>) = safe i nm k"
  by (simp_all add: safe_def owned_def other_def push_def set_level_def set_sem_def set_cond_def set_mailbox_def
      set_synch_list_def set_whale_def)

lemma owned_simps [simp]:
  "owned i nm (push fs k) = owned i nm k" "owned i nm (set_level lv k) = owned i nm k"
  "owned i nm (k\<lparr>stacks := ss\<rparr>) = owned i nm k" "owned i nm (k\<lparr>readyList := q\<rparr>) = owned i nm k"
  "owned i nm (k\<lparr>currentThread := c\<rparr>) = owned i nm k"
  "owned i nm (k\<lparr>threads := ts\<rparr>) = owned i nm k"
  by (simp_all add: owned_def push_def set_level_def)

lemma safe_upd_thread:
  assumes "upd_thread t f k = Inr k'" "\<And>th. t_name (f th) = t_name th"
  shows "safe i nm k' = safe i nm k" "owned i nm k' = owned i nm k"
  using assms by (auto simp: safe_def owned_def other_def upd_thread_def bindR_eq_Inr split: if_splits)

lemma safe_set_lock:
  "safe i nm k \<Longrightarrow> j = i \<longrightarrow> l_held l \<and> l_threadName l = nm \<Longrightarrow> safe i nm (set_lock j l k)"
  by (cases "j = i") (simp_all add: safe_def owned_def other_def set_lock_def)

lemma safe_ReadyToRun: "ReadyToRun t k = Inr k' \<Longrightarrow> safe i nm k' = safe i nm k \<and> owned i nm k' = owned i nm k"
  using safe_upd_thread [of t "\<lambda>th. th\<lparr>t_status := READY\<rparr>" k]
  by (auto simp: ReadyToRun_def setStatus_of_def bindR_eq_Inr)

lemma safe_wake: "wake x k = Inr k' \<Longrightarrow> safe i nm k \<Longrightarrow> safe i nm k'"
  by (auto simp: wake_def safe_ReadyToRun split: option.splits)

lemma safe_Sleep: "Sleep rest k = Inr k' \<Longrightarrow> safe i nm k \<Longrightarrow> safe i nm k'"
  using safe_upd_thread [of "currentThread k" "\<lambda>th. th\<lparr>t_status := BLOCKED\<rparr>" k]
  by (auto simp: Sleep_def setStatus_of_def bindR_eq_Inr ASSERT_eq_Inr)

lemma owned_Run: "Run t k = Inr k' \<Longrightarrow> owned i nm k' = owned i nm k"
  by (auto simp: Run_def Let_def setStatus_of_def upd_thread_def bindR_eq_Inr)

lemma owned_FindNextToRun: "FindNextToRun k = Inr (k', x) \<Longrightarrow> owned i nm k' = owned i nm k"
  by (auto simp: FindNextToRun_def bindR_eq_Inr)

lemma owned_Yield: "Yield k = Inr k' \<Longrightarrow> owned i nm k' = owned i nm k"
  by (auto simp: Yield_def Let_def bindR_eq_Inr owned_Run owned_FindNextToRun safe_ReadyToRun split: option.splits)

lemma owned_Sleep_loop: "Sleep_loop k = Inr k' \<Longrightarrow> owned i nm k' = owned i nm k"
  by (auto simp: Sleep_loop_def bindR_eq_Inr owned_Run owned_FindNextToRun split: option.splits)

lemma safe_P_loop: "P_loop j lv k = Inr k' \<Longrightarrow> safe i nm k \<Longrightarrow> safe i nm k'"
  by (auto simp: P_loop_def bindR_eq_Inr split: if_splits dest: safe_Sleep)

lemma safe_V: "V j k = Inr k' \<Longrightarrow> safe i nm k \<Longrightarrow> safe i nm k'"
  by (auto simp: V_def Let_def bindR_eq_Inr dest: safe_wake)

lemma safe_Acquire_loop: "Acquire_loop j lv k = Inr k' \<Longrightarrow> safe i nm k \<Longrightarrow> safe i nm k'"
  by (auto simp: Acquire_loop_def bindR_eq_Inr split: if_splits dest!: safe_Sleep intro!: safe_set_lock)
     (auto simp: safe_def owned_def)

lemma safe_not_mine:
  "safe i nm k \<Longrightarrow> j < length (locks k) \<Longrightarrow> isHeldByCurrentThread k (locks k ! j) = Inr True \<Longrightarrow> j \<noteq> i"
  by (auto simp: isHeld_iff safe_def owned_def other_def)

lemma safe_Release:
  assumes "Release j k = Inr k'" "safe i nm k"
  shows "safe i nm k'"
proof -
  let ?k = "set_level IntOff k"
  have "j < length (locks k)" "isHeldByCurrentThread ?k (locks k ! j) = Inr True"
    using assms(1) by (auto simp: Release_def Let_def bindR_eq_Inr ASSERT_eq_Inr)
  then have "j \<noteq> i" using safe_not_mine [of i nm ?k j] assms(2) by simp
  then show ?thesis using assms
    by (auto simp: Release_def Let_def bindR_eq_Inr ASSERT_eq_Inr intro!: safe_set_lock dest!: safe_wake)
qed

lemma safe_after_switch: "after_switch k = Inr k' \<Longrightarrow> safe i nm k \<Longrightarrow> safe i nm k'"
  by (auto simp: after_switch_def delete_thread_def bindR_eq_Inr ASSERT_eq_Inr split: option.splits)
     (auto simp: safe_def owned_def other_def)

lemma safe_Fork: "Fork t k = Inr k' \<Longrightarrow> safe i nm k \<Longrightarrow> safe i nm k'"
  by (auto simp: Fork_def Let_def bindR_eq_Inr safe_ReadyToRun)

lemma safe_owned: "safe i nm k \<Longrightarrow> owned i nm k"
  by (simp add: safe_def)

interpretation lk: section_invariant "safe i nm" for i nm
  by unfold_locales (auto simp: safe_upd_thread(1) safe_ReadyToRun dest: safe_Sleep safe_Acquire_loop safe_Release)

lemma owned_exec:
  assumes "exec f k = Inr k'" "safe i nm k"
  shows "owned i nm k'"
proof (cases "f = FSleep \<or> f = FAfterSwitch \<or> f = FYield \<or> (\<exists>t. f = FFork t) \<or> (\<exists>j. f = FP j \<or> f = FV j) \<or> is_P_loop f")
  case True
  then show ?thesis using assms
    by (auto simp: P_def is_P_loop_def owned_Yield owned_Sleep_loop safe_owned split: frame.splits
        dest: safe_after_switch safe_Fork safe_V safe_P_loop)
next
  case False
  then show ?thesis using lk.exec_section [OF assms] safe_owned by blast
qed

lemma owned_new:
  "owned i nm k \<Longrightarrow> owned i nm (add_lock junk k)" "owned i nm (add_condition k) = owned i nm k"
  "owned i nm (add_semaphore v k) = owned i nm k" "owned i nm (k\<lparr>mailboxes := ms\<rparr>) = owned i nm k"
  "owned i nm (k\<lparr>synch_lists := sls\<rparr>) = owned i nm k" "owned i nm (k\<lparr>whales := ws\<rparr>) = owned i nm k"
  by (auto simp: owned_def add_lock_def add_condition_def add_semaphore_def nth_append)

lemma owned_kstep:
  assumes "owned i nm k" "other nm k" "kstep e k = Inr k'"
  shows "owned i nm k'"
proof -
  have s: "safe i nm k" using assms(1,2) by (simp add: safe_def)
  show ?thesis
  proof (cases e)
    case Step
    then show ?thesis using assms(3) s by (auto simp: run_frame_def split: list.splits dest: owned_exec)
  next
    case (Set_priority t p)
    then show ?thesis using assms(1,3) safe_upd_thread [of t "\<lambda>th. th\<lparr>t_priority := - p\<rparr>" k k' i nm]
      by (auto simp: setPriority_def split: if_splits)
  next
    case (Handler_V j)
    then show ?thesis using assms(3) safe_V [OF _ s] by (auto simp: safe_owned split: if_splits)
  qed (use assms(1,3) in \<open>auto simp: owned_Yield owned_new Thread_new_def Thread_new_join_def Mailbox_new_def
      SynchList_new_def Whale_new_def Let_def split: if_splits\<close>)
qed

lemma Acquire_blocks:
  assumes r: "running {} k" and o: "owned i nm k" "other nm k"
  shows "\<exists>k''. Acquire i k = Inr k'' \<and> sleeping k'' \<and> owned i nm k'' \<and>
       currentThread k'' = currentThread k \<and> st k'' (currentThread k) = Some BLOCKED \<and>
       currentThread k \<in># ids (l_Q (locks k'' ! i)) \<and>
       stacks k'' (currentThread k) = [FSleep, FAcquire_loop i (klevel k)] @ stacks k (currentThread k)"
proof -
  let ?k0 = "set_level IntOff k" and ?l = "locks k ! i" and ?c = "currentThread k"
  have i: "i < length (locks k)" "l_held ?l" "l_threadName ?l = nm" using o(1) by (simp_all add: owned_def)
  obtain th where th: "threads k ?c = Some th" using runningD(4) [OF r] by (auto simp: st_def)
  have nm: "t_name th \<noteq> nm" using o(2) th by (simp add: other_def)
  have "isHeldByCurrentThread ?k0 ?l = Inr False" unfolding isHeld_iff using th nm i by simp
  then have a: "Acquire i k = Acquire_loop i (klevel k) ?k0" using i by (simp add: Acquire_def Let_def fetch_def)
  have qs: "queues_ok k" using runningD(1) [OF r] placedD(1) by blast
  obtain q where q: "lst_SortedInsert (l_Q ?l) (Some ?c) (t_priority th) = Inr q" "queue_ok q"
      "ids q = add_mset ?c (ids (l_Q ?l))"
    using insert_queue [OF queues_okD(2) [OF qs i(1)]] by blast
  let ?k1 = "set_lock i (?l\<lparr>l_Q := q\<rparr>) ?k0"
  let ?k2 = "push [FSleep, FAcquire_loop i (klevel k)] (?k1\<lparr>threads := (threads k)(?c \<mapsto> th\<lparr>t_status := BLOCKED\<rparr>)\<rparr>)"
  have e: "Acquire i k = Inr ?k2"
    using i th q(1) unfolding a
    by (simp add: Acquire_loop_def fetch_def getPriority_def thread_of_def Sleep_def setStatus_of_def upd_thread_def)
  moreover have "owned i nm ?k2" using i by (simp add: owned_def push_def)
  moreover have "st ?k2 ?c = Some BLOCKED" by (simp add: st_def push_def)
  moreover have "kinv ?k2" by (rule Acquire_inv [OF r e])
  then have "sleeping ?k2" using \<open>st ?k2 ?c = Some BLOCKED\<close> by (auto simp: kinv_def running_def)
  ultimately show ?thesis using q(3) i by (intro exI [of _ ?k2]) (simp add: push_def)
qed

text \<open>The holder releases.\<close>

lemma Release_ok:
  assumes r: "running {} k" and o: "owned i nm k" "map_option t_name (threads k (currentThread k)) = Some nm"
  shows "\<exists>k'. Release i k = Inr k' \<and> running {} k' \<and> \<not> l_held (locks k' ! i) \<and>
    waiting (l_Q (locks k' ! i)) = tl (waiting (l_Q (locks k ! i))) \<and>
    st k' = woken (waiting (l_Q (locks k ! i))) (st k) \<and> currentThread k' = currentThread k"
proof -
  let ?k0 = "set_level IntOff k" and ?l = "locks k ! i"
  have i: "i < length (locks k)" "l_held ?l" "l_threadName ?l = nm" using o(1) by (simp_all add: owned_def)
  have qs: "queues_ok k" using runningD(1) [OF r] placedD(1) by blast
  note ql = queues_okD(2) [OF qs i(1)]
  obtain q x where q: "lst_Remove (l_Q ?l) = Inr (q, x)" "queue_ok q" "waiting q = tl (waiting (l_Q ?l))"
      "x = (case waiting (l_Q ?l) of [] \<Rightarrow> None | t # _ \<Rightarrow> Some t)"
      "case x of None \<Rightarrow> ids q = ids (l_Q ?l) | Some t \<Rightarrow> ids (l_Q ?l) = add_mset t (ids q)"
    using Remove_first [OF ql] by blast
  have "(if lst_IsEmpty (l_Q ?l) then Inr (l_Q ?l, None) else lst_Remove (l_Q ?l)) = Inr (q, x)"
    using q(1) Remove_waiting(1) [OF ql] IsEmpty_waiting [OF ql] by auto
  moreover have "isHeldByCurrentThread ?k0 ?l = Inr True" unfolding isHeld_iff using o(2) i by auto
  ultimately have e: "Release i k = bindR (wake x (set_lock i (?l\<lparr>l_Q := q\<rparr>) ?k0))
      (\<lambda>k2. Inr (set_level (klevel k) (set_lock i (?l\<lparr>l_Q := q, l_held := False\<rparr>) k2)))"
    using i by (simp add: Release_def Let_def fetch_def)
  have m: "moved x ?k0 (set_lock i (?l\<lparr>l_Q := q\<rparr>) ?k0)"
    using q(2,5) qs wq_set_lock [of i ?k0 "?l\<lparr>l_Q := q\<rparr>"] i by (auto simp: moved_def split: option.splits)
  obtain k2 where k2: "wake x (set_lock i (?l\<lparr>l_Q := q\<rparr>) ?k0) = Inr k2" "same_rest (set_lock i (?l\<lparr>l_Q := q\<rparr>) ?k0) k2"
      "st k2 = (case x of None \<Rightarrow> st ?k0 | Some t \<Rightarrow> (st ?k0)(t \<mapsto> READY))"
    using wake_running [of "{}" ?k0 x, OF _ m] r by fastforce
  define k' where "k' = set_level (klevel k) (set_lock i (?l\<lparr>l_Q := q, l_held := False\<rparr>) k2)"
  have e': "Release i k = Inr k'" using e k2(1) by (simp add: k'_def)
  have "running {} k'" by (rule Release_inv(1) [OF r _ e']) simp
  moreover have "currentThread k' = currentThread k" by (rule Release_inv(2) [OF r _ e']) simp
  moreover have "locks k' ! i = ?l\<lparr>l_Q := q, l_held := False\<rparr>" using k2(2) i by (simp add: k'_def same_rest_def)
  moreover have "st k' = woken (waiting (l_Q ?l)) (st k)" using k2(3) q(4) by (simp add: k'_def woken_def split: list.splits)
  ultimately show ?thesis using e' q(3) by simp
qed

text \<open>A run in which every event happens while a thread of another name than \<open>nm\<close> is current.\<close>

primrec others_run :: "string \<Rightarrow> event list \<Rightarrow> kern \<Rightarrow> bool" where
  "others_run nm [] k = True"
| "others_run nm (e # es) k \<longleftrightarrow> other nm k \<and> (case kstep e k of Inl _ \<Rightarrow> True | Inr k' \<Rightarrow> others_run nm es k')"

section \<open>Properties\<close>

text \<open>
  C10: a lock that is held in the name of a thread stays held in that name through every run of the
  kernel (calls, preemptions, interrupt handlers, new and finished threads) until a thread of that name
  runs again; and meanwhile a thread of another name that calls \<open>Acquire\<close> does not get past it: it is
  blocked in the queue of the lock, with the loop of \<open>Acquire\<close> still to do.
\<close>

theorem lock_excludes:
  assumes "owned i nm k" "others_run nm es k" "krun es k = Inr k'"
  shows "owned i nm k' \<and>
    (running {} k' \<and> other nm k' \<longrightarrow> (\<exists>k''. Acquire i k' = Inr k'' \<and> sleeping k'' \<and> owned i nm k'' \<and>
       currentThread k'' = currentThread k' \<and> st k'' (currentThread k') = Some BLOCKED \<and>
       currentThread k' \<in># ids (l_Q (locks k'' ! i)) \<and>
       stacks k'' (currentThread k') = [FSleep, FAcquire_loop i (klevel k')] @ stacks k' (currentThread k')))"
proof -
  have o: "owned i nm k'" using assms
  proof (induction es arbitrary: k)
    case (Cons e es)
    then show ?case using owned_kstep by (fastforce simp: bindR_eq_Inr)
  qed simp
  moreover have "\<exists>k''. Acquire i k' = Inr k'' \<and> sleeping k'' \<and> owned i nm k'' \<and>
       currentThread k'' = currentThread k' \<and> st k'' (currentThread k') = Some BLOCKED \<and>
       currentThread k' \<in># ids (l_Q (locks k'' ! i)) \<and>
       stacks k'' (currentThread k') = [FSleep, FAcquire_loop i (klevel k')] @ stacks k' (currentThread k')"
    if "running {} k'" "other nm k'"
    by (rule Acquire_blocks [OF that(1) o that(2)])
  ultimately show ?thesis by blast
qed

text \<open>\<open>main\<close> takes lock 1 and is preempted by the thread 1, of another name or of the same name.\<close>

definition hold_and_preempt :: "string \<Rightarrow> event list" where
  "hold_and_preempt nm = [New_lock ''x'', New_join 1 nm 0 [] False False, Call [FFork 1], Step,
     Call [FAcquire 1], Step, Preempt, Step]"

lemma hold_and_preempt_run:
  assumes "case krun_ok (hold_and_preempt nm) (boot [] False) of Inl _ \<Rightarrow> False
     | Inr k \<Rightarrow> owned 1 ''main'' k \<and> klevel k = IntOn \<and> Q k"
  obtains k where "krun (hold_and_preempt nm) (boot [] False) = Inr k" "running {} k" "owned 1 ''main'' k"
    "klevel k = IntOn" "Q k"
  using assms by (rule run_case) (use that user_code_running in blast)

theorem lock_excludes_witness:
  "\<exists>k k'. krun (hold_and_preempt ''child'') (boot [] False) = Inr k \<and> krun [New_semaphore 7] k = Inr k' \<and>
     owned 1 ''main'' k' \<and> (\<exists>k''. Acquire 1 k' = Inr k'' \<and> sleeping k'' \<and> st k'' (currentThread k') = Some BLOCKED)"
proof -
  let ?Q = "\<lambda>k. others_run ''main'' [New_semaphore 7] k \<and> other ''main'' k \<and> user_code k"
  have "case krun_ok (hold_and_preempt ''child'') (boot [] False) of Inl _ \<Rightarrow> False
     | Inr k \<Rightarrow> owned 1 ''main'' k \<and> klevel k = IntOn \<and> ?Q k" by code_simp
  then obtain k where k: "krun (hold_and_preempt ''child'') (boot [] False) = Inr k" "running {} k"
      "owned 1 ''main'' k" "?Q k" by (rule hold_and_preempt_run)
  then have e: "krun [New_semaphore 7] k = Inr (add_semaphore 7 k)" by simp
  have "running {} (add_semaphore 7 k)" "other ''main'' (add_semaphore 7 k)"
    using k(2,4) running_new_object(1) by (simp_all add: other_def add_semaphore_def)
  then show ?thesis using lock_excludes [OF k(3) conjunct1 [OF k(4)] e] k(1) e by blast
qed

text \<open>
  The holder of a lock can release it: the lock is then free, and the first thread of its queue, if
  any, is \<open>READY\<close> and out of the queue. It does not get the lock with that: it still has to pass the loop
  of \<open>Acquire\<close>, so a thread that comes in between may take the lock first.
\<close>

theorem Release_hands_over:
  assumes "running {} k" "owned i nm k" "map_option t_name (threads k (currentThread k)) = Some nm"
  shows "\<exists>k'. Release i k = Inr k' \<and> running {} k' \<and> \<not> l_held (locks k' ! i) \<and>
    (case waiting (l_Q (locks k ! i)) of
       [] \<Rightarrow> waiting (l_Q (locks k' ! i)) = [] \<and> st k' = st k
     | t # ts \<Rightarrow> waiting (l_Q (locks k' ! i)) = ts \<and> st k' = (st k)(t \<mapsto> READY))"
  using Release_ok [OF assms] by (fastforce simp: woken_def split: list.splits)

text \<open>\<open>child\<close> waits for the lock, and \<open>main\<close> runs again.\<close>

definition wait_for_lock :: "event list" where
  "wait_for_lock = hold_and_preempt ''child'' @ [Call [FAcquire 1], Step, Step]"

theorem Release_hands_over_witness:
  "\<exists>k k'. krun wait_for_lock (boot [] False) = Inr k \<and> waiting (l_Q (locks k ! 1)) = [1] \<and> Release 1 k = Inr k' \<and>
     \<not> l_held (locks k' ! 1) \<and> st k' 1 = Some READY"
proof -
  have "case krun_ok wait_for_lock (boot [] False) of Inl _ \<Rightarrow> False
    | Inr k \<Rightarrow> owned 1 ''main'' k \<and> waiting (l_Q (locks k ! 1)) = [1] \<and>
        map_option t_name (threads k (currentThread k)) = Some ''main'' \<and> st k (currentThread k) = Some RUNNING"
    by code_simp
  then obtain k where k: "krun wait_for_lock (boot [] False) = Inr k" "owned 1 ''main'' k"
      "waiting (l_Q (locks k ! 1)) = [1]" "map_option t_name (threads k (currentThread k)) = Some ''main''"
      "st k (currentThread k) = Some RUNNING" "kinv k"
    by (rule run_case) blast
  then have "running {} k" by (auto simp: kinv_def sleeping_def)
  from Release_hands_over [OF this k(2,4)] show ?thesis using k(1,3) by auto
qed

text \<open>
  C29: a lock does not keep two threads of the same name apart. Whatever thread took the lock, the current
  thread, if it has the same name, passes \<open>Acquire\<close> at once with nothing changed, and can release the lock.
\<close>

theorem same_name_shares_lock:
  assumes "running {} k" "owned i nm k" "map_option t_name (threads k (currentThread k)) = Some nm"
  shows "Acquire i k = Inr k \<and> (\<exists>k'. Release i k = Inr k' \<and> \<not> l_held (locks k' ! i))"
proof -
  have "isHeldByCurrentThread (set_level IntOff k) (locks k ! i) = Inr True"
    unfolding isHeld_iff using assms(2,3) by (auto simp: owned_def)
  then have "Acquire i k = Inr k"
    using assms(2) by (simp add: Acquire_def Let_def owned_def fetch_def set_level_def)
  then show ?thesis using Release_ok [OF assms] by blast
qed

theorem same_name_shares_lock_witness:
  "\<exists>k. krun (hold_and_preempt ''main'') (boot [] False) = Inr k \<and> currentThread k = 1 \<and> Acquire 1 k = Inr k \<and>
     (\<exists>k'. Release 1 k = Inr k' \<and> \<not> l_held (locks k' ! 1))"
proof -
  let ?Q = "\<lambda>k. currentThread k = 1 \<and> map_option t_name (threads k (currentThread k)) = Some ''main''"
  have "case krun_ok (hold_and_preempt ''main'') (boot [] False) of Inl _ \<Rightarrow> False
     | Inr k \<Rightarrow> owned 1 ''main'' k \<and> klevel k = IntOn \<and> ?Q k" by code_simp
  then obtain k where k: "krun (hold_and_preempt ''main'') (boot [] False) = Inr k" "running {} k"
      "owned 1 ''main'' k" "?Q k" by (rule hold_and_preempt_run)
  then show ?thesis using same_name_shares_lock [OF k(2,3) conjunct2 [OF k(4)]] by blast
qed

end
