(* ===== verification/Semaphores.thy ===== *)
theory Semaphores
  imports KernelInv Sections
begin

text \<open>
  Semaphores (\<open>threads/synch.cc\<close>) lose no wakeup. \<open>V\<close> takes one waiter off the queue and adds one to
  the value; a thread that was woken has the loop of \<open>P\<close> still to do. While threads wait, the value is at
  most the number of woken threads on their way, for no other section of the kernel changes a semaphore
  or the sections such a thread still has to do (the lemmas \<open>calm_*\<close>).
\<close>

section \<open>Threads inside \<open>P\<close>\<close>

text \<open>The thread still has to do the loop of \<open>P\<close> on semaphore \<open>i\<close>, after it is switched to.\<close>

definition in_P :: "nat \<Rightarrow> frame list \<Rightarrow> bool" where
  "in_P i fs = (case dropWhile (\<lambda>f. f = FSleep \<or> f = FAfterSwitch) fs of
     FP_loop j lv # rest \<Rightarrow> j = i \<and> quiet rest | _ \<Rightarrow> False)"

definition active :: "kern \<Rightarrow> nat \<Rightarrow> bool" where
  "active k t \<longleftrightarrow> st k t = Some READY \<or> st k t = Some RUNNING"

definition coming :: "kern \<Rightarrow> nat \<Rightarrow> nat \<Rightarrow> bool" where
  "coming k i t \<longleftrightarrow> active k t \<and> in_P i (stacks k t)"

definition sem_ok :: "kern \<Rightarrow> nat \<Rightarrow> semaphore \<Rightarrow> bool" where
  "sem_ok k i s \<longleftrightarrow> (\<forall>t \<in># ids (s_queue s). in_P i (stacks k t)) \<and>
     (ids (s_queue s) \<noteq> {#} \<longrightarrow> (\<exists>T. finite T \<and> s_value s \<le> int (card T) \<and> (\<forall>t \<in> T. coming k i t)))"

definition sem_inv :: "kern \<Rightarrow> bool" where
  "sem_inv k \<longleftrightarrow> (\<forall>t. quiet (stacks k t) \<or> (\<exists>i. in_P i (stacks k t))) \<and>
     (klevel k = IntOn \<longrightarrow> quiet (stacks k (currentThread k))) \<and>
     (\<forall>i < length (semaphores k). sem_ok k i (semaphores k ! i))"

lemma in_P_simps [simp]:
  "\<not> in_P i []" "in_P i (FSleep # fs) = in_P i fs" "in_P i (FAfterSwitch # fs) = in_P i fs"
  "in_P i (FP_loop j lv # fs) \<longleftrightarrow> j = i \<and> quiet fs"
  by (simp_all add: in_P_def)

lemma in_P_other: "f \<noteq> FSleep \<Longrightarrow> f \<noteq> FAfterSwitch \<Longrightarrow> \<not> is_P_loop f \<Longrightarrow> \<not> in_P i (f # fs)"
  by (cases f) (simp_all add: in_P_def is_P_loop_def)

lemma quiet_not_in_P: "quiet fs \<Longrightarrow> \<not> in_P i fs"
proof
  assume q: "quiet fs" and p: "in_P i fs"
  then obtain lv rest where "dropWhile (\<lambda>f. f = FSleep \<or> f = FAfterSwitch) fs = FP_loop i lv # rest"
    by (auto simp: in_P_def split: list.splits frame.splits)
  then have "FP_loop i lv \<in> set fs" by (metis list.set_intros(1) set_dropWhileD)
  then show False using q by (auto simp: quiet_def list_all_iff)
qed

lemma in_P_unique: "in_P i fs \<Longrightarrow> in_P j fs \<Longrightarrow> i = j"
  by (auto simp: in_P_def split: list.splits frame.splits)

section \<open>Sections that do not touch semaphores\<close>

definition calm :: "kern \<Rightarrow> kern \<Rightarrow> bool" where
  "calm k k' \<longleftrightarrow> semaphores k' = semaphores k \<and> currentThread k' = currentThread k \<and>
     (\<exists>new. quiet new \<and> stacks k' = (stacks k)(currentThread k := new @ stacks k (currentThread k))) \<and>
     (\<forall>t. t \<noteq> currentThread k \<longrightarrow> active k t \<longrightarrow> active k' t)"

lemma calmI:
  "semaphores k' = semaphores k \<Longrightarrow> currentThread k' = currentThread k \<Longrightarrow> quiet new \<Longrightarrow>
   stacks k' = (stacks k)(currentThread k := new @ stacks k (currentThread k)) \<Longrightarrow>
   (\<And>t. t \<noteq> currentThread k \<Longrightarrow> active k t \<Longrightarrow> active k' t) \<Longrightarrow> calm k k'"
  unfolding calm_def by blast

lemma calm_refl [simp]: "calm k k"
  by (rule calmI [where new = "[]"]) simp_all

lemma calm_trans: "calm k k1 \<Longrightarrow> calm k1 k2 \<Longrightarrow> calm k k2"
proof -
  assume a: "calm k k1" and b: "calm k1 k2"
  obtain n1 n2 where n: "quiet n1" "stacks k1 = (stacks k)(currentThread k := n1 @ stacks k (currentThread k))"
      "quiet n2" "stacks k2 = (stacks k1)(currentThread k1 := n2 @ stacks k1 (currentThread k1))"
    using a b by (auto simp: calm_def)
  have "currentThread k1 = currentThread k" using a by (simp add: calm_def)
  then have "stacks k2 = (stacks k)(currentThread k := (n2 @ n1) @ stacks k (currentThread k))" using n by simp
  then show "calm k k2" using a b n(1,3) by (intro calmI [where new = "n2 @ n1"]) (auto simp: calm_def)
qed

lemma active_simps [simp]:
  "active (push fs k) = active k" "active (set_level lv k) = active k" "active (k\<lparr>stacks := ss\<rparr>) = active k"
  "active (set_sem i x k) = active k" "active (set_lock i y k) = active k" "active (set_cond i z k) = active k"
  "active (set_mailbox i m k) = active k" "active (set_synch_list i sl k) = active k" "active (set_whale i w k) = active k"
  "active (k\<lparr>results := rs\<rparr>) = active k"
  by (simp_all add: active_def fun_eq_iff)

lemma calm_set [simp]:
  "calm k0 (set_level lv k) = calm k0 k" "calm k0 (set_lock i l k) = calm k0 k" "calm k0 (set_cond i c k) = calm k0 k"
  "calm k0 (set_mailbox i m k) = calm k0 k" "calm k0 (set_synch_list i sl k) = calm k0 k"
  "calm k0 (set_whale i w k) = calm k0 k" "calm k0 (k\<lparr>results := rs\<rparr>) = calm k0 k"
  "calm k0 (k\<lparr>readyList := q\<rparr>) = calm k0 k" "calm k0 (k\<lparr>threadToBeDestroyed := d\<rparr>) = calm k0 k"
  by (simp_all add: calm_def active_def st_def set_level_def set_lock_def set_cond_def set_mailbox_def
      set_synch_list_def set_whale_def)

lemma calm_push: "quiet fs \<Longrightarrow> calm k0 k \<Longrightarrow> calm k0 (push fs k)"
  by (erule calm_trans, rule calmI [where new = fs]) (simp_all add: push_def)

lemma calm_upd_thread:
  assumes "upd_thread t f k = Inr k'" "\<And>th. t_status (f th) = t_status th \<or> t_status (f th) = READY \<or> t = currentThread k"
    "calm k0 k"
  shows "calm k0 k'"
proof -
  obtain th where "threads k t = Some th" "k' = k\<lparr>threads := (threads k)(t \<mapsto> f th)\<rparr>"
    using assms(1) by (auto simp: upd_thread_def bindR_eq_Inr)
  then have "calm k k'" using assms(2) [of th]
    by (intro calmI [where new = "[]"]) (auto simp: active_def st_def)
  with assms(3) show ?thesis by (rule calm_trans)
qed

lemma calm_ReadyToRun: "ReadyToRun t k = Inr k' \<Longrightarrow> calm k0 k \<Longrightarrow> calm k0 k'"
  using calm_upd_thread [of t "\<lambda>th. th\<lparr>t_status := READY\<rparr>" k]
  by (auto simp: ReadyToRun_def setStatus_of_def bindR_eq_Inr)

lemma calm_wake: "wake x k = Inr k' \<Longrightarrow> calm k0 k \<Longrightarrow> calm k0 k'"
  by (auto simp: wake_def dest: calm_ReadyToRun split: option.splits)

lemma calm_Sleep: "Sleep rest k = Inr k' \<Longrightarrow> quiet rest \<Longrightarrow> calm k0 k \<Longrightarrow> calm k0 k'"
  using calm_upd_thread [of "currentThread k" "\<lambda>th. th\<lparr>t_status := BLOCKED\<rparr>" k]
  by (auto simp: Sleep_def setStatus_of_def bindR_eq_Inr ASSERT_eq_Inr intro!: calm_push)

lemma calm_Acquire_loop: "Acquire_loop j lv k = Inr k' \<Longrightarrow> calm k0 k \<Longrightarrow> calm k0 k'"
  by (auto simp: Acquire_loop_def bindR_eq_Inr split: if_splits dest!: calm_Sleep)

lemma calm_Release: "Release j k = Inr k' \<Longrightarrow> calm k0 k \<Longrightarrow> calm k0 k'"
  by (auto simp: Release_def Let_def bindR_eq_Inr ASSERT_eq_Inr dest!: calm_wake)

interpretation cm: section_invariant "calm k0" for k0
  by unfold_locales (auto intro: calm_push dest: calm_ReadyToRun calm_Sleep calm_Acquire_loop calm_Release calm_upd_thread)

section \<open>The invariant is kept\<close>

text \<open>\<open>slack i\<close>: the value of semaphore \<open>i\<close> may be one more, while a woken thread does its loop.\<close>

definition sem_slack :: "int \<Rightarrow> kern \<Rightarrow> nat \<Rightarrow> semaphore \<Rightarrow> bool" where
  "sem_slack d k i s \<longleftrightarrow> (\<forall>t \<in># ids (s_queue s). in_P i (stacks k t)) \<and>
     (ids (s_queue s) \<noteq> {#} \<longrightarrow> (\<exists>T. finite T \<and> s_value s \<le> int (card T) + d \<and> (\<forall>t \<in> T. coming k i t)))"

lemma sem_ok_slack: "sem_ok k i s = sem_slack 0 k i s"
  by (simp add: sem_ok_def sem_slack_def)

definition shaped :: "kern \<Rightarrow> bool" where
  "shaped k \<longleftrightarrow> (\<forall>t. quiet (stacks k t) \<or> (\<exists>i. in_P i (stacks k t)))"

lemma sem_invI:
  "shaped k \<Longrightarrow> (klevel k = IntOn \<Longrightarrow> quiet (stacks k (currentThread k))) \<Longrightarrow>
   (\<And>i. i < length (semaphores k) \<Longrightarrow> sem_ok k i (semaphores k ! i)) \<Longrightarrow> sem_inv k"
  by (simp add: sem_inv_def shaped_def)

lemma sem_invD:
  assumes "sem_inv k"
  shows "shaped k" "klevel k = IntOn \<Longrightarrow> quiet (stacks k (currentThread k))"
    "i < length (semaphores k) \<Longrightarrow> sem_ok k i (semaphores k ! i)"
  using assms by (simp_all add: sem_inv_def shaped_def)

lemma sem_slack_mono:
  assumes "sem_slack d k i s" "\<And>t. coming k i t \<Longrightarrow> coming k' i t"
    "\<And>t. t \<in># ids (s_queue s) \<Longrightarrow> in_P i (stacks k t) \<Longrightarrow> in_P i (stacks k' t)"
  shows "sem_slack d k' i s"
proof -
  have "\<exists>T. finite T \<and> s_value s \<le> int (card T) + d \<and> (\<forall>t \<in> T. coming k' i t)" if ne: "ids (s_queue s) \<noteq> {#}"
  proof -
    obtain T where "finite T" "s_value s \<le> int (card T) + d" "\<forall>t \<in> T. coming k i t"
      using assms(1) ne by (auto simp: sem_slack_def)
    then show ?thesis using assms(2) by blast
  qed
  then show ?thesis using assms(1,3) by (simp add: sem_slack_def)
qed

lemma sem_slack_le: "sem_slack d k i s \<Longrightarrow> d \<le> d' \<Longrightarrow> sem_slack d' k i s"
  unfolding sem_slack_def by (meson add_left_mono order_trans)

lemma sem_inv_mono:
  assumes "sem_inv k" "semaphores k' = semaphores k" "\<And>t i. coming k i t \<Longrightarrow> coming k' i t"
    "\<And>t i. i < length (semaphores k) \<Longrightarrow> t \<in># ids (s_queue (semaphores k ! i)) \<Longrightarrow> in_P i (stacks k t) \<Longrightarrow> in_P i (stacks k' t)"
    "shaped k'" "klevel k' = IntOn \<Longrightarrow> quiet (stacks k' (currentThread k'))"
  shows "sem_inv k'"
proof (rule sem_invI)
  fix i assume "i < length (semaphores k')"
  then have i: "i < length (semaphores k)" using assms(2) by simp
  show "sem_ok k' i (semaphores k' ! i)"
    unfolding sem_ok_slack assms(2)
    by (rule sem_slack_mono [OF sem_invD(3) [OF assms(1) i, unfolded sem_ok_slack]]) (use assms(3,4) i in auto)
qed (use assms in auto)

lemma shaped_upd: "shaped k \<Longrightarrow> stacks k' = (stacks k)(t := fs) \<Longrightarrow> quiet fs \<or> (\<exists>i. in_P i fs) \<Longrightarrow> shaped k'"
  by (auto simp: shaped_def)

lemma sem_inv_calm:
  assumes k: "sem_inv k" and q: "quiet (stacks k (currentThread k))" and c: "calm k k'"
  shows "sem_inv k'" "quiet (stacks k' (currentThread k'))"
proof -
  obtain new where new: "quiet new" "stacks k' = (stacks k)(currentThread k := new @ stacks k (currentThread k))"
    using c by (auto simp: calm_def)
  have cur: "currentThread k' = currentThread k" using c by (simp add: calm_def)
  show q': "quiet (stacks k' (currentThread k'))" using new q by (simp add: cur)
  have np: "\<not> in_P i (stacks k (currentThread k))" for i using quiet_not_in_P [OF q] .
  have P: "in_P i (stacks k' t)" if "in_P i (stacks k t)" for i t
    using that np new(2) by (cases "t = currentThread k") auto
  show "sem_inv k'"
  proof (rule sem_inv_mono [OF k])
    show "semaphores k' = semaphores k" using c by (simp add: calm_def)
    show "coming k' i t" if "coming k i t" for t i
      using that P np c unfolding coming_def calm_def by metis
    show "shaped k'" using sem_invD(1) [OF k] new(2) by (rule shaped_upd) (use new(1) q in simp)
  qed (use P q' in auto)
qed

text \<open>Taking a section off the stack of the current thread.\<close>

definition pop :: "frame list \<Rightarrow> kern \<Rightarrow> kern" where
  "pop fs k = k\<lparr>stacks := (stacks k)(currentThread k := fs)\<rparr>"

lemma pop_simps [simp]:
  "semaphores (pop fs k) = semaphores k" "currentThread (pop fs k) = currentThread k" "klevel (pop fs k) = klevel k"
  "threads (pop fs k) = threads k"
  "stacks (pop fs k) = (stacks k)(currentThread k := fs)" "active (pop fs k) = active k" "st (pop fs k) = st k"
  by (simp_all add: pop_def active_def fun_eq_iff)

lemma coming_pop: "t \<noteq> currentThread k \<Longrightarrow> coming (pop fs k) i t = coming k i t"
  by (simp add: coming_def)

lemma sem_inv_pop:
  assumes k: "sem_inv k" and s: "stacks k (currentThread k) = f # fs" and f: "\<not> is_P_loop f" "f \<noteq> FSleep" "f \<noteq> FAfterSwitch"
  shows "sem_inv (pop fs k)" "quiet fs"
proof -
  have np: "\<not> in_P i (f # fs)" for i using in_P_other f by blast
  then show q: "quiet fs" using sem_invD(1) [OF k] s by (auto simp: shaped_def dest!: spec [of _ "currentThread k"])
  show "sem_inv (pop fs k)"
  proof (rule sem_inv_mono [OF k])
    show "shaped (pop fs k)" using sem_invD(1) [OF k] by (rule shaped_upd [where t = "currentThread k" and fs = fs]) (use q in auto)
    show "coming (pop fs k) i t" if "coming k i t" for t i
      using that np s by (cases "t = currentThread k") (auto simp: coming_def)
    show "in_P i (stacks (pop fs k) t)" if "in_P i (stacks k t)" for t i
      using that np s by (cases "t = currentThread k") auto
  qed (use q in simp_all)
qed

lemma sem_inv_pop_switch:
  assumes k: "sem_inv k" and s: "stacks k (currentThread k) = f # fs" and f: "f = FSleep \<or> f = FAfterSwitch"
  shows "sem_inv (pop fs k)"
proof -
  have P: "in_P i (f # fs) = in_P i fs" for i using f by auto
  have q: "quiet (f # fs) = quiet fs" using f by auto
  have P': "in_P i (stacks (pop fs k) t) = in_P i (stacks k t)" for i t using P s by simp
  show ?thesis
  proof (rule sem_inv_mono [OF k])
    have "quiet (f # fs) \<or> (\<exists>i. in_P i (f # fs))" using sem_invD(1) [OF k] s by (metis shaped_def)
    then show "shaped (pop fs k)" unfolding P q by (rule shaped_upd [OF sem_invD(1) [OF k], rotated]) simp
    show "coming (pop fs k) i t" if "coming k i t" for t i using that P' by (simp add: coming_def)
    show "klevel (pop fs k) = IntOn \<Longrightarrow> quiet (stacks (pop fs k) (currentThread (pop fs k)))"
      using sem_invD(2) [OF k] s q by simp
  qed (use P' in simp_all)
qed

lemma sem_after_switch:
  assumes k: "sem_inv k" "carcass_ok k" and e: "after_switch k = Inr k'"
  shows "sem_inv k'"
proof (cases "threadToBeDestroyed k")
  case None
  then show ?thesis using k(1) e by (simp add: after_switch_def)
next
  case (Some t)
  then have b: "st k t = Some BLOCKED" using k(2) by (simp add: carcass_ok_def)
  have k': "k' = k\<lparr>threads := (threads k)(t := None), threadToBeDestroyed := None\<rparr>"
    using e Some by (auto simp: after_switch_def delete_thread_def bindR_eq_Inr ASSERT_eq_Inr)
  have "st k' = (st k)(t := None)" unfolding k' by (simp add: st_def fun_eq_iff)
  then have "active k' u" if "active k u" for u using that b by (auto simp: active_def)
  then show ?thesis
    by (intro sem_inv_mono [OF k(1)]) (use sem_invD(1,2) [OF k(1)] in \<open>auto simp: k' coming_def shaped_def\<close>)
qed

lemma sem_Run:
  assumes k: "sem_inv k" and e: "Run t k = Inr k'" and o: "klevel k = IntOff"
  shows "sem_inv k'"
proof -
  let ?c = "currentThread k"
  obtain th where th: "threads k t = Some th" using e by (auto simp: Run_def Let_def setStatus_of_def upd_thread_def bindR_eq_Inr push_def)
  have k': "k' = (push [FAfterSwitch] k)\<lparr>currentThread := t, threads := (threads k)(t \<mapsto> th\<lparr>t_status := RUNNING\<rparr>)\<rparr>"
    using e th by (simp add: Run_def Let_def setStatus_of_def upd_thread_def thread_of_def push_def)
  have ss: "stacks k' = (stacks k)(?c := FAfterSwitch # stacks k ?c)" by (simp add: k' push_def)
  then have P: "in_P i (stacks k' u) = in_P i (stacks k u)" and Q: "quiet (stacks k' u) = quiet (stacks k u)" for i u
    by simp_all
  have "active k' u" if "active k u" for u using that by (simp add: k' active_def st_def push_def)
  then show ?thesis
    by (intro sem_inv_mono [OF k]) (use sem_invD(1) [OF k] o P Q in \<open>simp_all add: coming_def shaped_def k' push_def\<close>)
qed

lemma calm_sem: "calm k k' \<Longrightarrow> sem_inv k \<Longrightarrow> quiet (stacks k (currentThread k)) \<Longrightarrow> sem_inv k' \<and> quiet (stacks k' (currentThread k'))"
  using sem_inv_calm by blast

lemma calm_FindNextToRun: "FindNextToRun k = Inr (k', x) \<Longrightarrow> calm k0 k \<Longrightarrow> calm k0 k' \<and> klevel k' = klevel k"
  by (auto simp: FindNextToRun_def bindR_eq_Inr)

lemma klevel_ReadyToRun: "ReadyToRun t k = Inr k' \<Longrightarrow> klevel k' = klevel k"
  by (auto simp: ReadyToRun_def setStatus_of_def upd_thread_def bindR_eq_Inr)

lemma sem_Yield:
  assumes k: "sem_inv k" "quiet (stacks k (currentThread k))" and e: "Yield k = Inr k'"
  shows "sem_inv k'"
proof -
  obtain k1 x where k1: "FindNextToRun (set_level IntOff k) = Inr (k1, x)"
      "case x of None \<Rightarrow> Inr (set_level (klevel k) k1) = Inr k' | Some t \<Rightarrow>
         bindR (ReadyToRun (currentThread k1) k1) (\<lambda>k2. Run t (push [FSetLevel (klevel k)] k2)) = Inr k'"
    using e by (auto simp: Yield_def Let_def bindR_eq_Inr split: option.splits)
  have c1: "calm k k1" "klevel k1 = IntOff" using calm_FindNextToRun [OF k1(1), of k] by simp_all
  show ?thesis
  proof (cases x)
    case None
    then show ?thesis using k1(2) calm_sem [OF _ k, of k'] c1(1) by auto
  next
    case (Some t)
    then obtain k2 where k2: "ReadyToRun (currentThread k1) k1 = Inr k2" "Run t (push [FSetLevel (klevel k)] k2) = Inr k'"
      using k1(2) by (auto simp: bindR_eq_Inr)
    have "calm k (push [FSetLevel (klevel k)] k2)" using calm_ReadyToRun [OF k2(1) c1(1)] by (simp add: calm_push)
    then have "sem_inv (push [FSetLevel (klevel k)] k2)" using calm_sem k by blast
    then show ?thesis using sem_Run [OF _ k2(2)] klevel_ReadyToRun [OF k2(1)] c1(2) by simp
  qed
qed

lemma sem_Sleep_loop:
  assumes k: "sem_inv k" "stacks k (currentThread k) = FSleep # fs" "klevel k = IntOff" and e: "run_frame k = Inr k'"
  shows "sem_inv k'"
proof -
  have s: "sem_inv (pop fs k)" by (rule sem_inv_pop_switch [OF k(1,2)]) simp
  obtain k1 x where k1: "FindNextToRun (pop fs k) = Inr (k1, x)"
      "case x of None \<Rightarrow> Inr (push [FSleep] k1) = Inr k' | Some t \<Rightarrow> Run t k1 = Inr k'"
    using e k(2) by (auto simp: run_frame_def Sleep_loop_def bindR_eq_Inr pop_def split: option.splits)
  obtain q where q: "k1 = (pop fs k)\<lparr>readyList := q\<rparr>" using k1(1) by (auto simp: FindNextToRun_def bindR_eq_Inr)
  have s1: "sem_inv k1" unfolding q
    by (rule sem_inv_mono [OF s]) (use sem_invD(1,2) [OF s] in \<open>auto simp: coming_def active_def st_def shaped_def\<close>)
  show ?thesis
  proof (cases x)
    case None
    have P: "in_P i (FSleep # fs) = in_P i fs" "quiet (FSleep # fs) = quiet fs" for i by simp_all
    have "k' = push [FSleep] k1" using k1(2) None by simp
    then have "stacks k' u = (if u = currentThread k then FSleep # fs else stacks k u)" for u by (simp add: q push_def)
    then have "in_P i (stacks k' u) = in_P i (stacks k1 u)" "quiet (stacks k' u) = quiet (stacks k1 u)" for i u
      by (simp_all add: q)
    then show ?thesis using None k1(2) k(3)
      by (intro sem_inv_mono [OF s1]) (use sem_invD(1) [OF s1] in \<open>auto simp: coming_def shaped_def q push_def active_def st_def\<close>)
  next
    case (Some t)
    then show ?thesis using sem_Run [OF s1, of t] k1(2) k(3) q by simp
  qed
qed

lemma sem_queue_subset: "i < length (semaphores k) \<Longrightarrow> ids (s_queue (semaphores k ! i)) \<subseteq># wq k"
proof -
  assume i: "i < length (semaphores k)"
  then obtain xs ys where "semaphores k = xs @ semaphores k ! i # ys" by (meson nth_mem split_list)
  then have "(\<Sum>s \<leftarrow> semaphores k. ids (s_queue s)) = (\<Sum>s \<leftarrow> xs @ semaphores k ! i # ys. ids (s_queue s))" by simp
  then show ?thesis by (simp add: wq_def)
qed

lemma sem_Fork:
  assumes k: "sem_inv k" "quiet (stacks k (currentThread k))" "placed {} k" and t: "st k t = Some JUST_CREATED" "t \<noteq> currentThread k"
    and e: "Fork t k = Inr k'"
  shows "sem_inv k'"
proof -
  define k1 where "k1 = k\<lparr>stacks := (stacks k)(t := [FSetLevel IntOn])\<rparr>"
  obtain k2 where k2: "ReadyToRun t (set_level IntOff k1) = Inr k2" "k' = set_level (klevel k) k2"
    using e by (auto simp: Fork_def Let_def bindR_eq_Inr k1_def)
  have na: "\<not> active k t" using t(1) by (simp add: active_def)
  have nq: "t \<notin># ids (s_queue (semaphores k ! i))" if "i < length (semaphores k)" for i
  proof -
    have "count (wq k) t = 0" using placedD(3) [OF k(3), of t] t(1) by simp
    moreover have "ids (s_queue (semaphores k ! i)) \<subseteq># wq k"
      using sem_queue_subset [OF that] .
    ultimately show ?thesis by (metis count_eq_zero_iff mset_subset_eqD)
  qed
  have "sem_inv k1"
  proof (rule sem_inv_mono [OF k(1)])
    show "coming k1 i u" if "coming k i u" for u i using that na by (auto simp: coming_def k1_def)
    show "in_P i (stacks k1 u)" if "i < length (semaphores k)" "u \<in># ids (s_queue (semaphores k ! i))" "in_P i (stacks k u)" for u i
      using that nq by (auto simp: k1_def)
    show "shaped k1" by (rule shaped_upd [OF sem_invD(1) [OF k(1)], where t = t and fs = "[FSetLevel IntOn]"]) (simp_all add: k1_def)
  qed (use k(2) t(2) in \<open>simp_all add: k1_def\<close>)
  moreover have "quiet (stacks k1 (currentThread k1))" using k(2) t(2) by (simp add: k1_def)
  moreover have "calm k1 k'" using calm_ReadyToRun [OF k2(1), of k1] k2(2) by simp
  ultimately show ?thesis using calm_sem by blast
qed

lemma slack_quiet: "\<not> in_P i (stacks k (currentThread k)) \<Longrightarrow> sem_slack d k i s \<Longrightarrow> currentThread k \<notin># ids (s_queue s)"
  by (auto simp: sem_slack_def)

lemma sem_P_loop:
  assumes s: "shaped k" "quiet (stacks k (currentThread k))"
    and k: "\<And>j. j < length (semaphores k) \<Longrightarrow> sem_slack (if j = i then 1 else 0) k j (semaphores k ! j)"
    and qs: "queues_ok k" and e: "P_loop i lv k = Inr k'"
  shows "sem_inv k'"
proof -
  let ?s = "semaphores k ! i" and ?c = "currentThread k"
  have i: "i < length (semaphores k)" using e by (auto simp: P_loop_def bindR_eq_Inr)
  have np: "\<not> in_P j (stacks k ?c)" for j using quiet_not_in_P [OF s(2)] .
  show ?thesis
  proof (cases "s_value ?s = 0")
    case False
    then have k': "k' = set_level lv (set_sem i (?s\<lparr>s_value := s_value ?s - 1\<rparr>) k)"
      using e i by (simp add: P_loop_def fetch_def)
    have co: "coming k' = coming k" "stacks k' = stacks k" "semaphores k' = (semaphores k)[i := ?s\<lparr>s_value := s_value ?s - 1\<rparr>]"
      by (simp_all add: k' coming_def fun_eq_iff)
    show ?thesis
    proof (rule sem_invI)
      fix j assume "j < length (semaphores k')"
      then have j: "j < length (semaphores k)" by (simp add: co)
      show "sem_ok k' j (semaphores k' ! j)"
        using k [OF j] i j unfolding sem_ok_slack sem_slack_def co by (cases "j = i") auto
    qed (use s co in \<open>simp_all add: shaped_def k'\<close>)
  next
    case True
    obtain p q where q: "lst_SortedInsert (s_queue ?s) (Some ?c) p = Inr q"
        "Sleep [FP_loop i lv] (set_sem i (?s\<lparr>s_queue := q\<rparr>) k) = Inr k'"
      using e i True by (auto simp: P_loop_def bindR_eq_Inr)
    have idq: "ids q = add_mset ?c (ids (s_queue ?s))"
      using insert_queue [OF queues_okD(1) [OF qs i], of ?c p] q(1) by auto
    let ?k1 = "set_sem i (?s\<lparr>s_queue := q\<rparr>) k"
    obtain th where k': "k' = push [FSleep, FP_loop i lv] (?k1\<lparr>threads := (threads k)(?c \<mapsto> th\<lparr>t_status := BLOCKED\<rparr>)\<rparr>)"
        "klevel k = IntOff"
      using q(2) by (auto simp: Sleep_def setStatus_of_def upd_thread_def bindR_eq_Inr ASSERT_eq_Inr)
    have ss: "stacks k' = (stacks k)(?c := FSleep # FP_loop i lv # stacks k ?c)"
        "semaphores k' = (semaphores k)[i := ?s\<lparr>s_queue := q\<rparr>]"
      by (simp_all add: k' push_def set_sem_def)
    have co: "coming k' j u" if "coming k j u" for j u
      using that np by (cases "u = ?c") (auto simp: coming_def ss, simp add: k' active_def st_def push_def set_sem_def)
    have P: "in_P j (stacks k' u)" if "in_P j (stacks k u)" for j u using that np by (cases "u = ?c") (auto simp: ss)
    show ?thesis
    proof (rule sem_invI)
      fix j assume "j < length (semaphores k')"
      then have j: "j < length (semaphores k)" by (simp add: ss)
      show "sem_ok k' j (semaphores k' ! j)"
      proof (cases "j = i")
        case False
        have "sem_slack 0 k j (semaphores k ! j)" using k [OF j] False by simp
        then have "sem_slack 0 k' j (semaphores k ! j)" by (rule sem_slack_mono) (use co P in auto)
        then show ?thesis using False by (simp add: ss(2) sem_ok_slack)
      next
        case True
        have "in_P i (stacks k' ?c)" using s(2) by (simp add: ss)
        moreover have "\<forall>t \<in># ids (s_queue ?s). in_P i (stacks k' t)" using k [OF i] P by (auto simp: sem_slack_def)
        moreover have "\<exists>T. finite T \<and> (0 :: int) \<le> int (card T) \<and> (\<forall>t \<in> T. coming k' i t)" by (intro exI [of _ "{}"]) simp
        ultimately show ?thesis using True i \<open>s_value ?s = 0\<close> by (simp add: sem_ok_def ss(2) idq)
      qed
    next
      show "shaped k'" by (rule shaped_upd [OF s(1) ss(1)]) (use s(2) in auto)
    qed (simp add: k')
  qed
qed

text \<open>\<open>V\<close> never fails on a semaphore that exists; what it does to the queue and the statuses.\<close>

lemma V_ok:
  assumes k: "kinv k" and i: "i < length (semaphores k)"
  shows "\<exists>k' q. V i k = Inr k' \<and> stacks k' = stacks k \<and> currentThread k' = currentThread k \<and> klevel k' = klevel k \<and>
    st k' = woken (waiting (s_queue (semaphores k ! i))) (st k) \<and>
    semaphores k' = (semaphores k)[i := (semaphores k ! i)\<lparr>s_queue := q, s_value := s_value (semaphores k ! i) + 1\<rparr>] \<and>
    waiting q = tl (waiting (s_queue (semaphores k ! i)))"
proof -
  let ?k0 = "set_level IntOff k" and ?s = "semaphores k ! i"
  have qs: "queues_ok k" using k by (auto simp: kinv_def running_def sleeping_def placed_def)
  obtain q x where q: "lst_Remove (s_queue ?s) = Inr (q, x)" "waiting q = tl (waiting (s_queue ?s))"
      "x = (case waiting (s_queue ?s) of [] \<Rightarrow> None | t # _ \<Rightarrow> Some t)"
    using Remove_first [OF queues_okD(1) [OF qs i]] by blast
  let ?k1 = "set_sem i (?s\<lparr>s_queue := q\<rparr>) ?k0"
  have m: "moved x ?k0 ?k1" using V_moved [of ?k0 i] qs i q(1) by auto
  obtain k2 where k2: "wake x ?k1 = Inr k2" "same_rest ?k1 k2" "st k2 = woken (waiting (s_queue ?s)) (st k)"
  proof -
    have "\<exists>k2. wake x ?k1 = Inr k2 \<and> same_rest ?k1 k2"
      using k wake_running [of "{}" ?k0 x ?k1, OF _ m] wake_sleeping [of ?k0 x ?k1, OF _ m]
      by (fastforce simp: kinv_def sleeping_def placed_def carcass_ok_def only_current_runs_def)
    then obtain k2 where k2: "wake x ?k1 = Inr k2" "same_rest ?k1 k2" by blast
    have "st k2 = woken (waiting (s_queue ?s)) (st k)"
    proof (cases "waiting (s_queue ?s)")
      case Nil
      then show ?thesis using k2(1) q(3) by (auto simp: wake_def woken_def)
    next
      case (Cons t ts)
      then have "ReadyToRun t ?k1 = Inr k2" using k2(1) q(3) by (simp add: wake_def)
      then have "st k2 = (st k)(t \<mapsto> READY)"
        by (auto simp: ReadyToRun_def setStatus_of_def upd_thread_def bindR_eq_Inr st_def fun_eq_iff)
      then show ?thesis using Cons by (simp add: woken_def)
    qed
    with k2 that show ?thesis by blast
  qed
  have "V i k = Inr (set_level (klevel k) (set_sem i (?s\<lparr>s_queue := q, s_value := s_value ?s + 1\<rparr>) k2))"
    using q(1) i k2(1) by (simp add: V_def Let_def fetch_def)
  then show ?thesis using k2(2,3) q(2) i
    by (intro exI [of _ "set_level (klevel k) (set_sem i (?s\<lparr>s_queue := q, s_value := s_value ?s + 1\<rparr>) k2)"] exI [of _ q])
      (simp add: same_rest_def)
qed

lemma waiting_blocked:
  assumes k: "placed {} k" and i: "i < length (semaphores k)" and t: "t \<in> set (waiting (s_queue (semaphores k ! i)))"
  shows "st k t = Some BLOCKED"
proof -
  have "t \<in># ids (s_queue (semaphores k ! i))" using t by (simp flip: mset_waiting)
  then have "t \<in># wq k" using mset_subset_eqD [OF sem_queue_subset [OF i]] by blast
  then show ?thesis using placedD(3) [OF k, of t] by (auto split: if_splits simp flip: count_greater_zero_iff)
qed

lemma sem_V:
  assumes s: "sem_inv k" and k: "kinv k" and e: "V i k = Inr k'"
  shows "sem_inv k'"
proof -
  let ?s = "semaphores k ! i" and ?w = "waiting (s_queue (semaphores k ! i))"
  have i: "i < length (semaphores k)" using e by (auto simp: V_def Let_def bindR_eq_Inr)
  obtain q where q: "stacks k' = stacks k" "currentThread k' = currentThread k" "klevel k' = klevel k"
      "st k' = woken ?w (st k)" "semaphores k' = (semaphores k)[i := ?s\<lparr>s_queue := q, s_value := s_value ?s + 1\<rparr>]" "waiting q = tl ?w"
    using V_ok [OF k i] e by auto
  have pl: "placed {} k" using k by (auto simp: kinv_def running_def sleeping_def)
  have co: "coming k' j u" if "coming k j u" for j u
    using that by (auto simp: coming_def active_def q(1,4) woken_def split: list.splits)
  show ?thesis
  proof (rule sem_invI)
    fix j assume "j < length (semaphores k')"
    then have j: "j < length (semaphores k)" by (simp add: q(5))
    note ok = sem_invD(3) [OF s j, unfolded sem_ok_slack]
    show "sem_ok k' j (semaphores k' ! j)"
    proof (cases "j = i")
      case False
      then show ?thesis using sem_slack_mono [OF ok co] q(1,5) by (simp add: sem_ok_slack)
    next
      case True
      have idq: "ids q = mset (tl ?w)" using q(6) by (simp flip: mset_waiting)
      have inP: "\<forall>t \<in># ids q. in_P i (stacks k' t)"
        using ok True unfolding sem_slack_def idq q(1) by (cases ?w) (auto simp flip: mset_waiting)
      have "\<exists>T. finite T \<and> s_value ?s + 1 \<le> int (card T) \<and> (\<forall>t \<in> T. coming k' i t)" if ne: "ids q \<noteq> {#}"
      proof -
        obtain t ts where w: "?w = t # ts" using ne idq by (cases ?w) auto
        then have t: "t \<in> set ?w" "ids (s_queue ?s) \<noteq> {#}" by (auto simp flip: mset_waiting)
        obtain T where T: "finite T" "s_value ?s \<le> int (card T)" "\<forall>t \<in> T. coming k i t"
          using ok True t(2) by (auto simp: sem_slack_def)
        have b: "st k t = Some BLOCKED" using waiting_blocked [OF pl i t(1)] .
        then have "t \<notin> T" using T(3) by (auto simp: coming_def active_def)
        moreover have "coming k' i t"
          using ok True t(1) w by (simp add: coming_def active_def q(1,4) woken_def sem_slack_def flip: mset_waiting)
        ultimately show ?thesis using T co by (intro exI [of _ "insert t T"]) auto
      qed
      then show ?thesis using inP True i by (simp add: sem_ok_def q(5))
    qed
  qed (use sem_invD(1,2) [OF s] in \<open>simp_all add: shaped_def q(1-3)\<close>)
qed

lemma sem_new:
  assumes k: "sem_inv k" "placed {} k"
  shows "sem_inv (add_semaphore v k)" "sem_inv (add_lock junk k)" "sem_inv (add_condition k)"
    "sem_inv (k\<lparr>mailboxes := ms\<rparr>)" "sem_inv (k\<lparr>synch_lists := sls\<rparr>)" "sem_inv (k\<lparr>whales := ws\<rparr>)"
    "threads k t = None \<Longrightarrow> t \<noteq> currentThread k \<Longrightarrow>
      sem_inv (k\<lparr>threads := (threads k)(t \<mapsto> th), stacks := (stacks k)(t := [])\<rparr>)"
proof -
  note d = sem_invD [OF k(1)]
  have same: "coming (k\<lparr>mailboxes := ms\<rparr>) = coming k" "coming (k\<lparr>synch_lists := sls\<rparr>) = coming k"
      "coming (k\<lparr>whales := ws\<rparr>) = coming k" "coming (add_semaphore v k) = coming k" "coming (add_lock junk k) = coming k"
      "coming (add_condition k) = coming k"
    by (simp_all add: coming_def active_def st_def fun_eq_iff add_semaphore_def add_lock_def add_condition_def)
  show "sem_inv (add_lock junk k)" "sem_inv (add_condition k)"
    "sem_inv (k\<lparr>mailboxes := ms\<rparr>)" "sem_inv (k\<lparr>synch_lists := sls\<rparr>)" "sem_inv (k\<lparr>whales := ws\<rparr>)"
    by (rule sem_inv_mono [OF k(1)]; use d(1,2) same in \<open>simp add: shaped_def add_lock_def add_condition_def\<close>)+
  show "sem_inv (add_semaphore v k)"
  proof (rule sem_invI)
    fix i assume i: "i < length (semaphores (add_semaphore v k))"
    show "sem_ok (add_semaphore v k) i (semaphores (add_semaphore v k) ! i)"
    proof (cases "i < length (semaphores k)")
      case True
      then show ?thesis using d(3) [OF True] same unfolding sem_ok_def by (simp add: add_semaphore_def nth_append)
    next
      case False
      then have "i = length (semaphores k)" using i by (simp add: add_semaphore_def)
      then show ?thesis by (simp add: sem_ok_def add_semaphore_def nth_append Semaphore_new_def)
    qed
  qed (use d(1,2) in \<open>simp_all add: shaped_def add_semaphore_def\<close>)
  show "sem_inv (k\<lparr>threads := (threads k)(t \<mapsto> th), stacks := (stacks k)(t := [])\<rparr>)" (is "sem_inv ?k")
    if t: "threads k t = None" "t \<noteq> currentThread k"
  proof (rule sem_inv_mono [OF k(1)])
    have n: "st k t = None" using t(1) by (simp add: st_def)
    then show "coming ?k i u" if "coming k i u" for u i
      using that by (auto simp: coming_def active_def st_def)
    show "in_P i (stacks ?k u)" if "i < length (semaphores k)" "u \<in># ids (s_queue (semaphores k ! i))" "in_P i (stacks k u)" for u i
      using that waiting_blocked [OF k(2) that(1), of u] n by (auto simp flip: mset_waiting)
    show "shaped ?k" by (rule shaped_upd [OF d(1), where t = t and fs = "[]"]) simp_all
  qed (use d(2) t(2) in simp_all)
qed

lemma sem_new_objects:
  assumes k: "sem_inv k" "running {} k"
  shows "threads k t = None \<Longrightarrow> sem_inv (Thread_new t nm junk g k)"
    "threads k t = None \<Longrightarrow> sem_inv (Thread_new_join t nm join junk f g k)"
    "sem_inv (Mailbox_new junk junk' b k)" "sem_inv (SynchList_new junk k)" "sem_inv (Whale_new junk k)"
proof -
  let ?k = "add_condition (add_lock junk k)"
  have r: "running {} ?k" by (intro running_new_object k(2))
  have s: "sem_inv ?k" by (intro sem_new k runningD(1) running_new_object)
  have same: "threads ?k = threads k" "stacks ?k = stacks k" "currentThread ?k = currentThread k"
    by (simp_all add: add_condition_def add_lock_def)
  have c: "threads k t = None \<Longrightarrow> t \<noteq> currentThread k" using runningD(4) [OF k(2)] by (auto simp: st_def)
  note n = sem_new(7) [OF s runningD(1) [OF r], unfolded same] sem_new(7) [OF k(1) runningD(1) [OF k(2)]]
  show "threads k t = None \<Longrightarrow> sem_inv (Thread_new t nm junk g k)"
    using n(1) c by (simp add: Thread_new_def)
  show "threads k t = None \<Longrightarrow> sem_inv (Thread_new_join t nm join junk f g k)"
    using n c by (simp add: Thread_new_join_def)
  show "sem_inv (Mailbox_new junk junk' b k)" "sem_inv (SynchList_new junk k)" "sem_inv (Whale_new junk k)"
    unfolding Mailbox_new_def SynchList_new_def Whale_new_def Let_def
    by (intro sem_new k runningD(1) running_new_object)+
qed

lemma sem_exec:
  assumes s: "sem_inv k" and r: "running {} k" and f: "stacks k (currentThread k) = f # fs" "f \<noteq> FSleep"
    and ok: "\<And>t. f = FFork t \<Longrightarrow> st k t = Some JUST_CREATED" and e: "exec f (pop fs k) = Inr k'"
  shows "sem_inv k'"
proof (cases "is_P_loop f \<or> f = FAfterSwitch")
  case True
  have qs: "queues_ok (pop fs k)" using placedD(1) [OF runningD(1) [OF r]] by (simp add: pop_def)
  show ?thesis
  proof (cases f)
    case (FP_loop i lv)
    have q: "quiet fs" using sem_invD(1) [OF s] f(1) FP_loop
      by (auto simp: shaped_def dest!: spec [of _ "currentThread k"])
    have np: "\<not> in_P j fs" for j using quiet_not_in_P [OF q] .
    have cur: "in_P j (stacks k (currentThread k)) \<longleftrightarrow> j = i" for j using f(1) FP_loop q by auto
    have sl: "sem_slack (if j = i then 1 else 0) (pop fs k) j (semaphores (pop fs k) ! j)"
      if j: "j < length (semaphores (pop fs k))" for j
    proof -
      let ?s = "semaphores k ! j" and ?c = "currentThread k"
      have ok: "sem_ok k j ?s" using sem_invD(3) [OF s] j by simp
      have "?c \<notin># ids (s_queue ?s)" if "j < length (semaphores k)"
        using waiting_blocked [OF runningD(1) [OF r] that, of ?c] runningD(4) [OF r] by (auto simp flip: mset_waiting)
      then have q1: "\<forall>t \<in># ids (s_queue ?s). in_P j (stacks (pop fs k) t)" using ok j by (auto simp: sem_ok_def)
      have "\<exists>T. finite T \<and> s_value ?s \<le> int (card T) + (if j = i then 1 else 0) \<and> (\<forall>t \<in> T. coming (pop fs k) j t)"
        if ne: "ids (s_queue ?s) \<noteq> {#}"
      proof -
        obtain T where T: "finite T" "s_value ?s \<le> int (card T)" "\<forall>t \<in> T. coming k j t"
          using ok ne by (auto simp: sem_ok_def)
        have "?c \<in> T \<Longrightarrow> j = i" using T(3) cur by (auto simp: coming_def)
        then have "s_value ?s \<le> int (card (T - {?c})) + (if j = i then 1 else 0)"
          using T(1,2) card_Suc_Diff1 [OF T(1), of ?c] by (cases "?c \<in> T") auto
        moreover have "\<forall>t \<in> T - {?c}. coming (pop fs k) j t" using T(3) coming_pop by blast
        ultimately show ?thesis using T(1) by (intro exI [of _ "T - {?c}"]) simp
      qed
      then show ?thesis using q1 by (simp add: sem_slack_def)
    qed
    have "shaped (pop fs k)" by (rule shaped_upd [OF sem_invD(1) [OF s], where t = "currentThread k" and fs = fs]) (simp_all add: q)
    then show ?thesis using sem_P_loop [OF _ _ sl qs] e FP_loop q by simp
  next
    case FAfterSwitch
    have "carcass_ok (pop fs k)" using runningD(2) [OF r] by (simp add: carcass_ok_def pop_def)
    then show ?thesis using sem_after_switch [OF sem_inv_pop_switch [OF s f(1)]] FAfterSwitch e by simp
  qed (use True in \<open>simp_all add: is_P_loop_def\<close>)
next
  case False
  have p: "sem_inv (pop fs k)" "quiet fs" using sem_inv_pop [OF s f(1)] False f(2) by simp_all
  have qc: "quiet (stacks (pop fs k) (currentThread (pop fs k)))" using p(2) by simp
  have r': "running {} (pop fs k)" unfolding pop_def
    by (rule running_cong [OF r]) (use runningD(1,5) [OF r] placedD(1) f(1) in \<open>auto dest: spec [of _ "currentThread k"]\<close>)
  show ?thesis
  proof (cases "f = FYield \<or> (\<exists>t. f = FFork t) \<or> (\<exists>i. f = FP i \<or> f = FV i)")
    case True
    then consider "f = FYield" | t where "f = FFork t" | i where "f = FP i" | i where "f = FV i" by blast
    then show ?thesis
    proof cases
      case 1 then show ?thesis using sem_Yield [OF p(1) qc] e by simp
    next
      case (2 t)
      have "t \<noteq> currentThread k" using ok [OF 2] runningD(4) [OF r] by auto
      then show ?thesis using sem_Fork [OF p(1) qc runningD(1) [OF r'], of t] ok [OF 2] e 2 by simp
    next
      case (3 i)
      let ?k = "set_level IntOff (pop fs k)"
      have s': "shaped ?k" "quiet (stacks ?k (currentThread ?k))" using sem_invD(1) [OF p(1)] p(2) by (simp_all add: shaped_def)
      have "sem_slack (if j = i then 1 else 0) ?k j (semaphores ?k ! j)" if "j < length (semaphores ?k)" for j
        using sem_slack_mono [OF sem_slack_le [OF sem_invD(3) [OF p(1), of j, unfolded sem_ok_slack]], of _ ?k] that
        by (simp add: coming_def)
      from sem_P_loop [OF s' this] show ?thesis
        using e 3 placedD(1) [OF runningD(1) [OF r']] by (simp add: P_def)
    next
      case (4 i)
      then show ?thesis using sem_V [OF p(1) kinvI(1) [OF r'], of i] e by simp
    qed
  next
    case False
    then have "calm (pop fs k) k'"
      using cm.exec_section [OF e] calm_refl \<open>\<not> (is_P_loop f \<or> f = FAfterSwitch)\<close> f(2) by blast
    then show ?thesis using calm_sem p(1) qc by blast
  qed
qed

lemma kstep_sem:
  assumes s: "sem_inv k" and k: "kinv k" and ok: "event_ok e k" and e: "kstep e k = Inr k'"
  shows "sem_inv k'"
proof -
  have idle: "running {} k \<and> quiet (stacks k (currentThread k))" if "klevel k = IntOn"
    using user_code_running [OF k that] sem_invD(2) [OF s that] by blast
  have u: "running {} k" "placed {} k" if "user_code k"
    using idle that runningD(1) by (auto simp: user_code_def)
  show ?thesis
  proof (cases e)
    case Step
    show ?thesis
    proof (cases "sleeping k")
      case True
      then show ?thesis using sem_Sleep_loop [OF s] e Step by (auto simp: sleeping_def)
    next
      case False
      then have r: "running {} k" using k by (simp add: kinv_def)
      obtain f fs where f: "stacks k (currentThread k) = f # fs" "exec f (pop fs k) = Inr k'"
        using e Step by (auto simp: run_frame_def pop_def split: list.splits)
      have "f \<noteq> FSleep" using runningD(5) [OF r] f(1) by (metis list.set_intros(1))
      moreover have "st k t = Some JUST_CREATED" if "f = FFork t" for t
        using ok Step f(1) that by (simp add: event_ok_def st_def)
      ultimately show ?thesis using sem_exec [OF s r f(1)] f(2) by blast
    qed
  next
    case (Call fs)
    then have c: "user_code k" "k' = push fs k" "list_all api_frame fs"
      using e ok by (auto simp: event_ok_def split: if_splits)
    have "api_frame f \<Longrightarrow> \<not> is_P_loop f" for f by (cases f) (simp_all add: is_P_loop_def)
    then have "quiet fs" using c(3) by (auto simp: quiet_def list_all_iff)
    then have "calm k k'" unfolding c(2) by (simp add: calm_push)
    then show ?thesis using calm_sem s c(1) by (auto simp: user_code_def)
  next
    case (Set_priority t p)
    then have n: "user_code k" "upd_thread t (\<lambda>th. th\<lparr>t_priority := - p\<rparr>) k = Inr k'"
      using e by (auto simp: setPriority_def split: if_splits)
    have "calm k k'" by (rule calm_upd_thread [OF n(2)]) simp_all
    then show ?thesis using calm_sem s n(1) by (auto simp: user_code_def)
  next
    case Preempt
    then show ?thesis using e idle sem_Yield [OF s] by (auto split: if_splits)
  next
    case (Handler_V i)
    then show ?thesis using e sem_V [OF s k] by (auto split: if_splits)
  qed (use e u in \<open>auto intro: sem_new [OF s] sem_new_objects [OF s] split: if_splits\<close>)
qed

lemma reachable_sem: "reachable (boot junk g) k \<Longrightarrow> sem_inv k"
proof (induction rule: reachable.induct)
  case start
  show ?case by (simp add: sem_inv_def boot_def Let_def Thread_new_def add_lock_def add_condition_def)
next
  case (step k e k')
  then show ?case using kstep_sem reachable_inv boot_inv by blast
qed

section \<open>Properties\<close>

text \<open>
  C11: semaphores lose no wakeup. In every state the kernel reaches from boot, each thread in the queue
  of a semaphore is \<open>BLOCKED\<close> with the loop of \<open>P\<close> on that semaphore still to do; and as long as the queue
  is not empty there are, for every unit of the value, as many other threads that are \<open>READY\<close> or \<open>RUNNING\<close>
  and have that loop still to do: no thread sleeps on a value that nobody is about to take.
\<close>

theorem no_lost_wakeup:
  assumes "reachable (boot junk g) k" "i < length (semaphores k)"
  shows "(\<forall>t \<in> set (waiting (s_queue (semaphores k ! i))). st k t = Some BLOCKED \<and> in_P i (stacks k t)) \<and>
    (waiting (s_queue (semaphores k ! i)) \<noteq> [] \<longrightarrow>
      (\<exists>T. finite T \<and> s_value (semaphores k ! i) \<le> int (card T) \<and>
        (\<forall>t \<in> T. (st k t = Some READY \<or> st k t = Some RUNNING) \<and> in_P i (stacks k t))))"
proof -
  let ?q = "s_queue (semaphores k ! i)"
  have "placed {} k" using reachable_inv [OF assms(1) boot_inv] by (auto simp: kinv_def running_def sleeping_def)
  moreover have "sem_ok k i (semaphores k ! i)" using sem_invD(3) [OF reachable_sem [OF assms(1)] assms(2)] .
  ultimately show ?thesis
    using waiting_blocked [OF _ assms(2)] by (auto simp: sem_ok_def coming_def active_def simp flip: mset_waiting)
qed

text \<open>Two threads wait for semaphore 0; a handler does \<open>V\<close>, which wakes one of them.\<close>

definition two_waiters :: "event list" where
  "two_waiters = [New_semaphore 0, New_join 1 ''a'' 0 [] False False, Call [FFork 1, FP 0], Step, Step, Step, Step,
     Call [FP 0], Step, Handler_V 0]"

lemma two_waiters_run:
  "\<exists>k. krun two_waiters (boot [] False) = Inr k \<and> reachable (boot [] False) k \<and>
     waiting (s_queue (semaphores k ! 0)) = [1] \<and> 0 < length (semaphores k) \<and> s_value (semaphores k ! 0) = 1"
proof -
  have "case krun_ok two_waiters (boot [] False) of Inl _ \<Rightarrow> False
    | Inr k \<Rightarrow> waiting (s_queue (semaphores k ! 0)) = [1] \<and> length (semaphores k) = 1 \<and> s_value (semaphores k ! 0) = 1"
    by code_simp
  then obtain k where "krun two_waiters (boot [] False) = Inr k" "reachable (boot [] False) k"
      "waiting (s_queue (semaphores k ! 0)) = [1] \<and> length (semaphores k) = 1 \<and> s_value (semaphores k ! 0) = 1"
    by (rule run_case)
  then show ?thesis by (intro exI [of _ k]) simp
qed

theorem no_lost_wakeup_witness:
  "\<exists>k. krun two_waiters (boot [] False) = Inr k \<and> waiting (s_queue (semaphores k ! 0)) = [1] \<and>
     st k 1 = Some BLOCKED \<and> in_P 0 (stacks k 1) \<and>
     (\<exists>T. finite T \<and> 1 \<le> int (card T) \<and> (\<forall>t \<in> T. (st k t = Some READY \<or> st k t = Some RUNNING) \<and> in_P 0 (stacks k t)))"
proof -
  obtain k where k: "krun two_waiters (boot [] False) = Inr k" "reachable (boot [] False) k"
      "waiting (s_queue (semaphores k ! 0)) = [1]" "0 < length (semaphores k)" "s_value (semaphores k ! 0) = 1"
    using two_waiters_run by blast
  show ?thesis using no_lost_wakeup [OF k(2,4)] k(1,3,5) by auto
qed

text \<open>
  \<open>V\<close> never fails on a semaphore that exists, from a handler or a thread, while a thread runs or the
  machine idles: it adds one to the value, makes the first waiter \<open>READY\<close> and takes it off the queue, and
  leaves the other waiters in their order, the other semaphores, the sections the threads have to do and
  the interrupt level as they were.
\<close>

theorem V_wakes_first:
  assumes "reachable (boot junk g) k" "i < length (semaphores k)"
  shows "\<exists>k' s'. V i k = Inr k' \<and> semaphores k' = (semaphores k)[i := s'] \<and>
    s_value s' = s_value (semaphores k ! i) + 1 \<and> stacks k' = stacks k \<and> klevel k' = klevel k \<and>
    (case waiting (s_queue (semaphores k ! i)) of
       [] \<Rightarrow> waiting (s_queue s') = [] \<and> st k' = st k
     | t # ts \<Rightarrow> waiting (s_queue s') = ts \<and> st k' = (st k)(t \<mapsto> READY))"
proof -
  let ?w = "waiting (s_queue (semaphores k ! i))"
  obtain k' q where V: "V i k = Inr k'" "stacks k' = stacks k" "klevel k' = klevel k" "st k' = woken ?w (st k)"
      "semaphores k' = (semaphores k)[i := (semaphores k ! i)\<lparr>s_queue := q, s_value := s_value (semaphores k ! i) + 1\<rparr>]"
      "waiting q = tl ?w"
    using V_ok [OF reachable_inv [OF assms(1) boot_inv] assms(2)] by blast
  then show ?thesis
    by (intro exI [of _ k'] exI [of _ "(semaphores k ! i)\<lparr>s_queue := q, s_value := s_value (semaphores k ! i) + 1\<rparr>"])
       (auto simp: woken_def split: list.splits)
qed

theorem V_wakes_first_witness:
  "\<exists>k k'. krun two_waiters (boot [] False) = Inr k \<and> V 0 k = Inr k' \<and> s_value (semaphores k' ! 0) = 2 \<and>
     waiting (s_queue (semaphores k' ! 0)) = [] \<and> st k' 1 = Some READY"
proof -
  obtain k where k: "krun two_waiters (boot [] False) = Inr k" "reachable (boot [] False) k"
      "waiting (s_queue (semaphores k ! 0)) = [1]" "0 < length (semaphores k)" "s_value (semaphores k ! 0) = 1"
    using two_waiters_run by blast
  show ?thesis using V_wakes_first [OF k(2,4)] k(1,3-5) by auto
qed

end
