(* ===== verification/AddrSpaces.thy ===== *)
theory AddrSpaces
  imports Machine Memory DiskDev
begin

text \<open>
  Address spaces with demand paging: \<open>userprog/addrspace.cc\<close>, \<open>userprog/backingstore.cc\<close>, the object file
  header of \<open>bin/noff.h\<close> and the page fault case of \<open>userprog/exception.cc\<close>. The \<open>userprog\<close> kernel is built
  with the stub file system, whose files are UNIX files: lists of bytes here (\<open>filesys/openfile.h\<close>).
\<close>

section \<open>Files of the stub file system\<close>

text \<open>
  \<open>Lseek\<close> asserts that the position is not negative; \<open>read\<close> returns what the file has, up to the number
  asked for; \<open>write\<close> fills a gap after the end with zeros. A negative number of bytes is a bad access.
\<close>

definition stub_ReadAt :: "8 word list \<Rightarrow> int \<Rightarrow> int \<Rightarrow> 8 word list res" where
  "stub_ReadAt file numBytes position =
     ASSERT (position \<ge> 0) (if numBytes < 0 then Inl BadAccess else Inr (slice file (nat position) (nat numBytes)))"

definition stub_WriteAt :: "8 word list \<Rightarrow> 8 word list \<Rightarrow> int \<Rightarrow> (8 word list \<times> int) res" where
  "stub_WriteAt file from_buf position =
     ASSERT (position \<ge> 0) (
       let file' = file @ replicate (nat position - length file) 0
       in Inr (blit file' (nat position) from_buf, int (length from_buf)))"

section \<open>The main memory\<close>

text \<open>Copying bytes out of and into \<open>machine->mainMemory\<close> at an index.\<close>

definition mem_get :: "machine \<Rightarrow> int \<Rightarrow> nat \<Rightarrow> 8 word list res" where
  "mem_get m i n =
     (if 0 \<le> i \<and> i + int n \<le> int (length (mainMemory m)) then Inr (slice (mainMemory m) (nat i) n) else Inl BadAccess)"

definition mem_put :: "machine \<Rightarrow> int \<Rightarrow> 8 word list \<Rightarrow> machine res" where
  "mem_put m i bs =
     (if bs = [] then Inr m
      else if 0 \<le> i \<and> i + int (length bs) \<le> int (length (mainMemory m))
      then Inr (m\<lparr>mainMemory := blit (mainMemory m) (nat i) bs\<rparr>) else Inl BadAccess)"

abbreviation PageBytes :: int where "PageBytes \<equiv> 128"

section \<open>Object files\<close>

record segment =
  virtualAddr :: int
  inFileAddr :: int
  seg_size :: int

record noff_header =
  noffMagic :: int
  code :: segment
  initData :: segment
  uninitData :: segment

definition NOFFMAGIC :: int where "NOFFMAGIC = 0xbadfad"

text \<open>The ten \<open>int\<close>s of the header; the structure keeps \<open>junk\<close> where the file is too short.\<close>

definition header_int :: "8 word list \<Rightarrow> nat \<Rightarrow> int" where
  "header_int bs i = sint (le_word (slice bs (4 * i) 4))"

definition header_of :: "8 word list \<Rightarrow> noff_header" where
  "header_of bs =
     \<lparr>noffMagic = header_int bs 0,
      code = \<lparr>virtualAddr = header_int bs 1, inFileAddr = header_int bs 2, seg_size = header_int bs 3\<rparr>,
      initData = \<lparr>virtualAddr = header_int bs 4, inFileAddr = header_int bs 5, seg_size = header_int bs 6\<rparr>,
      uninitData = \<lparr>virtualAddr = header_int bs 7, inFileAddr = header_int bs 8, seg_size = header_int bs 9\<rparr>\<rparr>"

definition int_WordToHost :: "int \<Rightarrow> int" where
  "int_WordToHost x = sint (WordToHost (word_of_int x))"

definition swap_segment :: "segment \<Rightarrow> segment" where
  "swap_segment s = \<lparr>virtualAddr = int_WordToHost (virtualAddr s), inFileAddr = int_WordToHost (inFileAddr s),
     seg_size = int_WordToHost (seg_size s)\<rparr>"

definition SwapHeader :: "noff_header \<Rightarrow> noff_header" where
  "SwapHeader h = \<lparr>noffMagic = int_WordToHost (noffMagic h), code = swap_segment (code h),
     initData = swap_segment (initData h), uninitData = swap_segment (uninitData h)\<rparr>"

section \<open>State\<close>

record backing_store =
  bs_numPages :: int
  filename :: string
  bstore_array :: "bool list"
  bs_file :: "8 word list"

record addr_space =
  executableFile :: "8 word list"
  spaceid :: int
  space_size :: "32 word"
  noffHeader :: noff_header
  numPages :: "32 word"

text \<open>
  The machine with the page table of the running space: \<open>pageTable\<close> of the space and
  \<open>machine->pageTable\<close> are one array once \<open>RestoreState\<close> has run, so the array is kept in the machine.
\<close>

record user =
  mach :: machine
  manager :: memory_manager
  ustats :: statistics
  random_calls :: nat
  space :: addr_space
  store :: backing_store

definition the_table :: "user \<Rightarrow> TranslationEntry list" where
  "the_table u = (case pageTable (mach u) of None \<Rightarrow> [] | Some pt \<Rightarrow> pt)"

definition get_pte :: "user \<Rightarrow> int \<Rightarrow> TranslationEntry res" where
  "get_pte u i = aget (the_table u) i"

definition upd_pte :: "int \<Rightarrow> (TranslationEntry \<Rightarrow> TranslationEntry) \<Rightarrow> user \<Rightarrow> user res" where
  "upd_pte i f u =
     bindR (get_pte u i) (\<lambda>e. bindR (aset (the_table u) i (f e)) (\<lambda>pt.
     Inr (u\<lparr>mach := (mach u)\<lparr>pageTable := Some pt\<rparr>\<rparr>)))"

section \<open>Backing store\<close>

text \<open>The array of flags is not initialised (\<open>junk\<close>); the file is made empty whatever its size should be.\<close>

fun decimal :: "nat \<Rightarrow> string" where
  "decimal n = (if n < 10 then [char_of (48 + n)] else decimal (n div 10) @ [char_of (48 + n mod 10)])"

definition int_to_string :: "int \<Rightarrow> string" where
  "int_to_string i = (if i < 0 then CHR ''-'' # decimal (nat (- i)) else decimal (nat i))"

definition BackingStore_new :: "bool list \<Rightarrow> int \<Rightarrow> 32 word \<Rightarrow> int \<Rightarrow> backing_store" where
  "BackingStore_new junk space_id file_size totalPages =
     \<lparr>bs_numPages = totalPages, filename = ''bstore'' @ int_to_string space_id,
      bstore_array = take (nat totalPages) junk, bs_file = []\<rparr>"

definition PageOut :: "TranslationEntry \<Rightarrow> int \<Rightarrow> user \<Rightarrow> user res" where
  "PageOut pte pteNum u =
     bindR (mem_get (mach u) (sint (physicalPage pte) * PageBytes) (nat PageBytes)) (\<lambda>bs.
     bindR (stub_WriteAt (bs_file (store u)) bs (sint (virtualPage pte) * PageBytes)) (\<lambda>(f, _).
     bindR (aset (bstore_array (store u)) pteNum True) (\<lambda>flags.
     Inr (u\<lparr>ustats := (ustats u)\<lparr>numPageOuts := numPageOuts (ustats u) + 1\<rparr>,
       store := (store u)\<lparr>bs_file := f, bstore_array := flags\<rparr>\<rparr>))))"

definition PageIn :: "TranslationEntry \<Rightarrow> int \<Rightarrow> user \<Rightarrow> (user \<times> bool) res" where
  "PageIn pte pteNum u =
     bindR (aget (bstore_array (store u)) pteNum) (\<lambda>saved.
     if saved then
       bindR (stub_ReadAt (bs_file (store u)) PageBytes (sint (virtualPage pte) * PageBytes)) (\<lambda>bs.
       bindR (mem_put (mach u) (sint (physicalPage pte) * PageBytes) bs) (\<lambda>m.
       Inr (u\<lparr>mach := m, ustats := (ustats u)\<lparr>numPageIns := numPageIns (ustats u) + 1\<rparr>\<rparr>, True)))
     else Inr (u, False))"

section \<open>Address spaces\<close>

definition divRoundUp_u :: "32 word \<Rightarrow> 32 word \<Rightarrow> 32 word" where
  "divRoundUp_u n s = n div s + (if n mod s > 0 then 1 else 0)"

definition UserStackSize :: int where "UserStackSize = 1024"

definition AddrSpace_new :: "8 word list \<Rightarrow> addr_space \<Rightarrow> addr_space" where
  "AddrSpace_new exec sp = sp\<lparr>executableFile := exec, spaceid := -1\<rparr>"

text \<open>\<open>junk\<close> is what the header structure held, \<open>entries\<close> what the memory of the new table held.\<close>

definition Initialize :: "8 word list \<Rightarrow> (nat \<Rightarrow> TranslationEntry) \<Rightarrow> bool \<Rightarrow> addr_space \<Rightarrow>
    (addr_space \<times> TranslationEntry list \<times> int) res" where
  "Initialize junk entries ro sp =
     bindR (stub_ReadAt (executableFile sp) 40 0) (\<lambda>bs.
     let noffH = header_of (blit junk 0 bs);
         swapped = (if noffMagic noffH \<noteq> NOFFMAGIC \<and> int_WordToHost (noffMagic noffH) = NOFFMAGIC
                    then SwapHeader noffH else noffH)
     in ASSERT (noffMagic swapped = NOFFMAGIC) (
       let sz = word_of_int (seg_size (code swapped) + seg_size (initData swapped) + seg_size (uninitData swapped)
                  + UserStackSize) :: 32 word;
           n = divRoundUp_u sz (word_of_int PageBytes);
           pt = map (\<lambda>i. (entries i)\<lparr>virtualPage := word_of_nat i, valid := False, use_bit := False,
                     dirty := False, readOnly := ro\<rparr>) [0..<unat n]
       in Inr (sp\<lparr>noffHeader := noffH, numPages := n, space_size := n * word_of_int PageBytes\<rparr>, pt, 1)))"

definition InitializeBackingStore :: "bool list \<Rightarrow> addr_space \<Rightarrow> backing_store" where
  "InitializeBackingStore junk sp =
     BackingStore_new junk (spaceid sp) (space_size sp) (uint (numPages sp))"

primrec clear_regs :: "nat list \<Rightarrow> machine \<Rightarrow> machine res" where
  "clear_regs [] m = Inr m"
| "clear_regs (i # is) m = bindR (WriteRegister m (int i) 0) (clear_regs is)"

definition InitRegisters :: "addr_space \<Rightarrow> machine \<Rightarrow> machine res" where
  "InitRegisters sp m =
     bindR (clear_regs [0..<NumTotalRegs] m) (\<lambda>m.
     bindR (WriteRegister m (int PCReg) 0) (\<lambda>m.
     bindR (WriteRegister m (int NextPCReg) 4) (\<lambda>m.
     WriteRegister m (int StackReg) (numPages sp * word_of_int PageBytes - 16))))"

definition SaveState :: "user \<Rightarrow> user" where
  "SaveState u = u"

definition RestoreState :: "TranslationEntry list \<Rightarrow> user \<Rightarrow> user" where
  "RestoreState pt u = u\<lparr>mach := (mach u)\<lparr>pageTable := Some pt, pageTableSize := numPages (space u)\<rparr>\<rparr>"

primrec free_pages :: "nat list \<Rightarrow> user \<Rightarrow> user res" where
  "free_pages [] u = Inr u"
| "free_pages (i # is) u =
     bindR (get_pte u (int i)) (\<lambda>e.
     if valid e then bindR (FreePage (manager u) (sint (physicalPage e))) (\<lambda>mm. free_pages is (u\<lparr>manager := mm\<rparr>))
     else free_pages is u)"

definition AddrSpace_destroy :: "user \<Rightarrow> user res" where
  "AddrSpace_destroy u = free_pages [0..<unat (numPages (space u))] u"

definition space_Translate :: "user \<Rightarrow> int \<Rightarrow> int res" where
  "space_Translate u virtAddr =
     (let vpn = uint (word_of_int virtAddr :: 32 word) div PageBytes;
          offset = uint (word_of_int virtAddr :: 32 word) mod PageBytes
      in bindR (get_pte u vpn) (\<lambda>e. Inr (sint (physicalPage e * word_of_int PageBytes + word_of_int offset))))"

section \<open>Page faults\<close>

text \<open>
  The loop that draws a page until it finds a valid one, at most \<open>n\<close> times: the \<open>i\<close>-th call of \<open>Random()\<close>
  returns \<open>random i\<close>.
\<close>

primrec pick_victim :: "nat \<Rightarrow> (nat \<Rightarrow> nat) \<Rightarrow> user \<Rightarrow> (user \<times> int) res" where
  "pick_victim 0 random u = Inl OutOfFuel"
| "pick_victim (Suc n) random u =
     (if numPages (space u) = 0 then Inl HostTrap
      else
        let i = int (random (random_calls u)) mod uint (numPages (space u));
            u = u\<lparr>random_calls := Suc (random_calls u)\<rparr>
        in bindR (get_pte u i) (\<lambda>e. if valid e then Inr (u, i) else pick_victim n random u))"

definition evict :: "int \<Rightarrow> user \<Rightarrow> user res" where
  "evict i u =
     bindR (get_pte u i) (\<lambda>e.
     bindR (if dirty e then PageOut e i u else Inr u) (\<lambda>u.
     bindR (upd_pte i (\<lambda>e. e\<lparr>valid := False, dirty := False\<rparr>) u) (\<lambda>u.
     bindR (get_pte u i) (\<lambda>e.
     bindR (FreePage (manager u) (sint (physicalPage e))) (\<lambda>mm. Inr (u\<lparr>manager := mm\<rparr>))))))"

text \<open>\<open>pageTable[pageNumber].physicalPage = manager->AllocPage()\<close>.\<close>

definition alloc_frame :: "int \<Rightarrow> user \<Rightarrow> (user \<times> int) res" where
  "alloc_frame pageNumber u =
     bindR (AllocPage (manager u)) (\<lambda>(mm, p).
     bindR (upd_pte pageNumber (\<lambda>e. e\<lparr>physicalPage := word_of_int p\<rparr>) (u\<lparr>manager := mm\<rparr>)) (\<lambda>u. Inr (u, p)))"

text \<open>One segment (code or data): whether the page is in it, and what is loaded of it.\<close>

definition in_segment :: "segment \<Rightarrow> int \<Rightarrow> bool" where
  "in_segment g page \<longleftrightarrow> (virtualAddr g + seg_size g) sdiv PageBytes \<ge> page \<and> page \<ge> virtualAddr g sdiv PageBytes"

definition load_into :: "int \<Rightarrow> int \<Rightarrow> int \<Rightarrow> user \<Rightarrow> user res" where
  "load_into virtAddr numBytes position u =
     bindR (space_Translate u virtAddr) (\<lambda>a.
     bindR (stub_ReadAt (executableFile (space u)) numBytes position) (\<lambda>bs.
     bindR (mem_put (mach u) a bs) (\<lambda>m. Inr (u\<lparr>mach := m\<rparr>))))"

definition load_segment :: "segment \<Rightarrow> int \<Rightarrow> user \<Rightarrow> user res" where
  "load_segment g page u =
     (let v = virtualAddr g; pageEnd = (v + seg_size g) sdiv PageBytes;
          position = inFileAddr g + PageBytes * page - v in
      if \<not> seg_size g > 0 then Inr u
      else if v sdiv PageBytes = page then load_into v (PageBytes - v smod PageBytes) (inFileAddr g) u
      else if pageEnd > page then load_into (PageBytes * page) PageBytes position u
      else if pageEnd = page then load_into (PageBytes * page) ((v + seg_size g) smod PageBytes) position u
      else Inr u)"

definition count_page_in :: "user \<Rightarrow> user" where
  "count_page_in u = u\<lparr>ustats := (ustats u)\<lparr>numPageIns := numPageIns (ustats u) + 1\<rparr>\<rparr>"

definition load_page :: "int \<Rightarrow> user \<Rightarrow> user res" where
  "load_page page u =
     (let h = noffHeader (space u); c = in_segment (code h) page; d = in_segment (initData h) page;
          u = (if c \<or> d then count_page_in u else u) in
      bindR (if c then load_segment (code h) page u else Inr u) (\<lambda>u.
      bindR (if d then load_segment (initData h) page u else Inr u) (\<lambda>u.
      if \<not> (c \<or> d) then
        bindR (get_pte u page) (\<lambda>e.
        bindR (mem_put (mach u) (sint (physicalPage e) * PageBytes) (replicate (nat PageBytes) 0)) (\<lambda>m.
        Inr (u\<lparr>mach := m\<rparr>)))
      else Inr u)))"

definition take_frame :: "nat \<Rightarrow> (nat \<Rightarrow> nat) \<Rightarrow> int \<Rightarrow> user \<Rightarrow> user res" where
  "take_frame n random pageNumber u =
     bindR (alloc_frame pageNumber u) (\<lambda>(u, p).
     if p = -1 then
       bindR (pick_victim n random u) (\<lambda>(u, i).
       bindR (evict i u) (\<lambda>u. bindR (alloc_frame pageNumber u) (\<lambda>(u, _). Inr u)))
     else Inr u)"

definition PageFaultHandler :: "nat \<Rightarrow> (nat \<Rightarrow> nat) \<Rightarrow> int \<Rightarrow> user \<Rightarrow> user res" where
  "PageFaultHandler n random pageNumber u =
     bindR (take_frame n random pageNumber u) (\<lambda>u.
     bindR (get_pte u pageNumber) (\<lambda>e.
     bindR (PageIn e pageNumber u) (\<lambda>(u, successfulPageIn).
     if \<not> successfulPageIn then load_page pageNumber u else Inr u)))"

text \<open>The case \<open>PageFaultException\<close> of \<open>ExceptionHandler\<close>.\<close>

definition page_fault :: "nat \<Rightarrow> (nat \<Rightarrow> nat) \<Rightarrow> user \<Rightarrow> user res" where
  "page_fault n random u =
     (let u = u\<lparr>ustats := (ustats u)\<lparr>numPageFaults := numPageFaults (ustats u) + 1\<rparr>\<rparr> in
      bindR (ReadRegister (mach u) (int BadVAddrReg)) (\<lambda>fault_addr.
      let page_num = sint fault_addr sdiv PageBytes in
      bindR (PageFaultHandler n random page_num u) (upd_pte page_num (\<lambda>e. e\<lparr>valid := True\<rparr>))))"

end
