(* ===== verification/Paging.thy ===== *)
theory Paging
  imports AddrSpaces
begin

text \<open>
  What demand paging keeps: the pages of a running space that are valid have frames of their own, which
  the memory manager has handed out, and a page fault gives the faulted page a frame without
  touching the bytes of the pages that stay. The lemmas follow the steps of \<open>PageFaultHandler\<close>: taking
  a frame, evicting, reading back or loading.
\<close>

section \<open>The invariant\<close>

definition frame_of :: "TranslationEntry \<Rightarrow> int" where
  "frame_of e = sint (physicalPage e)"

definition frames_ok :: "user \<Rightarrow> bool" where
  "frames_ok u \<longleftrightarrow> (\<forall>i < length (the_table u). valid (the_table u ! i) \<longrightarrow>
     frame_of (the_table u ! i) \<in> allocated_pages (manager u) \<and>
     (\<forall>j < length (the_table u). j \<noteq> i \<longrightarrow> valid (the_table u ! j) \<longrightarrow>
        frame_of (the_table u ! j) \<noteq> frame_of (the_table u ! i)))"

definition user_ok :: "user \<Rightarrow> bool" where
  "user_ok u \<longleftrightarrow> mm_ok (manager u) \<and> pageCount (manager u) = 32 \<and> length (mainMemory (mach u)) = 4096 \<and>
     pageTable (mach u) \<noteq> None \<and> length (the_table u) = unat (numPages (space u)) \<and>
     length (the_table u) \<le> 2 ^ 23 \<and> length (bstore_array (store u)) = length (the_table u) \<and>
     (\<forall>i < length (the_table u). virtualPage (the_table u ! i) = word_of_nat i) \<and> frames_ok u"

definition seg_ok :: "segment \<Rightarrow> bool" where
  "seg_ok g \<longleftrightarrow> 0 \<le> virtualAddr g \<and> 0 \<le> seg_size g \<and> 0 \<le> inFileAddr g \<and> virtualAddr g + seg_size g < 2 ^ 31"

text \<open>The bytes in a frame, and of a page.\<close>

definition frame_bytes :: "user \<Rightarrow> int \<Rightarrow> 8 word list" where
  "frame_bytes u f = slice (mainMemory (mach u)) (nat (f * PageBytes)) (nat PageBytes)"

definition page_bytes :: "user \<Rightarrow> nat \<Rightarrow> 8 word list" where
  "page_bytes u i = frame_bytes u (frame_of (the_table u ! i))"

definition set_table :: "TranslationEntry list \<Rightarrow> user \<Rightarrow> user" where
  "set_table pt u = u\<lparr>mach := (mach u)\<lparr>pageTable := Some pt\<rparr>\<rparr>"

definition set_mem :: "8 word list \<Rightarrow> user \<Rightarrow> user" where
  "set_mem bs u = u\<lparr>mach := (mach u)\<lparr>mainMemory := bs\<rparr>\<rparr>"

lemma set_simps [simp]:
  "the_table (set_table pt u) = pt" "manager (set_table pt u) = manager u" "space (set_table pt u) = space u"
  "store (set_table pt u) = store u" "mach (set_table pt u) = (mach u)\<lparr>pageTable := Some pt\<rparr>" "random_calls (set_table pt u) = random_calls u"
  "the_table (set_mem bs u) = the_table u" "manager (set_mem bs u) = manager u" "space (set_mem bs u) = space u"
  "store (set_mem bs u) = store u" "mach (set_mem bs u) = (mach u)\<lparr>mainMemory := bs\<rparr>" "random_calls (set_mem bs u) = random_calls u"
  "the_table (u\<lparr>manager := mm\<rparr>) = the_table u" "the_table (u\<lparr>ustats := st\<rparr>) = the_table u"
  "the_table (u\<lparr>store := b\<rparr>) = the_table u" "the_table (u\<lparr>random_calls := n\<rparr>) = the_table u"
  by (simp_all add: set_table_def set_mem_def the_table_def)

lemma get_pte_ok: "i < length (the_table u) \<Longrightarrow> get_pte u (int i) = Inr (the_table u ! i)"
  by (simp add: get_pte_def)

lemma upd_pte_ok: "i < length (the_table u) \<Longrightarrow>
    upd_pte (int i) f u = Inr (set_table ((the_table u)[i := f (the_table u ! i)]) u)"
  by (simp add: upd_pte_def get_pte_ok set_table_def)

lemma frame_range:
  assumes "user_ok u" "f \<in> allocated_pages (manager u)"
  shows "0 \<le> f" "f < 32"
  using mm.used_range [of "manager u"] assms by (auto simp: user_ok_def)

lemma frame_of_word: "0 \<le> f \<Longrightarrow> f < 32 \<Longrightarrow> sint (word_of_int f :: 32 word) = f"
  by (simp add: int_word_sint)

text \<open>The state while a fault on page \<open>p\<close> is handled: \<open>p\<close> is not valid and has frame \<open>f\<close> to itself.\<close>

definition holding :: "nat \<Rightarrow> int \<Rightarrow> user \<Rightarrow> bool" where
  "holding p f u \<longleftrightarrow> user_ok u \<and> p < length (the_table u) \<and> \<not> valid (the_table u ! p) \<and>
     frame_of (the_table u ! p) = f \<and> f \<in> allocated_pages (manager u) \<and>
     (\<forall>j < length (the_table u). valid (the_table u ! j) \<longrightarrow> frame_of (the_table u ! j) \<noteq> f)"

section \<open>Taking a frame\<close>

lemma alloc_frame_ok:
  assumes u: "user_ok u" and p: "p < length (the_table u)" "\<not> valid (the_table u ! p)"
  shows "(allocated_pages (manager u) = {0..<32} \<and>
      alloc_frame (int p) u = Inr (set_table ((the_table u)[p := (the_table u ! p)\<lparr>physicalPage := -1\<rparr>]) u, -1)) \<or>
    (\<exists>mm f. f \<noteq> -1 \<and> f \<notin> allocated_pages (manager u) \<and> allocated_pages mm = insert f (allocated_pages (manager u)) \<and>
      alloc_frame (int p) u =
        Inr (set_table ((the_table u)[p := (the_table u ! p)\<lparr>physicalPage := word_of_int f\<rparr>]) (u\<lparr>manager := mm\<rparr>), f) \<and>
      holding p f (set_table ((the_table u)[p := (the_table u ! p)\<lparr>physicalPage := word_of_int f\<rparr>]) (u\<lparr>manager := mm\<rparr>)))"
proof -
  have mm: "mm_ok (manager u)" "pageCount (manager u) = 32" using u by (simp_all add: user_ok_def)
  show ?thesis
  proof (cases "allocated_pages (manager u) = {0..<32}")
    case True
    then have "AllocPage (manager u) = Inr (manager u, -1)" using mm.alloc_full [OF mm(1)] mm(2) by simp
    then show ?thesis using True p(1) by (simp add: alloc_frame_def upd_pte_ok)
  next
    case False
    then obtain m f where f: "AllocPage (manager u) = Inr (m, f)" "0 \<le> f" "f < 32" "f \<notin> allocated_pages (manager u)"
        "mm_ok m" "pageCount m = 32" "allocated_pages m = insert f (allocated_pages (manager u))"
      using mm.alloc_free [OF mm(1)] mm(2) by auto
    let ?e = "(the_table u ! p)\<lparr>physicalPage := word_of_int f\<rparr>"
    let ?u = "set_table ((the_table u)[p := ?e]) (u\<lparr>manager := m\<rparr>)"
    have run: "alloc_frame (int p) u = Inr (?u, f)" using f(1) p(1) by (simp add: alloc_frame_def upd_pte_ok)
    have nv: "\<not> valid ?e" "frame_of ?e = f" using p(2) f(2,3) by (simp_all add: frame_of_def frame_of_word)
    have "frames_ok ?u" using u nv p f(7) unfolding user_ok_def frames_ok_def by (auto simp: nth_list_update)
    moreover have "virtualPage ?e = virtualPage (the_table u ! p)" by simp
    ultimately have ok: "user_ok ?u" using u f(5,6) p(1) unfolding user_ok_def by (auto simp: nth_list_update)
    have "frame_of (the_table u ! j) \<noteq> f" if "j < length (the_table u)" "valid (the_table u ! j)" for j
      using u f(4) that unfolding user_ok_def frames_ok_def by metis
    then have "holding p f ?u" using ok nv p f(7) unfolding holding_def by (auto simp: nth_list_update)
    then show ?thesis using run f by auto
  qed
qed

section \<open>Writing into a frame\<close>

text \<open>The state \<open>u'\<close> is \<open>u\<close> with the contents of the frame \<open>f\<close> replaced by \<open>bs\<close>.\<close>

definition in_frame :: "int \<Rightarrow> 8 word list \<Rightarrow> user \<Rightarrow> user \<Rightarrow> bool" where
  "in_frame f bs u u' \<longleftrightarrow> (\<exists>M st. u' = (set_mem M u)\<lparr>ustats := st\<rparr> \<and> length M = 4096) \<and> frame_bytes u' f = bs \<and>
     (\<forall>g. 0 \<le> g \<and> g < 32 \<and> g \<noteq> f \<longrightarrow> frame_bytes u' g = frame_bytes u g)"

lemma slice_blit_within:
  assumes "q + n \<le> length xs" "off + length bs \<le> n"
  shows "slice (blit xs (q + off) bs) q n = blit (slice xs q n) off bs"
  using assms by (intro nth_equalityI) (auto simp: nth_blit)

lemma blit_frames:
  assumes len: "length m = 4096" and f: "0 \<le> f" "f < 32" and off: "off + length bs \<le> 128"
  shows "length (blit m (nat (f * PageBytes) + off) bs) = 4096"
    "slice (blit m (nat (f * PageBytes) + off) bs) (nat (f * PageBytes)) (nat PageBytes) =
       blit (slice m (nat (f * PageBytes)) (nat PageBytes)) off bs"
    "0 \<le> g \<Longrightarrow> g < 32 \<Longrightarrow> g \<noteq> f \<Longrightarrow>
       slice (blit m (nat (f * PageBytes) + off) bs) (nat (g * PageBytes)) (nat PageBytes) = slice m (nat (g * PageBytes)) (nat PageBytes)"
proof -
  have q: "nat (f * PageBytes) + 128 \<le> 4096" using f by auto
  show "length (blit m (nat (f * PageBytes) + off) bs) = 4096" using q off len by simp
  show "slice (blit m (nat (f * PageBytes) + off) bs) (nat (f * PageBytes)) (nat PageBytes) =
       blit (slice m (nat (f * PageBytes)) (nat PageBytes)) off bs"
    using slice_blit_within [of "nat (f * PageBytes)" 128 m off bs] q off len by simp
  assume g: "0 \<le> g" "g < 32" "g \<noteq> f"
  have "nat (g * PageBytes) + 128 \<le> 4096" using g by auto
  moreover have "nat (g * PageBytes) + 128 \<le> nat (f * PageBytes) + off \<or> nat (f * PageBytes) + off + length bs \<le> nat (g * PageBytes)"
    using g f off by (cases "g < f") auto
  ultimately show "slice (blit m (nat (f * PageBytes) + off) bs) (nat (g * PageBytes)) (nat PageBytes) =
      slice m (nat (g * PageBytes)) (nat PageBytes)"
    using q off len by (intro slice_blit_disjoint) auto
qed

lemma mem_put_ok:
  assumes u: "user_ok u" and f: "0 \<le> f" "f < 32" and off: "off + length bs \<le> 128"
  shows "\<exists>M. mem_put (mach u) (f * PageBytes + int off) bs = Inr ((mach u)\<lparr>mainMemory := M\<rparr>) \<and> length M = 4096 \<and>
    slice M (nat (f * PageBytes)) (nat PageBytes) = blit (frame_bytes u f) off bs \<and>
    (\<forall>g. 0 \<le> g \<and> g < 32 \<and> g \<noteq> f \<longrightarrow> slice M (nat (g * PageBytes)) (nat PageBytes) = frame_bytes u g)"
proof -
  have len: "length (mainMemory (mach u)) = 4096" using u by (simp add: user_ok_def)
  have "nat (f * PageBytes + int off) = nat (f * PageBytes) + off" "nat (f * PageBytes) + 128 \<le> 4096" using f by auto
  then have "mem_put (mach u) (f * PageBytes + int off) bs =
      Inr ((mach u)\<lparr>mainMemory := blit (mainMemory (mach u)) (nat (f * PageBytes) + off) bs\<rparr>)"
    using f off len by (auto simp: mem_put_def)
  then show ?thesis using blit_frames [OF len f off] by (auto simp: frame_bytes_def)
qed

lemma put_in_frame:
  assumes "user_ok u" "0 \<le> f" "f < 32" "off + length bs \<le> 128"
  shows "\<exists>u'. bindR (mem_put (mach u) (f * PageBytes + int off) bs) (\<lambda>m. Inr (u\<lparr>mach := m\<rparr>)) = Inr u' \<and>
    in_frame f (blit (frame_bytes u f) off bs) u u'"
proof -
  obtain M where M: "mem_put (mach u) (f * PageBytes + int off) bs = Inr ((mach u)\<lparr>mainMemory := M\<rparr>)" "length M = 4096"
      "slice M (nat (f * PageBytes)) (nat PageBytes) = blit (frame_bytes u f) off bs"
      "\<forall>g. 0 \<le> g \<and> g < 32 \<and> g \<noteq> f \<longrightarrow> slice M (nat (g * PageBytes)) (nat PageBytes) = frame_bytes u g"
    using mem_put_ok [OF assms] by blast
  have "set_mem M u = (set_mem M u)\<lparr>ustats := ustats u\<rparr>" by (simp add: set_mem_def)
  then have "in_frame f (blit (frame_bytes u f) off bs) u (set_mem M u)"
    unfolding in_frame_def using M(2-4) by (auto simp: frame_bytes_def)
  then show ?thesis using M(1) by (auto simp: set_mem_def)
qed

lemma in_frame_stats:
  "in_frame f bs u u' \<Longrightarrow> in_frame f bs u (u'\<lparr>ustats := st\<rparr>)"
  "in_frame f bs (u\<lparr>ustats := st\<rparr>) u' \<longleftrightarrow> in_frame f bs u u'"
proof -
  have e: "(set_mem M (u\<lparr>ustats := st\<rparr>))\<lparr>ustats := st'\<rparr> = (set_mem M u)\<lparr>ustats := st'\<rparr>" for M st' by (simp add: set_mem_def)
  have b: "frame_bytes (u\<lparr>ustats := st\<rparr>) g = frame_bytes u g" for g by (simp add: frame_bytes_def)
  show "in_frame f bs (u\<lparr>ustats := st\<rparr>) u' \<longleftrightarrow> in_frame f bs u u'" unfolding in_frame_def e b ..
  assume i: "in_frame f bs u u'"
  then obtain M s where M: "u' = (set_mem M u)\<lparr>ustats := s\<rparr>" "length M = 4096" by (auto simp: in_frame_def)
  have "u'\<lparr>ustats := st\<rparr> = (set_mem M u)\<lparr>ustats := st\<rparr>" by (simp add: M(1))
  moreover have "frame_bytes (u'\<lparr>ustats := st\<rparr>) g = frame_bytes u' g" for g by (simp add: frame_bytes_def)
  ultimately show "in_frame f bs u (u'\<lparr>ustats := st\<rparr>)" using i M(2) unfolding in_frame_def by metis
qed

lemma in_frame_trans:
  assumes "in_frame f a u v" "in_frame f b v w"
  shows "in_frame f b u w"
proof -
  have "(set_mem M ((set_mem N u)\<lparr>ustats := st\<rparr>))\<lparr>ustats := st'\<rparr> = (set_mem M u)\<lparr>ustats := st'\<rparr>" for M N st st'
    by (simp add: set_mem_def)
  moreover obtain N st M st' where "v = (set_mem N u)\<lparr>ustats := st\<rparr>" "w = (set_mem M v)\<lparr>ustats := st'\<rparr>" "length M = 4096"
    using assms unfolding in_frame_def by blast
  ultimately have "\<exists>M st. w = (set_mem M u)\<lparr>ustats := st\<rparr> \<and> length M = 4096" by blast
  moreover have "frame_bytes w f = b" "\<forall>g. 0 \<le> g \<and> g < 32 \<and> g \<noteq> f \<longrightarrow> frame_bytes w g = frame_bytes u g"
    using assms by (simp_all add: in_frame_def)
  ultimately show ?thesis unfolding in_frame_def by blast
qed

lemma in_frame_refl: "user_ok u \<Longrightarrow> in_frame f (frame_bytes u f) u u"
proof -
  assume "user_ok u"
  moreover have "u = (set_mem (mainMemory (mach u)) u)\<lparr>ustats := ustats u\<rparr>" by (simp add: set_mem_def)
  ultimately show ?thesis unfolding in_frame_def user_ok_def by blast
qed

lemma in_frame_keeps:
  assumes "in_frame f bs u u'" "user_ok u"
  shows "user_ok u'" "the_table u' = the_table u" "manager u' = manager u" "space u' = space u" "store u' = store u"
    "random_calls u' = random_calls u" "registers (mach u') = registers (mach u)"
    "holding p f' u \<Longrightarrow> holding p f' u'"
proof -
  obtain M st where u': "u' = (set_mem M u)\<lparr>ustats := st\<rparr>" "length M = 4096" using assms(1) by (auto simp: in_frame_def)
  show t: "the_table u' = the_table u" "manager u' = manager u" "space u' = space u" "store u' = store u"
    "random_calls u' = random_calls u" "registers (mach u') = registers (mach u)" by (simp_all add: u'(1))
  have pt: "pageTable (mach u') = pageTable (mach u)" "mainMemory (mach u') = M" by (simp_all add: u'(1))
  show ok: "user_ok u'" using assms(2) u'(2) unfolding user_ok_def frames_ok_def t pt by simp
  show "holding p f' u'" if "holding p f' u" using that ok unfolding holding_def t by simp
qed

section \<open>Loading a page\<close>

lemma space_Translate_uint: "uint (word_of_int v :: 32 word) = a \<Longrightarrow>
    space_Translate u v = bindR (get_pte u (a div PageBytes)) (\<lambda>e.
      Inr (sint (physicalPage e * word_of_int PageBytes + word_of_int (a mod PageBytes))))"
  by (simp only: space_Translate_def Let_def)

lemma space_Translate_ok:
  assumes u: "user_ok u" "p < length (the_table u)" "frame_of (the_table u ! p) = f" and f: "0 \<le> f" "f < 32" and o: "off < 128"
  shows "space_Translate u (PageBytes * int p + int off) = Inr (f * PageBytes + int off)"
proof -
  have p: "int p < 2 ^ 23" using u(1,2) by (simp add: user_ok_def)
  have w: "uint (word_of_int (PageBytes * int p + int off) :: 32 word) = PageBytes * int p + int off"
    using p o by (simp only: uint_word_of_int) (simp add: take_bit_eq_mod)
  have d: "(PageBytes * int p + int off) div PageBytes = int p" "(PageBytes * int p + int off) mod PageBytes = int off"
    using o by simp_all
  have "physicalPage (the_table u ! p) = word_of_int f" unfolding u(3) [symmetric] frame_of_def by simp
  then have "physicalPage (the_table u ! p) * word_of_int PageBytes + word_of_int (int off) =
      (word_of_int (f * PageBytes + int off) :: 32 word)" by simp
  moreover have "sint (word_of_int (f * PageBytes + int off) :: 32 word) = f * PageBytes + int off"
    using o f by (simp only: int_word_sint) simp
  ultimately show ?thesis
    by (simp only: space_Translate_uint [OF w] d get_pte_ok [OF u(2)] bindR_Inr)
qed

lemma length_slice_le: "length (slice xs p n) \<le> n"
  by (simp add: slice_def)

lemma load_into_ok:
  assumes h: "holding p f u" and o: "off < 128" and n: "0 \<le> n" "int off + n \<le> 128" and pos: "0 \<le> pos"
  shows "\<exists>u'. load_into (PageBytes * int p + int off) n pos u = Inr u' \<and>
    in_frame f (blit (frame_bytes u f) off (slice (executableFile (space u)) (nat pos) (nat n))) u u'"
proof -
  have u: "user_ok u" "p < length (the_table u)" "frame_of (the_table u ! p) = f" "f \<in> allocated_pages (manager u)"
    using h by (simp_all add: holding_def)
  have f: "0 \<le> f" "f < 32" using frame_range [OF u(1,4)] by simp_all
  let ?bs = "slice (executableFile (space u)) (nat pos) (nat n)"
  have "off + length ?bs \<le> 128" using n length_slice_le [of "executableFile (space u)" "nat pos" "nat n"] by linarith
  from put_in_frame [OF u(1) f this] show ?thesis
    using space_Translate_ok [OF u(1-3) f o] n pos by (simp add: load_into_def stub_ReadAt_def)
qed

text \<open>Where in the page the code puts what it reads of a segment, and what it reads.\<close>

definition seg_off :: "segment \<Rightarrow> nat \<Rightarrow> nat" where
  "seg_off g p = (if virtualAddr g div PageBytes = int p then nat (virtualAddr g mod PageBytes) else 0)"

definition seg_read :: "8 word list \<Rightarrow> segment \<Rightarrow> nat \<Rightarrow> 8 word list" where
  "seg_read file g p =
     (let v = virtualAddr g; stop = v + seg_size g; pos = nat (inFileAddr g + PageBytes * int p - v) in
      if seg_size g = 0 then []
      else if v div PageBytes = int p then slice file (nat (inFileAddr g)) (nat (PageBytes - v mod PageBytes))
      else if stop div PageBytes > int p then slice file pos (nat PageBytes) else slice file pos (nat (stop mod PageBytes)))"

lemma seg_read_fits: "seg_off g p + length (seg_read file g p) \<le> 128"
proof -
  have r: "length (slice xs a k) \<le> 128" if "k \<le> 128" for xs :: "8 word list" and a k
    using that length_slice_le le_trans by blast
  have m: "nat (x mod 128) \<le> 128" for x :: int
    using pos_mod_bound [of 128 x] by linarith
  have a: "nat (x mod 128) + length (slice xs a (nat (128 - x mod 128))) \<le> 128" for xs :: "8 word list" and a and x :: int
  proof -
    have "nat (x mod 128) + nat (128 - x mod 128) = 128"
      using pos_mod_bound [of 128 x] pos_mod_sign [of 128 x] by linarith
    then show ?thesis using length_slice_le [of xs a "nat (128 - x mod 128)"] by linarith
  qed
  show ?thesis using a m by (simp add: seg_off_def seg_read_def Let_def r)
qed

lemma load_segment_ok:
  assumes h: "holding p f u" and g: "seg_ok g" "in_segment g (int p)"
  shows "\<exists>u'. load_segment g (int p) u = Inr u' \<and>
    in_frame f (blit (frame_bytes u f) (seg_off g p) (seg_read (executableFile (space u)) g p)) u u'"
proof -
  have pos: "0 \<le> virtualAddr g" "0 \<le> seg_size g" "0 \<le> inFileAddr g" using g(1) by (simp_all add: seg_ok_def)
  let ?v = "virtualAddr g" and ?stop = "virtualAddr g + seg_size g"
  have sd: "?v sdiv PageBytes = ?v div PageBytes" "?stop sdiv PageBytes = ?stop div PageBytes"
    "?v smod PageBytes = ?v mod PageBytes" "?stop smod PageBytes = ?stop mod PageBytes"
    using pos by (simp_all add: sdiv_nonneg_eq smod_nonneg_eq)
  have rng: "?v div PageBytes \<le> int p" "int p \<le> ?stop div PageBytes" using g(2) by (simp_all add: in_segment_def sd)
  consider "seg_size g = 0" | "seg_size g > 0" "?v div PageBytes = int p" | "seg_size g > 0" "?v div PageBytes < int p"
    using rng(1) pos(2) by linarith
  then show ?thesis
  proof cases
    case 1
    then show ?thesis using in_frame_refl [of u f] h by (auto simp: load_segment_def seg_read_def Let_def holding_def)
  next
    case 2
    have v: "?v = PageBytes * int p + int (nat (?v mod PageBytes))" using 2(2) by (simp flip: 2(2))
    have m: "0 \<le> ?v mod PageBytes" "?v mod PageBytes < PageBytes" by simp_all
    have "nat (?v mod PageBytes) < 128" "0 \<le> PageBytes - ?v mod PageBytes"
      "int (nat (?v mod PageBytes)) + (PageBytes - ?v mod PageBytes) \<le> 128" using m by linarith+
    note load_into_ok [OF h this pos(3), folded v]
    then show ?thesis using 2 by (simp add: load_segment_def Let_def sd seg_off_def seg_read_def)
  next
    case 3
    let ?pos = "inFileAddr g + PageBytes * int p - ?v"
    have "?v < PageBytes * int p" using 3(2) mult_div_mod_eq [of PageBytes ?v] pos_mod_bound [of PageBytes ?v] by linarith
    then have p0: "0 \<le> ?pos" using pos(3) by simp
    have m: "0 \<le> ?stop mod PageBytes" "?stop mod PageBytes < PageBytes" by simp_all
    have a: "load_into (PageBytes * int p + int 0) n ?pos u = load_into (PageBytes * int p) n ?pos u" for n by simp
    have whole: "\<exists>u'. load_into (PageBytes * int p) PageBytes ?pos u = Inr u' \<and>
        in_frame f (blit (frame_bytes u f) 0 (slice (executableFile (space u)) (nat ?pos) (nat PageBytes))) u u'"
      using load_into_ok [OF h, of 0 PageBytes ?pos] p0 a by simp
    have part: "\<exists>u'. load_into (PageBytes * int p) (?stop mod PageBytes) ?pos u = Inr u' \<and>
        in_frame f (blit (frame_bytes u f) 0 (slice (executableFile (space u)) (nat ?pos) (nat (?stop mod PageBytes)))) u u'"
      using load_into_ok [OF h, of 0 "?stop mod PageBytes" ?pos] p0 a m by simp
    show ?thesis using 3 whole part rng(2)
      by (auto simp: load_segment_def Let_def sd seg_off_def seg_read_def)
  qed
qed

text \<open>What a page holds that was never saved: the bytes of its segments over what the frame held.\<close>

definition page_image :: "addr_space \<Rightarrow> nat \<Rightarrow> 8 word list \<Rightarrow> 8 word list" where
  "page_image sp p old =
     (let put = \<lambda>g bs. if in_segment g (int p) then blit bs (seg_off g p) (seg_read (executableFile sp) g p) else bs;
          c = code (noffHeader sp); d = initData (noffHeader sp) in
      if in_segment c (int p) \<or> in_segment d (int p) then put d (put c old) else replicate 128 0)"

definition header_ok :: "addr_space \<Rightarrow> bool" where
  "header_ok sp \<longleftrightarrow> seg_ok (code (noffHeader sp)) \<and> seg_ok (initData (noffHeader sp))"

lemma segment_step_ok:
  assumes "holding p f u" and "seg_ok g"
  shows "\<exists>u'. (if in_segment g (int p) then load_segment g (int p) u else Inr u) = Inr u' \<and>
    in_frame f (if in_segment g (int p) then blit (frame_bytes u f) (seg_off g p) (seg_read (executableFile (space u)) g p)
                else frame_bytes u f) u u'"
  using load_segment_ok [OF assms] in_frame_refl [of u f] assms(1) by (auto simp: holding_def)

lemma holding_user: "holding p f u \<Longrightarrow> user_ok u \<and> p < length (the_table u) \<and> frame_of (the_table u ! p) = f \<and> 0 \<le> f \<and> f < 32"
  using frame_range [of u f] by (simp add: holding_def)

lemma frame_length: "user_ok u \<Longrightarrow> 0 \<le> f \<Longrightarrow> f < 32 \<Longrightarrow> length (frame_bytes u f) = 128"
  by (simp add: frame_bytes_def user_ok_def)

lemma load_page_ok:
  assumes h: "holding p f u" and hd: "header_ok (space u)"
  shows "\<exists>u'. load_page (int p) u = Inr u' \<and> in_frame f (page_image (space u) p (frame_bytes u f)) u u'"
proof -
  let ?c = "code (noffHeader (space u))" and ?d = "initData (noffHeader (space u))"
  define v where "v = (if in_segment ?c (int p) \<or> in_segment ?d (int p) then count_page_in u else u)"
  have seg: "seg_ok ?c" "seg_ok ?d" using hd by (simp_all add: header_ok_def)
  have ok: "user_ok u" "p < length (the_table u)" "0 \<le> f" "f < 32" "frame_of (the_table u ! p) = f"
    using holding_user [OF h] by simp_all
  have v0: "in_frame f (frame_bytes u f) u v" using in_frame_refl [OF ok(1)] in_frame_stats(1) by (simp add: v_def count_page_in_def)
  have hv: "holding p f v" using in_frame_keeps(8) [OF v0 ok(1) h] .
  have sv: "space v = space u" "frame_bytes v f = frame_bytes u f" using in_frame_keeps(4) [OF v0 ok(1)] v0 by (simp_all add: in_frame_def)
  obtain w where w: "(if in_segment ?c (int p) then load_segment ?c (int p) v else Inr v) = Inr w"
      "in_frame f (if in_segment ?c (int p) then blit (frame_bytes u f) (seg_off ?c p) (seg_read (executableFile (space u)) ?c p)
        else frame_bytes u f) v w"
    using segment_step_ok [OF hv seg(1), unfolded sv] by blast
  have hw: "holding p f w" and sw: "space w = space u"
    using in_frame_keeps(4,8) [OF w(2)] holding_user [OF hv] hv sv(1) by simp_all
  have fw: "frame_bytes w f = (if in_segment ?c (int p) then blit (frame_bytes u f) (seg_off ?c p)
      (seg_read (executableFile (space u)) ?c p) else frame_bytes u f)" using w(2) unfolding in_frame_def by simp
  obtain x where x: "(if in_segment ?d (int p) then load_segment ?d (int p) w else Inr w) = Inr x"
      "in_frame f (if in_segment ?d (int p) then blit (frame_bytes w f) (seg_off ?d p) (seg_read (executableFile (space w)) ?d p)
        else frame_bytes w f) w x"
    using segment_step_ok [OF hw seg(2)] by blast
  have ux: "in_frame f (frame_bytes x f) u x"
    using in_frame_trans [OF in_frame_trans [OF v0 w(2)] x(2)] x(2) unfolding in_frame_def by simp
  have run: "load_page (int p) u = (if \<not> (in_segment ?c (int p) \<or> in_segment ?d (int p)) then
        bindR (get_pte x (int p)) (\<lambda>e.
        bindR (mem_put (mach x) (sint (physicalPage e) * PageBytes) (replicate (nat PageBytes) 0)) (\<lambda>m.
        Inr (x\<lparr>mach := m\<rparr>))) else Inr x)"
    by (simp only: load_page_def Let_def v_def [symmetric] w(1) x(1) bindR_Inr)
  show ?thesis
  proof (cases "in_segment ?c (int p) \<or> in_segment ?d (int p)")
    case True
    then have "page_image (space u) p (frame_bytes u f) = frame_bytes x f"
      using x(2) fw sw by (simp add: page_image_def in_frame_def)
    then show ?thesis using True run ux by simp
  next
    case False
    then have xu: "w = u" "x = u" using w(1) x(1) by (simp_all add: v_def)
    have "blit (frame_bytes u f) 0 (replicate 128 0) = replicate 128 0"
      using frame_length [OF ok(1,3,4)] by (simp add: blit_def)
    moreover have "sint (physicalPage (the_table u ! p)) = f" using ok(5) by (simp add: frame_of_def)
    ultimately show ?thesis using False put_in_frame [OF ok(1,3,4), of 0 "replicate 128 0"]
      run xu by (auto simp: get_pte_ok [OF ok(2)] page_image_def)
  qed
qed

section \<open>The backing store as a map\<close>

text \<open>
  A page marked as saved has been written: the file reaches its end. The constructor leaves the
  marks uninitialised, so this holds of a new store only if the memory it gets is clear.
\<close>

definition store_ok :: "backing_store \<Rightarrow> bool" where
  "store_ok b \<longleftrightarrow> (\<forall>j < length (bstore_array b). bstore_array b ! j \<longrightarrow> 128 * (j + 1) \<le> length (bs_file b))"

definition saved :: "backing_store \<Rightarrow> nat \<rightharpoonup> 8 word list" where
  "saved b j = (if j < length (bstore_array b) \<and> bstore_array b ! j then Some (slice (bs_file b) (128 * j) 128) else None)"

lemma slice_blit_apart:
  assumes "p \<le> length xs" "q + n \<le> length xs" "q + n \<le> p \<or> p + length ys \<le> q"
  shows "slice (blit xs p ys) q n = slice xs q n"
  using assms by (auto simp: slice_def blit_def drop_take min_def)

lemma slice_blit_at: "p \<le> length xs \<Longrightarrow> slice (blit xs p ys) p (length ys) = ys"
  by (simp add: slice_def blit_def)

lemma stub_WriteAt_ok: "stub_WriteAt file bs (int pos) =
    Inr (blit (file @ replicate (pos - length file) 0) pos bs, int (length bs))"
  by (simp add: stub_WriteAt_def Let_def)

lemma page_position: "user_ok u \<Longrightarrow> i < length (the_table u) \<Longrightarrow>
    sint (virtualPage (the_table u ! i)) * PageBytes = int (128 * i)"
proof -
  assume u: "user_ok u" "i < length (the_table u)"
  then have "virtualPage (the_table u ! i) = word_of_int (int i)" "int i < 2 ^ 23" by (simp_all add: user_ok_def)
  moreover from this(2) have "sint (word_of_int (int i) :: 32 word) = int i" by (simp only: int_word_sint) simp
  ultimately show ?thesis by simp
qed

lemma mem_get_frame:
  assumes "user_ok u" "0 \<le> f" "f < 32"
  shows "mem_get (mach u) (f * PageBytes) (nat PageBytes) = Inr (frame_bytes u f)"
  using assms by (simp add: mem_get_def user_ok_def frame_bytes_def)

lemma PageOut_ok:
  assumes u: "user_ok u" "store_ok (store u)" and i: "i < length (the_table u)" "valid (the_table u ! i)"
  shows "\<exists>st s'. PageOut (the_table u ! i) (int i) u = Inr (u\<lparr>ustats := st, store := s'\<rparr>) \<and> store_ok s' \<and>
    length (bstore_array s') = length (bstore_array (store u)) \<and> saved s' = (saved (store u))(i \<mapsto> page_bytes u i)"
proof -
  let ?e = "the_table u ! i" and ?fs = "bstore_array (store u)" and ?file = "bs_file (store u)"
  have "frame_of ?e \<in> allocated_pages (manager u)" using u(1) i by (simp add: user_ok_def frames_ok_def)
  then have f: "0 \<le> frame_of ?e" "frame_of ?e < 32" using frame_range [OF u(1)] by simp_all
  have bs: "mem_get (mach u) (sint (physicalPage ?e) * PageBytes) (nat PageBytes) = Inr (page_bytes u i)"
    using mem_get_frame [OF u(1) f] by (simp add: page_bytes_def frame_of_def)
  have len: "length (page_bytes u i) = 128" "length ?fs = length (the_table u)"
    using frame_length [OF u(1) f] u(1) by (simp_all add: page_bytes_def user_ok_def)
  let ?x = "?file @ replicate (128 * i - length ?file) 0"
  let ?file' = "blit ?x (128 * i) (page_bytes u i)"
  let ?s = "(store u)\<lparr>bs_file := ?file', bstore_array := ?fs[i := True]\<rparr>"
  have run: "PageOut ?e (int i) u =
      Inr (u\<lparr>ustats := (ustats u)\<lparr>numPageOuts := numPageOuts (ustats u) + 1\<rparr>, store := ?s\<rparr>)"
    unfolding PageOut_def bs bindR_Inr page_position [OF u(1) i(1)] stub_WriteAt_ok prod.case
    using i(1) len(2) by simp
  have reach: "128 * (j + 1) \<le> length ?file" if "j < length ?fs" "?fs ! j" for j
    using u(2) that by (simp add: store_ok_def)
  have grow: "length ?file \<le> length ?file'" "128 * (i + 1) \<le> length ?file'" using len(1) by (simp_all add: blit_def)
  have far: "128 * (j + 1) \<le> length ?file'" if "j < length ?fs" "?fs[i := True] ! j" for j
  proof (cases "j = i")
    case True
    then show ?thesis using grow(2) by (simp only: True)
  next
    case False
    then have "?fs ! j" using that(2) by simp
    with that(1) have "128 * (j + 1) \<le> length ?file" by (rule reach)
    then show ?thesis using grow(1) by (rule le_trans)
  qed
  have ok: "store_ok ?s" unfolding store_ok_def using far by simp
  have "slice ?file' (128 * j) 128 = slice ?file (128 * j) 128" if "j < length ?fs" "?fs ! j" "j \<noteq> i" for j
  proof -
    have "slice ?file' (128 * j) 128 = slice ?x (128 * j) 128"
      using reach [OF that(1,2)] that(3) len(1) by (intro slice_blit_apart) (simp, simp, linarith)
    then show ?thesis using reach [OF that(1,2)] by (simp add: slice_def)
  qed
  moreover have "slice ?file' (128 * i) 128 = page_bytes u i" using slice_blit_at [of "128 * i" ?x "page_bytes u i"] len(1) by simp
  ultimately have "saved ?s = (saved (store u))(i \<mapsto> page_bytes u i)"
    using i(1) len(2) by (auto simp: saved_def fun_eq_iff nth_list_update)
  then show ?thesis using run ok by fastforce
qed

lemma PageIn_ok:
  assumes h: "holding p f u" and s: "store_ok (store u)"
  shows "case saved (store u) p of None \<Rightarrow> PageIn (the_table u ! p) (int p) u = Inr (u, False)
    | Some bs \<Rightarrow> \<exists>u'. PageIn (the_table u ! p) (int p) u = Inr (u', True) \<and> in_frame f bs u u'"
proof -
  have ok: "user_ok u" "p < length (the_table u)" "0 \<le> f" "f < 32" "frame_of (the_table u ! p) = f"
    using holding_user [OF h] by simp_all
  have l: "p < length (bstore_array (store u))" using ok(1,2) by (simp add: user_ok_def)
  have f: "sint (physicalPage (the_table u ! p)) = f" using ok(5) by (simp add: frame_of_def)
  let ?bs = "slice (bs_file (store u)) (128 * p) 128"
  show ?thesis
  proof (cases "bstore_array (store u) ! p")
    case True
    then have "128 * p + 128 \<le> length (bs_file (store u))" using s l by (auto simp: store_ok_def)
    then have n: "length ?bs = 128" by simp
    have "stub_ReadAt (bs_file (store u)) PageBytes (int (128 * p)) = Inr ?bs"
      by (simp add: stub_ReadAt_def nat_mult_distrib)
    moreover have "blit (frame_bytes u f) 0 ?bs = ?bs" using n frame_length [OF ok(1,3,4)] by (simp add: blit_def)
    moreover obtain u' where "bindR (mem_put (mach u) (f * PageBytes) ?bs) (\<lambda>m. Inr (u\<lparr>mach := m\<rparr>)) = Inr u'"
        "in_frame f (blit (frame_bytes u f) 0 ?bs) u u'"
      using put_in_frame [OF ok(1,3,4), of 0 ?bs] n by auto
    ultimately show ?thesis using True l f in_frame_stats(1)
      by (simp add: saved_def PageIn_def page_position [OF ok(1,2)] bindR_eq_Inr del: of_nat_mult) fastforce
  next
    case False
    then show ?thesis using l by (simp add: saved_def PageIn_def)
  qed
qed

section \<open>Evicting a page\<close>

text \<open>The loop returns the first page drawn that is valid; \<open>drawn\<close> is the page of one call of \<open>Random()\<close>.\<close>

definition drawn :: "(nat \<Rightarrow> nat) \<Rightarrow> user \<Rightarrow> nat \<Rightarrow> nat" where
  "drawn random u i = random (random_calls u + i) mod length (the_table u)"

lemma pick_step:
  assumes "user_ok u" "the_table u \<noteq> []"
  shows "pick_victim (Suc n) random u = (let u' = u\<lparr>random_calls := Suc (random_calls u)\<rparr> in
    if valid (the_table u ! drawn random u 0) then Inr (u', int (drawn random u 0)) else pick_victim n random u')"
proof -
  have n: "uint (numPages (space u)) = int (length (the_table u))" using assms(1) by (simp add: user_ok_def)
  then have "numPages (space u) \<noteq> 0" using assms(2) by auto
  moreover have "int (random (random_calls u)) mod uint (numPages (space u)) = int (drawn random u 0)"
    by (simp only: n drawn_def add_0_right of_nat_mod)
  moreover have "drawn random u 0 < length (the_table u)" using assms(2) by (simp add: drawn_def)
  ultimately show ?thesis by (simp add: get_pte_ok Let_def)
qed

lemma calls_ok: "user_ok (u\<lparr>random_calls := m\<rparr>) = user_ok u"
  by (simp add: user_ok_def frames_ok_def)

lemma drawn_next: "drawn random (u\<lparr>random_calls := Suc (random_calls u)\<rparr>) i = drawn random u (Suc i)"
  by (simp add: drawn_def)

lemma pick_victim_hit:
  assumes "user_ok u" "the_table u \<noteq> []" "m < n" "valid (the_table u ! drawn random u m)"
    "\<forall>j < m. \<not> valid (the_table u ! drawn random u j)"
  shows "pick_victim n random u = Inr (u\<lparr>random_calls := random_calls u + Suc m\<rparr>, int (drawn random u m))"
  using assms
proof (induction m arbitrary: n u)
  case 0
  then obtain n' where "n = Suc n'" by (cases n) auto
  then show ?case using 0 by (simp del: pick_victim.simps add: pick_step [OF 0(1,2)] Let_def)
next
  case (Suc m)
  then obtain n' where n: "n = Suc n'" "m < n'" by (cases n) auto
  let ?u = "u\<lparr>random_calls := Suc (random_calls u)\<rparr>"
  have "pick_victim n' random ?u = Inr (?u\<lparr>random_calls := random_calls ?u + Suc m\<rparr>, int (drawn random ?u m))"
    using Suc.prems n(2) by (intro Suc.IH) (simp_all add: calls_ok drawn_next)
  moreover have "\<not> valid (the_table u ! drawn random u 0)" using Suc.prems(5) by blast
  ultimately show ?case using n(1) by (simp del: pick_victim.simps add: pick_step [OF Suc.prems(1,2)] Let_def drawn_next)
qed

lemma pick_victim_miss:
  assumes "user_ok u" "the_table u \<noteq> []" "\<forall>j < n. \<not> valid (the_table u ! drawn random u j)"
  shows "pick_victim n random u = Inl OutOfFuel"
  using assms
proof (induction n arbitrary: u)
  case (Suc n)
  let ?u = "u\<lparr>random_calls := Suc (random_calls u)\<rparr>"
  have "pick_victim n random ?u = Inl OutOfFuel"
    using Suc.prems by (intro Suc.IH) (simp_all add: calls_ok drawn_next)
  moreover have "\<not> valid (the_table u ! drawn random u 0)" using Suc.prems(3) by blast
  ultimately show ?case by (simp del: pick_victim.simps add: pick_step [OF Suc.prems(1,2)] Let_def)
qed simp

text \<open>Eviction saves a dirty page, leaves it clean and not valid and gives its frame back.\<close>

lemma evict_ok:
  assumes u: "user_ok u" "store_ok (store u)" and i: "i < length (the_table u)" "valid (the_table u ! i)"
  defines "e \<equiv> the_table u ! i"
  shows "\<exists>mm st s'. evict (int i) u =
      Inr (set_table ((the_table u)[i := e\<lparr>valid := False, dirty := False\<rparr>]) (u\<lparr>manager := mm, ustats := st, store := s'\<rparr>)) \<and>
    mm_ok mm \<and> pageCount mm = 32 \<and> allocated_pages mm = allocated_pages (manager u) - {frame_of e} \<and>
    store_ok s' \<and> length (bstore_array s') = length (bstore_array (store u)) \<and>
    saved s' = (if dirty e then (saved (store u))(i \<mapsto> page_bytes u i) else saved (store u))"
proof -
  have mm: "mm_ok (manager u)" "pageCount (manager u) = 32" using u(1) by (simp_all add: user_ok_def)
  have "frame_of e \<in> allocated_pages (manager u)" using u(1) i by (simp add: e_def user_ok_def frames_ok_def)
  then have f: "0 \<le> frame_of e" "frame_of e < 32" using frame_range [OF u(1)] by simp_all
  obtain m where m: "FreePage (manager u) (frame_of e) = Inr m" "mm_ok m" "pageCount m = 32"
      "allocated_pages m = allocated_pages (manager u) - {frame_of e}"
    using mm.free_ok [OF mm(1) f(1)] mm(2) f(2) by auto
  obtain st s' where o: "(if dirty e then PageOut e (int i) u else Inr u) = Inr (u\<lparr>ustats := st, store := s'\<rparr>)"
      "store_ok s'" "length (bstore_array s') = length (bstore_array (store u))"
      "saved s' = (if dirty e then (saved (store u))(i \<mapsto> page_bytes u i) else saved (store u))"
  proof (cases "dirty e")
    case True
    then show ?thesis using PageOut_ok [OF u i] that by (auto simp: e_def)
  next
    case False
    have "u = u\<lparr>ustats := ustats u, store := store u\<rparr>" by simp
    then show ?thesis using that [of "store u" "ustats u"] False u(2) by simp
  qed
  let ?v = "u\<lparr>ustats := st, store := s'\<rparr>" and ?e = "e\<lparr>valid := False, dirty := False\<rparr>"
  have v: "the_table ?v = the_table u" "manager ?v = manager u" by simp_all
  have iv: "i < length (the_table ?v)" using i(1) by simp
  have "sint (physicalPage ?e) = frame_of e" by (simp add: frame_of_def)
  then have "evict (int i) u = Inr ((set_table ((the_table u)[i := ?e]) ?v)\<lparr>manager := m\<rparr>)"
    using i(1) m(1) by (simp add: evict_def get_pte_ok e_def [symmetric] o(1) upd_pte_ok [OF iv])
  then show ?thesis using o(2-4) m(2-4) by (intro exI [of _ m] exI [of _ st] exI [of _ s']) (simp add: set_table_def)
qed

section \<open>A page fault\<close>

text \<open>
  The state \<open>u'\<close> has a frame for the page \<open>p\<close>; \<open>v\<close> is the page evicted for it, if any. The memory has not
  changed, nor the entries of the other pages.
\<close>

definition took :: "nat \<Rightarrow> nat option \<Rightarrow> user \<Rightarrow> user \<Rightarrow> bool" where
  "took p v u u' \<longleftrightarrow> space u' = space u \<and> mach u' = (mach u)\<lparr>pageTable := Some (the_table u')\<rparr> \<and>
     length (the_table u') = length (the_table u) \<and> store_ok (store u') \<and>
     (\<exists>w. the_table u' ! p = (the_table u ! p)\<lparr>physicalPage := w\<rparr>) \<and>
     (v = None \<longleftrightarrow> allocated_pages (manager u) \<noteq> {0..<32}) \<and>
     (\<forall>i. v = Some i \<longrightarrow> i < length (the_table u) \<and> valid (the_table u ! i)) \<and>
     (\<forall>j < length (the_table u). j \<noteq> p \<longrightarrow> the_table u' ! j =
        (if v = Some j then (the_table u ! j)\<lparr>valid := False, dirty := False\<rparr> else the_table u ! j)) \<and>
     saved (store u') = (case v of Some i \<Rightarrow>
        if dirty (the_table u ! i) then (saved (store u))(i \<mapsto> page_bytes u i) else saved (store u) | None \<Rightarrow> saved (store u)) \<and>
     (case v of Some i \<Rightarrow> allocated_pages (manager u') = allocated_pages (manager u)
      | None \<Rightarrow> frame_of (the_table u' ! p) \<notin> allocated_pages (manager u) \<and>
          allocated_pages (manager u') = insert (frame_of (the_table u' ! p)) (allocated_pages (manager u)))"

lemma page_bytes_set [simp]: "j \<noteq> p \<Longrightarrow> page_bytes (set_table ((the_table u)[p := e]) u) j = page_bytes u j"
  by (simp add: page_bytes_def frame_bytes_def)

lemma alloc_frame_took:
  assumes u: "user_ok u" "store_ok (store u)" and p: "p < length (the_table u)" "\<not> valid (the_table u ! p)"
    and free: "allocated_pages (manager u) \<noteq> {0..<32}"
  shows "\<exists>u' f. alloc_frame (int p) u = Inr (u', f) \<and> f \<noteq> -1 \<and> holding p f u' \<and> took p None u u'"
proof -
  obtain mm f where f: "f \<noteq> -1" "f \<notin> allocated_pages (manager u)" "allocated_pages mm = insert f (allocated_pages (manager u))"
      "alloc_frame (int p) u =
        Inr (set_table ((the_table u)[p := (the_table u ! p)\<lparr>physicalPage := word_of_int f\<rparr>]) (u\<lparr>manager := mm\<rparr>), f)"
      "holding p f (set_table ((the_table u)[p := (the_table u ! p)\<lparr>physicalPage := word_of_int f\<rparr>]) (u\<lparr>manager := mm\<rparr>))"
    using alloc_frame_ok [OF u(1) p] free by blast
  let ?u = "set_table ((the_table u)[p := (the_table u ! p)\<lparr>physicalPage := word_of_int f\<rparr>]) (u\<lparr>manager := mm\<rparr>)"
  have "frame_of (the_table ?u ! p) = f" using f(5) by (simp only: holding_def)
  then have "took p None u ?u" using free f(2,3) u(2) p(1) unfolding took_def by auto
  then show ?thesis using f by blast
qed

text \<open>With no frame free the entry of the page is set to \<open>-1\<close> and nothing else changes.\<close>

lemma alloc_frame_full:
  assumes u: "user_ok u" and p: "p < length (the_table u)" "\<not> valid (the_table u ! p)"
    and full: "allocated_pages (manager u) = {0..<32}"
  defines "e \<equiv> (the_table u ! p)\<lparr>physicalPage := -1\<rparr>"
  defines "u1 \<equiv> set_table ((the_table u)[p := e]) u"
  shows "alloc_frame (int p) u = Inr (u1, -1)" "user_ok u1" "valid (the_table u1 ! j) = valid (the_table u ! j)"
    "drawn random u1 j = drawn random u j"
proof -
  have t1: "the_table u1 = (the_table u)[p := e]" by (simp add: u1_def)
  have e: "\<not> valid e" "virtualPage e = virtualPage (the_table u ! p)" using p(2) by (simp_all add: e_def)
  have "frames_ok u1" using u e(1) p unfolding user_ok_def frames_ok_def t1 by (auto simp: nth_list_update u1_def)
  then show "user_ok u1" using u e(2) p(1) unfolding user_ok_def t1 by (auto simp: nth_list_update u1_def)
  show "alloc_frame (int p) u = Inr (u1, -1)"
    using alloc_frame_ok [OF u p] full by (auto simp: u1_def e_def dest!: holding_user)
  show "valid (the_table u1 ! j) = valid (the_table u ! j)"
    using p e(1) by (cases "j = p") (simp_all add: t1)
  show "drawn random u1 j = drawn random u j" by (simp add: drawn_def t1 u1_def)
qed

lemma make_room:
  assumes u: "user_ok u" "store_ok (store u)" and p: "p < length (the_table u)" "\<not> valid (the_table u ! p)"
    and full: "allocated_pages (manager u) = {0..<32}" and hit: "m < n" "valid (the_table u ! drawn random u m)"
  shows "\<exists>u1 u2 i u3. alloc_frame (int p) u = Inr (u1, -1) \<and> pick_victim n random u1 = Inr (u2, int i) \<and>
    evict (int i) u2 = Inr u3 \<and> user_ok u3 \<and> i < length (the_table u) \<and> valid (the_table u ! i) \<and>
    (\<exists>e w. e = (the_table u ! p)\<lparr>physicalPage := w\<rparr> \<and> the_table u3 = (the_table u)[p := e, i := (the_table u ! i)\<lparr>valid := False, dirty := False\<rparr>]) \<and>
    space u3 = space u \<and> mach u3 = (mach u)\<lparr>pageTable := Some (the_table u3)\<rparr> \<and> store_ok (store u3) \<and>
    frame_of (the_table u ! i) \<in> {0..<32} \<and> allocated_pages (manager u3) = {0..<32} - {frame_of (the_table u ! i)} \<and>
    saved (store u3) = (if dirty (the_table u ! i) then (saved (store u))(i \<mapsto> page_bytes u i) else saved (store u))"
proof -
  define e where "e = (the_table u ! p)\<lparr>physicalPage := -1\<rparr>"
  define u1 where "u1 = set_table ((the_table u)[p := e]) u"
  have t1: "the_table u1 = (the_table u)[p := e]" by (simp add: u1_def)
  have e: "\<not> valid e" "virtualPage e = virtualPage (the_table u ! p)" using p(2) by (simp_all add: e_def)
  note a = alloc_frame_full [OF u(1) p full, folded e_def, folded u1_def]
  note a1 = a(1) and ok1 = a(2) and val = a(3) and dr = a(4)
  define M where "M = (LEAST j. valid (the_table u ! drawn random u j))"
  define i where "i = drawn random u M"
  have M: "valid (the_table u ! i)" "M < n" "\<forall>j < M. \<not> valid (the_table u ! drawn random u j)"
    using LeastI [of "\<lambda>j. valid (the_table u ! drawn random u j)" m] hit Least_le [of "\<lambda>j. valid (the_table u ! drawn random u j)" m]
      not_less_Least by (auto simp: M_def i_def)
  have ne: "the_table u \<noteq> []" using p(1) by auto
  then have ne1: "the_table u1 \<noteq> []" by (simp add: t1)
  have i: "i < length (the_table u)" "i \<noteq> p" using M(1) p(2) ne by (auto simp: i_def drawn_def)
  define u2 where "u2 = u1\<lparr>random_calls := random_calls u1 + Suc M\<rparr>"
  have pick: "pick_victim n random u1 = Inr (u2, int i)"
    unfolding u2_def i_def dr [symmetric]
    using M ne1 by (intro pick_victim_hit [OF ok1]) (simp_all add: val dr i_def)
  have t2: "the_table u2 = (the_table u)[p := e]" "manager u2 = manager u" "store u2 = store u" by (simp_all add: u2_def t1 u1_def)
  have ok2: "user_ok u2" using ok1 by (simp add: u2_def calls_ok)
  have e2: "the_table u2 ! i = the_table u ! i" "page_bytes u2 i = page_bytes u i"
    using i(2) by (simp_all add: t2 page_bytes_def frame_bytes_def u2_def t1 u1_def)
  obtain mm st s' where ev: "evict (int i) u2 = Inr (set_table ((the_table u2)[i := (the_table u ! i)\<lparr>valid := False, dirty := False\<rparr>])
        (u2\<lparr>manager := mm, ustats := st, store := s'\<rparr>))"
      "mm_ok mm" "pageCount mm = 32" "allocated_pages mm = {0..<32} - {frame_of (the_table u ! i)}"
      "store_ok s'" "length (bstore_array s') = length (bstore_array (store u))"
      "saved s' = (if dirty (the_table u ! i) then (saved (store u))(i \<mapsto> page_bytes u i) else saved (store u))"
    using evict_ok [OF ok2, of i] u(2) i M(1) full by (auto simp: t2 e2)
  define u3 where "u3 = set_table ((the_table u2)[i := (the_table u ! i)\<lparr>valid := False, dirty := False\<rparr>])
        (u2\<lparr>manager := mm, ustats := st, store := s'\<rparr>)"
  have t3: "the_table u3 = (the_table u)[p := e, i := (the_table u ! i)\<lparr>valid := False, dirty := False\<rparr>]"
    "manager u3 = mm" "store u3 = s'" "mach u3 = (mach u)\<lparr>pageTable := Some (the_table u3)\<rparr>" "space u3 = space u" by (simp_all add: u3_def t2 u2_def u1_def)
  have fi: "frame_of (the_table u ! i) \<in> {0..<32}"
    using u(1) i(1) M(1) full by (simp add: user_ok_def frames_ok_def)
  have v3: "j \<noteq> i \<and> the_table u3 ! j = the_table u ! j" if "j < length (the_table u)" "valid (the_table u3 ! j)" for j
  proof -
    have "j \<noteq> i" using that i(1) by (auto simp: t3)
    moreover have "j \<noteq> p" using that i(2) e(1) by (auto simp: t3)
    ultimately show ?thesis by (simp add: t3)
  qed
  have l3: "length (the_table u3) = length (the_table u)" by (simp add: t3)
  have in_u: "frame_of (the_table u ! j) \<in> {0..<32}" if "j < length (the_table u)" "valid (the_table u ! j)" for j
    using u(1) that unfolding user_ok_def frames_ok_def full by blast
  have apart: "frame_of (the_table u ! j) \<noteq> frame_of (the_table u ! k)"
    if "j < length (the_table u)" "valid (the_table u ! j)" "k < length (the_table u)" "valid (the_table u ! k)" "j \<noteq> k" for j k
    using u(1) that unfolding user_ok_def frames_ok_def by blast
  have "frames_ok u3"
    unfolding frames_ok_def l3 t3(2) ev(4)
  proof (intro allI impI conjI)
    fix j assume "j < length (the_table u)" "valid (the_table u3 ! j)"
    with v3 [OF this] have j: "j < length (the_table u)" "j \<noteq> i" "the_table u3 ! j = the_table u ! j" "valid (the_table u ! j)" by auto
    show "frame_of (the_table u3 ! j) \<in> {0..<32} - {frame_of (the_table u ! i)}"
      using in_u [OF j(1,4)] apart [OF j(1,4) i(1) M(1) j(2)] unfolding j(3) by blast
    fix k assume k0: "k < length (the_table u)" "k \<noteq> j" "valid (the_table u3 ! k)"
    with v3 [OF k0(1,3)] have k: "the_table u3 ! k = the_table u ! k" "valid (the_table u ! k)" by auto
    show "frame_of (the_table u3 ! k) \<noteq> frame_of (the_table u3 ! j)"
      using apart [OF k0(1) k(2) j(1,4) k0(2)] unfolding j(3) k(1) .
  qed
  then have ok3: "user_ok u3"
    using u(1) e(2) p(1) i ev(2,3,6) unfolding user_ok_def t3 by (auto simp: nth_list_update u3_def)
  have al: "allocated_pages (manager u3) = {0..<32} - {frame_of (the_table u ! i)}" by (simp only: t3 ev(4))
  have st: "store_ok (store u3)" by (simp only: t3 ev(5))
  have sv: "saved (store u3) = (if dirty (the_table u ! i) then (saved (store u))(i \<mapsto> page_bytes u i) else saved (store u))"
    by (simp only: t3 ev(7))
  show ?thesis
    by (intro exI conjI) (rule a1 pick ev(1) [folded u3_def] ok3 i(1) M(1) e_def t3 st fi al sv)+
qed

lemma take_frame_full:
  assumes u: "user_ok u" "store_ok (store u)" and p: "p < length (the_table u)" "\<not> valid (the_table u ! p)"
    and full: "allocated_pages (manager u) = {0..<32}" and hit: "m < n" "valid (the_table u ! drawn random u m)"
  shows "\<exists>u' f v. take_frame n random (int p) u = Inr u' \<and> holding p f u' \<and> took p (Some v) u u'"
proof -
  obtain u1 u2 i u3 e w where r: "alloc_frame (int p) u = Inr (u1, -1)" "pick_victim n random u1 = Inr (u2, int i)"
      "evict (int i) u2 = Inr u3" "user_ok u3" "i < length (the_table u)" "valid (the_table u ! i)" "e = (the_table u ! p)\<lparr>physicalPage := w\<rparr>"
      "the_table u3 = (the_table u)[p := e, i := (the_table u ! i)\<lparr>valid := False, dirty := False\<rparr>]"
      "space u3 = space u" "mach u3 = (mach u)\<lparr>pageTable := Some (the_table u3)\<rparr>"
      "store_ok (store u3)" "frame_of (the_table u ! i) \<in> {0..<32}"
      "allocated_pages (manager u3) = {0..<32} - {frame_of (the_table u ! i)}"
      "saved (store u3) = (if dirty (the_table u ! i) then (saved (store u))(i \<mapsto> page_bytes u i) else saved (store u))"
    using make_room [OF u p full hit] by blast
  have i: "i \<noteq> p" using r(6) p(2) by auto
  have p3: "p < length (the_table u3)" "\<not> valid (the_table u3 ! p)" using p i by (simp_all add: r(7,8))
  have "frame_of (the_table u ! i) \<notin> allocated_pages (manager u3)" using r(13) by simp
  then have "allocated_pages (manager u3) \<noteq> {0..<32}" using r(12) by metis
  then obtain u4 f where u4: "alloc_frame (int p) u3 = Inr (u4, f)" "holding p f u4" "took p None u3 u4"
    using alloc_frame_took [OF r(4,11) p3] by blast
  have f: "frame_of (the_table u4 ! p) = f" using u4(2) by (simp only: holding_def)
  have "f < 32" "0 \<le> f" using holding_user [OF u4(2)] by simp_all
  moreover have f4: "f \<notin> allocated_pages (manager u3)" "allocated_pages (manager u4) = insert f (allocated_pages (manager u3))"
    using u4(3) f by (simp_all add: took_def)
  ultimately have "f = frame_of (the_table u ! i)" using r(13) by simp
  then have "allocated_pages (manager u4) = {0..<32}" using r(12,13) f4 by (metis insert_Diff)
  moreover have "\<exists>w. the_table u4 ! p = (the_table u ! p)\<lparr>physicalPage := w\<rparr>"
    using u4(3) p(1) i unfolding took_def r(7,8) by auto
  ultimately have "took p (Some i) u u4"
    using u4(3) r(5,6,8,14) full by (auto simp: took_def r(9-11) nth_list_update)
  moreover have "take_frame n random (int p) u = Inr u4" using u4(1) by (simp add: take_frame_def r(1-3))
  ultimately show ?thesis using u4(2) by blast
qed

text \<open>There is a free frame, or one of the first \<open>n\<close> pages drawn is valid.\<close>

definition room :: "nat \<Rightarrow> (nat \<Rightarrow> nat) \<Rightarrow> user \<Rightarrow> bool" where
  "room n random u \<longleftrightarrow> allocated_pages (manager u) \<noteq> {0..<32} \<or> (\<exists>m < n. valid (the_table u ! drawn random u m))"

lemma take_frame_ok:
  assumes "user_ok u" "store_ok (store u)" "p < length (the_table u)" "\<not> valid (the_table u ! p)" "room n random u"
  shows "\<exists>u' f v. take_frame n random (int p) u = Inr u' \<and> holding p f u' \<and> took p v u u'"
proof (cases "allocated_pages (manager u) = {0..<32}")
  case True
  then show ?thesis using take_frame_full [OF assms(1-4) True] assms(5) unfolding room_def by blast
next
  case False
  then show ?thesis using alloc_frame_took [OF assms(1-4)] by (fastforce simp: take_frame_def)
qed

text \<open>What the fault puts into the frame.\<close>

definition fault_image :: "user \<Rightarrow> nat \<Rightarrow> 8 word list \<Rightarrow> 8 word list" where
  "fault_image u p old = (case saved (store u) p of Some bs \<Rightarrow> bs | None \<Rightarrow> page_image (space u) p old)"

lemma PageFaultHandler_ok:
  assumes u: "user_ok u" "store_ok (store u)" and p: "p < length (the_table u)" "\<not> valid (the_table u ! p)"
    and "room n random u" "header_ok (space u)"
  shows "\<exists>u1 u' f v. PageFaultHandler n random (int p) u = Inr u' \<and> took p v u u1 \<and> holding p f u1 \<and>
    in_frame f (fault_image u p (frame_bytes u f)) u1 u'"
proof -
  obtain u1 f v where t: "take_frame n random (int p) u = Inr u1" "holding p f u1" "took p v u u1"
    using take_frame_ok [OF assms(1-5)] by blast
  have s: "store_ok (store u1)" "space u1 = space u" "frame_bytes u1 f = frame_bytes u f"
    using t(3) by (simp_all add: took_def frame_bytes_def)
  have "v \<noteq> Some p" using t(3) p(2) by (auto simp: took_def)
  then have sp: "saved (store u1) p = saved (store u) p" using t(3) unfolding took_def by (auto split: option.splits)
  have e: "get_pte u1 (int p) = Inr (the_table u1 ! p)" using holding_user [OF t(2)] by (simp add: get_pte_ok)
  show ?thesis
  proof (cases "saved (store u) p")
    case None
    then have "PageIn (the_table u1 ! p) (int p) u1 = Inr (u1, False)" using PageIn_ok [OF t(2) s(1)] sp by simp
    moreover obtain u' where "load_page (int p) u1 = Inr u'" "in_frame f (page_image (space u) p (frame_bytes u f)) u1 u'"
      using load_page_ok [OF t(2)] assms(6) s(2,3) by auto
    ultimately show ?thesis using None t e by (auto simp: PageFaultHandler_def fault_image_def)
  next
    case (Some bs)
    then obtain u' where "PageIn (the_table u1 ! p) (int p) u1 = Inr (u', True)" "in_frame f bs u1 u'"
      using PageIn_ok [OF t(2) s(1)] sp by auto
    then show ?thesis using Some t e by (auto simp: PageFaultHandler_def fault_image_def)
  qed
qed

end
