(* ===== verification/PageFaults.thy ===== *)
theory PageFaults
  imports Paging
begin

text \<open>
  The case \<open>PageFaultException\<close> of \<open>ExceptionHandler\<close> as a whole: what it returns, what becomes of the
  faulted page, of the page evicted for it and of all other pages, and when it never returns.
\<close>

section \<open>The effect of a page fault\<close>

text \<open>\<open>v\<close> is the page that was evicted, if any.\<close>

definition faulted :: "nat \<Rightarrow> nat option \<Rightarrow> user \<Rightarrow> user \<Rightarrow> bool" where
  "faulted p v u u' \<longleftrightarrow> user_ok u' \<and> store_ok (store u') \<and> space u' = space u \<and>
     (\<exists>M. mach u' = (mach u)\<lparr>mainMemory := M, pageTable := Some (the_table u')\<rparr>) \<and>
     length (the_table u') = length (the_table u) \<and>
     (\<exists>w. the_table u' ! p = (the_table u ! p)\<lparr>physicalPage := w, valid := True\<rparr>) \<and>
     (v = None \<longleftrightarrow> allocated_pages (manager u) \<noteq> {0..<32}) \<and>
     (\<forall>i. v = Some i \<longrightarrow> i < length (the_table u) \<and> valid (the_table u ! i)) \<and>
     (\<forall>j < length (the_table u). j \<noteq> p \<longrightarrow> the_table u' ! j =
        (if v = Some j then (the_table u ! j)\<lparr>valid := False, dirty := False\<rparr> else the_table u ! j)) \<and>
     (\<forall>j < length (the_table u). j \<noteq> p \<longrightarrow> valid (the_table u' ! j) \<longrightarrow> page_bytes u' j = page_bytes u j) \<and>
     page_bytes u' p = fault_image u p (frame_bytes u (frame_of (the_table u' ! p))) \<and>
     saved (store u') = (case v of Some i \<Rightarrow>
        if dirty (the_table u ! i) then (saved (store u))(i \<mapsto> page_bytes u i) else saved (store u) | None \<Rightarrow> saved (store u)) \<and>
     (case v of Some i \<Rightarrow> allocated_pages (manager u') = allocated_pages (manager u)
      | None \<Rightarrow> allocated_pages (manager u') = insert (frame_of (the_table u' ! p)) (allocated_pages (manager u)))"

lemma validate_ok:
  assumes h: "holding p f u"
  defines "e \<equiv> (the_table u ! p)\<lparr>valid := True\<rparr>"
  shows "user_ok (set_table ((the_table u)[p := e]) u)" "frame_of e = f"
proof -
  have u: "user_ok u" "p < length (the_table u)" "frame_of (the_table u ! p) = f" "f \<in> allocated_pages (manager u)"
    "\<forall>j < length (the_table u). valid (the_table u ! j) \<longrightarrow> frame_of (the_table u ! j) \<noteq> f"
    using h by (simp_all add: holding_def)
  show e: "frame_of e = f" using u(3) by (simp add: e_def frame_of_def)
  have "frames_ok u" using u(1) by (simp add: user_ok_def)
  then have "frames_ok (set_table ((the_table u)[p := e]) u)"
    using u(2,4,5) e unfolding frames_ok_def by (auto simp: nth_list_update)
  moreover have "virtualPage e = virtualPage (the_table u ! p)" by (simp add: e_def)
  ultimately show "user_ok (set_table ((the_table u)[p := e]) u)"
    using u(1,2) unfolding user_ok_def by (auto simp: nth_list_update)
qed

lemma stats_ok:
  "user_ok (u\<lparr>ustats := st\<rparr>) = user_ok u" "room n random (u\<lparr>ustats := st\<rparr>) = room n random u"
  "fault_image (u\<lparr>ustats := st\<rparr>) = fault_image u" "frame_bytes (u\<lparr>ustats := st\<rparr>) = frame_bytes u"
  "page_bytes (u\<lparr>ustats := st\<rparr>) = page_bytes u"
  by (simp_all add: user_ok_def frames_ok_def room_def drawn_def fault_image_def frame_bytes_def page_bytes_def fun_eq_iff cong: option.case_cong)

lemma took_stats: "took p v (u\<lparr>ustats := st\<rparr>) u' = took p v u u'"
  by (cases v) (simp_all add: took_def stats_ok cong: if_cong)

lemma page_fault_ok:
  assumes u: "user_ok u" "store_ok (store u)" and p: "p < length (the_table u)" "\<not> valid (the_table u ! p)"
    and r: "room n random u" "header_ok (space u)"
    and addr: "length (registers (mach u)) = 40" "sint (registers (mach u) ! BadVAddrReg) sdiv PageBytes = int p"
  shows "\<exists>u' v. page_fault n random u = Inr u' \<and> faulted p v u u'"
proof -
  define s where "s = u\<lparr>ustats := (ustats u)\<lparr>numPageFaults := numPageFaults (ustats u) + 1\<rparr>\<rparr>"
  have "ReadRegister (mach u) (int BadVAddrReg) = Inr (registers (mach u) ! BadVAddrReg)"
    using addr(1) by (simp add: ReadRegister_def NumTotalRegs_def)
  then have run: "page_fault n random u = bindR (PageFaultHandler n random (int p) s) (upd_pte (int p) (\<lambda>e. e\<lparr>valid := True\<rparr>))"
    using addr(2) by (simp add: page_fault_def s_def Let_def)
  obtain u1 u2 f v where h: "PageFaultHandler n random (int p) s = Inr u2" "took p v u u1" "holding p f u1"
      "in_frame f (fault_image u p (frame_bytes u f)) u1 u2"
    using PageFaultHandler_ok [of s p n random] u p r by (auto simp: s_def stats_ok took_stats)
  have ok1: "user_ok u1" "p < length (the_table u1)" "0 \<le> f" "f < 32" "frame_of (the_table u1 ! p) = f" using holding_user [OF h(3)] by simp_all
  note k = in_frame_keeps [OF h(4) ok1(1)]
  define u' where "u' = set_table ((the_table u2)[p := (the_table u2 ! p)\<lparr>valid := True\<rparr>]) u2"
  have fin: "page_fault n random u = Inr u'" using run h(1) ok1(2) k(2) by (simp add: u'_def upd_pte_ok)
  have ok': "user_ok u'" "frame_of (the_table u' ! p) = f"
    using validate_ok [OF k(8) [OF h(3)]] ok1(2) k(2) by (simp_all add: u'_def)
  have t': "the_table u' = (the_table u1)[p := (the_table u1 ! p)\<lparr>valid := True\<rparr>]" "store u' = store u1" "space u' = space u1"
    "manager u' = manager u1" by (simp_all add: u'_def k)
  have "\<exists>M. mach u2 = (mach u1)\<lparr>mainMemory := M\<rparr>" using h(4) by (auto simp: in_frame_def)
  moreover have "mach u1 = (mach u)\<lparr>pageTable := Some (the_table u1)\<rparr>" using h(2) by (simp add: took_def)
  ultimately have m': "\<exists>M. mach u' = (mach u)\<lparr>mainMemory := M, pageTable := Some (the_table u')\<rparr>"
    by (auto simp: u'_def)
  have fr: "frame_bytes u' g = frame_bytes u2 g" for g by (simp add: u'_def frame_bytes_def)
  have m1: "frame_bytes u1 g = frame_bytes u g" for g using h(2) by (simp add: took_def frame_bytes_def)
  have "page_bytes u' p = fault_image u p (frame_bytes u f)"
    using h(4) ok'(2) by (simp add: page_bytes_def fr in_frame_def)
  moreover have "page_bytes u' j = page_bytes u j"
    if j: "j < length (the_table u)" "j \<noteq> p" "valid (the_table u' ! j)" for j
  proof -
    have l: "length (the_table u1) = length (the_table u)" using h(2) by (simp add: took_def)
    have a: "the_table u' ! j = the_table u1 ! j" "the_table u1 ! j = the_table u ! j"
      using h(2) j by (auto simp: t' took_def split: if_splits)
    have "frame_of (the_table u1 ! j) \<noteq> f" using h(3) j a(1) l by (simp add: holding_def)
    moreover have "frame_of (the_table u1 ! j) \<in> allocated_pages (manager u1)"
      using ok1(1) j a(1) l unfolding user_ok_def frames_ok_def by simp
    then have "0 \<le> frame_of (the_table u1 ! j)" "frame_of (the_table u1 ! j) < 32" using frame_range [OF ok1(1)] by simp_all
    ultimately show ?thesis using h(4) m1 by (simp add: page_bytes_def fr a in_frame_def)
  qed
  ultimately have "faulted p v u u'"
    using h(2) ok' m' ok1(5) p(1) unfolding faulted_def took_def t' by (auto split: option.splits)
  then show ?thesis using fin by blast
qed

text \<open>The page that stops being valid is the victim.\<close>

lemma faulted_lost:
  assumes "faulted p v u u'" "\<not> valid (the_table u ! p)"
  shows "(j < length (the_table u) \<and> valid (the_table u ! j) \<and> \<not> valid (the_table u' ! j)) \<longleftrightarrow> v = Some j"
proof (cases "j = p")
  case True
  then show ?thesis using assms unfolding faulted_def by auto
next
  case False
  have "v = Some j \<Longrightarrow> j < length (the_table u) \<and> valid (the_table u ! j)" using assms(1) by (simp add: faulted_def)
  moreover have "j < length (the_table u) \<Longrightarrow>
      the_table u' ! j = (if v = Some j then (the_table u ! j)\<lparr>valid := False, dirty := False\<rparr> else the_table u ! j)"
    using assms(1) False by (simp add: faulted_def)
  ultimately show ?thesis by (auto split: if_splits)
qed

section \<open>A sample process\<close>

text \<open>Two pages, 100 bytes of code in a file; page 1 faults at address 130. \<open>used\<close> is the word of the frame bitmap.\<close>

definition sample_space :: addr_space where
  "sample_space = \<lparr>executableFile = replicate 40 0 @ replicate 100 9, spaceid = 3, space_size = 256,
     noffHeader = \<lparr>noffMagic = NOFFMAGIC, code = \<lparr>virtualAddr = 0, inFileAddr = 40, seg_size = 100\<rparr>,
       initData = \<lparr>virtualAddr = 0, inFileAddr = 0, seg_size = 0\<rparr>,
       uninitData = \<lparr>virtualAddr = 0, inFileAddr = 0, seg_size = 0\<rparr>\<rparr>, numPages = 2\<rparr>"

definition sample_user :: "32 word \<Rightarrow> bool \<Rightarrow> user" where
  "sample_user used have_page =
     \<lparr>mach = \<lparr>mainMemory = replicate 4096 7, registers = (replicate 40 0)[BadVAddrReg := 130], tlb = None,
        pageTable = Some [\<lparr>virtualPage = 0, physicalPage = 0, valid = have_page, readOnly = False, use_bit = True, dirty = have_page\<rparr>,
          \<lparr>virtualPage = 1, physicalPage = 0, valid = False, readOnly = False, use_bit = False, dirty = False\<rparr>],
        pageTableSize = 2, singleStep = False\<rparr>,
      manager = \<lparr>mm_bitMap = \<lparr>numBits = 32, numWords = 1, words = [used]\<rparr>, pageCount = 32\<rparr>,
      ustats = Statistics_new, random_calls = 0, space = sample_space, store = BackingStore_new [False, False] 3 256 2\<rparr>"

lemma sample_bits: "allocated_pages (manager (sample_user (-1) b)) = {0..<32}"
  "allocated_pages (manager (sample_user 1 b)) = {0}" "allocated_pages (manager (sample_user 1 b)) \<noteq> {0..<32}"
proof -
  have m: "allocated_pages (manager (sample_user w b)) = {i. 0 \<le> i \<and> i < 32 \<and> bit w (nat i)}" for w
    by (auto simp: sample_user_def allocated_pages_def marked_def bit_at_def)
  show "allocated_pages (manager (sample_user (-1) b)) = {0..<32}"
    unfolding m by (auto simp: nat_less_iff)
  show one: "allocated_pages (manager (sample_user 1 b)) = {0}"
    unfolding m by (auto simp: bit_1_iff)
  have "(1::int) \<in> {0..<32}" "(1::int) \<notin> {0}" by simp_all
  then show "allocated_pages (manager (sample_user 1 b)) \<noteq> {0..<32}" unfolding one by metis
qed

lemma sample_user_ok:
  assumes "allocated_pages (manager (sample_user used b)) \<supseteq> {0}"
  shows "user_ok (sample_user used b)" "store_ok (store (sample_user used b))" "header_ok (space (sample_user used b))"
    "length (the_table (sample_user used b)) = 2" "\<not> valid (the_table (sample_user used b) ! 1)"
    "length (registers (mach (sample_user used b))) = 40"
    "sint (registers (mach (sample_user used b)) ! BadVAddrReg) sdiv PageBytes = int 1"
    "the_table (sample_user used b) ! 0 = \<lparr>virtualPage = 0, physicalPage = 0, valid = b, readOnly = False, use_bit = True, dirty = b\<rparr>"
proof -
  have t: "the_table (sample_user used b) = [\<lparr>virtualPage = 0, physicalPage = 0, valid = b, readOnly = False, use_bit = True, dirty = b\<rparr>,
          \<lparr>virtualPage = 1, physicalPage = 0, valid = False, readOnly = False, use_bit = False, dirty = False\<rparr>]"
    by (simp add: sample_user_def the_table_def)
  have mm: "mm_ok (manager (sample_user used b))" "pageCount (manager (sample_user used b)) = 32"
    by (simp_all add: sample_user_def mm_ok_def bitmap_ok_def BitsInWord_def divRoundUp_def sdiv_nonneg_eq)
  have all2: "(\<forall>i < 2. Q i) \<longleftrightarrow> Q 0 \<and> Q (Suc 0)" for Q by (auto simp: less_2_cases_iff)
  have fr: "frames_ok (sample_user used b)"
    using assms unfolding frames_ok_def t by (cases b) (simp_all add: all2 numeral_2_eq_2 [symmetric] frame_of_def)
  show "user_ok (sample_user used b)"
    unfolding user_ok_def t using mm fr
    by (simp add: all2 numeral_2_eq_2 [symmetric]) (simp add: sample_user_def sample_space_def BackingStore_new_def)
  show "store_ok (store (sample_user used b))"
    by (simp add: sample_user_def store_ok_def BackingStore_new_def nth_Cons split: nat.splits)
  show "header_ok (space (sample_user used b))"
    by (simp add: sample_user_def sample_space_def header_ok_def seg_ok_def)
  show "length (the_table (sample_user used b)) = 2" "\<not> valid (the_table (sample_user used b) ! 1)"
    "length (registers (mach (sample_user used b))) = 40" by (simp_all add: t) (simp add: sample_user_def)
  show "sint (registers (mach (sample_user used b)) ! BadVAddrReg) sdiv PageBytes = int 1"
    by (simp add: sample_user_def sdiv_nonneg_eq)
  show "the_table (sample_user used b) ! 0 = \<lparr>virtualPage = 0, physicalPage = 0, valid = b, readOnly = False, use_bit = True, dirty = b\<rparr>"
    by (simp add: t)
qed

section \<open>Properties\<close>

text \<open>
  C8: with a free frame, or a valid page among the first \<open>n\<close> drawn, a page fault returns. The faulted page is
  then valid; the valid pages again have frames of their own; every other page that is still valid
  was valid before and keeps its frame and its bytes; at most one page stops being valid, and none when
  a frame was free.
\<close>

theorem page_fault_isolated:
  assumes "user_ok u" and "store_ok (store u)" and "header_ok (space u)"
    and "p < length (the_table u)" and "\<not> valid (the_table u ! p)" and "length (registers (mach u)) = 40"
    and "sint (registers (mach u) ! BadVAddrReg) sdiv PageBytes = int p" and "room n random u"
  shows "\<exists>u'. page_fault n random u = Inr u' \<and> user_ok u' \<and> store_ok (store u') \<and> space u' = space u \<and>
    length (the_table u') = length (the_table u) \<and> valid (the_table u' ! p) \<and>
    (\<forall>j < length (the_table u). j \<noteq> p \<longrightarrow> valid (the_table u' ! j) \<longrightarrow> valid (the_table u ! j) \<and>
       frame_of (the_table u' ! j) = frame_of (the_table u ! j) \<and> page_bytes u' j = page_bytes u j) \<and>
    (\<exists>v. {j. j < length (the_table u) \<and> valid (the_table u ! j) \<and> \<not> valid (the_table u' ! j)} = set_option v \<and>
       (v = None \<longleftrightarrow> allocated_pages (manager u) \<noteq> {0..<32}))"
proof -
  obtain u' v where f: "page_fault n random u = Inr u'" "faulted p v u u'"
    using page_fault_ok [OF assms(1,2,4,5,8,3,6,7)] by blast
  have e: "the_table u' ! j = (if v = Some j then (the_table u ! j)\<lparr>valid := False, dirty := False\<rparr> else the_table u ! j)"
    if "j < length (the_table u)" "j \<noteq> p" for j using f(2) that by (simp add: faulted_def)
  have "{j. j < length (the_table u) \<and> valid (the_table u ! j) \<and> \<not> valid (the_table u' ! j)} = set_option v"
    unfolding faulted_lost [OF f(2) assms(5)] by auto
  moreover have "v = None \<longleftrightarrow> allocated_pages (manager u) \<noteq> {0..<32}" using f(2) by (simp add: faulted_def)
  moreover have "valid (the_table u ! j) \<and> frame_of (the_table u' ! j) = frame_of (the_table u ! j) \<and> page_bytes u' j = page_bytes u j"
    if "j < length (the_table u)" "j \<noteq> p" "valid (the_table u' ! j)" for j
    using e [OF that(1,2)] that f(2) by (simp add: faulted_def split: if_splits)
  ultimately show ?thesis using f by (auto simp: faulted_def)
qed

theorem page_fault_isolated_witness:
  "\<exists>u'. page_fault 0 (\<lambda>_. 0) (sample_user 1 True) = Inr u' \<and> valid (the_table u' ! 1) \<and> valid (the_table u' ! 0) \<and>
     page_bytes u' 0 = page_bytes (sample_user 1 True) 0 \<and> frame_of (the_table u' ! 1) \<noteq> 0"
proof -
  have z: "{0} \<subseteq> allocated_pages (manager (sample_user 1 True))" by (simp add: sample_bits(1,2))
  have r: "room 0 (\<lambda>_. 0) (sample_user 1 True)" by (simp add: room_def sample_bits(3))
  obtain u' v where u': "page_fault 0 (\<lambda>_. 0) (sample_user 1 True) = Inr u'" "user_ok u'" "length (the_table u') = 2" "valid (the_table u' ! 1)"
      "\<forall>j < 2. j \<noteq> 1 \<longrightarrow> valid (the_table u' ! j) \<longrightarrow> frame_of (the_table u' ! j) = frame_of (the_table (sample_user 1 True) ! j) \<and>
         page_bytes u' j = page_bytes (sample_user 1 True) j"
      "{j. j < 2 \<and> valid (the_table (sample_user 1 True) ! j) \<and> \<not> valid (the_table u' ! j)} = set_option v"
      "v = None \<longleftrightarrow> allocated_pages (manager (sample_user 1 True)) \<noteq> {0..<32}"
    using page_fault_isolated [OF sample_user_ok(1-3) [OF z] _ sample_user_ok(5-7) [OF z] r] sample_user_ok(4) [OF z] by auto
  have "v = None" using u'(7) by (simp add: sample_bits(3))
  then have "{j. j < 2 \<and> valid (the_table (sample_user 1 True) ! j) \<and> \<not> valid (the_table u' ! j)} = {}" using u'(6) by simp
  then have "0 \<notin> {j. j < 2 \<and> valid (the_table (sample_user 1 True) ! j) \<and> \<not> valid (the_table u' ! j)}" by (simp only: empty_iff not_False_eq_True)
  then have v0: "valid (the_table u' ! 0)" by (simp add: sample_user_ok(8) [OF z])
  then have f0: "frame_of (the_table u' ! 0) = 0" "page_bytes u' 0 = page_bytes (sample_user 1 True) 0"
    using u'(5) by (simp_all add: sample_user_ok(8) [OF z] frame_of_def)
  have "frame_of (the_table u' ! 1) \<noteq> frame_of (the_table u' ! 0)"
    using u'(2-4) v0 unfolding user_ok_def frames_ok_def by auto
  then show ?thesis using u'(1,4) v0 f0 by auto
qed

text \<open>
  C17: the faulted page gets what was saved of it, if anything was, and otherwise the bytes that its segments
  have in the executable, zeros when it is in none. A page that is evicted is saved when it is dirty; no
  other page is saved or forgotten.
\<close>

theorem page_fault_contents:
  assumes "user_ok u" and "store_ok (store u)" and "header_ok (space u)"
    and "p < length (the_table u)" and "\<not> valid (the_table u ! p)" and "length (registers (mach u)) = 40"
    and "sint (registers (mach u) ! BadVAddrReg) sdiv PageBytes = int p" and "room n random u"
  shows "\<exists>u'. page_fault n random u = Inr u' \<and>
    page_bytes u' p = (case saved (store u) p of Some bs \<Rightarrow> bs
      | None \<Rightarrow> page_image (space u) p (frame_bytes u (frame_of (the_table u' ! p)))) \<and>
    (\<forall>j. saved (store u') j =
       (if j < length (the_table u) \<and> valid (the_table u ! j) \<and> \<not> valid (the_table u' ! j) \<and> dirty (the_table u ! j)
        then Some (page_bytes u j) else saved (store u) j))"
proof -
  obtain u' v where f: "page_fault n random u = Inr u'" "faulted p v u u'"
    using page_fault_ok [OF assms(1,2,4,5,8,3,6,7)] by blast
  have "saved (store u') j = (if v = Some j \<and> dirty (the_table u ! j) then Some (page_bytes u j) else saved (store u) j)" for j
    using f(2) unfolding faulted_def by (auto split: option.splits if_splits)
  then show ?thesis using f faulted_lost [OF f(2) assms(5)] by (auto simp: faulted_def fault_image_def)
qed

theorem page_fault_contents_witness:
  "\<exists>u'. page_fault 1 (\<lambda>_. 0) (sample_user (-1) True) = Inr u' \<and> page_bytes u' 1 = replicate 128 0 \<and>
     (valid (the_table u' ! 0) \<or> saved (store u') 0 = Some (replicate 128 7))"
proof -
  let ?u = "sample_user (-1) True"
  have z: "{0} \<subseteq> allocated_pages (manager ?u)" by (simp add: sample_bits(1,2))
  have "valid (the_table ?u ! drawn (\<lambda>_. 0) ?u 0)" by (simp add: drawn_def sample_user_ok(8) [OF z])
  then have r: "room 1 (\<lambda>_. 0) ?u" by (auto simp: room_def)
  have b: "page_bytes ?u 0 = replicate 128 7" "saved (store ?u) (Suc 0) = None" "\<And>bs. page_image (space ?u) (Suc 0) bs = replicate 128 0"
    by (simp_all add: page_bytes_def frame_bytes_def sample_user_ok(8) [OF z] frame_of_def)
       (simp_all add: sample_user_def sample_space_def slice_def saved_def BackingStore_new_def page_image_def in_segment_def sdiv_nonneg_eq)
  show ?thesis
    using page_fault_contents [OF sample_user_ok(1-3) [OF z] _ sample_user_ok(5-7) [OF z] r] sample_user_ok(4,8) [OF z] b by auto
qed

text \<open>
  C18: with all frames in use, the loop that looks for a page to evict ends if and only if a call of \<open>Random()\<close>
  draws a valid page. A process none of whose pages is valid (its first fault, when other processes hold
  all frames) never gets out of it, whatever \<open>Random()\<close> returns.
\<close>

theorem eviction_ends_iff:
  assumes "user_ok u" and "store_ok (store u)" and "header_ok (space u)"
    and "p < length (the_table u)" and "\<not> valid (the_table u ! p)" and "length (registers (mach u)) = 40"
    and "sint (registers (mach u) ! BadVAddrReg) sdiv PageBytes = int p" and "allocated_pages (manager u) = {0..<32}"
  shows "if \<exists>m. valid (the_table u ! drawn random u m) then \<exists>n u'. page_fault n random u = Inr u'
    else \<forall>n. page_fault n random u = Inl OutOfFuel"
proof (cases "\<exists>m. valid (the_table u ! drawn random u m)")
  case True
  then obtain m where "valid (the_table u ! drawn random u m)" by blast
  then have "room (Suc m) random u" by (auto simp: room_def)
  then show ?thesis using True page_fault_ok [OF assms(1,2,4,5) _ assms(3,6,7)] by force
next
  case False
  define s where "s = u\<lparr>ustats := (ustats u)\<lparr>numPageFaults := numPageFaults (ustats u) + 1\<rparr>\<rparr>"
  have s: "user_ok s" "p < length (the_table s)" "\<not> valid (the_table s ! p)" "allocated_pages (manager s) = {0..<32}"
    "\<And>m. \<not> valid (the_table s ! drawn random s m)" using assms False by (simp_all add: s_def stats_ok drawn_def)
  note a = alloc_frame_full [OF s(1-4)]
  have ne: "the_table s \<noteq> []" using s(2) by auto
  have "page_fault n random u = Inl OutOfFuel" for n
  proof -
    have "ReadRegister (mach u) (int BadVAddrReg) = Inr (registers (mach u) ! BadVAddrReg)"
      using assms(6) by (simp add: ReadRegister_def NumTotalRegs_def)
    then have "page_fault n random u = bindR (PageFaultHandler n random (int p) s) (upd_pte (int p) (\<lambda>e. e\<lparr>valid := True\<rparr>))"
      using assms(7) by (simp add: page_fault_def s_def Let_def)
    moreover have "pick_victim n random (set_table ((the_table s)[p := (the_table s ! p)\<lparr>physicalPage := -1\<rparr>]) s) = Inl OutOfFuel"
      using s(5) ne by (intro pick_victim_miss [OF a(2)]) (simp_all only: a(3,4), simp_all)
    ultimately show ?thesis by (simp add: PageFaultHandler_def take_frame_def a(1))
  qed
  then show ?thesis using False by simp
qed

theorem eviction_ends_iff_witness:
  "(\<forall>n. page_fault n (\<lambda>i. i) (sample_user (-1) False) = Inl OutOfFuel) \<and>
   (\<exists>n u'. page_fault n (\<lambda>i. i) (sample_user (-1) True) = Inr u')"
proof -
  have z: "{0} \<subseteq> allocated_pages (manager (sample_user (-1) b))" for b by (simp add: sample_bits(1,2))
  have l: "length (the_table (sample_user (-1) b)) = 2" for b using sample_user_ok(4) [OF z] .
  then have one: "1 < length (the_table (sample_user (-1) b))" for b by simp
  note t = eviction_ends_iff [OF sample_user_ok(1-3) [OF z] one sample_user_ok(5-7) [OF z] sample_bits(1), where random = "\<lambda>i. i"]
  have "\<not> valid (the_table (sample_user (-1) False) ! i)" if "i < 2" for i
    using that sample_user_ok(5,8) [OF z, of False] by (auto simp: less_2_cases_iff)
  then have "\<nexists>m. valid (the_table (sample_user (-1) False) ! drawn (\<lambda>i. i) (sample_user (-1) False) m)"
    by (simp add: drawn_def l)
  moreover have "valid (the_table (sample_user (-1) True) ! drawn (\<lambda>i. i) (sample_user (-1) True) 0)"
    by (simp add: drawn_def l) (simp add: sample_user_def the_table_def)
  ultimately show ?thesis using t [of False] t [of True] by metis
qed

text \<open>
  The constructor of the backing store does not clear its flags. When the memory it gets has a flag set,
  the first fault on that page takes the page for saved, reads nothing from the empty file and leaves
  the bytes in the frame that another process left there: code and data of the executable are not loaded.
\<close>

theorem stale_flag_skips_load:
  assumes "user_ok u" and "p < length (the_table u)" and "\<not> valid (the_table u ! p)"
    and "allocated_pages (manager u) \<noteq> {0..<32}"
    and "store u = BackingStore_new junk sid sz (int (length (the_table u)))" and "junk ! p"
  shows "\<exists>u'. PageFaultHandler n random (int p) u = Inr u' \<and> mainMemory (mach u') = mainMemory (mach u) \<and>
    frame_of (the_table u' ! p) \<notin> allocated_pages (manager u)"
proof -
  obtain mm f u1 where f: "f \<noteq> -1" "f \<notin> allocated_pages (manager u)"
      "u1 = set_table ((the_table u)[p := (the_table u ! p)\<lparr>physicalPage := word_of_int f\<rparr>]) (u\<lparr>manager := mm\<rparr>)"
      "alloc_frame (int p) u = Inr (u1, f)" "holding p f u1"
    using alloc_frame_ok [OF assms(1-3)] assms(4) by blast
  have h: "user_ok u1" "p < length (the_table u1)" "frame_of (the_table u1 ! p) = f" using holding_user [OF f(5)] by simp_all
  have l: "length (bstore_array (store u)) = length (the_table u)" using assms(1) by (simp add: user_ok_def)
  have st: "store u1 = store u" "bstore_array (store u) ! p" "bs_file (store u) = []"
    using assms(2,6) by (simp_all add: f(3) assms(5) BackingStore_new_def)
  have "PageIn (the_table u1 ! p) (int p) u1 =
      Inr (u1\<lparr>ustats := (ustats u1)\<lparr>numPageIns := numPageIns (ustats u1) + 1\<rparr>\<rparr>, True)"
    unfolding PageIn_def page_position [OF h(1,2)] st
    using st l assms(2) by (simp add: stub_ReadAt_def slice_def mem_put_def)
  then have "PageFaultHandler n random (int p) u = Inr (u1\<lparr>ustats := (ustats u1)\<lparr>numPageIns := numPageIns (ustats u1) + 1\<rparr>\<rparr>)"
    using f(1,4) h(2) by (simp add: PageFaultHandler_def take_frame_def get_pte_ok)
  then show ?thesis using f(2) h(3) by (simp add: f(3))
qed

theorem stale_flag_skips_load_witness:
  "\<exists>u'. PageFaultHandler 0 (\<lambda>_. 0) 1 ((sample_user 1 False)\<lparr>store := BackingStore_new [False, True] 3 256 2\<rparr>) = Inr u' \<and>
     mainMemory (mach u') = replicate 4096 7"
proof -
  let ?s = "sample_user 1 False"
  let ?u = "?s\<lparr>store := BackingStore_new [False, True] 3 256 2\<rparr>"
  have z: "{0} \<subseteq> allocated_pages (manager ?s)" by (simp add: sample_bits(2))
  note s = sample_user_ok [OF z]
  have "length (bstore_array (BackingStore_new [False, True] 3 256 2)) = 2" by (simp add: BackingStore_new_def)
  then have u: "user_ok ?u" using s(1,4) by (simp add: user_ok_def frames_ok_def)
  have p: "1 < length (the_table ?u)" "\<not> valid (the_table ?u ! 1)" using s(4,5) by simp_all
  have f: "allocated_pages (manager ?u) \<noteq> {0..<32}" by (simp add: sample_bits(3))
  have st: "store ?u = BackingStore_new [False, True] 3 256 (int (length (the_table ?u)))" using s(4) by simp
  have j: "[False, True] ! 1" by simp
  have m: "mainMemory (mach ?u) = replicate 4096 7" by (simp add: sample_user_def)
  show ?thesis using stale_flag_skips_load [OF u p f st j, of 0 "\<lambda>_. 0"] m by auto
qed

text \<open>
  What a page that was never saved is loaded with, for a code segment from address 0 and a page \<open>p > 0\<close>
  without data. A page after the segment is zeroed; a page inside it gets the bytes of the file; but
  in the page where the segment ends only the bytes up to its end are loaded, and the rest keeps what
  the frame held before, although the data there should be zero.
\<close>

theorem page_image_parts:
  assumes "seg_ok (code (noffHeader sp))" and "virtualAddr (code (noffHeader sp)) = 0" and "0 < p" and "length old = 128"
    and "\<not> in_segment (initData (noffHeader sp)) (int p)"
    and "nat (inFileAddr (code (noffHeader sp)) + seg_size (code (noffHeader sp))) \<le> length (executableFile sp)"
  shows "let n = nat (seg_size (code (noffHeader sp))); a = nat (inFileAddr (code (noffHeader sp))) + 128 * p in
    page_image sp p old =
      (if n < 128 * p then replicate 128 0
       else if 128 * p + 128 \<le> n then slice (executableFile sp) a 128
       else slice (executableFile sp) a (n - 128 * p) @ drop (n - 128 * p) old)"
proof -
  define c where "c = code (noffHeader sp)"
  define n where "n = nat (seg_size c)"
  define a where "a = nat (inFileAddr c) + 128 * p"
  have g: "0 \<le> seg_size c" "0 \<le> inFileAddr c" "virtualAddr c = 0" using assms(1,2) by (simp_all add: seg_ok_def c_def)
  have sz: "seg_size c = int n" using g(1) by (simp add: n_def)
  have len: "nat (inFileAddr c) + n \<le> length (executableFile sp)" using assms(6) g by (simp add: n_def c_def nat_add_distrib)
  have ic: "in_segment c (int p) \<longleftrightarrow> 128 * p \<le> n"
  proof -
    have "int n sdiv PageBytes = int (n div 128)" by (simp add: sdiv_nonneg_eq)
    then show ?thesis using g(3) sz by (simp add: in_segment_def sdiv_nonneg_eq le_div_geq less_eq_div_iff_mult_less_eq mult.commute)
  qed
  have off: "seg_off c p = 0" using g(3) assms(3) by (simp add: seg_off_def)
  have img: "page_image sp p old = (if 128 * p \<le> n then blit old 0 (seg_read (executableFile sp) c p) else replicate 128 0)"
    using assms(5) ic off by (simp add: page_image_def c_def [symmetric] Let_def)
  have pos: "nat (inFileAddr c + PageBytes * int p) = a" using g(2) by (simp add: a_def nat_add_distrib nat_mult_distrib)
  have "page_image sp p old = (if n < 128 * p then replicate 128 0
       else if 128 * p + 128 \<le> n then slice (executableFile sp) a 128
       else slice (executableFile sp) a (n - 128 * p) @ drop (n - 128 * p) old)"
  proof (cases "128 * p \<le> n")
    case True
    then have nz: "seg_size c \<noteq> 0" using assms(3) sz by auto
    have q: "int n div PageBytes = int (n div 128)" "nat (int n mod PageBytes) = n mod 128" by simp_all (simp add: nat_mod_distrib)
    have r: "seg_read (executableFile sp) c p = (if int p < int (n div 128) then slice (executableFile sp) a 128
        else slice (executableFile sp) a (n mod 128))"
      using nz g(3) assms(3) unfolding seg_read_def Let_def sz by (simp add: q pos)
    show ?thesis
    proof (cases "128 * p + 128 \<le> n")
      case whole: True
      then have "p < n div 128" by (simp add: less_eq_div_iff_mult_less_eq Suc_le_eq [symmetric])
      moreover have "length (slice (executableFile sp) a 128) = 128" using whole len by (simp add: a_def)
      ultimately show ?thesis using True whole assms(4) by (simp add: img r blit_def)
    next
      case False
      then have d: "n div 128 = p" "n mod 128 = n - 128 * p" using True by (simp_all add: div_nat_eqI minus_div_mult_eq_mod [symmetric])
      moreover have "length (slice (executableFile sp) a (n - 128 * p)) = n - 128 * p" using True len by (simp add: a_def)
      ultimately show ?thesis using True False by (simp add: img r blit_def)
    qed
  qed (simp add: img)
  then show ?thesis by (simp add: Let_def n_def a_def c_def)
qed

theorem page_image_parts_witness:
  "page_image (sample_space\<lparr>executableFile := replicate 250 9, noffHeader := (noffHeader sample_space)\<lparr>code :=
      \<lparr>virtualAddr = 0, inFileAddr = 40, seg_size = 200\<rparr>\<rparr>\<rparr>) 1 (replicate 128 7) = replicate 72 9 @ replicate 56 7"
proof -
  let ?sp = "sample_space\<lparr>executableFile := replicate 250 9, noffHeader := (noffHeader sample_space)\<lparr>code :=
      \<lparr>virtualAddr = 0, inFileAddr = 40, seg_size = 200\<rparr>\<rparr>\<rparr>"
  show ?thesis using page_image_parts [of ?sp 1 "replicate 128 7"]
    by (simp add: seg_ok_def in_segment_def sample_space_def sdiv_nonneg_eq slice_def)
qed

end
