(* ===== verification/Exceptions.thy ===== *)
theory Exceptions
  imports AddrSpaces
begin

text \<open>
  System calls and exceptions: \<open>userprog/exception.cc\<close>, and \<open>StartProcess\<close> of \<open>userprog/progtest.cc\<close>. The kernel
  state \<open>os\<close> is what the handler reaches through the global variables: the running process, the process
  table, the console and the UNIX files.
\<close>

section \<open>State\<close>

text \<open>
  \<open>host_file\<close> opens a UNIX file by name. \<open>forked\<close> are the processes that \<open>Exec\<close> has put on the ready list: the
  space, its page table, its backing store and the number of the process. The table holds the numbers
  of threads. The machine inside \<open>proc\<close> is not used: the machine of the system is.
\<close>

record new_process =
  np_space :: addr_space
  np_table :: "TranslationEntry list"
  np_store :: backing_store
  np_pid :: int

record os =
  proc :: user
  process_table :: "nat table"
  current_pid :: int
  next_thread :: nat
  current_thread :: nat
  console_in :: "8 word list"
  console_out :: "8 word list"
  host_file :: "8 word list \<Rightarrow> 8 word list option"
  forked :: "new_process list"

text \<open>What uninitialised memory holds: a header, the entries of a new page table, the flags of a new backing store, a local \<open>int\<close>.\<close>

record junk_memory =
  junk_header :: "8 word list"
  junk_entries :: "nat \<Rightarrow> TranslationEntry"
  junk_flags :: "bool list"
  junk_val :: "32 word"

text \<open>An operation on the running process, whose machine is that of the system.\<close>

definition on_user :: "(user \<Rightarrow> user res) \<Rightarrow> os sys \<Rightarrow> os sys res" where
  "on_user f s =
     bindR (f ((proc (kernel s))\<lparr>mach := cpu s\<rparr>)) (\<lambda>u. Inr (s\<lparr>cpu := mach u, kernel := (kernel s)\<lparr>proc := u\<rparr>\<rparr>))"

definition on_cpu :: "(machine \<Rightarrow> machine res) \<Rightarrow> os sys \<Rightarrow> os sys res" where
  "on_cpu f s = bindR (f (cpu s)) (\<lambda>m. Inr (s\<lparr>cpu := m\<rparr>))"

text \<open>The end of a trap: the user program goes on, the thread has finished, or the machine has halted.\<close>

datatype trap_end = Resumed | Finished | Halted

section \<open>Registers\<close>

definition increase_program_counter :: "machine \<Rightarrow> machine res" where
  "increase_program_counter m =
     bindR (ReadRegister m (int PCReg)) (\<lambda>pc.
     bindR (WriteRegister m (int PrevPCReg) pc) (\<lambda>m.
     bindR (ReadRegister m (int NextPCReg)) (\<lambda>npc.
     bindR (WriteRegister m (int PCReg) npc) (\<lambda>m.
     bindR (ReadRegister m (int NextPCReg)) (\<lambda>npc.
     WriteRegister m (int NextPCReg) (npc + 4))))))"

section \<open>Exit\<close>

text \<open>\<open>Finish\<close> does not return to the process; its thread is switched out for good.\<close>

definition syscall_exit :: "os sys \<Rightarrow> (trap_end \<times> os sys) res" where
  "syscall_exit s =
     bindR (Table_IsEmpty (process_table (kernel s))) (\<lambda>empty.
     if empty then Inr (Halted, s)
     else
       bindR (Table_Release (process_table (kernel s)) (current_pid (kernel s))) (\<lambda>t.
       bindR (on_user AddrSpace_destroy (s\<lparr>kernel := (kernel s)\<lparr>process_table := t, current_pid := 0\<rparr>\<rparr>)) (\<lambda>s.
       Inr (Finished, s))))"

section \<open>Exceptions other than system calls\<close>

text \<open>
  \<open>n\<close> and \<open>random\<close> are for the choice of pages to evict. After \<open>syscall_exit\<close> has returned, which it does not,
  the program counter would be increased.
\<close>

definition fatal_exception :: "os sys \<Rightarrow> (trap_end \<times> os sys) res" where
  "fatal_exception s = bindR (ReadRegister (cpu s) 4) (\<lambda>_. syscall_exit s)"

definition memory_exception :: "nat \<Rightarrow> (nat \<Rightarrow> nat) \<Rightarrow> ExceptionType \<Rightarrow> os sys \<Rightarrow> (trap_end \<times> os sys) res" where
  "memory_exception n random which s =
     (case which of
        PageFaultException \<Rightarrow> bindR (on_user (page_fault n random) s) (\<lambda>s. Inr (Resumed, s))
      | NoException \<Rightarrow> Inr (Resumed, s)
      | SyscallException \<Rightarrow> Inl AssertFailed
      | _ \<Rightarrow> fatal_exception s)"

text \<open>
  The handler as \<open>ReadMem\<close> and \<open>WriteMem\<close> see it when the kernel itself accesses user memory: an end of the
  thread does not come back (\<open>Blocked\<close>).
\<close>

definition kernel_trap :: "nat \<Rightarrow> (nat \<Rightarrow> nat) \<Rightarrow> os handler" where
  "kernel_trap n random which s =
     bindR (memory_exception n random which s) (\<lambda>(e, s). if e = Resumed then Inr s else Inl Blocked)"

section \<open>Copying from and to user memory\<close>

primrec read_buffer :: "os handler \<Rightarrow> 32 word \<Rightarrow> nat \<Rightarrow> os sys \<Rightarrow> (os sys \<times> 8 word list option) res" where
  "read_buffer h address 0 s = Inr (s, Some [])"
| "read_buffer h address (Suc bytes) s =
     bindR (ReadMem h address 1 s) (\<lambda>(s, r).
     bindR (case r of Some ch \<Rightarrow> Inr (s, Some ch) | None \<Rightarrow> ReadMem h address 1 s) (\<lambda>(s, r).
     case r of
       None \<Rightarrow> Inr (s, None)
     | Some ch \<Rightarrow> bindR (read_buffer h (address + 1) bytes s) (\<lambda>(s, out). Inr (s, map_option (\<lambda>cs. ucast ch # cs) out))))"

primrec write_buffer :: "os handler \<Rightarrow> 8 word list \<Rightarrow> 32 word \<Rightarrow> os sys \<Rightarrow> (os sys \<times> bool) res" where
  "write_buffer h [] address s = Inr (s, True)"
| "write_buffer h (c # buff) address s =
     bindR (WriteMem h address 1 (scast c) s) (\<lambda>(s, done1).
     bindR (if done1 then Inr (s, True) else WriteMem h address 1 (scast c) s) (\<lambda>(s, done2).
     if done2 then write_buffer h buff (address + 1) s else Inr (s, False)))"

section \<open>The console\<close>

text \<open>
  \<open>SynchConsole\<close> lets one thread at a time use the device and waits for its interrupt: \<open>putChar\<close> returns when
  the character is written, \<open>getChar\<close> when one has arrived. Without input \<open>getChar\<close> never returns.
\<close>

definition console_put :: "8 word \<Rightarrow> os sys \<Rightarrow> os sys" where
  "console_put c s = s\<lparr>kernel := (kernel s)\<lparr>console_out := console_out (kernel s) @ [c]\<rparr>\<rparr>"

fun console_get :: "nat \<Rightarrow> os sys \<Rightarrow> (os sys \<times> 8 word list) res" where
  "console_get 0 s = Inr (s, [])"
| "console_get (Suc n) s =
     (case console_in (kernel s) of
        [] \<Rightarrow> Inl Blocked
      | c # cs \<Rightarrow> bindR (console_get n (s\<lparr>kernel := (kernel s)\<lparr>console_in := cs\<rparr>\<rparr>)) (\<lambda>(s, data). Inr (s, c # data)))"

definition ConsoleInput :: "32 word" where "ConsoleInput = 0"
definition ConsoleOutput :: "32 word" where "ConsoleOutput = 1"

section \<open>Write and Read\<close>

definition syscall_write :: "os handler \<Rightarrow> os sys \<Rightarrow> os sys res" where
  "syscall_write h s =
     bindR (ReadRegister (cpu s) 4) (\<lambda>addr.
     bindR (ReadRegister (cpu s) 5) (\<lambda>sz.
     bindR (ReadRegister (cpu s) 6) (\<lambda>id.
     if sint sz < 0 then Inr s
     else if id = ConsoleOutput then
       bindR (read_buffer h addr (nat (sint sz)) s) (\<lambda>(s, buffer).
       case buffer of None \<Rightarrow> Inr s | Some bs \<Rightarrow> Inr (fold console_put bs s))
     else Inr s)))"

definition set_r2 :: "32 word \<Rightarrow> os sys \<Rightarrow> os sys res" where
  "set_r2 v s = on_cpu (\<lambda>m. WriteRegister m 2 v) s"

definition syscall_read :: "os handler \<Rightarrow> os sys \<Rightarrow> os sys res" where
  "syscall_read h s =
     bindR (ReadRegister (cpu s) 4) (\<lambda>buffer.
     bindR (ReadRegister (cpu s) 5) (\<lambda>sz.
     bindR (ReadRegister (cpu s) 6) (\<lambda>id.
     if sint sz < 0 then set_r2 0 s
     else if id = ConsoleInput then
       bindR (console_get (nat (sint sz)) s) (\<lambda>(s, data).
       bindR (write_buffer h data buffer s) (\<lambda>(s, ok).
       if ok then set_r2 sz s else set_r2 0 s))
     else set_r2 0 s)))"

section \<open>Exec\<close>

text \<open>
  The loop that reads the name: \<open>val\<close> is tested before it is first set, the result of \<open>ReadMem\<close> is not, and
  nothing keeps \<open>i\<close> below the 100 bytes of \<open>filename\<close>.
\<close>

function read_name :: "os handler \<Rightarrow> 32 word \<Rightarrow> 32 word \<Rightarrow> nat \<Rightarrow> 8 word list \<Rightarrow> os sys \<Rightarrow> (8 word list \<times> nat \<times> os sys) res" where
  "read_name h addr val i nm s =
     (if val = 0 then Inr (nm, i, s)
      else
        bindR (ReadMem h addr 1 s) (\<lambda>(s, r).
        let val' = (case r of None \<Rightarrow> val | Some v \<Rightarrow> v) in
        bindR (aset nm (int i) (ucast val')) (\<lambda>nm.
        read_name h (addr + 1) val' (Suc i) nm s)))"
  by pat_completeness auto
termination
  by (relation "measure (\<lambda>(h, addr, val, i, nm, s). length nm - i)") (auto simp: aset_eq_Inr)

text \<open>\<open>Yield\<close> as the process sees it: the others run, its registers and its page table are saved and restored.\<close>

definition yield_user :: "(os sys \<Rightarrow> os sys) \<Rightarrow> os sys \<Rightarrow> os sys" where
  "yield_user others s =
     (let s' = others s; p = proc (kernel s) in
      s'\<lparr>cpu := (cpu s')\<lparr>registers := registers (cpu s), pageTable := pageTable (cpu s), pageTableSize := numPages (space p)\<rparr>,
         kernel := (kernel s')\<lparr>proc := (proc (kernel s'))\<lparr>space := space p, store := store p\<rparr>,
           current_pid := current_pid (kernel s), current_thread := current_thread (kernel s)\<rparr>\<rparr>)"

definition syscall_exec :: "os handler \<Rightarrow> junk_memory \<Rightarrow> (os sys \<Rightarrow> os sys) \<Rightarrow> os sys \<Rightarrow> os sys res" where
  "syscall_exec h junk others s =
     bindR (ReadRegister (cpu s) 4) (\<lambda>addr.
     bindR (read_name h addr (junk_val junk) 0 (replicate 100 0) s) (\<lambda>(filename, i, s).
     bindR (aget filename (int i)) (\<lambda>_.
     case host_file (kernel s) (takeWhile (\<lambda>c. c \<noteq> 0) filename) of
       None \<Rightarrow> set_r2 0 s
     | Some execute \<Rightarrow>
         bindR (Initialize (junk_header junk) (junk_entries junk) False (AddrSpace_new execute
           \<lparr>executableFile = [], spaceid = 0, space_size = 0, noffHeader = header_of (junk_header junk), numPages = 0\<rparr>))
           (\<lambda>(sp, pt, success).
         if success \<le> 0 then set_r2 0 s
         else
           let new_thread = next_thread (kernel s) in
           bindR (Table_Alloc (process_table (kernel s)) (Some new_thread)) (\<lambda>(t, space_id).
           let sp = sp\<lparr>spaceid := space_id\<rparr>;
               p = \<lparr>np_space = sp, np_table = pt, np_store = InitializeBackingStore (junk_flags junk) sp, np_pid = space_id\<rparr>;
               s = s\<lparr>kernel := (kernel s)\<lparr>process_table := t, next_thread := Suc new_thread, forked := forked (kernel s) @ [p]\<rparr>\<rparr>
           in set_r2 (word_of_int space_id) (yield_user others s))))))"

text \<open>What a forked process does first, up to \<open>machine->Run()\<close>; \<open>p\<close> is the process.\<close>

definition create_new_process :: "new_process \<Rightarrow> os sys \<Rightarrow> os sys res" where
  "create_new_process p s =
     on_user (\<lambda>u. bindR (InitRegisters (np_space p) (mach u)) (\<lambda>m.
        Inr (RestoreState (np_table p) (SaveState (u\<lparr>mach := m, space := np_space p, store := np_store p\<rparr>)))))
       (s\<lparr>kernel := (kernel s)\<lparr>current_pid := np_pid p\<rparr>\<rparr>)"

section \<open>The handler\<close>

definition SC_Halt :: "32 word" where "SC_Halt = 0"
definition SC_Exit :: "32 word" where "SC_Exit = 1"
definition SC_Exec :: "32 word" where "SC_Exec = 2"
definition SC_Open :: "32 word" where "SC_Open = 5"
definition SC_Read :: "32 word" where "SC_Read = 6"
definition SC_Write :: "32 word" where "SC_Write = 7"
definition SC_Close :: "32 word" where "SC_Close = 8"

text \<open>A call followed by \<open>increase_program_counter\<close>.\<close>

definition then_advance :: "os sys res \<Rightarrow> (trap_end \<times> os sys) res" where
  "then_advance r = bindR r (\<lambda>s. bindR (on_cpu increase_program_counter s) (\<lambda>s. Inr (Resumed, s)))"

definition ExceptionHandler :: "nat \<Rightarrow> (nat \<Rightarrow> nat) \<Rightarrow> junk_memory \<Rightarrow> (os sys \<Rightarrow> os sys) \<Rightarrow> ExceptionType \<Rightarrow> os sys \<Rightarrow> (trap_end \<times> os sys) res" where
  "ExceptionHandler n random junk others which s =
     bindR (ReadRegister (cpu s) 2) (\<lambda>type.
     let h = kernel_trap n random in
     if which = SyscallException then
       if type = SC_Exec then then_advance (syscall_exec h junk others s)
       else if type = SC_Exit then fatal_exception s
       else if type = SC_Open then Inr (Resumed, s)
       else if type = SC_Read then then_advance (syscall_read h s)
       else if type = SC_Write then then_advance (syscall_write h s)
       else if type = SC_Close then Inr (Resumed, s)
       else if type = SC_Halt then Inr (Halted, s)
       else Inl AssertFailed
     else memory_exception n random which s)"

section \<open>The first process\<close>

text \<open>
  \<open>StartProcess\<close> up to \<open>machine->Run()\<close>; \<open>None\<close> means that it returned because the file cannot be opened.
\<close>

definition StartProcess :: "junk_memory \<Rightarrow> (nat \<Rightarrow> 32 word) \<Rightarrow> 8 word list \<Rightarrow> os sys \<Rightarrow> os sys option res" where
  "StartProcess junk junk_words name s =
     bindR (MemoryManager_new junk_words (int NumPhysPages)) (\<lambda>mm.
     let s = s\<lparr>kernel := (kernel s)\<lparr>process_table := Table_new 100, proc := (proc (kernel s))\<lparr>manager := mm\<rparr>\<rparr>\<rparr> in
     case host_file (kernel s) name of
       None \<Rightarrow> Inr None
     | Some execute \<Rightarrow>
         bindR (Initialize (junk_header junk) (junk_entries junk) False (AddrSpace_new execute
           \<lparr>executableFile = [], spaceid = 0, space_size = 0, noffHeader = header_of (junk_header junk), numPages = 0\<rparr>))
           (\<lambda>(sp, pt, r).
         if r > 0 then
           bindR (on_user (\<lambda>u. bindR (InitRegisters sp (mach u)) (\<lambda>m. Inr (RestoreState pt (u\<lparr>mach := m, space := sp\<rparr>)))) s) (\<lambda>s.
           bindR (Table_Alloc (process_table (kernel s)) (Some (current_thread (kernel s)))) (\<lambda>(t, spaceid).
           ASSERT (spaceid \<noteq> -1) (
             let sp = sp\<lparr>spaceid := spaceid\<rparr> in
             Inr (Some (s\<lparr>kernel := (kernel s)\<lparr>process_table := t, current_pid := spaceid,
               proc := (proc (kernel s))\<lparr>space := sp, store := InitializeBackingStore (junk_flags junk) sp\<rparr>\<rparr>\<rparr>)))))
         else Inr None))"

end
