(* ===== verification/VirtualMemory.thy ===== *)
theory VirtualMemory
  imports PageFaults Exceptions
begin

text \<open>
  Demand paging is transparent: \<open>read_buffer\<close> and \<open>write_buffer\<close>, with which the kernel copies from and to the
  memory of a process, work on one array of bytes, whatever pages are loaded, evicted and loaded
  again meanwhile. The abstract array says of each byte whether it is known: it is when the process has
  written it, or when the executable determines it. (The page in which a segment ends is only loaded in part, and
  what the rest of it holds changes when the page is evicted and loaded again.)
\<close>

section \<open>The invariant of a process\<close>

text \<open>
  All frames in use are the process's own, no page is read-only, and pages that are not in memory are
  clean. \<open>Random()\<close> draws each page within \<open>n\<close> calls.
\<close>

definition owns_frames :: "user \<Rightarrow> bool" where
  "owns_frames u \<longleftrightarrow> allocated_pages (manager u) =
     {frame_of (the_table u ! p) | p. p < length (the_table u) \<and> valid (the_table u ! p)}"

definition draws_all :: "nat \<Rightarrow> (nat \<Rightarrow> nat) \<Rightarrow> nat \<Rightarrow> bool" where
  "draws_all n random len \<longleftrightarrow> (\<forall>k. \<forall>p < len. \<exists>m < n. random (k + m) mod len = p)"

definition vm_ok :: "user \<Rightarrow> bool" where
  "vm_ok u \<longleftrightarrow> user_ok u \<and> store_ok (store u) \<and> header_ok (space u) \<and> owns_frames u \<and>
     (\<forall>p < length (the_table u). \<not> readOnly (the_table u ! p) \<and> (\<not> valid (the_table u ! p) \<longrightarrow> \<not> dirty (the_table u ! p)))"

text \<open>The byte at address \<open>i\<close> is \<open>b\<close>, in memory and, if the page is clean, also after the next load of the page.\<close>

definition knows :: "user \<Rightarrow> nat \<Rightarrow> 8 word \<Rightarrow> bool" where
  "knows u i b \<longleftrightarrow> (valid (the_table u ! (i div 128)) \<longrightarrow> page_bytes u (i div 128) ! (i mod 128) = b) \<and>
     (\<not> dirty (the_table u ! (i div 128)) \<longrightarrow> (\<forall>old. length old = 128 \<longrightarrow> fault_image u (i div 128) old ! (i mod 128) = b))"

lemma full_has_valid:
  assumes "owns_frames u" "allocated_pages (manager u) = {0..<32}"
  shows "\<exists>p < length (the_table u). valid (the_table u ! p)"
proof -
  have "0 \<in> allocated_pages (manager u)" by (simp add: assms(2))
  then show ?thesis unfolding assms(1) [unfolded owns_frames_def] by blast
qed

lemma vm_room:
  assumes "vm_ok u" "draws_all n random (length (the_table u))"
  shows "room n random u"
proof (cases "allocated_pages (manager u) = {0..<32}")
  case True
  then obtain p where "p < length (the_table u)" "valid (the_table u ! p)"
    using full_has_valid assms(1) unfolding vm_ok_def by blast
  moreover from this(1) obtain m where "m < n" "drawn random u m = p"
    using assms(2) unfolding draws_all_def drawn_def by blast
  ultimately show ?thesis unfolding room_def by blast
qed (simp add: room_def)

lemma valid_frame:
  "user_ok u \<Longrightarrow> p < length (the_table u) \<Longrightarrow> valid (the_table u ! p) \<Longrightarrow> frame_of (the_table u ! p) \<in> allocated_pages (manager u)"
  by (simp add: user_ok_def frames_ok_def)

text \<open>What a fault on \<open>p\<close> leaves.\<close>

lemma faulted_knows:
  assumes ok: "vm_ok u" and f: "faulted p v u u'" and p: "p < length (the_table u)" "\<not> valid (the_table u ! p)"
    and i: "i div 128 < length (the_table u)" and k: "knows u i b"
  shows "knows u' i b"
proof -
  define q where "q = i div 128"
  have q: "q < length (the_table u)" using i by (simp add: q_def)
  have u: "user_ok u" "user_ok u'" "space u' = space u" "length (the_table u') = length (the_table u)"
    using ok f by (simp_all add: vm_ok_def faulted_def)
  have clean: "\<not> valid (the_table u ! q) \<Longrightarrow> \<not> dirty (the_table u ! q)" using ok q by (simp add: vm_ok_def)
  have sv: "saved (store u') q = (if v = Some q \<and> dirty (the_table u ! q) then Some (page_bytes u q) else saved (store u) q)"
    using f unfolding faulted_def by (auto split: option.splits if_splits)
  have v: "v = Some q \<Longrightarrow> valid (the_table u ! q)" using f by (simp add: faulted_def)
  have img: "fault_image u' q old = (if v = Some q \<and> dirty (the_table u ! q) then page_bytes u q else fault_image u q old)" for old
    unfolding fault_image_def sv u(3) by simp
  have k1: "valid (the_table u ! q) \<Longrightarrow> page_bytes u q ! (i mod 128) = b"
    "\<not> dirty (the_table u ! q) \<Longrightarrow> length old = 128 \<Longrightarrow> fault_image u q old ! (i mod 128) = b" for old
    using k by (simp_all add: knows_def q_def)
  have "(valid (the_table u' ! q) \<longrightarrow> page_bytes u' q ! (i mod 128) = b) \<and>
     (\<not> dirty (the_table u' ! q) \<longrightarrow> (\<forall>old. length old = 128 \<longrightarrow> fault_image u' q old ! (i mod 128) = b))"
  proof (cases "q = p")
    case True
    obtain w where w: "the_table u' ! p = (the_table u ! p)\<lparr>physicalPage := w, valid := True\<rparr>" using f by (auto simp: faulted_def)
    then have "valid (the_table u' ! p)" by simp
    then have "frame_of (the_table u' ! p) \<in> allocated_pages (manager u')" using valid_frame [OF u(2)] u(4) p(1) by simp
    then have "length (frame_bytes u (frame_of (the_table u' ! p))) = 128"
      using frame_range [OF u(2)] frame_length [OF u(1)] by blast
    then have "page_bytes u' p ! (i mod 128) = b"
      using f k1(2) clean p(2) True by (simp add: faulted_def)
    then show ?thesis using True img v p(2) k1(2) clean by auto
  next
    case False
    then have e: "the_table u' ! q = (if v = Some q then (the_table u ! q)\<lparr>valid := False, dirty := False\<rparr> else the_table u ! q)"
      using f q by (simp add: faulted_def)
    show ?thesis
    proof (cases "v = Some q")
      case True
      then show ?thesis using e img v k1 by auto
    next
      case other: False
      have "valid (the_table u ! q) \<Longrightarrow> page_bytes u' q = page_bytes u q" using f q False e other by (simp add: faulted_def)
      then show ?thesis using e img other k1 by auto
    qed
  qed
  then show ?thesis by (simp add: knows_def q_def)
qed

lemma faulted_owns:
  assumes "owns_frames u" "faulted p v u u'" "p < length (the_table u)" "\<not> valid (the_table u ! p)"
  shows "owns_frames u'"
proof -
  have l: "length (the_table u') = length (the_table u)" and ok: "user_ok u'" using assms(2) by (simp_all add: faulted_def)
  obtain w where "the_table u' ! p = (the_table u ! p)\<lparr>physicalPage := w, valid := True\<rparr>" using assms(2) by (auto simp: faulted_def)
  then have vp: "valid (the_table u' ! p)" by simp
  have stay: "the_table u' ! j = the_table u ! j" "j \<noteq> p" if "j < length (the_table u)" "valid (the_table u ! j)" "v \<noteq> Some j" for j
  proof -
    show "j \<noteq> p" using that assms(4) by auto
    then show "the_table u' ! j = the_table u ! j" using that assms(2) by (simp add: faulted_def)
  qed
  have sub: "frame_of (the_table u' ! j) \<in> allocated_pages (manager u')" if "j < length (the_table u)" "valid (the_table u' ! j)" for j
    using ok that l by (simp add: user_ok_def frames_ok_def)
  have apart: "frame_of (the_table u' ! j) \<noteq> frame_of (the_table u' ! p)"
    if "j < length (the_table u)" "valid (the_table u' ! j)" "j \<noteq> p" for j
    using ok that l vp assms(3) by (simp add: user_ok_def frames_ok_def)
  have "\<exists>j < length (the_table u). valid (the_table u' ! j) \<and> frame_of (the_table u' ! j) = f"
    if f: "f \<in> allocated_pages (manager u')" for f
  proof (cases "f = frame_of (the_table u' ! p)")
    case True
    then show ?thesis using vp assms(3) by blast
  next
    case False
    then have "f \<in> allocated_pages (manager u)" using f assms(2) unfolding faulted_def by (auto split: option.splits)
    then obtain j where j: "j < length (the_table u)" "valid (the_table u ! j)" "frame_of (the_table u ! j) = f"
      using assms(1) unfolding owns_frames_def by auto
    have "v \<noteq> Some j"
    proof
      assume v: "v = Some j"
      then have "allocated_pages (manager u') = allocated_pages (manager u)" using assms(2) by (simp add: faulted_def)
      then have "frame_of (the_table u' ! p) \<in> allocated_pages (manager u)" using sub [OF assms(3) vp] by simp
      then obtain k where k: "k < length (the_table u)" "valid (the_table u ! k)" "frame_of (the_table u ! k) = frame_of (the_table u' ! p)"
        using assms(1) unfolding owns_frames_def by auto
      have "k = j"
      proof (rule ccontr)
        assume "k \<noteq> j"
        then show False using stay [OF k(1,2)] apart [OF k(1)] k v by simp
      qed
      then show False using k(3) j(3) False by simp
    qed
    then show ?thesis using stay [OF j(1,2)] j by auto
  qed
  then have "allocated_pages (manager u') = {frame_of (the_table u' ! j) | j. j < length (the_table u) \<and> valid (the_table u' ! j)}"
    using sub by blast
  then show ?thesis by (simp add: owns_frames_def l)
qed

lemma vm_fault:
  assumes ok: "vm_ok u" and d: "draws_all n random (length (the_table u))"
    and p: "p < length (the_table u)" "\<not> valid (the_table u ! p)"
    and addr: "length (registers (mach u)) = 40" "sint (registers (mach u) ! BadVAddrReg) sdiv PageBytes = int p"
  shows "\<exists>u' M. page_fault n random u = Inr u' \<and> vm_ok u' \<and> mach u' = (mach u)\<lparr>mainMemory := M, pageTable := Some (the_table u')\<rparr> \<and>
    length (the_table u') = length (the_table u) \<and> valid (the_table u' ! p) \<and>
    (\<forall>i b. i div 128 < length (the_table u) \<longrightarrow> knows u i b \<longrightarrow> knows u' i b)"
proof -
  have o: "user_ok u" "store_ok (store u)" "header_ok (space u)" "owns_frames u" using ok by (simp_all add: vm_ok_def)
  obtain u' v where f: "page_fault n random u = Inr u'" "faulted p v u u'"
    using page_fault_ok [OF o(1,2) p vm_room [OF ok d] o(3) addr] by blast
  have e: "\<not> readOnly (the_table u' ! q) \<and> (\<not> valid (the_table u' ! q) \<longrightarrow> \<not> dirty (the_table u' ! q))" if "q < length (the_table u)" for q
  proof (cases "q = p")
    case True
    then show ?thesis using ok f(2) that by (auto simp: faulted_def vm_ok_def)
  next
    case False
    then have "the_table u' ! q = (if v = Some q then (the_table u ! q)\<lparr>valid := False, dirty := False\<rparr> else the_table u ! q)"
      using f(2) that by (simp add: faulted_def)
    then show ?thesis using ok that by (simp add: vm_ok_def)
  qed
  have "vm_ok u'" using f(2) o(3) e faulted_owns [OF o(4) f(2) p] by (simp add: vm_ok_def faulted_def)
  then show ?thesis using f faulted_knows [OF ok f(2) p] unfolding faulted_def by auto
qed

section \<open>Accesses to valid pages\<close>

text \<open>The effect of an access to page \<open>p\<close> on entry and frame; a load writes no bytes.\<close>

definition accessed :: "nat \<Rightarrow> nat \<Rightarrow> 8 word list \<Rightarrow> bool \<Rightarrow> user \<Rightarrow> user" where
  "accessed p off bs w u =
     (let e = the_table u ! p in
      set_mem (blit (mainMemory (mach u)) (nat (frame_of e * PageBytes) + off) bs)
        (set_table ((the_table u)[p := e\<lparr>use_bit := True, dirty := w \<or> dirty e\<rparr>]) u))"

lemma accessed_ok:
  assumes ok: "vm_ok u" and p: "p < length (the_table u)" "valid (the_table u ! p)"
    and b: "off + length bs \<le> 128" "bs = [] \<or> w"
  shows "vm_ok (accessed p off bs w u)" and "the_table (accessed p off bs w u) =
      (the_table u)[p := (the_table u ! p)\<lparr>use_bit := True, dirty := w \<or> dirty (the_table u ! p)\<rparr>]"
    and "j div 128 < length (the_table u) \<Longrightarrow> \<not> (j div 128 = p \<and> off \<le> j mod 128 \<and> j mod 128 < off + length bs) \<Longrightarrow> knows u j c \<Longrightarrow>
      knows (accessed p off bs w u) j c"
    and "bs = [c] \<Longrightarrow> off < 128 \<Longrightarrow> knows (accessed p off bs w u) (128 * p + off) c"
proof -
  define e where "e = (the_table u ! p)\<lparr>use_bit := True, dirty := w \<or> dirty (the_table u ! p)\<rparr>"
  define u' where "u' = accessed p off bs w u"
  show t: "the_table (accessed p off bs w u) =
      (the_table u)[p := (the_table u ! p)\<lparr>use_bit := True, dirty := w \<or> dirty (the_table u ! p)\<rparr>]"
    by (simp add: accessed_def Let_def)
  then have t': "the_table u' = (the_table u)[p := e]" by (simp add: u'_def e_def)
  have u: "user_ok u" "owns_frames u" using ok by (simp_all add: vm_ok_def)
  have r: "store u' = store u" "space u' = space u" "manager u' = manager u" by (simp_all add: u'_def accessed_def Let_def)
  have e: "valid e" "frame_of e = frame_of (the_table u ! p)" "virtualPage e = virtualPage (the_table u ! p)"
    "readOnly e = readOnly (the_table u ! p)" using p(2) by (simp_all add: e_def frame_of_def)
  have entry: "valid (the_table u' ! q) = valid (the_table u ! q)" "frame_of (the_table u' ! q) = frame_of (the_table u ! q)"
    "virtualPage (the_table u' ! q) = virtualPage (the_table u ! q)" "readOnly (the_table u' ! q) = readOnly (the_table u ! q)" for q
    using e p by (cases "q = p", simp_all add: t')+
  have l: "length (the_table u') = length (the_table u)" by (simp add: t')
  have f: "0 \<le> frame_of (the_table u ! p)" "frame_of (the_table u ! p) < 32"
    using frame_range [OF u(1) valid_frame [OF u(1) p]] by simp_all
  have m: "mainMemory (mach u') = blit (mainMemory (mach u)) (nat (frame_of (the_table u ! p) * PageBytes) + off) bs"
    by (simp add: u'_def accessed_def Let_def)
  have lm: "length (mainMemory (mach u)) = 4096" using u(1) by (simp add: user_ok_def)
  note bf = blit_frames [OF lm f b(1), folded m]
  have pages: "page_bytes u' q = (if q = p then blit (page_bytes u p) off bs else page_bytes u q)"
    if "q < length (the_table u)" "valid (the_table u ! q)" for q
  proof (cases "q = p")
    case True
    then show ?thesis using bf(2) by (simp add: page_bytes_def frame_bytes_def entry)
  next
    case False
    have "frame_of (the_table u ! q) \<noteq> frame_of (the_table u ! p)"
      using u(1) that p False unfolding user_ok_def frames_ok_def by simp
    then show ?thesis using bf(3) False frame_range [OF u(1) valid_frame [OF u(1) that]] by (simp add: page_bytes_def frame_bytes_def entry)
  qed
  have img: "fault_image u' q = fault_image u q" for q unfolding fault_image_def r ..
  have lp: "length (page_bytes u p) = 128" using frame_length [OF u(1) f] by (simp add: page_bytes_def)
  have dirt: "dirty (the_table u' ! q) = (dirty (the_table u ! q) \<or> q = p \<and> w)" for q
    using p(1) by (cases "q = p") (auto simp: t' e_def)
  show "knows (accessed p off bs w u) j c" if "j div 128 < length (the_table u)"
    "\<not> (j div 128 = p \<and> off \<le> j mod 128 \<and> j mod 128 < off + length bs)" "knows u j c"
    unfolding u'_def [symmetric] knows_def entry dirt img
    using that pages [OF that(1)] lp b(1) by (auto simp: knows_def nth_blit)
  show "knows (accessed p off bs w u) (128 * p + off) c" if "bs = [c]" "off < 128"
  proof -
    have d: "(128 * p + off) div 128 = p" "(128 * p + off) mod 128 = off" using that(2) by simp_all
    show ?thesis
      unfolding u'_def [symmetric] knows_def entry dirt img d
      using that pages [OF p] lp b p(2) by (simp add: nth_blit)
  qed
  have "pageTable (mach u') \<noteq> None" by (simp add: u'_def accessed_def Let_def)
  moreover have "frames_ok u'" using u(1) unfolding user_ok_def frames_ok_def l r entry by simp
  ultimately have "user_ok u'" using u(1) bf(1) unfolding user_ok_def l r entry by simp
  moreover have "owns_frames u'" using u(2) unfolding owns_frames_def l r entry .
  moreover have "\<not> valid (the_table u' ! q) \<longrightarrow> \<not> dirty (the_table u' ! q)" if "q < length (the_table u)" for q
    using ok that p by (cases "q = p") (simp_all add: t' e(1) vm_ok_def)
  ultimately show "vm_ok (accessed p off bs w u)"
    using ok unfolding u'_def [symmetric] vm_ok_def l r entry by simp
qed

section \<open>The process in the system\<close>

definition process_of :: "os sys \<Rightarrow> user" where
  "process_of s = (proc (kernel s))\<lparr>mach := cpu s\<rparr>"

text \<open>The abstract state is one array of all bytes of the address space.\<close>

definition flat :: "nat \<Rightarrow> (nat \<Rightarrow> nat) \<Rightarrow> os sys \<Rightarrow> 8 word option list \<Rightarrow> bool" where
  "flat n random s a \<longleftrightarrow> vm_ok (process_of s) \<and> draws_all n random (length (the_table (process_of s))) \<and>
     machine_wf (cpu s) \<and> tlb (cpu s) = None \<and> length a = 128 * length (the_table (process_of s)) \<and>
     (\<forall>i < length a. \<forall>b. a ! i = Some b \<longrightarrow> knows (process_of s) i b)"

text \<open>The rest of the kernel state, and the program counters.\<close>

definition same_kernel :: "os sys \<Rightarrow> os sys \<Rightarrow> bool" where
  "same_kernel s s' \<longleftrightarrow> (\<exists>p. kernel s' = (kernel s)\<lparr>proc := p\<rparr>) \<and>
     (\<forall>r \<in> {PCReg, NextPCReg, PrevPCReg}. reg (cpu s') r = reg (cpu s) r)"

lemma same_kernel_trans: "same_kernel s t \<Longrightarrow> same_kernel t u \<Longrightarrow> same_kernel s u"
  by (auto simp: same_kernel_def)

lemma vm_ok_mach:
  assumes "mainMemory m = mainMemory (mach u)" "pageTable m = pageTable (mach u)"
  shows "vm_ok (u\<lparr>mach := m\<rparr>) = vm_ok u" "the_table (u\<lparr>mach := m\<rparr>) = the_table u" "knows (u\<lparr>mach := m\<rparr>) = knows u"
proof -
  show t: "the_table (u\<lparr>mach := m\<rparr>) = the_table u" using assms(2) by (simp add: the_table_def)
  have f: "frame_bytes (u\<lparr>mach := m\<rparr>) = frame_bytes u" using assms(1) by (simp add: frame_bytes_def fun_eq_iff)
  have p: "page_bytes (u\<lparr>mach := m\<rparr>) = page_bytes u" by (simp add: page_bytes_def fun_eq_iff t f)
  have i: "fault_image (u\<lparr>mach := m\<rparr>) = fault_image u" by (simp add: fault_image_def fun_eq_iff cong: option.case_cong)
  show "knows (u\<lparr>mach := m\<rparr>) = knows u" by (simp add: knows_def fun_eq_iff t p i)
  show "vm_ok (u\<lparr>mach := m\<rparr>) = vm_ok u"
    unfolding vm_ok_def user_ok_def frames_ok_def owns_frames_def t using assms by simp
qed

lemma page_range:
  assumes "flat n random s a" "unat (addr :: 32 word) < length a"
  shows "unat addr div 128 < length (the_table (process_of s))" "sint addr sdiv PageBytes = int (unat addr div 128)"
    "the_table (process_of s) = table (cpu s)" "length (registers (cpu s)) = 40" "pageTable (cpu s) = Some (table (cpu s))"
proof -
  show p: "unat addr div 128 < length (the_table (process_of s))" using assms by (simp add: flat_def less_mult_imp_div_less mult.commute)
  have "length (the_table (process_of s)) \<le> 2 ^ 23" using assms(1) by (simp add: flat_def vm_ok_def user_ok_def)
  then have "unat addr < 2 ^ 30" using assms by (simp add: flat_def)
  then have "int (unat addr) < int (2 ^ 30)" by (simp only: of_nat_less_iff)
  moreover have ui: "uint addr = int (unat addr)" by simp
  ultimately have "uint addr < 2 ^ 31" by (simp only: ui) simp
  then have "signed_take_bit 31 (uint addr) = uint addr"
    by (intro signed_take_bit_int_eq_self order_trans [OF _ uint_ge_0]) simp_all
  then have "sint addr = uint addr" by (simp add: sint_uint)
  then have "sint addr = int (unat addr)" by simp
  then show "sint addr sdiv PageBytes = int (unat addr div 128)" by (simp add: sdiv_nonneg_eq zdiv_int)
  have w: "machine_wf (cpu s)" "tlb (cpu s) = None" using assms(1) by (simp_all add: flat_def)
  then show "the_table (process_of s) = table (cpu s)" "pageTable (cpu s) = Some (table (cpu s))"
    by (auto simp: process_of_def the_table_def table_def machine_wf_def split: option.splits)
  show "length (registers (cpu s)) = 40" using w by (simp add: machine_wf_def NumTotalRegs_def)
qed

lemma fault_step:
  assumes fl: "flat n random s a" and addr: "unat addr < length a" and nv: "\<not> valid (the_table (process_of s) ! (unat addr div 128))"
  shows "\<exists>s'. RaiseException (kernel_trap n random) PageFaultException addr s = Inr s' \<and> flat n random s' a \<and> same_kernel s s' \<and>
    valid (the_table (process_of s') ! (unat addr div 128))"
proof -
  note pr = page_range [OF fl addr]
  obtain m where r: "RaiseException (kernel_trap n random) PageFaultException addr s =
      bindR (kernel_trap n random PageFaultException (s\<lparr>cpu := m, status := SystemMode\<rparr>)) (\<lambda>s'. Inr (s'\<lparr>status := UserMode\<rparr>))"
      "machine_ok m" "reg m BadVAddrReg = addr" "mainMemory m = mainMemory (cpu s)" "tlb m = tlb (cpu s)" "pageTable m = pageTable (cpu s)"
      "\<forall>r \<in> {PCReg, NextPCReg, PrevPCReg}. reg m r = reg (cpu s) r"
    using RaiseException_full fl unfolding flat_def by blast
  let ?u = "(proc (kernel s))\<lparr>mach := m\<rparr>"
  have e: "?u = (process_of s)\<lparr>mach := m\<rparr>" "mainMemory m = mainMemory (mach (process_of s))" "pageTable m = pageTable (mach (process_of s))"
    using r(4,6) by (simp_all add: process_of_def)
  note v = vm_ok_mach [OF e(2,3), folded e(1)]
  have mw: "machine_wf m" using r(2) by (simp add: machine_ok_def)
  have ra: "length (registers m) = 40" "registers m ! BadVAddrReg = addr"
    using mw r(3) by (simp_all add: machine_wf_def NumTotalRegs_def reg_def)
  obtain u' M where f: "page_fault n random ?u = Inr u'" "vm_ok u'" "mach u' = m\<lparr>mainMemory := M, pageTable := Some (the_table u')\<rparr>"
      "length (the_table u') = length (the_table ?u)" "valid (the_table u' ! (unat addr div 128))"
      "\<forall>i b. i div 128 < length (the_table ?u) \<longrightarrow> knows ?u i b \<longrightarrow> knows u' i b"
    using vm_fault [of ?u n random "unat addr div 128"] fl nv pr(1,2) ra unfolding flat_def v by auto
  let ?s = "s\<lparr>cpu := mach u', status := UserMode, kernel := (kernel s)\<lparr>proc := u'\<rparr>\<rparr>"
  have run: "RaiseException (kernel_trap n random) PageFaultException addr s = Inr ?s"
    using f(1) by (simp add: r(1) kernel_trap_def memory_exception_def on_user_def)
  have p': "process_of ?s = u'" by (simp add: process_of_def)
  have "length (mainMemory (mach u')) = 4096" using f(2) by (simp add: vm_ok_def user_ok_def)
  moreover have "tlb m = None" "length (the_table ?u) = unat (pageTableSize m)"
    using r(5) fl mw v(2) e(3) by (auto simp: flat_def machine_wf_def the_table_def split: option.splits)
  ultimately have "machine_wf (cpu ?s)" using mw f(3,4)
    by (simp add: machine_wf_def reg_def machine_sizes)
  then have "flat n random ?s a" using fl f(2-4,6) r(5) pr(1) unfolding flat_def p' v
    by (auto simp: less_mult_imp_div_less mult.commute)
  moreover have "same_kernel s ?s" unfolding same_kernel_def using r(7) f(3) by (intro conjI exI [of _ u']) (simp_all add: reg_def)
  ultimately show ?thesis using run f(5) p' by auto
qed

section \<open>Reading and writing a byte\<close>

lemma page_split: "(i :: nat) = j \<longleftrightarrow> i div 128 = j div 128 \<and> i mod 128 = j mod 128"
  by (metis div_mult_mod_eq)

lemma Translate_valid:
  assumes fl: "flat n random s a" and addr: "unat addr < length a" and v: "valid (the_table (process_of s) ! (unat addr div 128))"
  defines "p \<equiv> unat addr div 128"
  shows "Translate (cpu s) addr 1 w = Inr ((cpu s)\<lparr>pageTable :=
      Some ((table (cpu s))[p := (table (cpu s) ! p)\<lparr>use_bit := True, dirty := w \<or> dirty (table (cpu s) ! p)\<rparr>])\<rparr>,
    NoException, frame_of (table (cpu s) ! p) * PageBytes + int (unat addr mod 128))"
    and "0 \<le> frame_of (table (cpu s) ! p)" "frame_of (table (cpu s) ! p) < 32"
proof -
  note pr = page_range [OF fl addr]
  have u: "user_ok (process_of s)" "\<not> readOnly (the_table (process_of s) ! p)" using fl pr(1) by (simp_all add: flat_def vm_ok_def p_def)
  show f: "0 \<le> frame_of (table (cpu s) ! p)" "frame_of (table (cpu s) ! p) < 32"
    using frame_range [OF u(1) valid_frame [OF u(1) pr(1) v]] by (simp_all add: pr(3) p_def)
  have "physicalPage (table (cpu s) ! p) = word_of_int (frame_of (table (cpu s) ! p))" by (simp add: frame_of_def)
  then have up: "uint (physicalPage (table (cpu s) ! p)) = frame_of (table (cpu s) ! p)"
    using f by (simp add: uint_word_of_int take_bit_int_eq_self)
  have "int (unat addr mod 128) = uint addr mod PageBytes" by (simp add: zmod_int)
  then show "Translate (cpu s) addr 1 w = Inr ((cpu s)\<lparr>pageTable :=
      Some ((table (cpu s))[p := (table (cpu s) ! p)\<lparr>use_bit := True, dirty := w \<or> dirty (table (cpu s) ! p)\<rparr>])\<rparr>,
    NoException, frame_of (table (cpu s) ! p) * PageBytes + int (unat addr mod 128))"
    using Translate_page_table [of "cpu s" "table (cpu s)" 1 addr w] fl pr(1,5) u(2) v f up
    by (simp add: flat_def pr(3) p_def [symmetric] Let_def)
qed

lemma Translate_invalid:
  assumes fl: "flat n random s a" and addr: "unat addr < length a" and v: "\<not> valid (the_table (process_of s) ! (unat addr div 128))"
  shows "Translate (cpu s) addr 1 w = Inr (cpu s, PageFaultException, 0)"
  using Translate_page_table [of "cpu s" "table (cpu s)" 1 addr w] page_range [OF fl addr] fl v by (simp add: flat_def)

text \<open>The state after an access to a valid page.\<close>

lemma flat_accessed:
  assumes fl: "flat n random s a" and addr: "unat (addr :: 32 word) < length a" and v: "valid (the_table (process_of s) ! (unat addr div 128))"
    and b: "bs = [] \<or> w \<and> bs = [c]"
    and u': "process_of s' = accessed (unat addr div 128) (unat addr mod 128) bs w (process_of s)" and k: "kernel s' = kernel s"
    and wf: "machine_wf (cpu s')" "tlb (cpu s') = None"
  shows "flat n random s' (if bs = [] then a else a[unat addr := Some c])"
proof -
  let ?p = "unat addr div 128" and ?o = "unat addr mod 128"
  note pr = page_range [OF fl addr]
  have ok: "vm_ok (process_of s)" using fl by (simp add: flat_def)
  have o: "?o + length bs \<le> 128" using b by auto
  have bw: "bs = [] \<or> w" using b by blast
  note ac = accessed_ok [OF ok pr(1) v o bw, folded u']
  have l: "length (the_table (process_of s')) = length (the_table (process_of s))" by (simp add: ac(2))
  have la: "length a = 128 * length (the_table (process_of s))" using fl by (simp add: flat_def)
  have at: "128 * ?p + ?o = unat addr" by simp
  have "knows (process_of s') i d" if i: "i < length a" "(if bs = [] then a else a[unat addr := Some c]) ! i = Some d" for i d
  proof (cases "bs = [c] \<and> i = unat addr")
    case True
    then have "d = c" using i by simp
    then show ?thesis using ac(4) [of c] True at by simp
  next
    case False
    have q: "i div 128 < length (the_table (process_of s))" using i(1) la by (simp add: less_mult_imp_div_less mult.commute)
    have "a ! i = Some d" using False i b by (auto split: if_splits)
    then have "knows (process_of s) i d" using fl i(1) by (simp add: flat_def)
    moreover have "\<not> (i div 128 = ?p \<and> ?o \<le> i mod 128 \<and> i mod 128 < ?o + length bs)"
      using False b page_split [of i "unat addr"] by auto
    ultimately show ?thesis using ac(3) [OF q] by blast
  qed
  then show ?thesis using fl ac(1) wf la unfolding flat_def l by auto
qed

lemma char_of_int [simp]: "ucast ((scast (c :: 8 word) :: 32 word) AND 0xff) = c" "ucast (scast (c :: 8 word) :: 32 word) = c"
  by (rule bit_word_eqI, auto simp: bit_simps mask_ff)+

lemma ReadMem_byte:
  assumes fl: "flat n random s a" and addr: "unat addr < length a" and v: "valid (the_table (process_of s) ! (unat addr div 128))"
  shows "\<exists>s' c. ReadMem h addr 1 s = Inr (s', Some (scast (c :: 8 word))) \<and> (\<forall>b. a ! unat addr = Some b \<longrightarrow> c = b) \<and>
    flat n random s' a \<and> same_kernel s s' \<and>
    (\<forall>q. valid (the_table (process_of s') ! q) = valid (the_table (process_of s) ! q))"
proof -
  let ?p = "unat addr div 128" and ?o = "unat addr mod 128" and ?T = "table (cpu s)"
  note pr = page_range [OF fl addr] and tr = Translate_valid(1) [OF fl addr v, of False] Translate_valid(2,3) [OF fl addr v]
  let ?m = "(cpu s)\<lparr>pageTable := Some (?T[?p := (?T ! ?p)\<lparr>use_bit := True, dirty := False \<or> dirty (?T ! ?p)\<rparr>])\<rparr>"
  let ?f = "frame_of (?T ! ?p)"
  have wf: "machine_wf (cpu s)" "tlb (cpu s) = None" using fl by (simp_all add: flat_def)
  have lm: "length (mainMemory (cpu s)) = 4096" using wf by (simp add: machine_wf_def machine_sizes)
  have q: "nat (?f * PageBytes) + 128 \<le> 4096" using tr(2,3) by auto
  have pa: "nat (?f * PageBytes + int ?o) = nat (?f * PageBytes) + ?o" "0 \<le> ?f * PageBytes + int ?o"
    "?f * PageBytes + int ?o + 1 \<le> 4096" using tr(2,3) by auto
  define c where "c = mainMemory (cpu s) ! (nat (?f * PageBytes) + ?o)"
  have "page_bytes (process_of s) ?p ! ?o = c"
    using q lm by (simp add: page_bytes_def frame_bytes_def pr(3) c_def) (simp add: process_of_def)
  then have byte: "\<forall>b. a ! unat addr = Some b \<longrightarrow> c = b" using fl addr v by (auto simp: flat_def knows_def)
  have run: "ReadMem h addr 1 s = Inr (s\<lparr>cpu := ?m\<rparr>, Some (scast c))"
    using tr(1) pa lm by (simp add: ReadMem_def load_size_def c_def)
  have wf': "machine_wf ?m" using wf pr(5) by (simp add: machine_wf_def reg_def)
  have acc: "process_of (s\<lparr>cpu := ?m\<rparr>) = accessed ?p ?o [] False (process_of s)"
    unfolding accessed_def Let_def pr(3) by (simp add: process_of_def set_mem_def set_table_def)
  then have "flat n random (s\<lparr>cpu := ?m\<rparr>) a" using flat_accessed [OF fl addr v, of "[]" False 0] wf' wf(2) by simp
  moreover have "valid (the_table (process_of (s\<lparr>cpu := ?m\<rparr>)) ! q) = valid (the_table (process_of s) ! q)" for q
    using pr(1,3) by (cases "q = ?p") (simp_all add: process_of_def the_table_def)
  moreover have "same_kernel s (s\<lparr>cpu := ?m\<rparr>)" unfolding same_kernel_def by (intro conjI exI [of _ "proc (kernel s)"]) (simp_all add: reg_def)
  ultimately show ?thesis using run byte by blast
qed

lemma WriteMem_byte:
  assumes fl: "flat n random s a" and addr: "unat addr < length a" and v: "valid (the_table (process_of s) ! (unat addr div 128))"
  shows "\<exists>s'. WriteMem h addr 1 (scast c) s = Inr (s', True) \<and> flat n random s' (a[unat addr := Some c]) \<and> same_kernel s s'"
proof -
  let ?p = "unat addr div 128" and ?o = "unat addr mod 128" and ?T = "table (cpu s)"
  note pr = page_range [OF fl addr] and tr = Translate_valid(1) [OF fl addr v, of True] Translate_valid(2,3) [OF fl addr v]
  let ?f = "frame_of (?T ! ?p)"
  let ?m = "(cpu s)\<lparr>pageTable := Some (?T[?p := (?T ! ?p)\<lparr>use_bit := True, dirty := True \<or> dirty (?T ! ?p)\<rparr>]),
    mainMemory := blit (mainMemory (cpu s)) (nat (?f * PageBytes) + ?o) [c]\<rparr>"
  have wf: "machine_wf (cpu s)" "tlb (cpu s) = None" using fl by (simp_all add: flat_def)
  have lm: "length (mainMemory (cpu s)) = 4096" using wf by (simp add: machine_wf_def machine_sizes)
  have q: "nat (?f * PageBytes) + 128 \<le> 4096" using tr(2,3) by auto
  have pa: "nat (?f * PageBytes + int ?o) = nat (?f * PageBytes) + ?o" "0 \<le> ?f * PageBytes + int ?o"
    "?f * PageBytes + int ?o + 1 \<le> 4096" using tr(2,3) by auto
  have run: "WriteMem h addr 1 (scast c) s = Inr (s\<lparr>cpu := ?m\<rparr>, True)"
    using tr(1) pa lm by (simp add: WriteMem_def store_size_def)
  have "?o < 128" by simp
  then have "nat (?f * PageBytes) + ?o + 1 \<le> 4096" using q by linarith
  then have wf': "machine_wf ?m" using wf pr(5) lm by (simp add: machine_wf_def reg_def machine_sizes)
  have "process_of (s\<lparr>cpu := ?m\<rparr>) = accessed ?p ?o [c] True (process_of s)"
    unfolding accessed_def Let_def pr(3) by (simp add: process_of_def set_mem_def set_table_def)
  then have "flat n random (s\<lparr>cpu := ?m\<rparr>) (a[unat addr := Some c])" using flat_accessed [OF fl addr v, of "[c]" True c] wf' wf(2) by simp
  moreover have "same_kernel s (s\<lparr>cpu := ?m\<rparr>)" unfolding same_kernel_def by (intro conjI exI [of _ "proc (kernel s)"]) (simp_all add: reg_def)
  ultimately show ?thesis using run by blast
qed

text \<open>The first attempt may raise a page fault; the second succeeds.\<close>

lemma fault_access:
  assumes fl: "flat n random s a" and addr: "unat addr < length a" and v: "\<not> valid (the_table (process_of s) ! (unat addr div 128))"
  shows "\<exists>s'. ReadMem (kernel_trap n random) addr 1 s = Inr (s', None) \<and> WriteMem (kernel_trap n random) addr 1 x s = Inr (s', False) \<and>
    flat n random s' a \<and> same_kernel s s' \<and> valid (the_table (process_of s') ! (unat addr div 128))"
proof -
  obtain s' where r: "RaiseException (kernel_trap n random) PageFaultException addr s = Inr s'" "flat n random s' a" "same_kernel s s'"
      "valid (the_table (process_of s') ! (unat addr div 128))" using fault_step [OF assms] by blast
  have "s\<lparr>cpu := cpu s\<rparr> = s" by simp
  then show ?thesis using r Translate_invalid [OF assms] by (simp add: ReadMem_def WriteMem_def)
qed

section \<open>Copying\<close>

definition fits :: "8 word \<Rightarrow> 8 word option \<Rightarrow> bool" where
  "fits c e \<longleftrightarrow> (\<forall>b. e = Some b \<longrightarrow> c = b)"

lemma read_byte:
  assumes fl: "flat n random s a" and addr: "unat addr < length a"
  shows "\<exists>s1 r s2 c. ReadMem (kernel_trap n random) addr 1 s = Inr (s1, r) \<and>
    (case r of Some ch \<Rightarrow> Inr (s1, Some ch) | None \<Rightarrow> ReadMem (kernel_trap n random) addr 1 s1) = Inr (s2, Some (scast (c :: 8 word))) \<and>
    fits c (a ! unat addr) \<and> flat n random s2 a \<and> same_kernel s s2"
proof (cases "valid (the_table (process_of s) ! (unat addr div 128))")
  case True
  then show ?thesis using ReadMem_byte [OF fl addr True, of "kernel_trap n random"] by (fastforce simp: fits_def)
next
  case False
  obtain s1 where s1: "ReadMem (kernel_trap n random) addr 1 s = Inr (s1, None)" "flat n random s1 a" "same_kernel s s1"
      "valid (the_table (process_of s1) ! (unat addr div 128))" using fault_access [OF fl addr False] by blast
  then show ?thesis using ReadMem_byte [OF s1(2) addr s1(4), of "kernel_trap n random"] same_kernel_trans [OF s1(3)]
    by (fastforce simp: fits_def)
qed

lemma write_byte:
  assumes fl: "flat n random s a" and addr: "unat addr < length a"
  shows "\<exists>s1 r s2. WriteMem (kernel_trap n random) addr 1 (scast c) s = Inr (s1, r) \<and>
    (if r then Inr (s1, True) else WriteMem (kernel_trap n random) addr 1 (scast c) s1) = Inr (s2, True) \<and>
    flat n random s2 (a[unat addr := Some c]) \<and> same_kernel s s2"
proof (cases "valid (the_table (process_of s) ! (unat addr div 128))")
  case True
  then show ?thesis using WriteMem_byte [OF fl addr True, of "kernel_trap n random"] by fastforce
next
  case False
  obtain s1 where s1: "WriteMem (kernel_trap n random) addr 1 (scast c) s = Inr (s1, False)" "flat n random s1 a" "same_kernel s s1"
      "valid (the_table (process_of s1) ! (unat addr div 128))" using fault_access [OF fl addr False] by blast
  then show ?thesis using WriteMem_byte [OF s1(2) addr s1(4), of "kernel_trap n random"] same_kernel_trans [OF s1(3)] by fastforce
qed

lemma flat_small: "flat n random s a \<Longrightarrow> length a \<le> 2 ^ 30"
  by (simp add: flat_def vm_ok_def user_ok_def)

lemma next_addr: "unat (addr :: 32 word) < 2 ^ 30 \<Longrightarrow> unat (addr + 1) = Suc (unat addr)"
  by (simp add: unat_word_ariths)

lemma same_kernel_refl: "same_kernel s s"
  unfolding same_kernel_def by (intro conjI exI [of _ "proc (kernel s)"]) (simp_all add: reg_def)

lemma read_buffer_ok:
  assumes "flat n random s a" and "unat addr + k \<le> length a"
  shows "\<exists>s' out. read_buffer (kernel_trap n random) addr k s = Inr (s', Some out) \<and>
    list_all2 fits out (slice a (unat addr) k) \<and> flat n random s' a \<and> same_kernel s s'"
  using assms
proof (induction k arbitrary: addr s)
  case 0
  then show ?case by (simp add: slice_def same_kernel_refl)
next
  case (Suc k)
  have addr: "unat addr < length a" "unat addr < 2 ^ 30" using Suc.prems(2) flat_small [OF Suc.prems(1)] by linarith+
  obtain s1 r s2 c where b: "ReadMem (kernel_trap n random) addr 1 s = Inr (s1, r)"
      "(case r of Some ch \<Rightarrow> Inr (s1, Some ch) | None \<Rightarrow> ReadMem (kernel_trap n random) addr 1 s1) = Inr (s2, Some (scast (c :: 8 word)))"
      "fits c (a ! unat addr)" "flat n random s2 a" "same_kernel s s2" using read_byte [OF Suc.prems(1) addr(1)] by blast
  obtain s' out where r: "read_buffer (kernel_trap n random) (addr + 1) k s2 = Inr (s', Some out)"
      "list_all2 fits out (slice a (Suc (unat addr)) k)" "flat n random s' a" "same_kernel s2 s'"
    using Suc.IH [OF b(4), of "addr + 1"] Suc.prems(2) by (auto simp: next_addr [OF addr(2)])
  then show ?case using b same_kernel_trans [OF b(5) r(4)] by (simp add: Suc_slice [OF addr(1)])
qed

lemma write_buffer_ok:
  assumes "flat n random s a" and "unat addr + length bs \<le> length a"
  shows "\<exists>s'. write_buffer (kernel_trap n random) bs addr s = Inr (s', True) \<and>
    flat n random s' (blit a (unat addr) (map Some bs)) \<and> same_kernel s s'"
  using assms
proof (induction bs arbitrary: addr s a)
  case Nil
  then show ?case by (simp add: same_kernel_refl)
next
  case (Cons c bs)
  have addr: "unat addr < length a" "unat addr < 2 ^ 30" using Cons.prems(2) flat_small [OF Cons.prems(1)] by simp_all
  obtain s1 r s2 where b: "WriteMem (kernel_trap n random) addr 1 (scast c) s = Inr (s1, r)"
      "(if r then Inr (s1, True) else WriteMem (kernel_trap n random) addr 1 (scast c) s1) = Inr (s2, True)"
      "flat n random s2 (a[unat addr := Some c])" "same_kernel s s2" using write_byte [OF Cons.prems(1) addr(1)] by blast
  obtain s' where r: "write_buffer (kernel_trap n random) bs (addr + 1) s2 = Inr (s', True)"
      "flat n random s' (blit (a[unat addr := Some c]) (Suc (unat addr)) (map Some bs))" "same_kernel s2 s'"
    using Cons.IH [OF b(3), of "addr + 1"] Cons.prems(2) by (auto simp: next_addr [OF addr(2)])
  then show ?case using b same_kernel_trans [OF b(4) r(3)] blit_Cons [of "unat addr" a "Some c" "map Some bs"] Cons.prems(2) by simp
qed

section \<open>Runs of copies\<close>

datatype copy_op = Fetch "32 word" nat | Store "32 word" "8 word list"

fun copy_step :: "os handler \<Rightarrow> os sys \<Rightarrow> copy_op \<Rightarrow> (os sys \<times> 8 word list option) res" where
  "copy_step h s (Fetch addr k) = read_buffer h addr k s"
| "copy_step h s (Store addr bs) = bindR (write_buffer h bs addr s) (\<lambda>(s, done). Inr (s, if done then Some [] else None))"

fun copy_spec :: "8 word option list \<Rightarrow> copy_op \<Rightarrow> 8 word option list \<times> 8 word option list" where
  "copy_spec a (Fetch addr k) = (a, slice a (unat addr) k)"
| "copy_spec a (Store addr bs) = (blit a (unat addr) (map Some bs), [])"

fun in_space :: "nat \<Rightarrow> copy_op \<Rightarrow> bool" where
  "in_space len (Fetch addr k) = (unat addr + k \<le> len)"
| "in_space len (Store addr bs) = (unat addr + length bs \<le> len)"

definition agrees :: "8 word list option \<Rightarrow> 8 word option list \<Rightarrow> bool" where
  "agrees out e \<longleftrightarrow> (\<exists>bs. out = Some bs \<and> list_all2 fits bs e)"

interpretation vm: weak_simulation "copy_step (kernel_trap n random)" copy_spec "\<lambda>s a. flat n random s a \<and> length a = len"
    "in_space len" agrees for n random len
proof unfold_locales
  fix s a op
  assume "flat n random s a \<and> length a = len" and r: "in_space len op"
  then have f: "flat n random s a" and l: "len = length a" by simp_all
  show "\<exists>s' out. copy_step (kernel_trap n random) s op = Inr (s', out) \<and> agrees out (snd (copy_spec a op)) \<and>
      flat n random s' (fst (copy_spec a op)) \<and> length (fst (copy_spec a op)) = len"
  proof (cases op)
    case (Fetch addr k)
    then show ?thesis using read_buffer_ok [OF f, of addr k] r l by (auto simp: agrees_def)
  next
    case (Store addr bs)
    then show ?thesis using write_buffer_ok [OF f, of addr bs] r l by (auto simp: agrees_def)
  qed
qed

section \<open>The bytes that the executable determines\<close>

definition seg_byte :: "8 word list \<Rightarrow> segment \<Rightarrow> nat \<Rightarrow> nat \<Rightarrow> 8 word option" where
  "seg_byte file g p i =
     (if in_segment g (int p) \<and> seg_off g p \<le> i \<and> i < seg_off g p + length (seg_read file g p)
      then Some (seg_read file g p ! (i - seg_off g p)) else None)"

definition known_byte :: "addr_space \<Rightarrow> nat \<Rightarrow> 8 word option" where
  "known_byte sp i =
     (let p = i div 128; c = code (noffHeader sp); d = initData (noffHeader sp) in
      if in_segment c (int p) \<or> in_segment d (int p) then
        (case seg_byte (executableFile sp) d p (i mod 128) of
           Some b \<Rightarrow> Some b | None \<Rightarrow> seg_byte (executableFile sp) c p (i mod 128))
      else Some 0)"

lemma seg_byte_ok:
  assumes "length old = 128" "i < 128"
  shows "(if in_segment g (int p) then blit old (seg_off g p) (seg_read file g p) else old) ! i =
    (case seg_byte file g p i of Some b \<Rightarrow> b | None \<Rightarrow> old ! i)"
  using assms seg_read_fits [of g p "file"] by (auto simp: seg_byte_def nth_blit)

lemma page_image_known:
  assumes "length old = 128"
  shows "page_image sp (i div 128) old ! (i mod 128) = (case known_byte sp i of Some b \<Rightarrow> b | None \<Rightarrow> old ! (i mod 128))"
proof -
  let ?c = "code (noffHeader sp)" and ?d = "initData (noffHeader sp)" and ?p = "i div 128" and ?f = "executableFile sp"
  let ?new = "if in_segment ?c (int ?p) then blit old (seg_off ?c ?p) (seg_read ?f ?c ?p) else old"
  have l: "length ?new = 128" using assms seg_read_fits [of ?c ?p ?f] by simp
  have i: "i mod 128 < 128" by simp
  show ?thesis
    using seg_byte_ok [OF l i, of ?d ?p ?f] seg_byte_ok [OF assms i, of ?c ?p ?f]
    by (auto simp: page_image_def known_byte_def Let_def split: option.splits)
qed

end
