(* ===== verification/Processes.thy ===== *)
theory Processes
  imports VirtualMemory
begin

text \<open>
  Properties of processes: a process that has been started sees the bytes of its executable, its memory
  is one array under demand paging, and what the system calls do to it. The definitions are those of
  \<open>Exceptions\<close>.
\<close>

section \<open>Starting a process\<close>

lemma clear_regs_ok:
  "set is \<subseteq> {..<40} \<Longrightarrow> length (registers m) = 40 \<Longrightarrow>
    \<exists>rs. clear_regs is m = Inr (m\<lparr>registers := rs\<rparr>) \<and> length rs = 40 \<and> (\<forall>i < 40. rs ! i = (if i \<in> set is then 0 else registers m ! i))"
proof (induction "is" arbitrary: m)
  case (Cons i "is")
  let ?m = "m\<lparr>registers := (registers m)[i := 0]\<rparr>"
  have w: "WriteRegister m (int i) 0 = Inr ?m" using Cons.prems by (simp add: WriteRegister_def NumTotalRegs_def)
  have p: "set is \<subseteq> {..<40}" "length (registers ?m) = 40" using Cons.prems by simp_all
  obtain rs where "clear_regs is ?m = Inr (?m\<lparr>registers := rs\<rparr>)" "length rs = 40"
      "\<forall>j < 40. rs ! j = (if j \<in> set is then 0 else registers ?m ! j)" using Cons.IH [OF p] by blast
  then show ?case using w Cons.prems(2) by (intro exI [of _ rs]) (auto simp: nth_list_update)
qed (intro exI, auto)

lemma InitRegisters_ok:
  assumes "length (registers m) = 40"
  shows "\<exists>rs. InitRegisters sp m = Inr (m\<lparr>registers := rs\<rparr>) \<and> length rs = 40 \<and>
    (\<forall>i < 40. rs ! i = (if i = NextPCReg then 4 else if i = StackReg then numPages sp * 128 - 16 else 0))"
proof -
  have sub: "set [0..<NumTotalRegs] \<subseteq> {..<40}" by (auto simp: NumTotalRegs_def)
  obtain rs where c: "clear_regs [0..<NumTotalRegs] m = Inr (m\<lparr>registers := rs\<rparr>)" "length rs = 40" "\<forall>i < 40. rs ! i = 0"
    using clear_regs_ok [OF sub assms] by (auto simp: NumTotalRegs_def)
  let ?rs = "rs[PCReg := 0, NextPCReg := 4, StackReg := numPages sp * 128 - 16]"
  have "InitRegisters sp m = Inr (m\<lparr>registers := ?rs\<rparr>)"
    using c(1,2) by (simp add: InitRegisters_def WriteRegister_def NumTotalRegs_def)
  moreover have "\<forall>i < 40. ?rs ! i = (if i = NextPCReg then 4 else if i = StackReg then numPages sp * 128 - 16 else 0)"
    using c(2,3) by (auto simp: nth_list_update)
  ultimately show ?thesis using c(2) by (intro exI [of _ ?rs]) simp
qed

lemma Initialize_result:
  assumes "Initialize junk entries ro sp0 = Inr (sp, pt, r)"
  shows "r = 1" "length pt = unat (numPages sp)" "i < length pt \<Longrightarrow> \<not> valid (pt ! i) \<and> \<not> dirty (pt ! i) \<and> readOnly (pt ! i) = ro \<and>
    virtualPage (pt ! i) = word_of_nat i" "executableFile sp = executableFile sp0"
  using assms by (auto simp: Initialize_def Let_def res_simps)

definition blank_space :: "junk_memory \<Rightarrow> addr_space" where
  "blank_space junk = \<lparr>executableFile = [], spaceid = 0, space_size = 0, noffHeader = header_of (junk_header junk), numPages = 0\<rparr>"

text \<open>A new process, none of whose pages is in memory, knows the bytes of its executable.\<close>

lemma fresh_knows:
  assumes "\<not> valid (the_table u ! (i div 128))" "saved (store u) (i div 128) = None" "known_byte (space u) i = Some b"
  shows "knows u i b"
  using assms page_image_known [of _ "space u" i] by (simp add: knows_def fault_image_def)

lemma Table_new_Alloc: "\<exists>t. Table_Alloc (Table_new 100) (Some x) = Inr (t, 0)"
  by (simp add: Table_Alloc_def Table_new_def upto_rec1)

lemma first_release:
  assumes "Table_Alloc (Table_new 100) (Some x) = Inr (t, i)"
  shows "i = 0" "Table_IsEmpty t = Inr False" "Table_Release t 0 = Inl BadAccess"
proof -
  have t: "t = \<lparr>tableSize = 100, allocated = (replicate 100 None)[0 := Some x]\<rparr>" and i: "i = 0"
    using assms by (auto simp: Table_Alloc_def Table_new_def upto_rec1)
  show "i = 0" by (rule i)
  have ok: "table_ok t" by (simp add: t table_ok_def)
  have "0 \<notin> free_slots t" by (simp add: t free_slots_def)
  moreover have "(0 :: int) \<in> {0..<tableSize t}" by (simp add: t)
  ultimately have "free_slots t \<noteq> {0..<tableSize t}" by blast
  then show "Table_IsEmpty t = Inr False" using Table_IsEmpty_ok [OF ok] by simp
  show "Table_Release t 0 = Inl BadAccess" by (simp add: t Table_Release_def aset_def)
qed

text \<open>
  The constructor of the backing store leaves the flags of the pages as the memory was (\<open>junk_flags\<close>). What a
  process starts with depends on the flags of its own pages: a set flag marks a page as saved that is not.
\<close>

definition flags_clear :: "junk_memory \<Rightarrow> addr_space \<Rightarrow> bool" where
  "flags_clear junk sp \<longleftrightarrow> (\<forall>p < unat (numPages sp). \<not> junk_flags junk ! p)"

definition fresh_process :: "junk_memory \<Rightarrow> addr_space \<Rightarrow> os sys \<Rightarrow> bool" where
  "fresh_process junk sp s \<longleftrightarrow> user_ok (process_of s) \<and> length (the_table (process_of s)) = unat (numPages sp) \<and>
     (\<forall>p < unat (numPages sp). \<not> valid (the_table (process_of s) ! p)) \<and> allocated_pages (manager (process_of s)) = {} \<and>
     (\<exists>sid sz. store (process_of s) = BackingStore_new (junk_flags junk) sid sz (int (unat (numPages sp))))"

lemma flagged_page_not_loaded:
  assumes "fresh_process junk sp s" "p < unat (numPages sp)" "junk_flags junk ! p"
  shows "\<exists>u'. PageFaultHandler n random (int p) (process_of s) = Inr u' \<and> mainMemory (mach u') = mainMemory (mach (process_of s))"
proof -
  have f: "user_ok (process_of s)" "p < length (the_table (process_of s))" "\<not> valid (the_table (process_of s) ! p)"
      "allocated_pages (manager (process_of s)) \<noteq> {0..<32}"
    using assms(1,2) by (auto simp: fresh_process_def)
  obtain sid sz where "store (process_of s) = BackingStore_new (junk_flags junk) sid sz (int (length (the_table (process_of s))))"
    using assms(1) by (auto simp: fresh_process_def)
  from stale_flag_skips_load [OF f this assms(3), of n random] show ?thesis by blast
qed

lemma StartProcess_ok:
  assumes "host_file (kernel s) name = Some exe"
    and "Initialize (junk_header junk) (junk_entries junk) False (AddrSpace_new exe (blank_space junk)) = Inr (sp, pt, r)"
    and "header_ok sp" and "unat (numPages sp) \<le> 2 ^ 23" and "unat (numPages sp) \<le> length (junk_flags junk)"
    and "machine_wf (cpu s)" and "tlb (cpu s) = None" and "draws_all n random (unat (numPages sp))"
  shows "\<exists>s'. StartProcess junk jw name s = Inr (Some s') \<and>
    (flags_clear junk sp \<longrightarrow> flat n random s' (map (known_byte sp) [0..<128 * unat (numPages sp)])) \<and> fresh_process junk sp s' \<and>
    reg (cpu s') PCReg = 0 \<and> reg (cpu s') NextPCReg = 4 \<and> reg (cpu s') StackReg = numPages sp * 128 - 16 \<and>
    (\<exists>t u. Table_Alloc (Table_new 100) (Some (current_thread (kernel s))) = Inr (t, 0) \<and>
      kernel s' = (kernel s)\<lparr>process_table := t, current_pid := 0, proc := u\<rparr>)"
proof -
  note I = Initialize_result [OF assms(2)]
  obtain mm where mm: "MemoryManager_new jw 32 = Inr mm" "mm_ok mm" "pageCount mm = 32" "allocated_pages mm = {}"
    using BitMap_new_ok [of 32 jw] by (auto simp: MemoryManager_new_def mm_ok_def allocated_pages_def)
  have len: "length (registers (cpu s)) = 40" using assms(6) by (simp add: machine_wf_def NumTotalRegs_def)
  obtain rs where rs: "InitRegisters sp (cpu s) = Inr ((cpu s)\<lparr>registers := rs\<rparr>)" "length rs = 40"
      "\<forall>i < 40. rs ! i = (if i = NextPCReg then 4 else if i = StackReg then numPages sp * 128 - 16 else 0)"
    using InitRegisters_ok [OF len] by blast
  obtain t where t: "Table_Alloc (Table_new 100) (Some (current_thread (kernel s))) = Inr (t, 0)" using Table_new_Alloc [of "current_thread (kernel s)"] by blast
  define m where "m = (cpu s)\<lparr>registers := rs, pageTable := Some pt, pageTableSize := numPages sp\<rparr>"
  define b where "b = InitializeBackingStore (junk_flags junk) (sp\<lparr>spaceid := 0\<rparr>)"
  define u where "u = (proc (kernel s))\<lparr>manager := mm, mach := m, space := sp\<lparr>spaceid := 0\<rparr>, store := b\<rparr>"
  define s' where "s' = s\<lparr>cpu := m, kernel := (kernel s)\<lparr>process_table := t, current_pid := 0, proc := u\<rparr>\<rparr>"
  have run: "StartProcess junk jw name s = Inr (Some s')"
    using assms(1,2) I(1) mm(1) rs(1) t
    by (simp add: StartProcess_def NumPhysPages_def Let_def on_user_def RestoreState_def flip: blank_space_def)
       (simp add: s'_def u_def m_def b_def)
  have tab: "the_table u = pt" by (simp add: u_def m_def the_table_def)
  have fu: "manager u = mm" "store u = b" "space u = sp\<lparr>spaceid := 0\<rparr>" "mach u = m" by (simp_all add: u_def)
  have pu: "process_of s' = u" by (simp add: process_of_def s'_def u_def)
  have bs: "bstore_array b = take (unat (numPages sp)) (junk_flags junk)" by (simp add: b_def InitializeBackingStore_def BackingStore_new_def)
  have nb: "\<not> bstore_array b ! i" if "i < length pt" "flags_clear junk sp" for i
    using that I(2) by (simp add: bs flags_clear_def)
  have lm: "length (mainMemory (cpu s)) = 4096" using assms(6) by (simp add: machine_wf_def machine_sizes)
  have fo: "frames_ok u" using I(3) by (simp add: frames_ok_def tab)
  have uo: "user_ok u"
    using fo mm(2,3) I(2,3) assms(4,5) lm bs unfolding user_ok_def tab fu by (simp add: m_def)
  have so: "store_ok b" if "flags_clear junk sp" using nb that bs assms(5) I(2) by (simp add: store_ok_def)
  have "owns_frames u" using mm(4) I(3) by (auto simp: owns_frames_def tab fu)
  then have vm: "vm_ok u" if "flags_clear junk sp" using uo so that assms(3) I(3) by (simp add: vm_ok_def tab fu header_ok_def)
  have cs: "tlb (cpu s') = None" using assms(7) by (simp add: s'_def m_def)
  have wf: "machine_wf (cpu s')" using assms(6,7) rs(2,3) I(2) lm
    by (simp add: machine_wf_def s'_def m_def reg_def machine_sizes NumTotalRegs_def)
  have kb: "known_byte (space u) i = known_byte sp i" for i by (simp add: known_byte_def fu Let_def cong: if_cong option.case_cong)
  have kn: "knows u i b'" if "i < 128 * length pt" "known_byte sp i = Some b'" "flags_clear junk sp" for i b'
  proof (rule fresh_knows)
    have "i div 128 < length pt" using that(1) by (simp add: less_mult_imp_div_less mult.commute)
    then show "\<not> valid (the_table u ! (i div 128))" "saved (store u) (i div 128) = None"
      using I(3) nb that(3) by (simp_all add: tab saved_def fu)
    show "known_byte (space u) i = Some b'" using that(2) kb by simp
  qed
  have "flags_clear junk sp \<longrightarrow> flat n random s' (map (known_byte sp) [0..<128 * unat (numPages sp)])"
    using kn vm assms(8) wf I(2) cs unfolding flat_def pu tab by simp
  moreover have "\<exists>t u. Table_Alloc (Table_new 100) (Some (current_thread (kernel s))) = Inr (t, 0) \<and>
      kernel s' = (kernel s)\<lparr>process_table := t, current_pid := 0, proc := u\<rparr>" using t by (auto simp: s'_def)
  moreover have "fresh_process junk sp s'"
  proof -
    have "b = BackingStore_new (junk_flags junk) 0 (space_size sp) (int (unat (numPages sp)))" by (simp add: b_def InitializeBackingStore_def)
    moreover have "\<forall>p < unat (numPages sp). \<not> valid (pt ! p)" using I(2,3) by simp
    ultimately show ?thesis using I(2) uo mm(4) unfolding fresh_process_def pu tab fu by blast
  qed
  ultimately show ?thesis using run rs(3) by (intro exI [of _ s']) (simp add: reg_def, simp add: s'_def m_def)
qed

text \<open>A sample: 128 bytes of code from address 0, and the system before the first process.\<close>

definition sample_exe :: "8 word list" where
  "sample_exe = [0xad, 0xdf, 0xba, 0] @ replicate 4 0 @ [40, 0, 0, 0] @ [128, 0, 0, 0] @ replicate 24 0 @
    replicate 20 9 @ [97, 98, 99, 0] @ replicate 104 9"

definition sample_junk :: junk_memory where
  "sample_junk = \<lparr>junk_header = replicate 40 0, junk_entries = (\<lambda>_. \<lparr>virtualPage = 0, physicalPage = 0, valid = True, readOnly = True,
     use_bit = True, dirty = True\<rparr>), junk_flags = replicate 100 False, junk_val = 1\<rparr>"

definition sample_system :: "os sys" where
  "sample_system = \<lparr>cpu = \<lparr>mainMemory = replicate 4096 7, registers = replicate 40 0, tlb = None, pageTable = Some [],
       pageTableSize = 0, singleStep = False\<rparr>, status = SystemMode,
     kernel = \<lparr>proc = sample_user 0 False, process_table = Table_new 100, current_pid = 0, next_thread = 1, current_thread = 0,
       console_in = [104, 105], console_out = [], host_file = (\<lambda>nm. if nm = [97] then Some sample_exe else None), forked = []\<rparr>\<rparr>"

lemma draws_all_successive: "0 < len \<Longrightarrow> draws_all len (\<lambda>i. i) len"
  unfolding draws_all_def
proof (intro allI impI)
  fix k p assume p: "0 < len" "p < len"
  let ?m = "(p + (len - k mod len)) mod len"
  have "(k + ?m) mod len = (k mod len + (p + (len - k mod len))) mod len" by (simp add: mod_simps)
  also have "k mod len + (p + (len - k mod len)) = p + len" using mod_less_divisor [OF p(1), of k] by linarith
  finally show "\<exists>m < len. (k + m) mod len = p" using p by (intro exI [of _ ?m]) simp
qed

definition sample_sp :: addr_space where
  "sample_sp = \<lparr>executableFile = sample_exe, spaceid = -1, space_size = 1152,
     noffHeader = \<lparr>noffMagic = NOFFMAGIC, code = \<lparr>virtualAddr = 0, inFileAddr = 40, seg_size = 128\<rparr>,
       initData = \<lparr>virtualAddr = 0, inFileAddr = 0, seg_size = 0\<rparr>, uninitData = \<lparr>virtualAddr = 0, inFileAddr = 0, seg_size = 0\<rparr>\<rparr>,
     numPages = 9\<rparr>"

lemma sample_Initialize:
  "\<exists>pt. Initialize (junk_header sample_junk) (junk_entries sample_junk) False (AddrSpace_new sample_exe (blank_space sample_junk)) = Inr (sample_sp, pt, 1)"
proof -
  have h: "header_of (blit (replicate 40 0) 0 (slice sample_exe 0 40)) = noffHeader sample_sp" by code_simp
  have n: "divRoundUp_u (128 + 1024) 128 = 9" by code_simp
  show ?thesis
    using h n by (simp add: Initialize_def stub_ReadAt_def AddrSpace_new_def sample_junk_def Let_def blank_space_def)
       (simp add: sample_sp_def UserStackSize_def)
qed

lemma sample_start:
  "host_file (kernel sample_system) [97] = Some sample_exe" "header_ok sample_sp" "unat (numPages sample_sp) = 9"
  "unat (numPages sample_sp) \<le> 2 ^ 23" "unat (numPages sample_sp) \<le> length (junk_flags sample_junk)"
  "machine_wf (cpu sample_system)" "tlb (cpu sample_system) = None" "draws_all 9 (\<lambda>i. i) (unat (numPages sample_sp))"
  "flags_clear sample_junk sample_sp"
  using draws_all_successive [of 9]
  by (simp_all add: sample_system_def header_ok_def sample_sp_def seg_ok_def sample_junk_def flags_clear_def machine_wf_def reg_def machine_sizes NumTotalRegs_def)

lemma sample_started:
  "\<exists>s0 t. StartProcess sample_junk (\<lambda>_. 0) [97] sample_system = Inr (Some s0) \<and>
     flat 9 (\<lambda>i. i) s0 (map (known_byte sample_sp) [0..<1152]) \<and> console_in (kernel s0) = [104, 105] \<and> console_out (kernel s0) = [] \<and>
     current_pid (kernel s0) = 0 \<and> process_table (kernel s0) = t \<and> Table_Alloc (Table_new 100) (Some 0) = Inr (t, 0) \<and>
     \<not> valid (the_table (process_of s0) ! 0)"
proof -
  obtain pt where i: "Initialize (junk_header sample_junk) (junk_entries sample_junk) False (AddrSpace_new sample_exe (blank_space sample_junk)) =
      Inr (sample_sp, pt, 1)" using sample_Initialize by blast
  obtain s0 t u where s: "StartProcess sample_junk (\<lambda>_. 0) [97] sample_system = Inr (Some s0)"
      "flat 9 (\<lambda>i. i) s0 (map (known_byte sample_sp) [0..<128 * unat (numPages sample_sp)])"
      "fresh_process sample_junk sample_sp s0"
      "Table_Alloc (Table_new 100) (Some (current_thread (kernel sample_system))) = Inr (t, 0)"
      "kernel s0 = (kernel sample_system)\<lparr>process_table := t, current_pid := 0, proc := u\<rparr>"
    using StartProcess_ok [OF sample_start(1) i sample_start(2,4-8), of "\<lambda>_. 0"] sample_start(9) by blast
  have k: "console_in (kernel sample_system) = [104, 105]" "console_out (kernel sample_system) = []" "current_thread (kernel sample_system) = 0"
    by (simp_all add: sample_system_def)
  show ?thesis using s k sample_start(3) by (intro exI [of _ s0] exI [of _ t]) (simp add: fresh_process_def)
qed

text \<open>
  C9: \<open>StartProcess\<close> on an executable that can be opened and initialized leaves registers as for the start
  of a program and no page in memory. Its memory then depends on the flags which the constructor of the backing
  store does not clear. If those of the pages of the process are clear, the memory, seen through demand paging, is an array
  that knows every byte which the segments of the executable determine and zero in the pages outside them. A page whose flag
  is set is not loaded: the fault on it succeeds, with no byte of the memory changed. The segments of the header are in range
  (\<open>header_ok\<close>), and \<open>Random\<close> draws every page (\<open>draws_all\<close>).
\<close>

theorem StartProcess_flat:
  assumes "host_file (kernel s) name = Some exe"
    and "Initialize (junk_header junk) (junk_entries junk) False (AddrSpace_new exe (blank_space junk)) = Inr (sp, pt, r)"
    and "header_ok sp" and "unat (numPages sp) \<le> 2 ^ 23" and "unat (numPages sp) \<le> length (junk_flags junk)"
    and "machine_wf (cpu s)" and "tlb (cpu s) = None" and "draws_all n random (unat (numPages sp))"
  shows "\<exists>s'. StartProcess junk jw name s = Inr (Some s') \<and>
    reg (cpu s') PCReg = 0 \<and> reg (cpu s') NextPCReg = 4 \<and> reg (cpu s') StackReg = numPages sp * 128 - 16 \<and>
    (\<forall>p < unat (numPages sp). \<not> valid (the_table (process_of s') ! p)) \<and>
    ((\<forall>p < unat (numPages sp). \<not> junk_flags junk ! p) \<longrightarrow> flat n random s' (map (known_byte sp) [0..<128 * unat (numPages sp)])) \<and>
    (\<forall>p < unat (numPages sp). junk_flags junk ! p \<longrightarrow>
      (\<exists>u'. PageFaultHandler n random (int p) (process_of s') = Inr u' \<and> mainMemory (mach u') = mainMemory (mach (process_of s'))))"
proof -
  obtain s' where s': "StartProcess junk jw name s = Inr (Some s')" "fresh_process junk sp s'"
      "flags_clear junk sp \<longrightarrow> flat n random s' (map (known_byte sp) [0..<128 * unat (numPages sp)])"
      "reg (cpu s') PCReg = 0" "reg (cpu s') NextPCReg = 4" "reg (cpu s') StackReg = numPages sp * 128 - 16"
    using StartProcess_ok [OF assms, of jw] by blast
  have "\<forall>p < unat (numPages sp). \<not> valid (the_table (process_of s') ! p)" using s'(2) unfolding fresh_process_def by blast
  then show ?thesis using s'(1,4-6) s'(3) [unfolded flags_clear_def] flagged_page_not_loaded [OF s'(2)] by (intro exI [of _ s'] conjI) blast+
qed

theorem StartProcess_flat_witness:
  "\<exists>s'. StartProcess sample_junk (\<lambda>_. 0) [97] sample_system = Inr (Some s') \<and>
     flat 9 (\<lambda>i. i) s' (map (known_byte sample_sp) [0..<1152]) \<and> known_byte sample_sp 5 = Some 9 \<and> known_byte sample_sp 300 = Some 0"
proof -
  obtain pt where i: "Initialize (junk_header sample_junk) (junk_entries sample_junk) False (AddrSpace_new sample_exe (blank_space sample_junk)) =
      Inr (sample_sp, pt, 1)" using sample_Initialize by blast
  have f: "\<forall>p < unat (numPages sample_sp). \<not> junk_flags sample_junk ! p" using sample_start(9) by (simp add: flags_clear_def)
  have "known_byte sample_sp 5 = Some 9" "known_byte sample_sp 300 = Some 0" by code_simp+
  then show ?thesis using StartProcess_flat [OF sample_start(1) i sample_start(2,4-8), of "\<lambda>_. 0"] f by (simp add: sample_start(3)) blast
qed

text \<open>
  C3: under demand paging every sequence of copies from and to the memory of a process, with whatever page
  faults and evictions they cause, returns and behaves as on one array: what is read agrees with
  every byte that the process has written or its executable determines.
\<close>

theorem memory_is_array:
  assumes "flat n random s a" and "\<forall>op \<in> set ops. in_space (length a) op"
  shows "\<exists>s' outs. run_ops (copy_step (kernel_trap n random)) s ops = Inr (s', outs) \<and>
    list_all2 agrees outs (snd (spec_ops copy_spec a ops)) \<and> flat n random s' (fst (spec_ops copy_spec a ops))"
  using vm.matching_run [OF conjI [OF assms(1) refl] assms(2)] by blast

theorem memory_is_array_witness:
  "\<exists>s0 s' o1 o2 o3. StartProcess sample_junk (\<lambda>_. 0) [97] sample_system = Inr (Some s0) \<and>
     run_ops (copy_step (kernel_trap 9 (\<lambda>i. i))) s0 [Fetch 120 8, Store 126 [1, 2, 3, 4], Fetch 124 6] = Inr (s', [o1, o2, o3]) \<and>
     agrees o1 (replicate 8 (Some 9)) \<and> agrees o3 [Some 9, Some 9, Some 1, Some 2, Some 3, Some 4]"
proof -
  let ?ops = "[Fetch 120 8, Store 126 [1, 2, 3, 4], Fetch 124 6]"
  let ?a = "map (known_byte sample_sp) [0..<1152]"
  obtain s0 where s0: "StartProcess sample_junk (\<lambda>_. 0) [97] sample_system = Inr (Some s0)" "flat 9 (\<lambda>i. i) s0 ?a"
    using sample_started by blast
  have k: "map (known_byte sample_sp) [120..<128] = replicate 8 (Some 9)" "map (known_byte sample_sp) [124..<126] = [Some 9, Some 9]"
    by code_simp+
  have "slice ?a 120 8 = map (known_byte sample_sp) [120..<128]"
    by (simp only: slice_def drop_map take_map drop_upt take_upt) simp
  moreover have "slice (blit ?a 126 (map Some [1, 2, 3, 4])) 124 6 = map (known_byte sample_sp) [124..<126] @ [Some 1, Some 2, Some 3, Some 4]"
    by (simp only: slice_def blit_def drop_map take_map drop_upt take_upt drop_append) (simp add: drop_map take_map)
  ultimately have "snd (spec_ops copy_spec ?a ?ops) = [replicate 8 (Some 9), [], [Some 9, Some 9, Some 1, Some 2, Some 3, Some 4]]"
    by (simp add: k del: upt_rec_numeral)
  moreover have "\<forall>op \<in> set ?ops. in_space (length ?a) op" by simp
  ultimately show ?thesis using memory_is_array [OF s0(2), of ?ops] s0(1) by (auto simp: list_all2_Cons2 list_all2_Nil2)
qed

section \<open>Read and Write\<close>

lemma WriteRegister_flat:
  assumes fl: "flat n random s a" and r: "i < 40" "i \<noteq> LoadReg"
  shows "WriteRegister (cpu s) (int i) v = Inr (set_reg i v (cpu s))" "flat n random (s\<lparr>cpu := set_reg i v (cpu s)\<rparr>) a"
proof -
  have w: "machine_wf (cpu s)" using fl by (simp add: flat_def)
  then have l: "length (registers (cpu s)) = 40" by (simp add: machine_wf_def NumTotalRegs_def)
  then show "WriteRegister (cpu s) (int i) v = Inr (set_reg i v (cpu s))"
    using r by (simp add: WriteRegister_def set_reg_def NumTotalRegs_def)
  have p: "process_of (s\<lparr>cpu := set_reg i v (cpu s)\<rparr>) = (process_of s)\<lparr>mach := set_reg i v (cpu s)\<rparr>"
    "mainMemory (set_reg i v (cpu s)) = mainMemory (mach (process_of s))" "pageTable (set_reg i v (cpu s)) = pageTable (mach (process_of s))"
    by (simp_all add: process_of_def)
  note v = vm_ok_mach [OF p(2,3), folded p(1)]
  show "flat n random (s\<lparr>cpu := set_reg i v (cpu s)\<rparr>) a" using fl r unfolding flat_def v by simp
qed

text \<open>The program counters after a system call.\<close>

definition advanced :: "machine \<Rightarrow> machine \<Rightarrow> bool" where
  "advanced m m' \<longleftrightarrow> reg m' PrevPCReg = reg m PCReg \<and> reg m' PCReg = reg m NextPCReg \<and> reg m' NextPCReg = reg m NextPCReg + 4"

lemma then_advance_ok:
  assumes fl: "flat n random s a"
  shows "\<exists>s'. then_advance (Inr s) = Inr (Resumed, s') \<and> flat n random s' a \<and> advanced (cpu s) (cpu s') \<and>
    kernel s' = kernel s \<and> reg (cpu s') 2 = reg (cpu s) 2"
proof -
  let ?m = "cpu s"
  let ?m1 = "set_reg PrevPCReg (reg ?m PCReg) ?m"
  let ?m2 = "set_reg PCReg (reg ?m NextPCReg) ?m1"
  let ?m3 = "set_reg NextPCReg (reg ?m NextPCReg + 4) ?m2"
  have f1: "flat n random (s\<lparr>cpu := ?m1\<rparr>) a" using WriteRegister_flat(2) [OF fl, of PrevPCReg] by simp
  have f2: "flat n random (s\<lparr>cpu := ?m2\<rparr>) a" using WriteRegister_flat(2) [OF f1, of PCReg] by simp
  have f3: "flat n random (s\<lparr>cpu := ?m3\<rparr>) a" using WriteRegister_flat(2) [OF f2, of NextPCReg] by simp
  have l: "length (registers ?m) = 40" using fl by (simp add: flat_def machine_wf_def NumTotalRegs_def)
  have "increase_program_counter ?m = Inr ?m3"
    using l by (simp add: increase_program_counter_def ReadRegister_def WriteRegister_def NumTotalRegs_def set_reg_def reg_def)
  then have "then_advance (Inr s) = Inr (Resumed, s\<lparr>cpu := ?m3\<rparr>)" by (simp add: then_advance_def on_cpu_def)
  moreover have "advanced ?m ?m3" "reg ?m3 2 = reg ?m 2" using l by (simp_all add: advanced_def reg_set_reg)
  ultimately show ?thesis using f3 by (intro exI [of _ "s\<lparr>cpu := ?m3\<rparr>"]) simp
qed

lemma ReadRegister_flat: "flat n random s a \<Longrightarrow> i < 40 \<Longrightarrow> ReadRegister (cpu s) (int i) = Inr (reg (cpu s) i)"
  by (simp add: flat_def machine_wf_def ReadRegister_def NumTotalRegs_def reg_def)

lemma syscall_registers:
  assumes "flat n random s a"
  shows "ReadRegister (cpu s) 2 = Inr (reg (cpu s) 2)" "ReadRegister (cpu s) 4 = Inr (reg (cpu s) 4)"
    "ReadRegister (cpu s) 5 = Inr (reg (cpu s) 5)" "ReadRegister (cpu s) 6 = Inr (reg (cpu s) 6)"
  using ReadRegister_flat [OF assms, of 2] ReadRegister_flat [OF assms, of 4] ReadRegister_flat [OF assms, of 5]
    ReadRegister_flat [OF assms, of 6] by simp_all

lemma console_put_all: "fold console_put bs s = s\<lparr>kernel := (kernel s)\<lparr>console_out := console_out (kernel s) @ bs\<rparr>\<rparr>"
  by (induction bs arbitrary: s) (simp_all add: console_put_def)

lemma flat_kernel: "flat n random s a \<Longrightarrow> proc k = proc (kernel s) \<Longrightarrow> flat n random (s\<lparr>kernel := k\<rparr>) a"
  by (simp add: flat_def process_of_def)

text \<open>
  C19: a system call \<open>Write\<close> to the console with a buffer inside the address space prints the bytes of the
  process's memory, in order and each once, even if pages of the buffer have to be loaded, and goes on
  after the call. A negative size or another file prints nothing.
\<close>

theorem Write_prints_memory:
  assumes "flat n random s a" and "reg (cpu s) 2 = SC_Write" and "unat (reg (cpu s) 4) + nat (sint (reg (cpu s) 5)) \<le> length a"
  shows "\<exists>s' out. ExceptionHandler n random junk others SyscallException s = Inr (Resumed, s') \<and> flat n random s' a \<and>
    advanced (cpu s) (cpu s') \<and> console_out (kernel s') = console_out (kernel s) @ out \<and>
    (if 0 \<le> sint (reg (cpu s) 5) \<and> reg (cpu s) 6 = ConsoleOutput
     then list_all2 fits out (slice a (unat (reg (cpu s) 4)) (nat (sint (reg (cpu s) 5)))) else out = [])"
proof -
  note r = syscall_registers [OF assms(1)]
  have e: "ExceptionHandler n random junk others SyscallException s = then_advance (syscall_write (kernel_trap n random) s)"
    by (simp add: ExceptionHandler_def r assms(2) Let_def) (simp add: SC_Write_def SC_Exec_def SC_Exit_def SC_Open_def SC_Read_def)
  show ?thesis
  proof (cases "0 \<le> sint (reg (cpu s) 5) \<and> reg (cpu s) 6 = ConsoleOutput")
    case True
    obtain s1 out where b: "read_buffer (kernel_trap n random) (reg (cpu s) 4) (nat (sint (reg (cpu s) 5))) s = Inr (s1, Some out)"
        "list_all2 fits out (slice a (unat (reg (cpu s) 4)) (nat (sint (reg (cpu s) 5))))" "flat n random s1 a" "same_kernel s s1"
      using read_buffer_ok [OF assms(1,3)] by blast
    let ?s2 = "s1\<lparr>kernel := (kernel s1)\<lparr>console_out := console_out (kernel s1) @ out\<rparr>\<rparr>"
    have "flat n random ?s2 a" by (rule flat_kernel [OF b(3)]) simp
    then obtain s' where s': "then_advance (Inr ?s2) = Inr (Resumed, s')" "flat n random s' a" "advanced (cpu ?s2) (cpu s')" "kernel s' = kernel ?s2"
      using then_advance_ok by blast
    have "syscall_write (kernel_trap n random) s = Inr ?s2" using True b(1) by (simp add: syscall_write_def r console_put_all)
    moreover have "advanced (cpu s) (cpu s')" "console_out (kernel s') = console_out (kernel s) @ out"
      using s'(3,4) b(4) by (auto simp: advanced_def same_kernel_def)
    ultimately show ?thesis using e True b(2) s'(1,2) by auto
  next
    case False
    then have "syscall_write (kernel_trap n random) s = Inr s" by (auto simp: syscall_write_def r)
    then show ?thesis using e False then_advance_ok [OF assms(1)] by auto
  qed
qed

lemma console_get_ok: "k \<le> length (console_in (kernel s)) \<Longrightarrow>
    console_get k s = Inr (s\<lparr>kernel := (kernel s)\<lparr>console_in := drop k (console_in (kernel s))\<rparr>\<rparr>, take k (console_in (kernel s)))"
proof (induction k arbitrary: s)
  case (Suc k)
  then obtain c cs where c: "console_in (kernel s) = c # cs" by (cases "console_in (kernel s)") auto
  then show ?case using Suc.IH [of "s\<lparr>kernel := (kernel s)\<lparr>console_in := cs\<rparr>\<rparr>"] Suc.prems by simp
qed simp

lemma set_r2_ok:
  assumes "flat n random s a"
  shows "set_r2 v s = Inr (s\<lparr>cpu := set_reg 2 v (cpu s)\<rparr>)" "flat n random (s\<lparr>cpu := set_reg 2 v (cpu s)\<rparr>) a"
    "reg (set_reg 2 v (cpu s)) 2 = v" "advanced (set_reg 2 v (cpu s)) m = advanced (cpu s) m"
proof -
  have "length (registers (cpu s)) = 40" using assms by (simp add: flat_def machine_wf_def NumTotalRegs_def)
  then show "reg (set_reg 2 v (cpu s)) 2 = v" "advanced (set_reg 2 v (cpu s)) m = advanced (cpu s) m"
    by (simp_all add: reg_set_reg advanced_def)
  show "set_r2 v s = Inr (s\<lparr>cpu := set_reg 2 v (cpu s)\<rparr>)" "flat n random (s\<lparr>cpu := set_reg 2 v (cpu s)\<rparr>) a"
    using WriteRegister_flat [OF assms, of 2] by (simp_all add: set_r2_def on_cpu_def)
qed

text \<open>
  C20: a system call \<open>Read\<close> from the console with a buffer inside the address space and enough input stores the next
  bytes of the input in the process's memory, returns their number in register 2 and changes no other known byte of the memory;
  with a negative size or another file it returns 0 and takes no input.
\<close>

theorem Read_fills_memory:
  assumes "flat n random s a" and "reg (cpu s) 2 = SC_Read" and "unat (reg (cpu s) 4) + nat (sint (reg (cpu s) 5)) \<le> length a"
    and "nat (sint (reg (cpu s) 5)) \<le> length (console_in (kernel s))"
  shows "\<exists>s'. ExceptionHandler n random junk others SyscallException s = Inr (Resumed, s') \<and> advanced (cpu s) (cpu s') \<and>
    (if 0 \<le> sint (reg (cpu s) 5) \<and> reg (cpu s) 6 = ConsoleInput
     then flat n random s' (blit a (unat (reg (cpu s) 4)) (map Some (take (nat (sint (reg (cpu s) 5))) (console_in (kernel s))))) \<and>
       reg (cpu s') 2 = reg (cpu s) 5 \<and> console_in (kernel s') = drop (nat (sint (reg (cpu s) 5))) (console_in (kernel s))
     else flat n random s' a \<and> reg (cpu s') 2 = 0 \<and> console_in (kernel s') = console_in (kernel s))"
proof -
  let ?h = "kernel_trap n random" and ?k = "nat (sint (reg (cpu s) 5))" and ?in = "console_in (kernel s)"
  note r = syscall_registers [OF assms(1)]
  have e: "ExceptionHandler n random junk others SyscallException s = then_advance (syscall_read ?h s)"
    by (simp add: ExceptionHandler_def r assms(2) Let_def) (simp add: SC_Exec_def SC_Exit_def SC_Open_def SC_Read_def)
  show ?thesis
  proof (cases "0 \<le> sint (reg (cpu s) 5) \<and> reg (cpu s) 6 = ConsoleInput")
    case True
    let ?s1 = "s\<lparr>kernel := (kernel s)\<lparr>console_in := drop ?k ?in\<rparr>\<rparr>"
    have f1: "flat n random ?s1 a" by (rule flat_kernel [OF assms(1)]) simp
    obtain s2 where s2: "write_buffer ?h (take ?k ?in) (reg (cpu s) 4) ?s1 = Inr (s2, True)"
        "flat n random s2 (blit a (unat (reg (cpu s) 4)) (map Some (take ?k ?in)))" "same_kernel ?s1 s2"
      using write_buffer_ok [OF f1, of "reg (cpu s) 4" "take ?k ?in"] assms(3,4) by auto
    note w = set_r2_ok [OF s2(2), of "reg (cpu s) 5"]
    obtain s' where s': "then_advance (Inr (s2\<lparr>cpu := set_reg 2 (reg (cpu s) 5) (cpu s2)\<rparr>)) = Inr (Resumed, s')"
        "flat n random s' (blit a (unat (reg (cpu s) 4)) (map Some (take ?k ?in)))" "advanced (cpu s2) (cpu s')"
        "kernel s' = kernel s2" "reg (cpu s') 2 = reg (cpu s) 5"
      using then_advance_ok [OF w(2)] w(3,4) by auto
    have "syscall_read ?h s = Inr (s2\<lparr>cpu := set_reg 2 (reg (cpu s) 5) (cpu s2)\<rparr>)"
      using True s2(1) w(1) by (simp add: syscall_read_def r console_get_ok [OF assms(4)])
    moreover have "advanced (cpu s) (cpu s')" "console_in (kernel s') = drop ?k ?in"
      using s'(3,4) s2(3) by (auto simp: advanced_def same_kernel_def)
    ultimately show ?thesis using e True s'(1,2,5) by auto
  next
    case False
    then have "syscall_read ?h s = set_r2 0 s" by (auto simp: syscall_read_def r)
    moreover note w = set_r2_ok [OF assms(1), of 0]
    ultimately show ?thesis using e False then_advance_ok [OF w(2)] w by auto
  qed
qed

text \<open>A started process about to make a system call.\<close>

lemma calling:
  assumes "flat n random s0 a"
  shows "\<exists>s. flat n random s a \<and> kernel s = kernel s0 \<and> reg (cpu s) 2 = w \<and> reg (cpu s) 4 = x \<and> reg (cpu s) 5 = y \<and> reg (cpu s) 6 = z"
proof -
  let ?m1 = "set_reg 2 w (cpu s0)"
  let ?m2 = "set_reg 4 x ?m1"
  let ?m3 = "set_reg 5 y ?m2"
  let ?m4 = "set_reg 6 z ?m3"
  have f1: "flat n random (s0\<lparr>cpu := ?m1\<rparr>) a" using WriteRegister_flat(2) [OF assms, of 2] by simp
  have f2: "flat n random (s0\<lparr>cpu := ?m2\<rparr>) a" using WriteRegister_flat(2) [OF f1, of 4] by simp
  have f3: "flat n random (s0\<lparr>cpu := ?m3\<rparr>) a" using WriteRegister_flat(2) [OF f2, of 5] by simp
  have f4: "flat n random (s0\<lparr>cpu := ?m4\<rparr>) a" using WriteRegister_flat(2) [OF f3, of 6] by simp
  have "length (registers (cpu s0)) = 40" using assms by (simp add: flat_def machine_wf_def NumTotalRegs_def)
  then have "reg ?m4 2 = w \<and> reg ?m4 4 = x \<and> reg ?m4 5 = y \<and> reg ?m4 6 = z" by (simp add: reg_set_reg)
  then show ?thesis using f4 by (intro exI [of _ "s0\<lparr>cpu := ?m4\<rparr>"]) simp
qed

theorem Write_prints_memory_witness:
  "\<exists>s s' out. ExceptionHandler 9 (\<lambda>i. i) sample_junk (\<lambda>s. s) SyscallException s = Inr (Resumed, s') \<and> console_out (kernel s') = out \<and>
     out = [9, 9, 9]"
proof -
  let ?a = "map (known_byte sample_sp) [0..<1152]"
  obtain s0 where s0: "flat 9 (\<lambda>i. i) s0 ?a" "console_out (kernel s0) = []" using sample_started by blast
  obtain s where s: "flat 9 (\<lambda>i. i) s ?a" "kernel s = kernel s0" "reg (cpu s) 2 = SC_Write" "reg (cpu s) 4 = 10" "reg (cpu s) 5 = 3"
      "reg (cpu s) 6 = ConsoleOutput" using calling [OF s0(1)] by blast
  have "slice ?a 10 3 = map (known_byte sample_sp) [10..<13]" by (simp only: slice_def drop_map take_map drop_upt take_upt) simp
  also have "\<dots> = [Some 9, Some 9, Some 9]" by code_simp
  finally have sl: "slice ?a 10 3 = [Some 9, Some 9, Some 9]" .
  show ?thesis
    using Write_prints_memory [OF s(1,3), of sample_junk "\<lambda>s. s"] s(2,4-6) s0(2) sl
    by (auto simp: list_all2_Cons2 list_all2_Nil2 fits_def ConsoleOutput_def)
qed

theorem Read_fills_memory_witness:
  "\<exists>s s'. ExceptionHandler 9 (\<lambda>i. i) sample_junk (\<lambda>s. s) SyscallException s = Inr (Resumed, s') \<and> reg (cpu s') 2 = 2 \<and>
     flat 9 (\<lambda>i. i) s' (blit (map (known_byte sample_sp) [0..<1152]) 500 [Some 104, Some 105])"
proof -
  let ?a = "map (known_byte sample_sp) [0..<1152]"
  obtain s0 where s0: "flat 9 (\<lambda>i. i) s0 ?a" "console_in (kernel s0) = [104, 105]" using sample_started by blast
  obtain s where s: "flat 9 (\<lambda>i. i) s ?a" "kernel s = kernel s0" "reg (cpu s) 2 = SC_Read" "reg (cpu s) 4 = 500" "reg (cpu s) 5 = 2"
      "reg (cpu s) 6 = ConsoleInput" using calling [OF s0(1)] by blast
  show ?thesis
    using Read_fills_memory [OF s(1,3), of sample_junk "\<lambda>s. s"] s(2,4-6) s0(2) by auto
qed

section \<open>Exec\<close>

declare read_name.simps [simp del]

text \<open>The name is read correctly as long as its page is in memory and \<open>val\<close> is not zero before.\<close>

lemma read_name_valid:
  assumes "flat n random s a" and "valid (the_table (process_of s) ! p)" and "v \<noteq> 0" and "0 \<notin> set cs"
    and "128 * p \<le> unat addr" and "unat addr + length cs < 128 * p + 128" and "unat addr + length cs < length a"
    and "\<forall>j \<le> length cs. a ! (unat addr + j) = Some ((cs @ [0]) ! j)" and "i + length cs < length nm"
  shows "\<exists>s'. read_name (kernel_trap n random) addr v i nm s = Inr (blit nm i (cs @ [0]), Suc (i + length cs), s')"
  using assms
proof (induction cs arbitrary: addr v i nm s)
  case Nil
  then have p: "unat addr div 128 = p" by (simp add: div_nat_eqI)
  obtain s' c where r: "ReadMem (kernel_trap n random) addr 1 s = Inr (s', Some (scast (c :: 8 word)))" "a ! unat addr = Some 0 \<longrightarrow> c = 0"
    using ReadMem_byte [OF Nil(1), of addr "kernel_trap n random"] Nil(2,7) p by auto
  have "c = 0" using r(2) Nil(8) by simp
  then have "read_name (kernel_trap n random) addr v i nm s = read_name (kernel_trap n random) (addr + 1) 0 (Suc i) (nm[i := 0]) s'"
    using Nil(3,9) r(1) by (subst read_name.simps) simp
  also have "\<dots> = Inr (nm[i := 0], Suc i, s')" by (subst read_name.simps) simp
  finally show ?case using Nil(9) by (simp add: blit_Cons)
next
  case (Cons c cs)
  then have p: "unat addr div 128 = p" by (simp add: div_nat_eqI)
  obtain s' c' where r: "ReadMem (kernel_trap n random) addr 1 s = Inr (s', Some (scast (c' :: 8 word)))" "a ! unat addr = Some c \<longrightarrow> c' = c"
      "flat n random s' a" "valid (the_table (process_of s') ! p)"
    using ReadMem_byte [OF Cons.prems(1), of addr "kernel_trap n random"] Cons.prems(2,7) p by auto
  have "a ! (unat addr + 0) = Some (((c # cs) @ [0]) ! 0)" using Cons.prems(8) by blast
  then have c: "c' = c" "c \<noteq> 0" using r(2) Cons.prems(4) by simp_all
  have small: "unat addr < 2 ^ 30" using Cons.prems(7) flat_small [OF Cons.prems(1)] by simp
  have "(scast c :: 32 word) \<noteq> 0" using c(2) char_of_int(2) [of c] by (metis unsigned_0)
  moreover have "\<forall>j \<le> length cs. a ! (unat (addr + 1) + j) = Some ((cs @ [0]) ! j)"
  proof (intro allI impI)
    fix j assume "j \<le> length cs"
    then have "a ! (unat addr + Suc j) = Some (((c # cs) @ [0]) ! Suc j)" using Cons.prems(8) by fastforce
    then show "a ! (unat (addr + 1) + j) = Some ((cs @ [0]) ! j)" by (simp add: next_addr [OF small])
  qed
  ultimately obtain s2 where "read_name (kernel_trap n random) (addr + 1) (scast c) (Suc i) (nm[i := c]) s' =
      Inr (blit (nm[i := c]) (Suc i) (cs @ [0]), Suc (Suc i + length cs), s2)"
    using Cons.IH [OF r(3,4), of "scast c" "addr + 1" "Suc i" "nm[i := c]"] Cons.prems(4-7,9) by (auto simp: next_addr [OF small])
  moreover have "read_name (kernel_trap n random) addr v i nm s = read_name (kernel_trap n random) (addr + 1) (scast c) (Suc i) (nm[i := c]) s'"
    using Cons.prems(3,9) r(1) c(1) by (subst read_name.simps) simp
  ultimately show ?case using Cons.prems(9) by (simp add: blit_Cons)
qed

text \<open>
  C33: the name that \<open>Exec\<close> reads when its page is not in memory. The result of the first \<open>ReadMem\<close>, which
  raises the page fault, is not looked at: the first byte becomes what the uninitialised \<open>val\<close> held and
  the first byte of the name is skipped. If \<open>val\<close> happens to be zero, the name is empty.
\<close>

theorem Exec_garbles_name:
  assumes "flat n random s a" and "\<not> valid (the_table (process_of s) ! (unat addr div 128))" and "0 \<notin> set cs"
    and "unat addr mod 128 + Suc (length cs) < 128" and "unat addr + Suc (length cs) < length a" and "length cs + 2 \<le> 100"
    and "\<forall>j \<le> Suc (length cs). a ! (unat addr + j) = Some ((c # cs @ [0]) ! j)" and "(ucast v :: 8 word) \<noteq> 0"
  shows "(\<exists>s' nm. read_name (kernel_trap n random) addr v 0 (replicate 100 0) s = Inr (nm, length cs + 2, s') \<and>
      takeWhile (\<lambda>b. b \<noteq> 0) nm = ucast v # cs) \<and>
    (\<exists>nm. read_name (kernel_trap n random) addr 0 0 (replicate 100 0) s = Inr (nm, 0, s) \<and> takeWhile (\<lambda>b. b \<noteq> 0) nm = [])"
proof
  let ?p = "unat addr div 128" and ?nm = "(replicate 100 0)[0 := ucast v] :: 8 word list"
  have addr: "unat addr < length a" "unat addr < 2 ^ 30" using assms(5) flat_small [OF assms(1)] by simp_all
  obtain s1 where s1: "ReadMem (kernel_trap n random) addr 1 s = Inr (s1, None)" "flat n random s1 a" "valid (the_table (process_of s1) ! ?p)"
    using fault_access [OF assms(1) addr(1) assms(2)] by blast
  have v: "v \<noteq> 0" using assms(8) by auto
  have "\<forall>j \<le> length cs. a ! (unat (addr + 1) + j) = Some ((cs @ [0]) ! j)"
  proof (intro allI impI)
    fix j assume "j \<le> length cs"
    then have "a ! (unat addr + Suc j) = Some ((c # cs @ [0]) ! Suc j)" using assms(7) by fastforce
    then show "a ! (unat (addr + 1) + j) = Some ((cs @ [0]) ! j)" by (simp add: next_addr [OF addr(2)])
  qed
  moreover have "128 * ?p \<le> Suc (unat addr)" "Suc (unat addr) + length cs < 128 * ?p + 128"
    using assms(4) mult_div_mod_eq [of 128 "unat addr"] by linarith+
  ultimately obtain s' where r: "read_name (kernel_trap n random) (addr + 1) v 1 ?nm s1 = Inr (blit ?nm 1 (cs @ [0]), Suc (1 + length cs), s')"
    using read_name_valid [OF s1(2,3) v assms(3), of "addr + 1" 1 ?nm] assms(5,6) by (auto simp: next_addr [OF addr(2)])
  have "read_name (kernel_trap n random) addr v 0 (replicate 100 0) s = read_name (kernel_trap n random) (addr + 1) v 1 ?nm s1"
    using v s1(1) by (subst read_name.simps) simp
  moreover have "takeWhile (\<lambda>b. b \<noteq> 0) (blit ?nm 1 (cs @ [0])) = ucast v # cs"
  proof -
    have "take 1 ?nm = [ucast v]" by (simp add: numeral_eq_Suc)
    then have "blit ?nm 1 (cs @ [0]) = ucast v # cs @ 0 # drop (1 + length (cs @ [0])) ?nm" by (simp add: blit_def)
    moreover have "takeWhile (\<lambda>b. b \<noteq> 0) (cs @ 0 # xs) = cs" for xs using assms(3) by (subst takeWhile_append2) auto
    ultimately show ?thesis using assms(8) by simp
  qed
  ultimately show "\<exists>s' nm. read_name (kernel_trap n random) addr v 0 (replicate 100 0) s = Inr (nm, length cs + 2, s') \<and>
      takeWhile (\<lambda>b. b \<noteq> 0) nm = ucast v # cs" using r by auto
  show "\<exists>nm. read_name (kernel_trap n random) addr 0 0 (replicate 100 0) s = Inr (nm, 0, s) \<and> takeWhile (\<lambda>b. b \<noteq> 0) nm = []"
    by (subst read_name.simps) (simp add: takeWhile_eq_Nil_iff numeral_eq_Suc)
qed

theorem Exec_garbles_name_witness:
  "\<exists>s0 s' nm. StartProcess sample_junk (\<lambda>_. 0) [97] sample_system = Inr (Some s0) \<and>
     read_name (kernel_trap 9 (\<lambda>i. i)) 20 1 0 (replicate 100 0) s0 = Inr (nm, 4, s') \<and> takeWhile (\<lambda>b. b \<noteq> 0) nm = [1, 98, 99]"
proof -
  let ?a = "map (known_byte sample_sp) [0..<1152]"
  obtain s0 where s0: "StartProcess sample_junk (\<lambda>_. 0) [97] sample_system = Inr (Some s0)" "flat 9 (\<lambda>i. i) s0 ?a"
      "\<not> valid (the_table (process_of s0) ! 0)"
    using sample_started by blast
  have "map (known_byte sample_sp) [20..<24] = [Some 97, Some 98, Some 99, Some 0]" by code_simp
  then have m: "map (known_byte sample_sp) [20..<24] ! j = [Some 97, Some 98, Some 99, Some 0] ! j" for j by simp
  have "\<forall>j \<le> Suc (length [98 :: 8 word, 99]). ?a ! (20 + j) = Some ([97, 98, 99, 0] ! j)"
  proof (intro allI impI)
    fix j assume "j \<le> Suc (length [98 :: 8 word, 99])"
    then have j: "j < 4" by simp
    then have "?a ! (20 + j) = [Some 97, Some 98, Some 99, Some 0] ! j" using m [of j] by (simp del: upt_rec_numeral)
    also have "\<dots> = map Some [97, 98, 99, 0] ! j" by simp
    also have "\<dots> = Some ([97, 98, 99, 0] ! j)" using j by (subst nth_map) simp_all
    finally show "?a ! (20 + j) = Some ([97, 98, 99, 0] ! j)" .
  qed
  then have m: "\<forall>j \<le> Suc (length [98 :: 8 word, 99]). ?a ! (unat (20 :: 32 word) + j) = Some ((97 # [98, 99] @ [0]) ! j)" by (simp del: upt_rec_numeral)
  have h: "unat (20 :: 32 word) mod 128 + Suc (length [98 :: 8 word, 99]) < 128" "unat (20 :: 32 word) + Suc (length [98 :: 8 word, 99]) < length ?a"
    "length [98 :: 8 word, 99] + 2 \<le> 100" "(ucast (1 :: 32 word) :: 8 word) \<noteq> 0" "(0 :: 8 word) \<notin> set [98, 99]" by (simp_all del: upt_rec_numeral)
  have nv: "\<not> valid (the_table (process_of s0) ! (unat (20 :: 32 word) div 128))" using s0(3) by simp
  note e = Exec_garbles_name [OF s0(2) nv h(5,1-3) m h(4), THEN conjunct1]
  have c: "length [98 :: 8 word, 99] + 2 = 4" "(ucast (1 :: 32 word) :: 8 word) = 1" by simp_all
  show ?thesis using s0(1) e unfolding c by blast
qed

section \<open>Exit\<close>

text \<open>
  C34: the first process cannot end. Its number is 0, and \<open>Release (0)\<close> writes to \<open>allocated[-1]\<close>, in
  front of the array; the table still holds the process, so that \<open>Exit\<close> never halts the machine.
\<close>

theorem first_exit:
  assumes "StartProcess junk jw name s = Inr (Some s0)"
    and "process_table (kernel s1) = process_table (kernel s0)" and "current_pid (kernel s1) = current_pid (kernel s0)"
  shows "syscall_exit s1 = Inl BadAccess"
proof -
  obtain t i x where t: "process_table (kernel s0) = t" "current_pid (kernel s0) = i" "Table_Alloc (Table_new 100) (Some x) = Inr (t, i)"
    using assms(1) by (auto simp: StartProcess_def on_user_def Let_def res_simps split: option.splits if_splits prod.splits)
  then have "i = 0" by (simp add: first_release(1))
  then show ?thesis using t assms(2,3) first_release(2,3) [OF t(3)] by (simp add: syscall_exit_def)
qed

theorem first_exit_witness:
  "\<exists>s0. StartProcess sample_junk (\<lambda>_. 0) [97] sample_system = Inr (Some s0) \<and> syscall_exit s0 = Inl BadAccess"
proof -
  obtain s0 where s0: "StartProcess sample_junk (\<lambda>_. 0) [97] sample_system = Inr (Some s0)" using sample_started by blast
  show ?thesis using first_exit [OF s0 refl refl] s0 by blast
qed

end
