(* ===== verification/Coff.thy ===== *)
theory Coff
  imports AddrSpaces
begin

text \<open>
  \<open>bin/coff2noff.c\<close>, the converter that makes the executables which the kernel loads: from a MIPS COFF file
  (\<open>bin/coff.h\<close>) to a NOFF file (\<open>bin/noff.h\<close>). The properties follow the bytes of a section from the COFF
  file into the memory of the process. Files are lists of bytes; \<open>long\<close> has 32 bits, as on the i386.
\<close>

section \<open>COFF files\<close>

text \<open>The ways the converter gives up.\<close>

datatype coff_error = FileTooShort | NotMipsel | NotOmagic | TwoData | TwoBss | UnknownSegment

definition MIPSELMAGIC :: "16 word" where "MIPSELMAGIC = 0x0162"
definition OMAGIC :: "16 word" where "OMAGIC = 0x107"

definition ShortToHost :: "16 word \<Rightarrow> 16 word" where
  "ShortToHost shortword = shortword"

text \<open>The fields of a section header that are used. Names are compared up to the first zero.\<close>

record scnhdr =
  s_name :: "8 word list"
  s_paddr :: int
  s_size :: int
  s_scnptr :: int

definition short_at :: "8 word list \<Rightarrow> nat \<Rightarrow> 16 word" where
  "short_at bs i = ucast (le_word (slice bs i 2))"

definition scnhdr_of :: "8 word list \<Rightarrow> scnhdr" where
  "scnhdr_of bs = \<lparr>s_name = takeWhile (\<lambda>c. c \<noteq> 0) (slice bs 0 8), s_paddr = int_WordToHost (int_of (slice bs 8 4)),
     s_size = int_WordToHost (int_of (slice bs 16 4)), s_scnptr = int_WordToHost (int_of (slice bs 20 4))\<rparr>"

text \<open>\<open>.text\<close>, \<open>.data\<close>, \<open>.rdata\<close>, \<open>.bss\<close> and \<open>.sbss\<close>.\<close>

definition text_name :: "8 word list" where "text_name = [46, 116, 101, 120, 116]"
definition data_name :: "8 word list" where "data_name = [46, 100, 97, 116, 97]"
definition rdata_name :: "8 word list" where "rdata_name = [46, 114, 100, 97, 116, 97]"
definition bss_name :: "8 word list" where "bss_name = [46, 98, 115, 115]"
definition sbss_name :: "8 word list" where "sbss_name = [46, 115, 98, 115, 115]"

section \<open>Files\<close>

text \<open>
  \<open>Read\<close> stops the program when \<open>read\<close> does not return the size: at the end of the file, and for a negative size,
  which makes \<open>read\<close> return -1, so that the size -1 itself passes the test with nothing read. \<open>Write\<close> then
  passes in the same way, with nothing written. \<open>lseek\<close> to a negative position leaves the position.
\<close>

definition Read_fd :: "8 word list \<Rightarrow> nat \<Rightarrow> int \<Rightarrow> coff_error + (8 word list \<times> nat)" where
  "Read_fd fd pos nBytes =
     (if nBytes < 0 then if nBytes = -1 then Inr ([], pos) else Inl FileTooShort
      else if nBytes = 0 \<or> pos + nat nBytes \<le> length fd then Inr (slice fd pos (nat nBytes), pos + nat nBytes)
      else Inl FileTooShort)"

definition seek_fd :: "nat \<Rightarrow> int \<Rightarrow> nat" where
  "seek_fd pos p = (if 0 \<le> p then nat p else pos)"

definition Write_fd :: "8 word list \<Rightarrow> nat \<Rightarrow> 8 word list \<Rightarrow> 8 word list" where
  "Write_fd fd pos buf = blit (fd @ replicate (pos - length fd) 0) pos buf"

section \<open>The converter\<close>

definition segment_bytes :: "segment \<Rightarrow> 8 word list" where
  "segment_bytes g = concat (map int_bytes [virtualAddr g, inFileAddr g, seg_size g])"

definition noff_bytes :: "noff_header \<Rightarrow> 8 word list" where
  "noff_bytes h = int_bytes (noffMagic h) @ segment_bytes (code h) @ segment_bytes (initData h) @ segment_bytes (uninitData h)"

record conversion =
  noffH :: noff_header
  inNoffFile :: int
  out_file :: "8 word list"
  out_pos :: nat
  in_pos :: nat

text \<open>What is done for a section that is copied.\<close>

definition copy_section :: "8 word list \<Rightarrow> scnhdr \<Rightarrow> conversion \<Rightarrow> coff_error + conversion" where
  "copy_section coff s c =
     bindR (Read_fd coff (seek_fd (in_pos c) (s_scnptr s)) (s_size s)) (\<lambda>(buffer, p).
     Inr (c\<lparr>in_pos := p, out_file := Write_fd (out_file c) (out_pos c) buffer, out_pos := out_pos c + length buffer,
       inNoffFile := inNoffFile c + s_size s\<rparr>))"

definition convert_section :: "8 word list \<Rightarrow> scnhdr \<Rightarrow> conversion \<Rightarrow> coff_error + conversion" where
  "convert_section coff s c =
     (let h = noffH c; g = \<lparr>virtualAddr = s_paddr s, inFileAddr = inNoffFile c, seg_size = s_size s\<rparr>; u = uninitData h in
      if s_size s = 0 then Inr c
      else if s_name s = text_name then copy_section coff s (c\<lparr>noffH := h\<lparr>code := g\<rparr>\<rparr>)
      else if s_name s = data_name \<or> s_name s = rdata_name then
        if seg_size (initData h) \<noteq> 0 then Inl TwoData
        else copy_section coff s (c\<lparr>noffH := h\<lparr>initData := g\<rparr>\<rparr>)
      else if s_name s = bss_name \<or> s_name s = sbss_name then
        if seg_size u \<noteq> 0 then
          if s_paddr s = virtualAddr u + seg_size u then Inl TwoBss
          else Inr (c\<lparr>noffH := h\<lparr>uninitData := u\<lparr>seg_size := seg_size u + s_size s\<rparr>\<rparr>\<rparr>)
        else Inr (c\<lparr>noffH := h\<lparr>uninitData := u\<lparr>virtualAddr := s_paddr s, seg_size := s_size s\<rparr>\<rparr>\<rparr>)
      else Inl UnknownSegment)"

primrec convert_sections :: "8 word list \<Rightarrow> scnhdr list \<Rightarrow> conversion \<Rightarrow> coff_error + conversion" where
  "convert_sections coff [] c = Inr c"
| "convert_sections coff (s # ss) c = bindR (convert_section coff s c) (convert_sections coff ss)"

text \<open>The section headers of the file; \<open>junk\<close> is what the local variable \<open>noffH\<close> held.\<close>

definition read_sections :: "8 word list \<Rightarrow> coff_error + (scnhdr list \<times> nat)" where
  "read_sections coff =
     bindR (Read_fd coff 0 20) (\<lambda>(fileh, p).
     if ShortToHost (short_at fileh 0) \<noteq> MIPSELMAGIC then Inl NotMipsel
     else
       bindR (Read_fd coff p 56) (\<lambda>(systemh, p).
       if ShortToHost (short_at systemh 0) \<noteq> OMAGIC then Inl NotOmagic
       else
         let numsections = unat (ShortToHost (short_at fileh 2)) in
         bindR (Read_fd coff p (int (numsections * 40))) (\<lambda>(bs, p).
         Inr (map (\<lambda>i. scnhdr_of (slice bs (40 * i) 40)) [0..<numsections], p))))"

definition start_header :: "8 word list \<Rightarrow> noff_header" where
  "start_header junk =
     (let h = header_of junk in
      h\<lparr>noffMagic := NOFFMAGIC, code := (code h)\<lparr>seg_size := 0\<rparr>, initData := (initData h)\<lparr>seg_size := 0\<rparr>,
        uninitData := (uninitData h)\<lparr>seg_size := 0\<rparr>\<rparr>)"

definition coff2noff :: "8 word list \<Rightarrow> 8 word list \<Rightarrow> coff_error + 8 word list" where
  "coff2noff junk coff =
     bindR (read_sections coff) (\<lambda>(sections, p).
     bindR (convert_sections coff sections
       \<lparr>noffH = start_header junk, inNoffFile = 40, out_file = [], out_pos = 40, in_pos = p\<rparr>) (\<lambda>c.
     Inr (Write_fd (out_file c) 0 (noff_bytes (noffH c)))))"

section \<open>Where the sections go\<close>

definition is_text :: "scnhdr \<Rightarrow> bool" where
  "is_text s \<longleftrightarrow> s_size s \<noteq> 0 \<and> s_name s = text_name"

definition is_data :: "scnhdr \<Rightarrow> bool" where
  "is_data s \<longleftrightarrow> s_size s \<noteq> 0 \<and> (s_name s = data_name \<or> s_name s = rdata_name)"

text \<open>The size -1 is left out below: such a section passes with no bytes, and moves the place of the next section back by one.\<close>

definition sizes_ok :: "scnhdr list \<Rightarrow> bool" where
  "sizes_ok ss \<longleftrightarrow> (\<forall>s \<in> set ss. s_size s \<noteq> -1)"

lemma sizes_ok_simps [simp]: "sizes_ok []" "sizes_ok (s # ss) \<longleftrightarrow> s_size s \<noteq> -1 \<and> sizes_ok ss"
  by (auto simp: sizes_ok_def)

text \<open>A segment of the header names the last section of its kind, whose bytes are in the output.\<close>

definition placed :: "8 word list \<Rightarrow> segment \<Rightarrow> scnhdr list \<Rightarrow> 8 word list \<Rightarrow> int \<Rightarrow> bool" where
  "placed coff g ss out stop \<longleftrightarrow>
     (if ss = [] then seg_size g = 0
      else virtualAddr g = s_paddr (last ss) \<and> seg_size g = s_size (last ss) \<and> 0 < seg_size g \<and> 40 \<le> inFileAddr g \<and>
        inFileAddr g + seg_size g \<le> stop \<and>
        (0 \<le> s_scnptr (last ss) \<longrightarrow>
           nat (s_scnptr (last ss)) + nat (seg_size g) \<le> length coff \<and>
           slice out (nat (inFileAddr g)) (nat (seg_size g)) = slice coff (nat (s_scnptr (last ss))) (nat (seg_size g))))"

definition output_ok :: "conversion \<Rightarrow> bool" where
  "output_ok c \<longleftrightarrow> 40 \<le> inNoffFile c \<and> out_pos c = nat (inNoffFile c) \<and>
     (out_file c = [] \<and> out_pos c = 40 \<or> length (out_file c) = out_pos c)"

definition conversion_ok :: "8 word list \<Rightarrow> scnhdr list \<Rightarrow> conversion \<Rightarrow> bool" where
  "conversion_ok coff ss c \<longleftrightarrow> output_ok c \<and> noffMagic (noffH c) = NOFFMAGIC \<and>
     placed coff (code (noffH c)) (filter is_text ss) (out_file c) (inNoffFile c) \<and>
     placed coff (initData (noffH c)) (filter is_data ss) (out_file c) (inNoffFile c)"

lemma output_ok_header [simp]: "output_ok (c\<lparr>noffH := h\<rparr>) = output_ok c"
  by (simp add: output_ok_def)

lemma copy_section_ok:
  assumes "copy_section coff s c = Inr c'" "output_ok c" "s_size s \<notin> {0, -1}"
  shows "output_ok c'" "noffH c' = noffH c" "0 < s_size s" "inNoffFile c' = inNoffFile c + s_size s"
    "\<And>a n. 40 \<le> a \<Longrightarrow> a + n \<le> nat (inNoffFile c) \<Longrightarrow> slice (out_file c') a n = slice (out_file c) a n"
    "0 \<le> s_scnptr s \<Longrightarrow> nat (s_scnptr s) + nat (s_size s) \<le> length coff \<and>
       slice (out_file c') (nat (inNoffFile c)) (nat (s_size s)) = slice coff (nat (s_scnptr s)) (nat (s_size s))"
proof -
  let ?n = "nat (s_size s)" and ?p = "seek_fd (in_pos c) (s_scnptr s)"
  let ?f = "out_file c @ replicate (out_pos c - length (out_file c)) 0"
  have r: "0 < s_size s" "?p + ?n \<le> length coff"
    and c': "c' = c\<lparr>in_pos := ?p + ?n, out_file := Write_fd (out_file c) (out_pos c) (slice coff ?p ?n),
      out_pos := out_pos c + ?n, inNoffFile := inNoffFile c + s_size s\<rparr>"
    using assms(1,3) by (auto simp: copy_section_def Read_fd_def res_simps split: if_splits)
  have o: "40 \<le> inNoffFile c" "out_pos c = nat (inNoffFile c)" "out_file c = [] \<and> out_pos c = 40 \<or> length (out_file c) = out_pos c"
    using assms(2) unfolding output_ok_def by blast+
  have l: "length ?f = out_pos c" using o(3) by auto
  then have w: "out_file c' = ?f @ slice coff ?p ?n" by (simp add: c' Write_fd_def blit_def)
  show "0 < s_size s" "noffH c' = noffH c" "inNoffFile c' = inNoffFile c + s_size s" using r(1) by (simp_all add: c')
  show "output_ok c'" using o r l by (auto simp: output_ok_def w) (auto simp: c')
  show "slice (out_file c') a n = slice (out_file c) a n" if "40 \<le> a" "a + n \<le> nat (inNoffFile c)" for a n
    using that o l by (auto simp: w slice_append1) (simp add: slice_def)
  have "slice (out_file c') (nat (inNoffFile c)) ?n = slice coff ?p ?n"
    using l r(2) by (simp add: w slice_append2 slice_all flip: o(2))
  then show "nat (s_scnptr s) + ?n \<le> length coff \<and> slice (out_file c') (nat (inNoffFile c)) ?n = slice coff (nat (s_scnptr s)) ?n"
    if "0 \<le> s_scnptr s" using that r(2) by (simp add: seek_fd_def)
qed

lemma placed_new:
  assumes "copy_section coff s c = Inr c'" "output_ok c" "s_size s \<notin> {0, -1}"
  shows "placed coff \<lparr>virtualAddr = s_paddr s, inFileAddr = inNoffFile c, seg_size = s_size s\<rparr> (ss @ [s]) (out_file c') (inNoffFile c')"
  using copy_section_ok(3,4,6) [OF assms] assms(2) by (simp add: placed_def output_ok_def)

lemma placed_keep:
  assumes "placed coff g ss out stop" "stop \<le> stop'" "\<And>a n. 40 \<le> a \<Longrightarrow> a + n \<le> nat stop \<Longrightarrow> slice out' a n = slice out a n"
  shows "placed coff g ss out' stop'"
proof (cases "ss = []")
  case False
  then have g: "40 \<le> inFileAddr g" "0 < seg_size g" "inFileAddr g + seg_size g \<le> stop" using assms(1) by (auto simp: placed_def)
  then have "40 \<le> nat (inFileAddr g)" "nat (inFileAddr g) + nat (seg_size g) \<le> nat stop" by linarith+
  then show ?thesis using assms(1,2) False assms(3) [of "nat (inFileAddr g)" "nat (seg_size g)"] by (auto simp: placed_def)
qed (use assms(1) in \<open>simp add: placed_def\<close>)

lemma section_names [simp]:
  "text_name \<noteq> data_name" "text_name \<noteq> rdata_name" "text_name \<noteq> bss_name" "text_name \<noteq> sbss_name"
  "data_name \<noteq> bss_name" "data_name \<noteq> sbss_name" "rdata_name \<noteq> bss_name" "rdata_name \<noteq> sbss_name"
  by (simp_all add: text_name_def data_name_def rdata_name_def bss_name_def sbss_name_def)

lemmas section_names' [simp] = section_names [symmetric]

lemma convert_section_ok:
  assumes "convert_section coff s c = Inr c'" "conversion_ok coff ss c" "s_size s \<noteq> -1"
  shows "conversion_ok coff (ss @ [s]) c'"
proof -
  let ?h = "noffH c" and ?g = "\<lparr>virtualAddr = s_paddr s, inFileAddr = inNoffFile c, seg_size = s_size s\<rparr>"
  have c: "output_ok c" "noffMagic ?h = NOFFMAGIC"
      "placed coff (code ?h) (filter is_text ss) (out_file c) (inNoffFile c)"
      "placed coff (initData ?h) (filter is_data ss) (out_file c) (inNoffFile c)"
    using assms(2) by (simp_all add: conversion_ok_def)
  consider "is_text s" | "is_data s" | "\<not> is_text s \<and> \<not> is_data s" by blast
  then show ?thesis
  proof cases
    case 1
    then have "copy_section coff s (c\<lparr>noffH := ?h\<lparr>code := ?g\<rparr>\<rparr>) = Inr c'" and n: "s_size s \<notin> {0, -1}" "\<not> is_data s"
      using assms(1,3) by (auto simp: convert_section_def is_text_def is_data_def Let_def)
    note k = this(1)
    have o: "output_ok (c\<lparr>noffH := ?h\<lparr>code := ?g\<rparr>\<rparr>)" using c(1) by simp
    note w = copy_section_ok [OF k o n(1)]
    have "placed coff (initData ?h) (filter is_data ss) (out_file c') (inNoffFile c')"
      by (rule placed_keep [OF c(4)]) (use w(3,4,5) in auto)
    moreover have "placed coff ?g (filter is_text ss @ [s]) (out_file c') (inNoffFile c')"
      using placed_new [OF k o n(1)] by simp
    ultimately show ?thesis using w(1,2) c(2) 1 n(2) by (simp add: conversion_ok_def)
  next
    case 2
    then have "copy_section coff s (c\<lparr>noffH := ?h\<lparr>initData := ?g\<rparr>\<rparr>) = Inr c'" and n: "s_size s \<notin> {0, -1}" "\<not> is_text s"
      using assms(1,3) by (auto simp: convert_section_def is_text_def is_data_def Let_def split: if_splits)
    note k = this(1)
    have o: "output_ok (c\<lparr>noffH := ?h\<lparr>initData := ?g\<rparr>\<rparr>)" using c(1) by simp
    note w = copy_section_ok [OF k o n(1)]
    have "placed coff (code ?h) (filter is_text ss) (out_file c') (inNoffFile c')"
      by (rule placed_keep [OF c(3)]) (use w(3,4,5) in auto)
    moreover have "placed coff ?g (filter is_data ss @ [s]) (out_file c') (inNoffFile c')"
      using placed_new [OF k o n(1)] by simp
    ultimately show ?thesis using w(1,2) c(2) 2 n(2) by (simp add: conversion_ok_def)
  next
    case 3
    then have "\<exists>u. c' = c\<lparr>noffH := ?h\<lparr>uninitData := u\<rparr>\<rparr>"
      using assms(1) by (auto simp: convert_section_def is_text_def is_data_def Let_def split: if_splits intro: exI [of _ "uninitData ?h"])
    then show ?thesis using c 3 by (auto simp: conversion_ok_def output_ok_def)
  qed
qed

lemma convert_sections_ok:
  "convert_sections coff ss c = Inr c' \<Longrightarrow> conversion_ok coff pre c \<Longrightarrow> sizes_ok ss \<Longrightarrow> conversion_ok coff (pre @ ss) c'"
proof (induction ss arbitrary: c pre)
  case (Cons s ss)
  then obtain c1 where c1: "convert_section coff s c = Inr c1" "convert_sections coff ss c1 = Inr c'" by (auto simp: res_simps)
  show ?case using Cons.IH [OF c1(2) convert_section_ok [OF c1(1) Cons.prems(2)]] Cons.prems(3) by simp
qed simp

section \<open>The header in the output\<close>

definition header_ints :: "noff_header \<Rightarrow> int list" where
  "header_ints h = [noffMagic h, virtualAddr (code h), inFileAddr (code h), seg_size (code h), virtualAddr (initData h),
     inFileAddr (initData h), seg_size (initData h), virtualAddr (uninitData h), inFileAddr (uninitData h), seg_size (uninitData h)]"

definition segment_int32 :: "segment \<Rightarrow> bool" where
  "segment_int32 g \<longleftrightarrow> int32 (virtualAddr g) \<and> int32 (inFileAddr g) \<and> int32 (seg_size g)"

lemma noff_bytes_ints: "noff_bytes h = concat (map int_bytes (header_ints h))"
  by (simp add: noff_bytes_def segment_bytes_def header_ints_def)

lemma length_noff_bytes [simp]: "length (noff_bytes h) = 40"
  by (simp only: noff_bytes_ints length_concat_ints) (simp add: header_ints_def)

lemma header_int_noff: "i < 10 \<Longrightarrow> int32 (header_ints h ! i) \<Longrightarrow> header_int (noff_bytes h) i = header_ints h ! i"
  using slice_ints [of i "header_ints h"] int_of_bytes [of "header_ints h ! i"]
  by (simp add: header_int_def noff_bytes_ints int_of_def) (simp add: header_ints_def)

lemma header_of_noff:
  "int32 (noffMagic h) \<Longrightarrow> noffMagic (header_of (noff_bytes h)) = noffMagic h"
  "segment_int32 (code h) \<Longrightarrow> code (header_of (noff_bytes h)) = code h"
  "segment_int32 (initData h) \<Longrightarrow> initData (header_of (noff_bytes h)) = initData h"
  "segment_int32 (uninitData h) \<Longrightarrow> uninitData (header_of (noff_bytes h)) = uninitData h"
  using header_int_noff [of 0 h] header_int_noff [of 1 h] header_int_noff [of 2 h] header_int_noff [of 3 h] header_int_noff [of 4 h]
    header_int_noff [of 5 h] header_int_noff [of 6 h] header_int_noff [of 7 h] header_int_noff [of 8 h] header_int_noff [of 9 h]
  by (simp_all add: header_of_def header_ints_def segment_int32_def)

lemma int32_sint [simp]: "int32 (sint (w :: 32 word))"
  using sint_greater_eq [of w] sint_lt [of w] by (simp add: int32_def)

lemma int32_start [simp]:
  "int32 (header_int junk i)" "int32 (int_WordToHost k)" "int32 NOFFMAGIC" "int32 0"
  by (simp_all add: header_int_def int_WordToHost_def) (simp_all add: int32_def NOFFMAGIC_def)

definition addresses_int32 :: "noff_header \<Rightarrow> bool" where
  "addresses_int32 h \<longleftrightarrow> noffMagic h = NOFFMAGIC \<and> (\<forall>g \<in> {code h, initData h}. int32 (virtualAddr g) \<and> int32 (seg_size g) \<and>
     (seg_size g = 0 \<longrightarrow> int32 (inFileAddr g)))"

lemma start_header_ok: "addresses_int32 (start_header junk)"
  by (simp add: addresses_int32_def start_header_def header_of_def Let_def)

definition scnhdr_int32 :: "scnhdr \<Rightarrow> bool" where
  "scnhdr_int32 s \<longleftrightarrow> int32 (s_paddr s) \<and> int32 (s_size s)"

lemma convert_section_int32:
  assumes "convert_section coff s c = Inr c'" "addresses_int32 (noffH c)" "scnhdr_int32 s"
  shows "addresses_int32 (noffH c')"
proof (cases "is_text s \<or> is_data s")
  case True
  then have n: "s_size s \<noteq> 0" by (auto simp: is_text_def is_data_def)
  have cp: "noffH c2 = noffH c1" if "copy_section coff s c1 = Inr c2" for c1 c2
    using that by (auto simp: copy_section_def res_simps)
  show ?thesis using assms True n
    by (auto simp: convert_section_def is_text_def is_data_def Let_def addresses_int32_def scnhdr_int32_def dest!: cp split: if_splits)
next
  case False
  then show ?thesis using assms
    by (auto simp: convert_section_def is_text_def is_data_def Let_def addresses_int32_def split: if_splits)
qed

lemma convert_sections_int32:
  "convert_sections coff ss c = Inr c' \<Longrightarrow> addresses_int32 (noffH c) \<Longrightarrow> \<forall>s \<in> set ss. scnhdr_int32 s \<Longrightarrow> addresses_int32 (noffH c')"
proof (induction ss arbitrary: c)
  case (Cons s ss)
  then obtain c1 where c1: "convert_section coff s c = Inr c1" "convert_sections coff ss c1 = Inr c'" by (auto simp: res_simps)
  show ?case using Cons.IH [OF c1(2) convert_section_int32 [OF c1(1)]] Cons.prems(2,3) by simp
qed simp

lemma read_sections_int32: "read_sections coff = Inr (ss, p) \<Longrightarrow> \<forall>s \<in> set ss. scnhdr_int32 s"
  by (auto simp: read_sections_def res_simps Let_def scnhdr_of_def scnhdr_int32_def split: if_splits)

lemma coff2noff_run:
  assumes "coff2noff junk coff = Inr noff" "read_sections coff = Inr (ss, p)"
  shows "\<exists>c. (sizes_ok ss \<longrightarrow> conversion_ok coff ss c) \<and> addresses_int32 (noffH c) \<and> noff = noff_bytes (noffH c) @ drop 40 (out_file c) \<and>
    convert_sections coff ss \<lparr>noffH = start_header junk, inNoffFile = 40, out_file = [], out_pos = 40, in_pos = p\<rparr> = Inr c"
proof -
  let ?c = "\<lparr>noffH = start_header junk, inNoffFile = 40, out_file = [], out_pos = 40, in_pos = p\<rparr>"
  obtain c where c: "convert_sections coff ss ?c = Inr c" "noff = Write_fd (out_file c) 0 (noff_bytes (noffH c))"
    using assms by (auto simp: coff2noff_def res_simps)
  have "conversion_ok coff [] ?c" by (simp add: conversion_ok_def output_ok_def placed_def start_header_def Let_def)
  then have "sizes_ok ss \<longrightarrow> conversion_ok coff ss c" using convert_sections_ok [OF c(1), of "[]"] by simp
  moreover have "addresses_int32 (noffH c)"
    using convert_sections_int32 [OF c(1)] start_header_ok read_sections_int32 [OF assms(2)] by simp
  ultimately show ?thesis using c by (auto simp: Write_fd_def blit_def)
qed

section \<open>The properties of the converter\<close>

lemma length_output: "output_ok c \<Longrightarrow> length (noff_bytes (noffH c) @ drop 40 (out_file c)) = nat (inNoffFile c)"
  by (auto simp: output_ok_def)

lemma placed_int32:
  assumes "placed coff g ss out stop" "int32 (virtualAddr g)" "int32 (seg_size g)" "seg_size g = 0 \<longrightarrow> int32 (inFileAddr g)" "stop < 2 ^ 31"
  shows "segment_int32 g"
  using assms by (auto simp: placed_def segment_int32_def int32_def split: if_splits)

lemma coff2noff_placed:
  assumes run: "coff2noff junk coff = Inr noff" "read_sections coff = Inr (ss, p)" and len: "length noff < 2 ^ 31" and sz: "sizes_ok ss"
  shows "noffMagic (header_of (slice noff 0 40)) = NOFFMAGIC" "40 \<le> length noff"
    "placed coff (code (header_of (slice noff 0 40))) (filter is_text ss) noff (int (length noff))"
    "placed coff (initData (header_of (slice noff 0 40))) (filter is_data ss) noff (int (length noff))"
proof -
  obtain c where c: "conversion_ok coff ss c" "addresses_int32 (noffH c)" "noff = noff_bytes (noffH c) @ drop 40 (out_file c)"
    using coff2noff_run [OF run] sz by blast
  let ?h = "noffH c"
  have o: "output_ok c" and pl: "placed coff (code ?h) (filter is_text ss) (out_file c) (inNoffFile c)"
      "placed coff (initData ?h) (filter is_data ss) (out_file c) (inNoffFile c)" using c(1) by (simp_all add: conversion_ok_def)
  have n: "length noff = nat (inNoffFile c)" "40 \<le> inNoffFile c" using length_output [OF o] o c(3) by (simp_all add: output_ok_def)
  have s: "inNoffFile c < 2 ^ 31" using n len by simp
  have i: "int32 (noffMagic ?h)" "segment_int32 (code ?h)" "segment_int32 (initData ?h)"
    using c(2) placed_int32 [OF pl(1) _ _ _ s] placed_int32 [OF pl(2) _ _ _ s] by (simp_all add: addresses_int32_def)
  have h: "slice noff 0 40 = noff_bytes ?h" using c(3) by (simp add: slice_append1 slice_all)
  note hd = header_of_noff(1) [OF i(1)]
  show "noffMagic (header_of (slice noff 0 40)) = NOFFMAGIC" using hd(1) c(2) by (simp add: h addresses_int32_def)
  show "40 \<le> length noff" using n by simp
  have sl: "slice noff a k = slice (out_file c) a k" if "40 \<le> a" for a k
    using that by (simp add: c(3) slice_append2) (simp add: slice_def)
  have m: "inNoffFile c \<le> int (length noff)" using n by simp
  show "placed coff (code (header_of (slice noff 0 40))) (filter is_text ss) noff (int (length noff))"
    using placed_keep [OF pl(1) m, of noff] sl i(2) by (simp add: h header_of_noff)
  show "placed coff (initData (header_of (slice noff 0 40))) (filter is_data ss) noff (int (length noff))"
    using placed_keep [OF pl(2) m, of noff] sl i(3) by (simp add: h header_of_noff)
qed

text \<open>
  C27: the header of a file that the converter makes can be read back and names, for the code and for the
  initialized data, the last section of that kind which is not empty: its address, its size and a
  place in the file where its bytes are, unchanged. A segment without a section has size 0. Other negative sizes than
  -1 make the conversion fail; a section of size -1 passes, with no bytes, and is left out here.
\<close>

theorem coff2noff_segments:
  assumes "coff2noff junk coff = Inr noff" and "read_sections coff = Inr (ss, p)" and "length noff < 2 ^ 31"
    and "\<forall>s \<in> set ss. 0 \<le> s_scnptr s" and "sizes_ok ss"
  shows "let h = header_of (slice noff 0 40) in noffMagic h = NOFFMAGIC \<and>
    (\<forall>(g, ts) \<in> {(code h, filter is_text ss), (initData h, filter is_data ss)}.
       if ts = [] then seg_size g = 0
       else virtualAddr g = s_paddr (last ts) \<and> seg_size g = s_size (last ts) \<and> 40 \<le> inFileAddr g \<and>
         slice noff (nat (inFileAddr g)) (nat (seg_size g)) = slice coff (nat (s_scnptr (last ts))) (nat (s_size (last ts))))"
proof -
  let ?good = "\<lambda>g ts. if ts = [] then seg_size g = 0
       else virtualAddr g = s_paddr (last ts) \<and> seg_size g = s_size (last ts) \<and> 40 \<le> inFileAddr g \<and>
         slice noff (nat (inFileAddr g)) (nat (seg_size g)) = slice coff (nat (s_scnptr (last ts))) (nat (s_size (last ts)))"
  have p: "0 \<le> s_scnptr (last (filter f ss))" if "filter f ss \<noteq> []" for f
    using that assms(4) last_in_set [OF that] by auto
  have g: "?good g (filter f ss)" if "placed coff g (filter f ss) noff stop" for g f stop
    using that p [of f] unfolding placed_def by (cases "filter f ss = []") auto
  note r = coff2noff_placed(1,3,4) [OF assms(1-3,5)]
  show ?thesis using r(1) g [OF r(2)] g [OF r(3)] unfolding Let_def by blast
qed

text \<open>A sample: 130 bytes of code, 4 of data behind it, and 8 bytes in \<open>.bss\<close> and \<open>.sbss\<close>.\<close>

definition sample_section :: "8 word list \<Rightarrow> int \<Rightarrow> int \<Rightarrow> int \<Rightarrow> 8 word list" where
  "sample_section nm addr sz ptr = nm @ replicate (8 - length nm) 0 @ int_bytes addr @ int_bytes addr @ int_bytes sz @
     int_bytes ptr @ replicate 16 0"

definition sample_coff :: "int \<Rightarrow> 8 word list" where
  "sample_coff sbss = [0x62, 1, 4, 0] @ replicate 16 0 @ [7, 1] @ replicate 54 0 @ sample_section text_name 0 130 236 @
     sample_section data_name 132 4 366 @ sample_section bss_name 136 8 0 @ sample_section sbss_name sbss 8 0 @
     map word_of_nat [0..<130] @ [1, 2, 3, 4]"

definition sample_sections :: "int \<Rightarrow> scnhdr list" where
  "sample_sections sbss =
     [\<lparr>s_name = text_name, s_paddr = 0, s_size = 130, s_scnptr = 236\<rparr>, \<lparr>s_name = data_name, s_paddr = 132, s_size = 4, s_scnptr = 366\<rparr>,
      \<lparr>s_name = bss_name, s_paddr = 136, s_size = 8, s_scnptr = 0\<rparr>, \<lparr>s_name = sbss_name, s_paddr = sbss, s_size = 8, s_scnptr = 0\<rparr>]"

lemma length_sample_section: "length nm \<le> 8 \<Longrightarrow> length (sample_section nm a b c) = 40"
  by (simp add: sample_section_def)

lemma length_sample_coff: "length (sample_coff sbss) = 370"
  by (simp add: sample_coff_def length_sample_section text_name_def data_name_def bss_name_def sbss_name_def del: upt_rec_numeral)

lemma scnhdr_of_section:
  assumes "length nm \<le> 8" "0 \<notin> set nm" "int32 addr" "int32 sz" "int32 ptr"
  shows "scnhdr_of (sample_section nm addr sz ptr) = \<lparr>s_name = nm, s_paddr = addr, s_size = sz, s_scnptr = ptr\<rparr>"
proof -
  have w: "int_WordToHost k = k" if "int32 k" for k
    using that by (simp add: int_WordToHost_def WordToHost_def int32_def signed_of_int signed_take_bit_int_eq_self)
  have n: "slice (sample_section nm addr sz ptr) 0 8 = nm @ replicate (8 - length nm) 0"
    using assms(1) by (simp add: slice_def sample_section_def)
  have i: "slice (sample_section nm addr sz ptr) 8 4 = int_bytes addr" "slice (sample_section nm addr sz ptr) 16 4 = int_bytes sz"
      "slice (sample_section nm addr sz ptr) 20 4 = int_bytes ptr"
    using assms(1) by (simp_all add: slice_def sample_section_def)
  have t: "takeWhile (\<lambda>c. c \<noteq> 0) (nm @ replicate k 0) = nm" for k
    using assms(2) by (cases k) (auto simp: takeWhile_append takeWhile_eq_all_conv [THEN iffD2])
  show ?thesis using assms(3-5) by (simp add: scnhdr_of_def n i t w)
qed

lemma sample_read:
  assumes "int32 sbss"
  shows "read_sections (sample_coff sbss) = Inr (sample_sections sbss, 236)"
proof -
  let ?fh = "[0x62, 1, 4, 0] @ replicate 16 0 :: 8 word list" and ?sh = "[7, 1] @ replicate 54 0 :: 8 word list"
  define ss where "ss = [sample_section text_name 0 130 236, sample_section data_name 132 4 366, sample_section bss_name 136 8 0,
    sample_section sbss_name sbss 8 0]"
  define body where "body = map word_of_nat [0..<130] @ [1, 2, 3, 4 :: 8 word]"
  have c: "sample_coff sbss = ?fh @ ?sh @ concat ss @ body"
    by (simp add: sample_coff_def ss_def body_def del: upt_rec_numeral)
  have l: "\<forall>s \<in> set ss. length s = 40" "length ss = 4"
    by (simp_all add: ss_def length_sample_section text_name_def data_name_def bss_name_def sbss_name_def)
  have lc: "length (concat ss) = 160" using l by (simp add: length_concat ss_def)
  have sl: "slice (sample_coff sbss) 0 20 = ?fh" "slice (sample_coff sbss) 20 56 = ?sh" "slice (sample_coff sbss) 76 160 = concat ss"
    unfolding c using lc by (simp_all add: slice_def)
  have sec: "slice (concat ss) 0 40 = ss ! 0" "slice (concat ss) 40 40 = ss ! 1" "slice (concat ss) 80 40 = ss ! 2" "slice (concat ss) 120 40 = ss ! 3"
    using l(1) by (simp_all add: slice_def ss_def)
  have m: "short_at ?fh 0 = MIPSELMAGIC" "short_at ?sh 0 = OMAGIC" "unat (short_at ?fh 2) = 4" by code_simp+
  have names: "length text_name \<le> 8" "0 \<notin> set text_name" "length data_name \<le> 8" "0 \<notin> set data_name" "length bss_name \<le> 8"
      "0 \<notin> set bss_name" "length sbss_name \<le> 8" "0 \<notin> set sbss_name"
    by (simp_all add: text_name_def data_name_def bss_name_def sbss_name_def)
  have "[0..<4] = [0, 1, 2, 3]" by (simp add: upt_rec)
  then have "map (\<lambda>i. scnhdr_of (slice (concat ss) (40 * i) 40)) [0..<4] = map scnhdr_of [ss ! 0, ss ! 1, ss ! 2, ss ! 3]"
    using sec by simp
  also have "\<dots> = sample_sections sbss"
    using assms names by (simp add: ss_def scnhdr_of_section sample_sections_def int32_def)
  finally show ?thesis
    using sl m by (simp add: read_sections_def Read_fd_def length_sample_coff Let_def ShortToHost_def del: append.simps upt_rec_numeral)
qed

definition sample_header :: noff_header where
  "sample_header = \<lparr>noffMagic = NOFFMAGIC, code = \<lparr>virtualAddr = 0, inFileAddr = 40, seg_size = 130\<rparr>,
     initData = \<lparr>virtualAddr = 132, inFileAddr = 170, seg_size = 4\<rparr>,
     uninitData = \<lparr>virtualAddr = 136, inFileAddr = 0, seg_size = 16\<rparr>\<rparr>"

definition sample_noff :: "8 word list" where
  "sample_noff = noff_bytes sample_header @ slice (sample_coff 160) 236 130 @ slice (sample_coff 160) 366 4"

lemma sample_start_header: "start_header (replicate 40 0) = \<lparr>noffMagic = NOFFMAGIC, code = \<lparr>virtualAddr = 0, inFileAddr = 0, seg_size = 0\<rparr>,
     initData = \<lparr>virtualAddr = 0, inFileAddr = 0, seg_size = 0\<rparr>, uninitData = \<lparr>virtualAddr = 0, inFileAddr = 0, seg_size = 0\<rparr>\<rparr>"
  by code_simp

lemma sample_converts: "coff2noff (replicate 40 0) (sample_coff 160) = Inr sample_noff" "length sample_noff = 174"
proof -
  have l: "length (slice (sample_coff 160) 236 130) = 130" "length (slice (sample_coff 160) 366 4) = 4" by (simp_all add: length_sample_coff)
  show "coff2noff (replicate 40 0) (sample_coff 160) = Inr sample_noff"
    by (simp add: coff2noff_def sample_read int32_def sample_start_header sample_sections_def convert_section_def Let_def section_names [symmetric]
        copy_section_def Read_fd_def length_sample_coff seek_fd_def Write_fd_def blit_def l sample_noff_def sample_header_def
        )
  show "length sample_noff = 174" by (simp add: sample_noff_def l)
qed

theorem coff2noff_segments_witness:
  "\<exists>noff. coff2noff (replicate 40 0) (sample_coff 160) = Inr noff \<and>
     (let g = code (header_of (slice noff 0 40)) in virtualAddr g = 0 \<and> seg_size g = 130 \<and>
       slice noff (nat (inFileAddr g)) (nat (seg_size g)) = slice (sample_coff 160) 236 130)"
proof -
  have t: "filter is_text (sample_sections 160) = [\<lparr>s_name = text_name, s_paddr = 0, s_size = 130, s_scnptr = 236\<rparr>]"
    by (simp add: sample_sections_def is_text_def)
  have "\<forall>s \<in> set (sample_sections 160). 0 \<le> s_scnptr s" "sizes_ok (sample_sections 160)" by (simp_all add: sample_sections_def)
  note m = coff2noff_segments [OF sample_converts(1) sample_read _ this]
  let ?g = "code (header_of (slice sample_noff 0 40))"
  have "virtualAddr ?g = 0" "seg_size ?g = 130" "slice sample_noff (nat (inFileAddr ?g)) (nat (seg_size ?g)) = slice (sample_coff 160) 236 130"
    using m sample_converts(2) by (auto simp: Let_def t int32_def)
  then show ?thesis unfolding Let_def by (intro exI [of _ sample_noff] conjI sample_converts(1))
qed

section \<open>Uninitialized data\<close>

definition is_bss :: "scnhdr \<Rightarrow> bool" where
  "is_bss s \<longleftrightarrow> s_size s \<noteq> 0 \<and> (s_name s = bss_name \<or> s_name s = sbss_name)"

lemma convert_not_bss: "convert_section coff s c = Inr c' \<Longrightarrow> \<not> is_bss s \<Longrightarrow> uninitData (noffH c') = uninitData (noffH c)"
  by (auto simp: convert_section_def is_bss_def Let_def copy_section_def res_simps split: if_splits)

lemma convert_none_bss:
  "convert_sections coff ss c = Inr c' \<Longrightarrow> filter is_bss ss = [] \<Longrightarrow> uninitData (noffH c') = uninitData (noffH c)"
proof (induction ss arbitrary: c)
  case (Cons s ss)
  then obtain c1 where c1: "convert_section coff s c = Inr c1" "convert_sections coff ss c1 = Inr c'" by (auto simp: res_simps)
  then show ?case using Cons.IH [OF c1(2)] convert_not_bss [OF c1(1)] Cons.prems(2) by (auto split: if_splits)
qed simp

lemma convert_bss:
  assumes "convert_section coff s c = Inr c'" "is_bss s"
  shows "let u = uninitData (noffH c) in
    if seg_size u = 0 then uninitData (noffH c') = u\<lparr>virtualAddr := s_paddr s, seg_size := s_size s\<rparr>
    else s_paddr s \<noteq> virtualAddr u + seg_size u \<and> uninitData (noffH c') = u\<lparr>seg_size := seg_size u + s_size s\<rparr>"
  using assms by (auto simp: convert_section_def is_bss_def Let_def split: if_splits)

lemma convert_one_bss:
  "convert_sections coff ss c = Inr c' \<Longrightarrow> filter is_bss ss = s # bs \<Longrightarrow>
    \<exists>c1 c2 ts. convert_section coff s c1 = Inr c2 \<and> uninitData (noffH c1) = uninitData (noffH c) \<and>
      convert_sections coff ts c2 = Inr c' \<and> filter is_bss ts = bs"
proof (induction ss arbitrary: c)
  case (Cons x ss)
  then obtain c1 where c1: "convert_section coff x c = Inr c1" "convert_sections coff ss c1 = Inr c'" by (auto simp: res_simps)
  show ?case
  proof (cases "is_bss x")
    case True
    then have "x = s" "filter is_bss ss = bs" using Cons.prems(2) by simp_all
    then show ?thesis using c1 by blast
  next
    case False
    then have "filter is_bss ss = s # bs" using Cons.prems(2) by simp
    then show ?thesis using Cons.IH [OF c1(2)] convert_not_bss [OF c1(1) False] by simp
  qed
qed simp

text \<open>
  C35: a file with both a \<open>.bss\<close> and an \<open>.sbss\<close> section that are not empty is converted only if the second does
  \<^emph>\<open>not\<close> follow the first. The header then says that the uninitialized data is one segment of their
  two sizes from the start of the first, which is not where the second section is.
\<close>

theorem coff2noff_bss:
  assumes "coff2noff junk coff = Inr noff" and "read_sections coff = Inr (ss, p)" and "filter is_bss ss = [s1, s2]"
    and "int32 (s_size s1 + s_size s2)"
  shows "s_paddr s2 \<noteq> s_paddr s1 + s_size s1 \<and>
    (let g = uninitData (header_of (slice noff 0 40)) in virtualAddr g = s_paddr s1 \<and> seg_size g = s_size s1 + s_size s2)"
proof -
  let ?c = "\<lparr>noffH = start_header junk, inNoffFile = 40, out_file = [], out_pos = 40, in_pos = p\<rparr>"
  obtain c where c: "noff = noff_bytes (noffH c) @ drop 40 (out_file c)" "convert_sections coff ss ?c = Inr c"
    using coff2noff_run [OF assms(1,2)] by blast
  obtain c1 c2 ts where s1: "convert_section coff s1 c1 = Inr c2" "uninitData (noffH c1) = uninitData (start_header junk)"
      "convert_sections coff ts c2 = Inr c" "filter is_bss ts = [s2]"
    using convert_one_bss [OF c(2) assms(3)] by auto
  obtain c3 c4 us where s2: "convert_section coff s2 c3 = Inr c4" "uninitData (noffH c3) = uninitData (noffH c2)"
      "convert_sections coff us c4 = Inr c" "filter is_bss us = []"
    using convert_one_bss [OF s1(3,4)] by auto
  have b: "is_bss s1" "is_bss s2" "s1 \<in> set ss" using arg_cong [where f = set, OF assms(3)] by auto
  have z: "seg_size (uninitData (start_header junk)) = 0" "int32 (inFileAddr (uninitData (start_header junk)))"
    by (simp_all add: start_header_def Let_def header_of_def)
  have u2: "uninitData (noffH c2) = (uninitData (start_header junk))\<lparr>virtualAddr := s_paddr s1, seg_size := s_size s1\<rparr>"
    using convert_bss [OF s1(1) b(1)] s1(2) z(1) by (simp add: Let_def)
  have n: "s_size s1 \<noteq> 0" using b(1) by (simp add: is_bss_def)
  have u4: "s_paddr s2 \<noteq> s_paddr s1 + s_size s1" "uninitData (noffH c) =
      (uninitData (start_header junk))\<lparr>virtualAddr := s_paddr s1, seg_size := s_size s1 + s_size s2\<rparr>"
    using convert_bss [OF s2(1) b(2)] convert_none_bss [OF s2(3,4)] s2(2) u2 n by (simp_all add: Let_def)
  have "scnhdr_int32 s1" using read_sections_int32 [OF assms(2)] b(3) by blast
  then have "segment_int32 (uninitData (noffH c))" using z(2) assms(4) by (simp add: u4 segment_int32_def scnhdr_int32_def)
  then have "uninitData (header_of (slice noff 0 40)) = uninitData (noffH c)"
    using header_of_noff(4) [of "noffH c"] c(1) by (simp add: slice_append1 slice_all)
  then show ?thesis using u4 by (simp add: Let_def)
qed

theorem coff2noff_bss_witness:
  "(\<exists>noff. coff2noff (replicate 40 0) (sample_coff 160) = Inr noff \<and>
     (let g = uninitData (header_of (slice noff 0 40)) in virtualAddr g = 136 \<and> seg_size g = 16)) \<and>
   coff2noff (replicate 40 0) (sample_coff 144) = Inl TwoBss"
proof -
  have f: "filter is_bss (sample_sections 160) = [\<lparr>s_name = bss_name, s_paddr = 136, s_size = 8, s_scnptr = 0\<rparr>,
      \<lparr>s_name = sbss_name, s_paddr = 160, s_size = 8, s_scnptr = 0\<rparr>]"
    by (simp add: sample_sections_def is_bss_def)
  have "coff2noff (replicate 40 0) (sample_coff 144) = Inl TwoBss"
    by (simp add: coff2noff_def sample_read int32_def sample_start_header sample_sections_def convert_section_def Let_def
        copy_section_def Read_fd_def length_sample_coff seek_fd_def)
  moreover have "\<exists>noff. coff2noff (replicate 40 0) (sample_coff 160) = Inr noff \<and>
     (let g = uninitData (header_of (slice noff 0 40)) in virtualAddr g = 136 \<and> seg_size g = 16)"
    using coff2noff_bss [OF sample_converts(1) sample_read f] sample_converts(1) by (auto simp: int32_def)
  ultimately show ?thesis by blast
qed

end
