(* ===== verification/Executables.thy ===== *)
theory Executables
  imports Coff Processes
begin

text \<open>
  From a COFF file to a running process: the converter \<open>coff2noff\<close>, the loader \<open>StartProcess\<close> and demand
  paging put together. The memory of the process has the bytes of the sections at their addresses.
\<close>

section \<open>The bytes of a segment in memory\<close>

lemma address_parts: "int (a div 128) = int a div 128" "int (a mod 128) = int a mod 128"
  by (simp_all add: zdiv_int zmod_int)

lemma in_segment_iff:
  assumes "seg_ok g"
  shows "in_segment g (int p) \<longleftrightarrow> virtualAddr g div PageBytes \<le> int p \<and> int p \<le> (virtualAddr g + seg_size g) div PageBytes"
  using assms by (auto simp: in_segment_def seg_ok_def sdiv_nonneg_eq)

lemma in_segment_address:
  assumes "seg_ok g" "virtualAddr g \<le> int a" "int a < virtualAddr g + seg_size g"
  shows "in_segment g (int (a div 128))"
  using zdiv_mono1 [OF assms(2), of 128] zdiv_mono1 [of "int a" "virtualAddr g + seg_size g" 128] assms(3)
  by (intro in_segment_iff [OF assms(1), THEN iffD2] conjI) (simp_all add: address_parts)

text \<open>The quotient and the remainder as numbers of their own, which keeps the arithmetic linear.\<close>

lemma page_parts: "\<exists>q r. x = 128 * q + r \<and> 0 \<le> r \<and> r < 128 \<and> x div 128 = q \<and> x mod 128 = (r :: int)"
  by (intro exI [of _ "x div 128"] exI [of _ "x mod 128"]) simp

lemma seg_byte_in:
  assumes g: "seg_ok g" and a: "virtualAddr g \<le> int a" "int a < virtualAddr g + seg_size g"
    and f: "nat (inFileAddr g) + nat (seg_size g) \<le> length fl"
  shows "seg_byte fl g (a div 128) (a mod 128) = Some (fl ! (nat (inFileAddr g) + nat (int a - virtualAddr g)))"
proof -
  let ?v = "virtualAddr g" and ?stop = "virtualAddr g + seg_size g"
  have pos: "0 \<le> ?v" "0 \<le> seg_size g" "0 \<le> inFileAddr g" using g by (simp_all add: seg_ok_def)
  define p i where "p = a div 128" and "i = a mod 128"
  have s: "in_segment g (int p)" using in_segment_address [OF g a] by (simp add: p_def)
  have ia: "int a = 128 * int p + int i" "i < 128" using mult_div_mod_eq [of 128 a] unfolding p_def i_def by (linarith, simp)
  obtain q r where v: "?v = 128 * q + r" "0 \<le> r" "r < 128" "?v div 128 = q" "?v mod 128 = r" using page_parts [of ?v] by blast
  obtain e k where st: "?stop = 128 * e + k" "0 \<le> k" "k < 128" "?stop div 128 = e" "?stop mod 128 = k" using page_parts [of ?stop] by blast
  have rng: "q \<le> int p" "int p \<le> e" using s v(4) st(4) by (simp_all add: in_segment_iff [OF g])
  have sz: "seg_size g \<noteq> 0" using a by auto
  show ?thesis unfolding p_def [symmetric] i_def [symmetric]
  proof (cases "q = int p")
    case True
    have r: "seg_read fl g p = slice fl (nat (inFileAddr g)) (nat (128 - r))" "seg_off g p = nat r"
      using True sz v(4,5) by (simp_all add: seg_read_def seg_off_def Let_def)
    have n: "nat r \<le> i" "i - nat r = nat (int a - ?v)" "i - nat r < nat (128 - r)" using True v(1-3) ia a(1) by linarith+
    have l: "nat (inFileAddr g) + (i - nat r) < length fl" using n(1,2) f a pos by linarith
    then have "i - nat r < length (slice fl (nat (inFileAddr g)) (nat (128 - r)))" using n(3) by (simp add: slice_def) linarith
    moreover have "slice fl (nat (inFileAddr g)) (nat (128 - r)) ! (i - nat r) = fl ! (nat (inFileAddr g) + (i - nat r))"
      using n(3) l by (simp add: slice_def)
    ultimately show "seg_byte fl g p i = Some (fl ! (nat (inFileAddr g) + nat (int a - ?v)))"
      using s n(1,2) by (simp add: seg_byte_def r) linarith
  next
    case False
    let ?pos = "nat (inFileAddr g + 128 * int p - ?v)"
    have lt: "q < int p" using False rng(1) by simp
    then have vp: "?v \<le> 128 * int p" using v(1,3) by linarith
    define len where "len = (if e > int p then 128 else nat k)"
    have r: "seg_read fl g p = slice fl ?pos len" "seg_off g p = 0"
      using False sz v(4) st(4,5) by (simp_all add: seg_read_def seg_off_def Let_def len_def)
    have k: "i < len" using rng(2) a(2) st(1-3) ia unfolding len_def by auto
    have m: "?pos + i = nat (inFileAddr g) + nat (int a - ?v)" using vp a(1) pos ia by linarith
    have "?pos + i < length fl" unfolding m using f a pos by linarith
    then show "seg_byte fl g p i = Some (fl ! (nat (inFileAddr g) + nat (int a - ?v)))"
      using s k m by (simp add: seg_byte_def r slice_def)
  qed
qed

lemma seg_byte_before:
  assumes g: "seg_ok g" and a: "int a < virtualAddr g"
  shows "seg_byte fl g (a div 128) (a mod 128) = None"
proof -
  define p i where "p = a div 128" and "i = a mod 128"
  have ia: "int a = 128 * int p + int i" "i < 128" using mult_div_mod_eq [of 128 a] unfolding p_def i_def by (linarith, simp)
  obtain q r where v: "virtualAddr g = 128 * q + r" "0 \<le> r" "r < 128" "virtualAddr g div 128 = q" "virtualAddr g mod 128 = r"
    using page_parts [of "virtualAddr g"] by blast
  have "int p \<le> q" using a v(1-3) ia by linarith
  moreover have "int i < r" if "q = int p" using that a v(1) ia by linarith
  ultimately show ?thesis unfolding p_def [symmetric] i_def [symmetric]
    using v(4,5) by (auto simp: seg_byte_def seg_off_def in_segment_iff [OF g])
qed

text \<open>An empty segment contributes nothing, whatever its address.\<close>

lemma seg_byte_empty: "seg_size g = 0 \<Longrightarrow> seg_byte fl g p i = None"
  by (simp add: seg_byte_def seg_read_def Let_def)

lemma known_byte_code:
  assumes "seg_ok (code (noffHeader sp))" "seg_ok (initData (noffHeader sp))"
    and "virtualAddr (code (noffHeader sp)) \<le> int a" "int a < virtualAddr (code (noffHeader sp)) + seg_size (code (noffHeader sp))"
    and "nat (inFileAddr (code (noffHeader sp))) + nat (seg_size (code (noffHeader sp))) \<le> length (executableFile sp)"
    and "seg_size (initData (noffHeader sp)) = 0 \<or> int a < virtualAddr (initData (noffHeader sp))"
  shows "known_byte sp a = Some (executableFile sp ! (nat (inFileAddr (code (noffHeader sp))) + nat (int a - virtualAddr (code (noffHeader sp)))))"
proof -
  have "seg_byte (executableFile sp) (initData (noffHeader sp)) (a div 128) (a mod 128) = None"
    using assms(6) seg_byte_before [OF assms(2)] seg_byte_empty by blast
  moreover have "in_segment (code (noffHeader sp)) (int (a div 128))"
    using in_segment_address [OF assms(1,3,4)] .
  ultimately show ?thesis using seg_byte_in [OF assms(1,3,4,5)] by (simp add: known_byte_def Let_def)
qed

lemma known_byte_data:
  assumes "seg_ok (initData (noffHeader sp))"
    and "virtualAddr (initData (noffHeader sp)) \<le> int a" "int a < virtualAddr (initData (noffHeader sp)) + seg_size (initData (noffHeader sp))"
    and "nat (inFileAddr (initData (noffHeader sp))) + nat (seg_size (initData (noffHeader sp))) \<le> length (executableFile sp)"
  shows "known_byte sp a = Some (executableFile sp ! (nat (inFileAddr (initData (noffHeader sp))) + nat (int a - virtualAddr (initData (noffHeader sp)))))"
proof -
  have "in_segment (initData (noffHeader sp)) (int (a div 128))"
    using in_segment_address [OF assms(1-3)] .
  then show ?thesis using seg_byte_in [OF assms] by (simp add: known_byte_def Let_def)
qed

section \<open>Loading\<close>

text \<open>The number of pages: the total size, rounded up.\<close>

lemma round_up: "t div 128 + (if t mod 128 \<noteq> 0 then 1 else 0) = (t + 127) div (128 :: int)"
proof -
  obtain q r where t: "t = 128 * q + r" "0 \<le> r" "r < 128" "t div 128 = q" "t mod 128 = r" using page_parts [of t] by blast
  have "(t + 127) div 128 = (r + 127 + 128 * q) div 128" by (simp add: t(1) algebra_simps)
  also have "\<dots> = q + (r + 127) div 128" by simp
  also have "(r + 127) div 128 = (if r \<noteq> 0 then 1 else 0)" using t(2,3) by (auto simp: div_pos_geq)
  finally show ?thesis by (simp add: t(4,5))
qed

lemma pages_of_size:
  assumes "0 \<le> t" "t \<le> 2 ^ 30"
  shows "unat (divRoundUp_u (word_of_int t) (word_of_int PageBytes)) = nat ((t + 127) div 128)"
proof -
  let ?w = "word_of_int t :: 32 word"
  have u: "uint ?w = t" using assms by (simp add: uint_word_of_int take_bit_int_eq_self)
  have d: "uint (?w div 128) = t div 128" "uint (?w mod 128) = t mod 128" by (simp_all add: uint_div uint_mod u)
  have b: "t div 128 \<le> 2 ^ 23" "0 \<le> t div 128" using zdiv_mono1 [OF assms(2), of 128] assms(1) by (simp_all add: pos_imp_zdiv_nonneg_iff)
  have z: "?w mod 128 > 0 \<longleftrightarrow> t mod 128 \<noteq> 0" using d(2) by (metis uint_0_iff word_gt_0)
  let ?k = "if t mod 128 \<noteq> 0 then 1 else 0 :: int"
  have k: "uint (if ?w mod 128 > 0 then 1 else 0 :: 32 word) = ?k" unfolding z by simp
  have "uint (divRoundUp_u ?w 128) = (uint (?w div 128) + uint (if ?w mod 128 > 0 then 1 else 0 :: 32 word)) mod 2 ^ 32"
    unfolding divRoundUp_u_def by (simp only: uint_word_ariths(1)) (simp only: len_num1 len_bit0 mult_1_right, simp only: Num.numeral_times_numeral Num.mult_num_simps power_numeral Num.pow.simps)
  also have "\<dots> = (t div 128 + ?k) mod 2 ^ 32" unfolding d(1) k ..
  also have "\<dots> = t div 128 + ?k" using b by (intro mod_pos_pos_trivial) auto
  also have "\<dots> = (t + 127) div 128" by (rule round_up)
  finally show ?thesis by (simp add: unat_eq_nat_uint)
qed

lemma Initialize_ok:
  assumes "40 \<le> length noff" "noffMagic (header_of (slice noff 0 40)) = NOFFMAGIC"
  shows "\<exists>sp pt. Initialize (junk_header junk) (junk_entries junk) False (AddrSpace_new noff (blank_space junk)) = Inr (sp, pt, 1) \<and>
    executableFile sp = noff \<and> noffHeader sp = header_of (slice noff 0 40) \<and>
    numPages sp = (let h = header_of (slice noff 0 40) in
      divRoundUp_u (word_of_int (seg_size (code h) + seg_size (initData h) + seg_size (uninitData h) + UserStackSize)) (word_of_int PageBytes))"
proof -
  have b: "header_of (blit j 0 (slice noff 0 40)) = header_of (slice noff 0 40)" for j
  proof -
    have "slice (blit j 0 (slice noff 0 40)) i 4 = slice (slice noff 0 40) i 4" if "i + 4 \<le> 40" for i
      using that assms(1) by (simp add: blit_def slice_append1)
    then show ?thesis by (simp add: header_of_def header_int_def)
  qed
  show ?thesis using assms by (simp add: Initialize_def stub_ReadAt_def AddrSpace_new_def b Let_def)
qed

text \<open>The sections of a program as the linker lays them out: the code in front of the data.\<close>

definition laid_out :: "scnhdr list \<Rightarrow> bool" where
  "laid_out ss \<longleftrightarrow> sizes_ok ss \<and>
     (\<forall>s \<in> set ss. 0 \<le> s_paddr s \<and> 0 \<le> s_scnptr s \<and> s_paddr s + s_size s < 2 ^ 31) \<and>
     (filter is_text ss \<noteq> [] \<longrightarrow> filter is_data ss \<noteq> [] \<longrightarrow>
       s_paddr (last (filter is_text ss)) + s_size (last (filter is_text ss)) \<le> s_paddr (last (filter is_data ss)))"

text \<open>The memory shows the bytes that the section has in the file.\<close>

definition shows_section :: "8 word list \<Rightarrow> 8 word option list \<Rightarrow> scnhdr \<Rightarrow> bool" where
  "shows_section coff a s \<longleftrightarrow>
     (\<forall>i < nat (s_size s). nat (s_paddr s) + i < length a \<longrightarrow> a ! (nat (s_paddr s) + i) = Some (coff ! (nat (s_scnptr s) + i)))"

lemma last_in_ss: "filter f ss \<noteq> [] \<Longrightarrow> last (filter f ss) \<in> set ss"
  using last_in_set by fastforce

lemma placed_seg_ok:
  assumes "placed coff g (filter f ss) noff (int (length noff))" "laid_out ss" "filter f ss \<noteq> []"
  shows "seg_ok g" "nat (inFileAddr g) + nat (seg_size g) \<le> length noff" "virtualAddr g = s_paddr (last (filter f ss))"
    "seg_size g = s_size (last (filter f ss))"
    "i < nat (seg_size g) \<Longrightarrow> noff ! (nat (inFileAddr g) + i) = coff ! (nat (s_scnptr (last (filter f ss))) + i)"
proof -
  let ?s = "last (filter f ss)"
  have s: "0 \<le> s_paddr ?s" "0 \<le> s_scnptr ?s" "s_paddr ?s + s_size ?s < 2 ^ 31"
    using assms(2) last_in_ss [OF assms(3)] by (auto simp: laid_out_def)
  have p: "virtualAddr g = s_paddr ?s" "seg_size g = s_size ?s" "0 < seg_size g" "40 \<le> inFileAddr g" "inFileAddr g + seg_size g \<le> int (length noff)"
      "nat (s_scnptr ?s) + nat (seg_size g) \<le> length coff"
      "slice noff (nat (inFileAddr g)) (nat (seg_size g)) = slice coff (nat (s_scnptr ?s)) (nat (seg_size g))"
    using assms(1,3) s(2) unfolding placed_def by auto
  show "seg_ok g" using p(1-4) s(1,3) by (simp add: seg_ok_def)
  show n: "nat (inFileAddr g) + nat (seg_size g) \<le> length noff" using p(3-5) by linarith
  show "virtualAddr g = s_paddr ?s" "seg_size g = s_size ?s" by (fact p)+
  show "noff ! (nat (inFileAddr g) + i) = coff ! (nat (s_scnptr ?s) + i)" if "i < nat (seg_size g)"
    using arg_cong [where f = "\<lambda>xs. xs ! i", OF p(7)] that n p(6) by simp
qed

lemma shows_sectionI:
  assumes "\<And>i. i < nat (s_size s) \<Longrightarrow> known_byte sp (nat (s_paddr s) + i) = Some (coff ! (nat (s_scnptr s) + i))"
  shows "shows_section coff (map (known_byte sp) [0..<k]) s"
  using assms by (simp add: shows_section_def)

lemma code_shown:
  assumes sp: "executableFile sp = noff" "noffHeader sp = h" and sg: "seg_ok (code h)" "seg_ok (initData h)" and lo: "laid_out ss"
    and pl: "placed coff (code h) (filter is_text ss) noff (int (length noff))" "placed coff (initData h) (filter is_data ss) noff (int (length noff))"
    and ne: "filter is_text ss \<noteq> []"
  shows "shows_section coff (map (known_byte sp) [0..<k]) (last (filter is_text ss))"
proof (rule shows_sectionI)
  let ?s = "last (filter is_text ss)"
  fix i assume i: "i < nat (s_size ?s)"
  note c = placed_seg_ok [OF pl(1) lo ne]
  have pa: "0 \<le> s_paddr ?s" using lo last_in_ss [OF ne] by (auto simp: laid_out_def)
  have at: "virtualAddr (code h) \<le> int (nat (s_paddr ?s) + i)" "int (nat (s_paddr ?s) + i) < virtualAddr (code h) + seg_size (code h)"
    using c(3,4) pa i by linarith+
  have "seg_size (initData h) = 0 \<or> int (nat (s_paddr ?s) + i) < virtualAddr (initData h)"
  proof (cases "filter is_data ss = []")
    case False
    then have "s_paddr ?s + s_size ?s \<le> virtualAddr (initData h)" using placed_seg_ok(3) [OF pl(2) lo False] ne lo by (simp add: laid_out_def)
    then show ?thesis using at(2) c(3,4) by simp
  qed (use pl(2) in \<open>simp add: placed_def\<close>)
  note k = known_byte_code [of sp, unfolded sp, OF sg at c(2) this]
  have "nat (int (nat (s_paddr ?s) + i) - virtualAddr (code h)) = i" using c(3) pa by simp
  then show "known_byte sp (nat (s_paddr ?s) + i) = Some (coff ! (nat (s_scnptr ?s) + i))" using k c(4,5) i by simp
qed

lemma data_shown:
  assumes sp: "executableFile sp = noff" "noffHeader sp = h" and sg: "seg_ok (initData h)" and lo: "laid_out ss"
    and pl: "placed coff (initData h) (filter is_data ss) noff (int (length noff))" and ne: "filter is_data ss \<noteq> []"
  shows "shows_section coff (map (known_byte sp) [0..<k]) (last (filter is_data ss))"
proof (rule shows_sectionI)
  let ?s = "last (filter is_data ss)"
  fix i assume i: "i < nat (s_size ?s)"
  note c = placed_seg_ok [OF pl lo ne]
  have pa: "0 \<le> s_paddr ?s" using lo last_in_ss [OF ne] by (auto simp: laid_out_def)
  have at: "virtualAddr (initData h) \<le> int (nat (s_paddr ?s) + i)" "int (nat (s_paddr ?s) + i) < virtualAddr (initData h) + seg_size (initData h)"
    using c(3,4) pa i by linarith+
  note k = known_byte_data [of sp, unfolded sp, OF sg at c(2)]
  have "nat (int (nat (s_paddr ?s) + i) - virtualAddr (initData h)) = i" using c(3) pa by simp
  then show "known_byte sp (nat (s_paddr ?s) + i) = Some (coff ! (nat (s_scnptr ?s) + i))" using k c(4,5) i by simp
qed

text \<open>
  C4: the converter and the kernel together load a program. Let a COFF file, with its code in front of its
  data and no section of size -1, be converted to a NOFF file, and let a process be started from that. Then \<open>StartProcess\<close>
  succeeds, and, provided that the flags which the constructor of the backing store leaves uninitialized are clear for the pages of the
  process, its memory, seen through demand paging, has room for the total size and a stack of 1024 bytes and shows two
  sections: of the last non-empty text section and of the last non-empty data section, every byte whose address lies in the address
  space is the one in the COFF file. Earlier sections of these kinds are not in the header of the NOFF file, and a byte beyond the total
  size, rounded up to pages, has no address. A page with a set flag is not loaded (\<open>StartProcess_flat\<close> in theory \<open>Processes\<close>).
  The total size is at most 2 to the 30; when there is no text or no data section, the segment that the header has for it, whose
  address the converter leaves uninitialized, is in range (\<open>seg_ok\<close>); and \<open>Random\<close> draws every page (\<open>draws_all\<close>).
\<close>

theorem program_loaded:
  assumes "coff2noff junk0 coff = Inr noff" and "read_sections coff = Inr (ss, p)" and "length noff < 2 ^ 31" and "laid_out ss"
    and "host_file (kernel s) name = Some noff" and "h = header_of (slice noff 0 40)"
    and "filter is_text ss = [] \<longrightarrow> seg_ok (code h)" and "filter is_data ss = [] \<longrightarrow> seg_ok (initData h)"
    and "t = seg_size (code h) + seg_size (initData h) + seg_size (uninitData h) + 1024" and "0 \<le> t" and "t \<le> 2 ^ 30"
    and "nat ((t + 127) div 128) \<le> length (junk_flags junk)" and "machine_wf (cpu s)" and "tlb (cpu s) = None" and "draws_all n random (nat ((t + 127) div 128))"
  shows "\<exists>s' a. StartProcess junk jw name s = Inr (Some s') \<and>
    ((\<forall>p < nat ((t + 127) div 128). \<not> junk_flags junk ! p) \<longrightarrow> flat n random s' a) \<and> t \<le> int (length a) \<and>
    (filter is_text ss \<noteq> [] \<longrightarrow> shows_section coff a (last (filter is_text ss))) \<and>
    (filter is_data ss \<noteq> [] \<longrightarrow> shows_section coff a (last (filter is_data ss)))"
proof -
  have "sizes_ok ss" using assms(4) by (simp add: laid_out_def)
  note pl = coff2noff_placed [OF assms(1-3) this, folded assms(6)]
  obtain sp pt where I: "Initialize (junk_header junk) (junk_entries junk) False (AddrSpace_new noff (blank_space junk)) = Inr (sp, pt, 1)"
      and sp: "executableFile sp = noff" "noffHeader sp = h" "numPages sp = divRoundUp_u (word_of_int t) (word_of_int PageBytes)"
    using Initialize_ok [OF pl(2,1) [unfolded assms(6)], of junk] by (auto simp: assms(6,9) UserStackSize_def Let_def)
  let ?np = "nat ((t + 127) div 128)"
  have np: "unat (numPages sp) = ?np" using pages_of_size [OF assms(10,11)] sp(3) by simp
  have sg: "seg_ok (code h)" "seg_ok (initData h)"
    using assms(7,8) placed_seg_ok(1) [OF pl(3) assms(4)] placed_seg_ok(1) [OF pl(4) assms(4)] by blast+
  have ho: "header_ok sp" using sg sp(2) by (simp add: header_ok_def)
  have "(t + 127) div 128 \<le> 2 ^ 23" using zdiv_mono1 [of "t + 127" "2 ^ 30 + 127" 128] assms(11) by simp
  then have small: "unat (numPages sp) \<le> 2 ^ 23" "unat (numPages sp) \<le> length (junk_flags junk)" using assms(12) np by simp_all
  obtain s' where run: "StartProcess junk jw name s = Inr (Some s')" "flags_clear junk sp \<longrightarrow> flat n random s' (map (known_byte sp) [0..<128 * unat (numPages sp)])"
    using StartProcess_ok [OF assms(5) I ho small assms(13,14), of n random jw] assms(15) np by auto
  let ?a = "map (known_byte sp) [0..<128 * unat (numPages sp)]"
  note shown = code_shown [OF sp(1,2) sg assms(4) pl(3,4)] data_shown [OF sp(1,2) sg(2) assms(4) pl(4)]
  have "t \<le> int (length ?a)"
  proof -
    have "t \<le> 128 * ((t + 127) div 128)" using round_up [of t] mult_div_mod_eq [of 128 t] pos_mod_bound [of 128 t] by (simp split: if_splits)
    then show ?thesis using np assms(10) by simp
  qed
  moreover have "(\<forall>p < ?np. \<not> junk_flags junk ! p) \<longrightarrow> flat n random s' ?a" using run(2) by (simp only: flags_clear_def np)
  ultimately show ?thesis using run(1) shown by blast
qed

text \<open>The sample of \<open>Coff\<close>, as the file \<open>b\<close>.\<close>

definition coff_system :: "os sys" where
  "coff_system = sample_system\<lparr>kernel := (kernel sample_system)\<lparr>host_file := (\<lambda>nm. if nm = [98] then Some sample_noff else None)\<rparr>\<rparr>"

lemma sample_noff_header: "header_of (slice sample_noff 0 40) = sample_header"
  using header_of_noff [of sample_header]
  by (simp add: sample_noff_def slice_append1 slice_all) (simp add: sample_header_def segment_int32_def int32_def NOFFMAGIC_def noff_header.equality)

lemma sample_laid_out:
  "laid_out (sample_sections 160)" "filter is_text (sample_sections 160) = [\<lparr>s_name = text_name, s_paddr = 0, s_size = 130, s_scnptr = 236\<rparr>]"
  "filter is_data (sample_sections 160) = [\<lparr>s_name = data_name, s_paddr = 132, s_size = 4, s_scnptr = 366\<rparr>]"
  by (simp_all add: laid_out_def sample_sections_def is_text_def is_data_def)

theorem program_loaded_witness:
  "\<exists>s' a. StartProcess sample_junk (\<lambda>_. 0) [98] coff_system = Inr (Some s') \<and> flat 10 (\<lambda>i. i) s' a \<and> 1174 \<le> length a \<and>
     a ! 129 = Some (sample_coff 160 ! 365) \<and> a ! 133 = Some (sample_coff 160 ! 367)"
proof -
  have h: "host_file (kernel coff_system) [98] = Some sample_noff" "machine_wf (cpu coff_system)" "tlb (cpu coff_system) = None"
    using sample_start(6,7) by (simp_all add: coff_system_def)
  have f: "nat ((1174 + 127) div 128) \<le> length (junk_flags sample_junk)" "draws_all 10 (\<lambda>i. i) (nat ((1174 + 127) div 128))"
    and cl: "\<forall>p < nat ((1174 + 127) div 128). \<not> junk_flags sample_junk ! p"
    using draws_all_successive [of 10] by (simp_all add: sample_junk_def)
  have t: "1174 = seg_size (code sample_header) + seg_size (initData sample_header) + seg_size (uninitData sample_header) + 1024"
    by (simp add: sample_header_def)
  have l: "length sample_noff < 2 ^ 31" "int32 160" by (simp_all add: sample_converts int32_def)
  obtain s' a where r: "StartProcess sample_junk (\<lambda>_. 0) [98] coff_system = Inr (Some s')" "flat 10 (\<lambda>i. i) s' a" "1174 \<le> int (length a)"
      "shows_section (sample_coff 160) a \<lparr>s_name = text_name, s_paddr = 0, s_size = 130, s_scnptr = 236\<rparr>"
      "shows_section (sample_coff 160) a \<lparr>s_name = data_name, s_paddr = 132, s_size = 4, s_scnptr = 366\<rparr>"
    using program_loaded [OF sample_converts(1) sample_read [OF l(2)] l(1) sample_laid_out(1) h(1) sample_noff_header [symmetric] _ _ t _ _
        f(1) h(2,3) f(2), of "\<lambda>_. 0"] cl by (auto simp: sample_laid_out(2,3))
  have "a ! 129 = Some (sample_coff 160 ! 365)" using r(3) r(4) [unfolded shows_section_def, THEN spec, of 129] by simp
  moreover have "a ! 133 = Some (sample_coff 160 ! 367)" using r(3) r(5) [unfolded shows_section_def, THEN spec, of 1] by simp
  ultimately show ?thesis using r(1-3) by auto
qed

end
