(* ===== verification/FsTest.thy ===== *)
theory FsTest
  imports FileSessions
begin

text \<open>
  \<open>filesys/fstest.cc\<close>: copying a UNIX file into the file system, printing a file and the performance
  test, all clients of \<open>Create\<close>, \<open>Open\<close>, \<open>Read\<close> and \<open>Write\<close>. The UNIX files are the argument \<open>unix\<close>.
\<close>

section \<open>The commands\<close>

definition TransferSize :: nat where "TransferSize = 10"

text \<open>What the commands print: a character of a file, a message about a file, the statistics.\<close>

datatype test_line = Character "8 word" | Message string "8 word list" | Counters statistics

text \<open>The rest of the UNIX file, in chunks of \<open>TransferSize\<close>, the last of which may be shorter.\<close>

function copy_loop :: "(nat \<Rightarrow> 8 word) \<Rightarrow> open_file \<Rightarrow> synch_disk \<Rightarrow> 8 word list \<Rightarrow> (open_file \<times> synch_disk) res" where
  "copy_loop junk f s fp =
     (let buffer = take TransferSize fp; amountRead = int (length buffer) in
      if amountRead > 0 then
        bindR (Write junk f s buffer amountRead) (\<lambda>(f, s, _). copy_loop junk f s (drop TransferSize fp))
      else Inr (f, s))"
  by pat_completeness auto
termination by (relation "measure (\<lambda>(junk, f, s, fp). length fp)") (auto simp: TransferSize_def)

definition Copy :: "garbage \<Rightarrow> (8 word list \<Rightarrow> 8 word list option) \<Rightarrow> file_system \<Rightarrow> synch_disk \<Rightarrow>
    8 word list \<Rightarrow> 8 word list \<Rightarrow> (synch_disk \<times> test_line list) res" where
  "Copy g unix fs s from_name to_name =
     (case unix from_name of
        None \<Rightarrow> Inr (s, [Message ''Copy: couldn't open input file'' from_name])
      | Some fp \<Rightarrow>
          bindR (Create g fs s to_name (int (length fp))) (\<lambda>(s, created).
          if \<not> created then Inr (s, [Message ''Copy: couldn't create output file'' to_name])
          else
            bindR (Open g fs s to_name) (\<lambda>(s, f).
            ASSERT (f \<noteq> None) (
            bindR (copy_loop (g_buffer g) (the f) s fp) (\<lambda>(_, s). Inr (s, []))))))"

lemma ReadAt_progress:
  "ReadAt f s n p = Inr (s', into, r) \<Longrightarrow> 0 < r \<Longrightarrow> p < FileLength (hdr f)"
  by (cases "FileLength (hdr f) \<le> p") (auto simp: ReadAt_def Let_def)

function print_loop :: "open_file \<Rightarrow> synch_disk \<Rightarrow> (synch_disk \<times> test_line list) res" where
  "print_loop f s =
     (case Read f s (int TransferSize) of
        Inl e \<Rightarrow> Inl e
      | Inr (f', s, buffer, amountRead) \<Rightarrow>
          if amountRead > 0 then
            bindR (print_loop f' s) (\<lambda>(s, out). Inr (s, map Character (take (nat amountRead) buffer) @ out))
          else Inr (s, []))"
  by pat_completeness auto
termination
  by (relation "measure (\<lambda>(f, s). nat (FileLength (hdr f) - seekPosition f))")
    (auto simp: Read_def bindR_eq_Inr FileLength_def dest!: ReadAt_progress)

definition Print :: "garbage \<Rightarrow> file_system \<Rightarrow> synch_disk \<Rightarrow> 8 word list \<Rightarrow> (synch_disk \<times> test_line list) res" where
  "Print g fs s nm =
     bindR (Open g fs s nm) (\<lambda>(s, f).
     case f of
       None \<Rightarrow> Inr (s, [Message ''Print: unable to open file'' nm])
     | Some f \<Rightarrow> print_loop f s)"

section \<open>The performance test\<close>

text \<open>\<open>TestFile\<close> and \<open>1234567890\<close>.\<close>

definition FileName :: "8 word list" where "FileName = [84, 101, 115, 116, 70, 105, 108, 101]"
definition Contents :: "8 word list" where "Contents = [49, 50, 51, 52, 53, 54, 55, 56, 57, 48]"
definition ContentSize :: int where "ContentSize = int (length Contents)"
definition FileSize :: int where "FileSize = ContentSize * 5000"

lemma ContentSize_10: "ContentSize = 10"
  by (simp add: ContentSize_def Contents_def)

function write_tests :: "(nat \<Rightarrow> 8 word) \<Rightarrow> int \<Rightarrow> open_file \<Rightarrow> synch_disk \<Rightarrow> (synch_disk \<times> test_line list) res" where
  "write_tests junk i f s =
     (if i < FileSize then
        bindR (Write junk f s Contents ContentSize) (\<lambda>(f, s, numBytes).
        if numBytes < 10 then Inr (s, [Message ''Perf test: unable to write'' FileName])
        else write_tests junk (i + ContentSize) f s)
      else Inr (s, []))"
  by pat_completeness auto
termination by (relation "measure (\<lambda>(junk, i, f, s). nat (FileSize - i))") (auto simp: ContentSize_10)

definition FileWrite :: "garbage \<Rightarrow> file_system \<Rightarrow> synch_disk \<Rightarrow> (synch_disk \<times> test_line list) res" where
  "FileWrite g fs s =
     (let start = Message ''Sequential write'' [] in
      bindR (Create g fs s FileName 0) (\<lambda>(s, created).
      if \<not> created then Inr (s, [start, Message ''Perf test: can't create'' FileName])
      else
        bindR (Open g fs s FileName) (\<lambda>(s, f).
        case f of
          None \<Rightarrow> Inr (s, [start, Message ''Perf test: unable to open'' FileName])
        | Some f \<Rightarrow> bindR (write_tests (g_buffer g) 0 f s) (\<lambda>(s, out). Inr (s, start # out)))))"

function read_tests :: "int \<Rightarrow> open_file \<Rightarrow> synch_disk \<Rightarrow> (synch_disk \<times> test_line list) res" where
  "read_tests i f s =
     (if i < FileSize then
        bindR (Read f s ContentSize) (\<lambda>(f, s, buffer, numBytes).
        if numBytes < 10 \<or> take (nat ContentSize) buffer \<noteq> Contents
        then Inr (s, [Message ''Perf test: unable to read'' FileName])
        else read_tests (i + ContentSize) f s)
      else Inr (s, []))"
  by pat_completeness auto
termination by (relation "measure (\<lambda>(i, f, s). nat (FileSize - i))") (auto simp: ContentSize_10)

definition FileRead :: "garbage \<Rightarrow> file_system \<Rightarrow> synch_disk \<Rightarrow> (synch_disk \<times> test_line list) res" where
  "FileRead g fs s =
     (let start = Message ''Sequential read'' [] in
      bindR (Open g fs s FileName) (\<lambda>(s, f).
      case f of
        None \<Rightarrow> Inr (s, [start, Message ''Perf test: unable to open file'' FileName])
      | Some f \<Rightarrow> bindR (read_tests 0 f s) (\<lambda>(s, out). Inr (s, start # out))))"

definition PerformanceTest :: "garbage \<Rightarrow> file_system \<Rightarrow> synch_disk \<Rightarrow> (synch_disk \<times> test_line list) res" where
  "PerformanceTest g fs s =
     (let start = [Message ''Starting file system performance test'' [], Counters (sd_stats s)] in
      bindR (FileWrite g fs s) (\<lambda>(s, out1).
      bindR (FileRead g fs s) (\<lambda>(s, out2).
      bindR (fs_Remove g fs s FileName) (\<lambda>(s, removed).
      if \<not> removed then Inr (s, start @ out1 @ out2 @ [Message ''Perf test: unable to remove'' FileName])
      else Inr (s, start @ out1 @ out2 @ [Counters (sd_stats s)])))))"

declare copy_loop.simps [simp del] print_loop.simps [simp del] write_tests.simps [simp del] read_tests.simps [simp del]

section \<open>Files as bytes\<close>

text \<open>The files by their truncated names.\<close>

definition file_bytes :: "synch_disk \<Rightarrow> directory \<Rightarrow> 8 word list \<Rightarrow> 8 word list option" where
  "file_bytes s d k = map_option (\<lambda>sec. contents s (fhdr s sec)) (dmap (dtable d) k)"

lemma file_bytes_same:
  assumes "fs_inv fs s d fm" "same_sectors s s'"
  shows "file_bytes s' d = file_bytes s d"
proof
  fix k
  show "file_bytes s' d k = file_bytes s d k"
  proof (cases "dmap (dtable d) k")
    case (Some sec)
    then have f: "file_ok (fhdr s sec)" "0 \<le> sec" "sec < DiskDev.NumSectors"
      using assms(1) unfolding fs_inv_def files_ok_def by blast+
    then have "fhdr s' sec = fhdr s sec" using assms(2) by (simp add: same_sectors_def fhdr_def)
    then show ?thesis using Some contents_same_sectors [OF f(1) assms(2)] by (simp add: file_bytes_def)
  qed (simp add: file_bytes_def)
qed

text \<open>The header of every file has the sectors its length needs, and no more.\<close>

definition sizes_ok :: "synch_disk \<Rightarrow> directory \<Rightarrow> bool" where
  "sizes_ok s d \<longleftrightarrow> (\<forall>sec \<in> ran (dmap (dtable d)). 0 \<le> numBytes (fhdr s sec) \<and>
     numSectors (fhdr s sec) = divRoundUp (numBytes (fhdr s sec)) SecSize)"

definition free_left :: "bitmap \<Rightarrow> int" where
  "free_left fm = 1024 - int (card (marked fm))"

lemma sizes_ok_same:
  assumes "fs_inv fs s d fm" "same_sectors s s'"
  shows "sizes_ok s d \<longrightarrow> sizes_ok s' d"
proof -
  have "fhdr s' sec = fhdr s sec" if "dmap (dtable d) k = Some sec" for k sec
  proof -
    have "0 \<le> sec \<and> sec < DiskDev.NumSectors" using assms(1) that unfolding fs_inv_def files_ok_def by blast
    then show ?thesis using assms(2) by (simp add: same_sectors_def fhdr_def)
  qed
  then show ?thesis by (auto simp: sizes_ok_def ran_def)
qed

lemma print_loop_ok:
  assumes "file_ok (hdr f)" "synch_ok s" "0 \<le> seekPosition f"
  shows "\<exists>s'. print_loop f s = Inr (s', map Character (drop (nat (seekPosition f)) (contents s (hdr f)))) \<and>
    synch_ok s' \<and> same_sectors s s'"
  using assms
proof (induction "length (drop (nat (seekPosition f)) (contents s (hdr f)))" arbitrary: f s rule: less_induct)
  case less
  let ?p = "seekPosition f" let ?c = "drop (nat ?p) (contents s (hdr f))"
  let ?b = "take TransferSize ?c"
  obtain s1 where r: "ReadAt f s (int TransferSize) ?p = Inr (s1, ?b, int (length ?b))" "synch_ok s1" "same_sectors s s1"
    using ReadAt_contents_ok [OF less.prems, of "int TransferSize"] unfolding same_sectors_def by auto
  let ?f1 = "f\<lparr>seekPosition := ?p + int (length ?b)\<rparr>"
  have rd: "Read f s (int TransferSize) = Inr (?f1, s1, ?b, int (length ?b))" by (simp add: Read_def r(1))
  show ?case
  proof (cases "?c = []")
    case True
    then show ?thesis using r(2,3) by (subst print_loop.simps) (simp add: rd)
  next
    case False
    have c1: "contents s1 (hdr f) = contents s (hdr f)" by (rule contents_same_sectors [OF less.prems(1) r(3)])
    have b: "0 < length ?b" using False by (auto simp: TransferSize_def)
    have c: "drop (nat (seekPosition ?f1)) (contents s1 (hdr ?f1)) = drop TransferSize ?c"
    proof -
      have "nat (?p + int (length ?b)) = nat ?p + length ?b" using nat_add_distrib [OF less.prems(3), of "int (length ?b)"] nat_int by simp
      then have "drop (nat (?p + int (length ?b))) (contents s (hdr f)) = drop (length ?b) ?c" by (simp add: add.commute)
      also have "\<dots> = drop TransferSize ?c" by (cases "length ?c \<le> TransferSize") simp_all
      finally show ?thesis by (simp add: c1)
    qed
    have "length (drop TransferSize ?c) < length ?c" using False by (simp add: TransferSize_def)
    then obtain s2 where s2: "print_loop ?f1 s1 = Inr (s2, map Character (drop TransferSize ?c))" "synch_ok s2" "same_sectors s1 s2"
      using less.hyps [of ?f1 s1] less.prems r(2) unfolding c by auto
    have "print_loop f s = Inr (s2, map Character ?b @ map Character (drop TransferSize ?c))"
      using b by (subst print_loop.simps) (simp add: rd s2(1) del: length_take take_take)
    also have "\<dots> = Inr (s2, map Character ?c)" by (simp only: append_take_drop_id flip: map_append)
    finally show ?thesis using s2(2) same_sectors_trans [OF r(3) s2(3)] by blast
  qed
qed

lemma Print_ok:
  assumes inv: "fs_inv fs s d fm" and g: "garbage_ok g"
  shows "\<exists>s'. Print g fs s nm = Inr (s', case file_bytes s d (name_key nm) of
      None \<Rightarrow> [Message ''Print: unable to open file'' nm] | Some bs \<Rightarrow> map Character bs) \<and>
    fs_inv fs s' d fm \<and> file_bytes s' d = file_bytes s d \<and> (sizes_ok s d \<longrightarrow> sizes_ok s' d)"
proof -
  let ?o = "dmap (dtable d) (name_key nm)"
  obtain s1 where o: "Open g fs s nm = Inr (s1, map_option (\<lambda>sec. \<lparr>hdr = fhdr s sec, seekPosition = 0\<rparr>) ?o)"
      "fs_inv fs s1 d fm" "same_sectors s s1"
    using Open_ok [OF inv g] by blast
  show ?thesis
  proof (cases ?o)
    case None
    then show ?thesis using o(1,2) file_bytes_same [OF inv o(3)] sizes_ok_same [OF inv o(3)] by (simp add: Print_def file_bytes_def)
  next
    case (Some sec)
    let ?f = "\<lparr>hdr = fhdr s sec, seekPosition = 0\<rparr>"
    have f: "file_ok (fhdr s sec)" using inv Some unfolding fs_inv_def files_ok_def by blast
    have "synch_ok s1" using o(2) by (simp add: fs_inv_def)
    then obtain s2 where s2: "print_loop ?f s1 = Inr (s2, map Character (contents s1 (fhdr s sec)))" "synch_ok s2" "same_sectors s1 s2"
      using print_loop_ok [of ?f s1] f by auto
    have "same_sectors s s2" by (rule same_sectors_trans [OF o(3) s2(3)])
    then have "fs_inv fs s2 d fm" "file_bytes s2 d = file_bytes s d" "sizes_ok s d \<longrightarrow> sizes_ok s2 d"
      using fs_inv_same_sectors [OF inv _ s2(2)] file_bytes_same [OF inv] sizes_ok_same [OF inv] by blast+
    then show ?thesis
      using o(1) Some s2(1) contents_same_sectors [OF f o(3)] by (simp add: Print_def file_bytes_def)
  qed
qed

section \<open>Create and Remove on files as bytes\<close>

lemma file_bytes_simps:
  "file_bytes s d k = None \<longleftrightarrow> dmap (dtable d) k = None"
  "dom (file_bytes s d) = dom (dmap (dtable d))"
  by (auto simp: file_bytes_def dom_def)

lemma file_bytes_kept:
  assumes "\<forall>sc \<in> ran m. fhdr s' sc = fhdr s sc \<and> contents s' (fhdr s' sc) = contents s (fhdr s sc)"
    and "m k = dmap (dtable d) k" "dmap (dtable d') k = m k"
  shows "file_bytes s' d' k = file_bytes s d k"
proof (cases "m k")
  case (Some sc)
  then have "contents s' (fhdr s' sc) = contents s (fhdr s sc)" using assms(1) ranI [of m k sc] by blast
  then show ?thesis using Some assms(2,3) by (simp add: file_bytes_def)
qed (use assms(2,3) in \<open>simp add: file_bytes_def\<close>)

abbreviation fits :: "synch_disk \<Rightarrow> directory \<Rightarrow> bitmap \<Rightarrow> 8 word list \<Rightarrow> int \<Rightarrow> bool" where
  "fits s d fm nm n \<equiv> file_bytes s d (name_key nm) = None \<and> card (dom (file_bytes s d)) < 10 \<and>
     sectors_for n \<le> free_left fm"

lemma Create_refused:
  assumes "fs_inv fs s d fm" "garbage_ok g" "0 \<le> n" "n \<le> MaxFileSize" "\<not> fits s d fm nm n"
  shows "\<exists>s'. Create g fs s nm n = Inr (s', False) \<and> fs_inv fs s' d fm \<and> file_bytes s' d = file_bytes s d \<and>
    (sizes_ok s d \<longrightarrow> sizes_ok s' d)"
proof -
  have "\<not> (dmap (dtable d) (name_key nm) = None \<and> card (dom (dmap (dtable d))) < 10 \<and>
      divRoundUp n SecSize < int (card ({0..<1024} - marked fm)))"
    using assms(5) divRoundUp_sectors [OF assms(3)] unfolding file_bytes_simps card_marked_free [OF assms(1)] free_left_def by auto
  then obtain s' where s': "Create g fs s nm n = Inr (s', False)" "fs_inv fs s' d fm" "same_sectors s s'"
    using Create_ok [OF assms(1-4), of nm] by meson
  then show ?thesis using file_bytes_same [OF assms(1) s'(3)] sizes_ok_same [OF assms(1) s'(3)] by blast
qed

lemma Create_done:
  assumes "fs_inv fs s d fm" "garbage_ok g" "0 \<le> n" "n \<le> MaxFileSize" "fits s d fm nm n"
  shows "\<exists>s' d' fm' sec. Create g fs s nm n = Inr (s', True) \<and> fs_inv fs s' d' fm' \<and>
    dmap (dtable d') = (dmap (dtable d))(name_key nm \<mapsto> sec) \<and> numBytes (fhdr s' sec) = n \<and>
    file_bytes s' d' = (file_bytes s d)(name_key nm \<mapsto> contents s' (fhdr s' sec)) \<and>
    free_left fm' = free_left fm - sectors_for n \<and> (sizes_ok s d \<longrightarrow> sizes_ok s' d')"
proof -
  let ?m = "dmap (dtable d)"
  have "?m (name_key nm) = None \<and> card (dom ?m) < 10 \<and> divRoundUp n SecSize < int (card ({0..<1024} - marked fm))"
    using assms(5) divRoundUp_sectors [OF assms(3)] unfolding file_bytes_simps card_marked_free [OF assms(1)] free_left_def by auto
  then obtain s' d' fm' sec where s': "Create g fs s nm n = Inr (s', True)" "fs_inv fs s' d' fm'"
      "dmap (dtable d') = ?m(name_key nm \<mapsto> sec)" "numBytes (fhdr s' sec) = n"
      "\<forall>sc \<in> ran ?m. fhdr s' sc = fhdr s sc \<and> contents s' (fhdr s' sc) = contents s (fhdr s sc)"
      "numSectors (fhdr s' sec) = divRoundUp n SecSize" "card (marked fm') = card (marked fm) + 1 + nat (divRoundUp n SecSize)"
    using Create_ok [OF assms(1-4), of nm] by (simp only: if_True) metis
  have "free_left fm' = free_left fm - sectors_for n"
    using s'(7) divRoundUp_sectors [OF assms(3)] divRoundUp_bounds(3) [OF assms(3), of SecSize] by (simp add: free_left_def SecSize_def)
  moreover have "ran (dmap (dtable d')) = insert sec (ran ?m)" using assms(5) unfolding s'(3) file_bytes_simps by simp
  then have "sizes_ok s d \<longrightarrow> sizes_ok s' d'" using s'(4-6) assms(3) by (auto simp: sizes_ok_def)
  moreover
  have "file_bytes s' d' = (file_bytes s d)(name_key nm \<mapsto> contents s' (fhdr s' sec))"
  proof
    fix k
    show "file_bytes s' d' k = ((file_bytes s d)(name_key nm \<mapsto> contents s' (fhdr s' sec))) k"
      using file_bytes_kept [OF s'(5), of k d d'] s'(3) by (cases "k = name_key nm") (simp_all add: file_bytes_def)
  qed
  ultimately show ?thesis using s'(1-4) by blast
qed

lemma Remove_done:
  assumes "fs_inv fs s d fm" "garbage_ok g" "dmap (dtable d) (name_key nm) = Some sec"
  shows "\<exists>s' d' fm'. fs_Remove g fs s nm = Inr (s', True) \<and> fs_inv fs s' d' fm' \<and>
    file_bytes s' d' = (file_bytes s d)(name_key nm := None) \<and>
    (sizes_ok s d \<longrightarrow> sizes_ok s' d' \<and> free_left fm' = free_left fm + sectors_for (numBytes (fhdr s sec)))"
proof -
  let ?m = "(dmap (dtable d))(name_key nm := None)"
  obtain s' d' fm' where s': "fs_Remove g fs s nm = Inr (s', True)" "fs_inv fs s' d' fm'" "dmap (dtable d') = ?m"
      "\<forall>sc \<in> ran ?m. fhdr s' sc = fhdr s sc \<and> contents s' (fhdr s' sc) = contents s (fhdr s sc)"
      "marked fm' = marked fm - owned s sec" "owned s sec \<subseteq> marked fm"
    using fs_Remove_ok [OF assms(1,2), of nm] assms(3) by auto
  have "sizes_ok s' d' \<and> free_left fm' = free_left fm + sectors_for (numBytes (fhdr s sec))" if z: "sizes_ok s d"
  proof
    have sub: "ran ?m \<subseteq> ran (dmap (dtable d))" by (auto simp: ran_def)
    then show "sizes_ok s' d'" using z s'(4) unfolding sizes_ok_def s'(3) by auto
    have f: "file_ok (fhdr s sec)" "sec \<notin> set (blocks (fhdr s sec))" using assms(1,3) unfolding fs_inv_def files_ok_def by blast+
    have "finite (marked fm)" using marked_bounds [OF assms(1)] finite_subset by blast
    then have "card (marked fm') = card (marked fm) - card (owned s sec)" "card (owned s sec) \<le> card (marked fm)"
      using s'(5,6) by (auto simp: card_Diff_subset finite_subset card_mono)
    moreover have "int (card (owned s sec)) = sectors_for (numBytes (fhdr s sec))"
      using card_owned [OF f] z dmap_ran [OF assms(3)] divRoundUp_sectors by (auto simp: sizes_ok_def)
    ultimately show "free_left fm' = free_left fm + sectors_for (numBytes (fhdr s sec))" by (simp add: free_left_def)
  qed
  moreover
  have "file_bytes s' d' k = ((file_bytes s d)(name_key nm := None)) k" for k
    using file_bytes_kept [OF s'(4), of k d d'] s'(3) by (cases "k = name_key nm") (simp_all add: file_bytes_def)
  ultimately show ?thesis using s'(1,2) by blast
qed

section \<open>Copy\<close>

lemma write_all:
  assumes "fs_inv fs s d fm" "dmap (dtable d) k = Some sec" "0 < length b" "p + length b \<le> nat (numBytes (fhdr s sec))"
  defines "h \<equiv> fhdr s sec"
  shows "\<exists>s1. WriteAt junk \<lparr>hdr = h, seekPosition = q\<rparr> s b (int (length b)) (int p) = Inr (s1, int (length b)) \<and>
    fs_inv fs s1 d fm \<and> fhdr s1 sec = h \<and> contents s1 h = blit (contents s h) p b \<and>
    file_bytes s1 d = (file_bytes s d)(k \<mapsto> blit (contents s h) p b) \<and> (sizes_ok s d \<longrightarrow> sizes_ok s1 d)"
proof -
  have z: "0 \<le> int p" "nat (int (length b)) \<le> length b" by simp_all
  obtain s1 cnt where w: "WriteAt junk \<lparr>hdr = h, seekPosition = q\<rparr> s b (int (length b)) (int p) = Inr (s1, cnt)" "fs_inv fs s1 d fm"
      "cnt = (if int (length b) \<le> 0 \<or> numBytes h \<le> int p then 0 else min (int (length b)) (numBytes h - int p))"
      "fhdr s1 sec = h" "contents s1 h = (if cnt = 0 then contents s h else blit (contents s h) (nat (int p)) (take (nat cnt) b))"
      "\<forall>k' sec'. dmap (dtable d) k' = Some sec' \<and> k' \<noteq> k \<longrightarrow>
         fhdr s1 sec' = fhdr s sec' \<and> contents s1 (fhdr s1 sec') = contents s (fhdr s sec')"
    using WriteAt_keeps_fs [OF assms(1,2) z, of junk q] unfolding h_def by blast
  have "int p < numBytes h" "int (length b) \<le> numBytes h - int p" using assms(3,4) unfolding h_def by linarith+
  then have c: "cnt = int (length b)" using w(3) assms(3) by simp
  then have k: "contents s1 h = blit (contents s h) p b" using w(5) assms(3) by simp
  have "file_bytes s1 d k' = ((file_bytes s d)(k \<mapsto> blit (contents s h) p b)) k'" for k'
    using w(4,6) k assms(2) by (cases "k' = k"; cases "dmap (dtable d) k'") (simp_all add: file_bytes_def)
  moreover have "fhdr s1 sc = fhdr s sc" if "dmap (dtable d) k' = Some sc" for k' sc
    using that w(4,6) assms(2) by (cases "k' = k") (auto simp: h_def)
  then have "sizes_ok s d \<longrightarrow> sizes_ok s1 d" by (auto simp: sizes_ok_def ran_def)
  ultimately show ?thesis using w(1,2,4) c k by blast
qed

lemma copy_loop_ok:
  assumes "fs_inv fs s d fm" "dmap (dtable d) k = Some sec" "numBytes (fhdr s sec) = int (p + length fp)"
  shows "\<exists>f' s'. copy_loop junk \<lparr>hdr = fhdr s sec, seekPosition = int p\<rparr> s fp = Inr (f', s') \<and> fs_inv fs s' d fm \<and>
    file_bytes s' d = (file_bytes s d)(k \<mapsto> take p (contents s (fhdr s sec)) @ fp) \<and> (sizes_ok s d \<longrightarrow> sizes_ok s' d)"
  using assms
proof (induction "length fp" arbitrary: s p fp rule: less_induct)
  case less
  let ?h = "fhdr s sec" let ?b = "take TransferSize fp" let ?n = "length ?b" let ?q = "p + ?n"
  show ?case
  proof (cases "fp = []")
    case True
    have "file_bytes s d k = Some (contents s ?h)" using less.prems(2) by (simp add: file_bytes_def)
    then have "file_bytes s d = (file_bytes s d)(k \<mapsto> take p (contents s ?h) @ fp)"
      using True less.prems(3) by (simp add: map_upd_triv)
    then show ?thesis using True less.prems(1) by (subst copy_loop.simps) simp
  next
    case False
    have "0 < ?n" "p + ?n \<le> nat (numBytes ?h)" using less.prems(3) False by (auto simp: TransferSize_def)
    then obtain s1 where w: "WriteAt junk \<lparr>hdr = ?h, seekPosition = int p\<rparr> s ?b (int ?n) (int p) = Inr (s1, int ?n)"
        "fs_inv fs s1 d fm" "fhdr s1 sec = ?h" "contents s1 ?h = blit (contents s ?h) p ?b"
        "file_bytes s1 d = (file_bytes s d)(k \<mapsto> blit (contents s ?h) p ?b)" "sizes_ok s d \<longrightarrow> sizes_ok s1 d"
      using write_all [OF less.prems(1,2)] by blast
    have l: "?q + length (drop TransferSize fp) = p + length fp" by simp
    have "p \<le> length (contents s ?h)" using less.prems(3) by simp
    then have t: "take ?q (contents s1 ?h) = take p (contents s ?h) @ ?b"
      unfolding w(4) by (cases "length fp \<le> TransferSize") (simp_all add: blit_def)
    have "length (drop TransferSize fp) < length fp" using False by (simp add: TransferSize_def)
    then obtain f2 s2 where s2: "copy_loop junk \<lparr>hdr = ?h, seekPosition = int ?q\<rparr> s1 (drop TransferSize fp) = Inr (f2, s2)"
        "fs_inv fs s2 d fm" "file_bytes s2 d = (file_bytes s1 d)(k \<mapsto> take ?q (contents s1 ?h) @ drop TransferSize fp)"
        "sizes_ok s1 d \<longrightarrow> sizes_ok s2 d"
      using less.hyps [of "drop TransferSize fp" s1 ?q] w(2,3) less.prems(2,3) l by auto
    have "copy_loop junk \<lparr>hdr = ?h, seekPosition = int p\<rparr> s fp = Inr (f2, s2)"
    proof -
      have "?b \<noteq> []" using False by (auto simp: TransferSize_def)
      then show ?thesis using s2(1) by (subst copy_loop.simps) (simp add: Write_def w(1) del: length_take take_eq_Nil)
    qed
    then show ?thesis using s2(2-4) w(6) unfolding t w(5) by simp
  qed
qed

lemma Copy_done:
  assumes inv: "fs_inv fs s d fm" and g: "garbage_ok g" and u: "unix src = Some bs" "int (length bs) \<le> MaxFileSize"
    and f: "fits s d fm dst (int (length bs))"
  shows "\<exists>s' d' fm'. Copy g unix fs s src dst = Inr (s', []) \<and> fs_inv fs s' d' fm' \<and>
    file_bytes s' d' = (file_bytes s d)(name_key dst \<mapsto> bs) \<and> free_left fm' = free_left fm - sectors_for (int (length bs)) \<and>
    (sizes_ok s d \<longrightarrow> sizes_ok s' d')"
proof -
  obtain s1 d' fm' sec where c: "Create g fs s dst (int (length bs)) = Inr (s1, True)" "fs_inv fs s1 d' fm'"
      "dmap (dtable d') = (dmap (dtable d))(name_key dst \<mapsto> sec)" "numBytes (fhdr s1 sec) = int (length bs)"
      "file_bytes s1 d' = (file_bytes s d)(name_key dst \<mapsto> contents s1 (fhdr s1 sec))"
      "free_left fm' = free_left fm - sectors_for (int (length bs))" "sizes_ok s d \<longrightarrow> sizes_ok s1 d'"
    using Create_done [OF inv g _ u(2) f] by auto
  have sec: "dmap (dtable d') (name_key dst) = Some sec" using c(3) by simp
  obtain s2 where o: "Open g fs s1 dst = Inr (s2, Some \<lparr>hdr = fhdr s1 sec, seekPosition = 0\<rparr>)" "fs_inv fs s2 d' fm'" "same_sectors s1 s2"
    using Open_ok [OF c(2) g, of dst] sec by auto
  have "0 \<le> sec \<and> sec < DiskDev.NumSectors" using c(2) sec unfolding fs_inv_def files_ok_def by blast
  then have h: "fhdr s2 sec = fhdr s1 sec" using o(3) by (simp add: same_sectors_def fhdr_def)
  obtain f3 s3 where l: "copy_loop (g_buffer g) \<lparr>hdr = fhdr s1 sec, seekPosition = 0\<rparr> s2 bs = Inr (f3, s3)" "fs_inv fs s3 d' fm'"
      "file_bytes s3 d' = (file_bytes s2 d')(name_key dst \<mapsto> bs)" "sizes_ok s2 d' \<longrightarrow> sizes_ok s3 d'"
    using copy_loop_ok [OF o(2) sec, of 0 bs "g_buffer g"] c(4) h by auto
  have "file_bytes s3 d' = (file_bytes s d)(name_key dst \<mapsto> bs)"
    unfolding l(3) file_bytes_same [OF c(2) o(3)] c(5) by simp
  moreover have "sizes_ok s1 d' \<longrightarrow> sizes_ok s2 d'" by (rule sizes_ok_same [OF c(2) o(3)])
  ultimately show ?thesis using u(1) c(1,6,7) o(1) l(1,2,4) by (auto simp: Copy_def)
qed

text \<open>
  \<open>Copy\<close> of a UNIX file of at most \<open>MaxFileSize\<close> bytes stores exactly its bytes under the truncated name and
  changes no other file, or, when the name is taken or the directory or the disk is full, prints a
  message and changes no file. After it \<open>Print\<close> of any name prints exactly the bytes of the file, or that it
  cannot be opened.
\<close>

theorem copy_print:
  assumes "fs_inv fs s d fm" and "garbage_ok g" and "unix src = Some bs" and "int (length bs) \<le> MaxFileSize"
  shows "\<exists>s1 d1 fm1. Copy g unix fs s src dst =
      Inr (s1, if fits s d fm dst (int (length bs)) then [] else [Message ''Copy: couldn't create output file'' dst]) \<and>
    fs_inv fs s1 d1 fm1 \<and>
    file_bytes s1 d1 = (if fits s d fm dst (int (length bs)) then (file_bytes s d)(name_key dst \<mapsto> bs) else file_bytes s d) \<and>
    (\<forall>nm. \<exists>s2. Print g fs s1 nm = Inr (s2, case file_bytes s1 d1 (name_key nm) of
        None \<Rightarrow> [Message ''Print: unable to open file'' nm] | Some cs \<Rightarrow> map Character cs) \<and>
      fs_inv fs s2 d1 fm1 \<and> file_bytes s2 d1 = file_bytes s1 d1)"
proof (cases "fits s d fm dst (int (length bs))")
  case True
  obtain s1 d1 fm1 where c: "Copy g unix fs s src dst = Inr (s1, [])" "fs_inv fs s1 d1 fm1"
      "file_bytes s1 d1 = (file_bytes s d)(name_key dst \<mapsto> bs)"
    using Copy_done [where unix = unix and src = src, OF assms True] by blast
  have printed: "\<exists>s2. Print g fs s1 nm = Inr (s2, case file_bytes s1 d1 (name_key nm) of
        None \<Rightarrow> [Message ''Print: unable to open file'' nm] | Some cs \<Rightarrow> map Character cs) \<and>
      fs_inv fs s2 d1 fm1 \<and> file_bytes s2 d1 = file_bytes s1 d1" for nm
    using Print_ok [OF c(2) assms(2)] by blast
  show ?thesis using c(1,3) True by (intro exI [of _ s1] exI [of _ d1] exI [of _ fm1] conjI allI c(2) printed) simp_all
next
  case False
  obtain s1 where c: "Create g fs s dst (int (length bs)) = Inr (s1, False)" "fs_inv fs s1 d fm" "file_bytes s1 d = file_bytes s d"
    using Create_refused [OF assms(1,2) _ assms(4) False] by auto
  have "Copy g unix fs s src dst = Inr (s1, [Message ''Copy: couldn't create output file'' dst])"
    using c(1) assms(3) by (simp add: Copy_def)
  moreover have printed: "\<exists>s2. Print g fs s1 nm = Inr (s2, case file_bytes s1 d (name_key nm) of
        None \<Rightarrow> [Message ''Print: unable to open file'' nm] | Some cs \<Rightarrow> map Character cs) \<and>
      fs_inv fs s2 d fm \<and> file_bytes s2 d = file_bytes s1 d" for nm
    using Print_ok [OF c(2) assms(2)] by blast
  ultimately show ?thesis using c(3) False
    by (intro exI [of _ s1] exI [of _ d] exI [of _ fm] conjI allI c(2) printed) (simp_all only: if_False)
qed

theorem copy_print_witness:
  "\<exists>s fs d fm. fs_inv fs s d fm \<and> garbage_ok zero_garbage \<and>
    (\<exists>s1. Copy zero_garbage (\<lambda>_. Some (replicate 25 7)) fs s [] [98] = Inr (s1, []) \<and>
      (\<exists>s2. Print zero_garbage fs s1 [98] = Inr (s2, replicate 25 (Character 7))))"
proof -
  obtain s fs d fm sec where f: "fs_inv fs s d fm" "dmap (dtable d) = [name_key [97] \<mapsto> sec]" "card (marked fm) = 9"
    using one_file by blast
  have l: "int (length (replicate 25 (7 :: 8 word))) \<le> MaxFileSize" by (simp add: MaxFileSize_def NumDirect_def SecSize_def)
  have "name_key [98] \<noteq> name_key [97]" by (simp add: name_key_def cstr_def FileNameMaxLen_def)
  then have t: "fits s d fm [98] (int (length (replicate 25 (7 :: 8 word))))"
    by (simp add: file_bytes_simps f(2,3) sectors_for_def free_left_def)
  obtain s1 d1 fm1 where c: "Copy zero_garbage (\<lambda>_. Some (replicate 25 7)) fs s [] [98] = Inr (s1, [])"
      "file_bytes s1 d1 = (file_bytes s d)(name_key [98] \<mapsto> replicate 25 7)"
      "\<forall>nm. \<exists>s2. Print zero_garbage fs s1 nm = Inr (s2, case file_bytes s1 d1 (name_key nm) of
        None \<Rightarrow> [Message ''Print: unable to open file'' nm] | Some cs \<Rightarrow> map Character cs) \<and>
      fs_inv fs s2 d1 fm1 \<and> file_bytes s2 d1 = file_bytes s1 d1"
    using copy_print [where unix = "\<lambda>_. Some (replicate 25 7)" and src = "[]" and dst = "[98]", OF f(1) zero_garbage_ok refl l]
    unfolding if_P [OF t] by blast
  obtain s2 where "Print zero_garbage fs s1 [98] = Inr (s2, map Character (replicate 25 7))"
    using c(3) [rule_format, of "[98]"] unfolding c(2) by auto
  then show ?thesis using f(1) zero_garbage_ok c(1) unfolding map_replicate by blast
qed

section \<open>The performance test\<close>

lemma write_tests_empty: "numBytes h = 0 \<Longrightarrow> write_tests junk 0 \<lparr>hdr = h, seekPosition = 0\<rparr> s = Inr (s, [Message ''Perf test: unable to write'' FileName])"
  by (subst write_tests.simps) (simp add: FileSize_def ContentSize_10 Write_def WriteAt_def Let_def FileLength_def)

lemma read_tests_empty: "numBytes h = 0 \<Longrightarrow> read_tests 0 \<lparr>hdr = h, seekPosition = 0\<rparr> s = Inr (s, [Message ''Perf test: unable to read'' FileName])"
  by (subst read_tests.simps) (simp add: FileSize_def ContentSize_10 Read_def ReadAt_def Let_def FileLength_def)

text \<open>
  The performance test cannot succeed: it creates its file with length 0, files do not grow, and so the first
  write and the first read come back short. It prints both messages and leaves the files as they were.
\<close>

theorem performance_test_fails:
  assumes "fs_inv fs s d fm" and "garbage_ok g" and "fits s d fm FileName 0"
  shows "\<exists>s' d' fm'. PerformanceTest g fs s = Inr (s', [Message ''Starting file system performance test'' [], Counters (sd_stats s),
      Message ''Sequential write'' [], Message ''Perf test: unable to write'' FileName,
      Message ''Sequential read'' [], Message ''Perf test: unable to read'' FileName, Counters (sd_stats s')]) \<and>
    fs_inv fs s' d' fm' \<and> file_bytes s' d' = file_bytes s d"
proof -
  let ?k = "name_key FileName"
  obtain s1 d1 fm1 sec where c: "Create g fs s FileName 0 = Inr (s1, True)" "fs_inv fs s1 d1 fm1"
      "dmap (dtable d1) ?k = Some sec" "numBytes (fhdr s1 sec) = 0" "file_bytes s1 d1 = (file_bytes s d)(?k \<mapsto> contents s1 (fhdr s1 sec))"
    using Create_done [OF assms(1,2) _ _ assms(3)] by (auto simp: MaxFileSize_def NumDirect_def SecSize_def)
  obtain s2 where o2: "Open g fs s1 FileName = Inr (s2, Some \<lparr>hdr = fhdr s1 sec, seekPosition = 0\<rparr>)" "fs_inv fs s2 d1 fm1" "same_sectors s1 s2"
    using Open_ok [OF c(2) assms(2), of FileName] c(3) by auto
  have "0 \<le> sec \<and> sec < DiskDev.NumSectors" using c(2,3) unfolding fs_inv_def files_ok_def by blast
  then have h: "fhdr s2 sec = fhdr s1 sec" using o2(3) by (simp add: same_sectors_def fhdr_def)
  obtain s3 where o3: "Open g fs s2 FileName = Inr (s3, Some \<lparr>hdr = fhdr s2 sec, seekPosition = 0\<rparr>)" "fs_inv fs s3 d1 fm1" "same_sectors s2 s3"
    using Open_ok [OF o2(2) assms(2), of FileName] c(3) by auto
  obtain s4 d4 fm4 where r: "fs_Remove g fs s3 FileName = Inr (s4, True)" "fs_inv fs s4 d4 fm4" "file_bytes s4 d4 = (file_bytes s3 d1)(?k := None)"
    using Remove_done [OF o3(2) assms(2) c(3)] by blast
  have fb: "file_bytes s4 d4 = file_bytes s d"
    unfolding r(3) file_bytes_same [OF o2(2) o3(3)] file_bytes_same [OF c(2) o2(3)] c(5) using assms(3) by auto
  have w: "FileWrite g fs s = Inr (s2, [Message ''Sequential write'' [], Message ''Perf test: unable to write'' FileName])"
    using c(1) o2(1) write_tests_empty [OF c(4)] by (simp add: FileWrite_def)
  have rd: "FileRead g fs s2 = Inr (s3, [Message ''Sequential read'' [], Message ''Perf test: unable to read'' FileName])"
    using o3(1) read_tests_empty [of "fhdr s2 sec"] c(4) h by (simp add: FileRead_def)
  show ?thesis using w rd r(1,2) fb by (auto simp: PerformanceTest_def)
qed

theorem performance_test_fails_witness:
  "\<exists>s fs d fm. fs_inv fs s d fm \<and> garbage_ok zero_garbage \<and> fits s d fm FileName 0 \<and>
    (\<exists>s' out. PerformanceTest zero_garbage fs s = Inr (s', out) \<and> Message ''Perf test: unable to write'' FileName \<in> set out)"
proof -
  obtain s fs d fm sec where f: "fs_inv fs s d fm" "dmap (dtable d) = [name_key [97] \<mapsto> sec]" "card (marked fm) = 9"
    using one_file by blast
  have "name_key FileName \<noteq> name_key [97]" by (simp add: name_key_def cstr_def FileName_def FileNameMaxLen_def)
  then have t: "fits s d fm FileName 0" by (simp add: file_bytes_simps f(2,3) sectors_for_def free_left_def)
  obtain s' out where "PerformanceTest zero_garbage fs s = Inr (s', out)" "Message ''Perf test: unable to write'' FileName \<in> set out"
    using performance_test_fails [OF f(1) zero_garbage_ok t] by fastforce
  then show ?thesis using f(1) zero_garbage_ok t by blast
qed

end
