(* ===== verification/CommandLine.thy ===== *)
theory CommandLine
  imports Complex_Main FsTest
begin

text \<open>
  The start of the program: the options that \<open>Initialize\<close> (\<open>threads/system.cc\<close>) and \<open>main\<close> (\<open>threads/main.cc\<close>)
  read, for every build. What the options of the file system do is in \<open>FsTest\<close> and \<open>FileSys\<close>; the other calls are a
  parameter. An argument is a list of bytes; \<open>atoi\<close> and \<open>atof\<close> are parameters.
\<close>

section \<open>Builds and options\<close>

type_synonym argument = "8 word list"

definition arg :: "string \<Rightarrow> argument" where "arg s = map of_char s"

text \<open>The macros that the Makefiles define.\<close>

record build =
  THREADS :: bool
  USER_PROGRAM :: bool
  FILESYS_NEEDED :: bool
  FILESYS :: bool
  NETWORK :: bool

record settings =
  debugArgs :: argument
  randomYield :: bool
  seed :: "int option"
  debugUserProg :: bool
  format :: bool
  rely :: real
  netname :: int

definition default_settings :: settings where
  "default_settings = \<lparr>debugArgs = [], randomYield = False, seed = None, debugUserProg = False, format = False, rely = 1, netname = 0\<rparr>"

text \<open>One round of the loop of \<open>Initialize\<close>, for the argument \<open>a\<close> in front of \<open>rest\<close>: the settings and \<open>argCount\<close>.\<close>

definition common_flags :: "(argument \<Rightarrow> int) \<Rightarrow> argument \<Rightarrow> argument list \<Rightarrow> settings \<Rightarrow> (settings \<times> nat) res" where
  "common_flags atoi a rest st =
     (if a = arg ''-d'' then
        if rest = [] then Inr (st\<lparr>debugArgs := arg ''+''\<rparr>, 1) else Inr (st\<lparr>debugArgs := hd rest\<rparr>, 2)
      else if a = arg ''-rs'' then
        ASSERT (rest \<noteq> []) (Inr (st\<lparr>seed := Some (atoi (hd rest)), randomYield := True\<rparr>, 2))
      else Inr (st, 1))"

definition user_flags :: "build \<Rightarrow> argument \<Rightarrow> settings \<Rightarrow> settings" where
  "user_flags b a st = (if USER_PROGRAM b \<and> a = arg ''-s'' then st\<lparr>debugUserProg := True\<rparr> else st)"

definition filesys_flags :: "build \<Rightarrow> argument \<Rightarrow> settings \<Rightarrow> settings" where
  "filesys_flags b a st = (if FILESYS_NEEDED b \<and> a = arg ''-f'' then st\<lparr>format := True\<rparr> else st)"

definition network_flags :: "build \<Rightarrow> (argument \<Rightarrow> int) \<Rightarrow> (argument \<Rightarrow> real) \<Rightarrow> argument \<Rightarrow> argument list \<Rightarrow> settings \<times> nat \<Rightarrow>
    (settings \<times> nat) res" where
  "network_flags b atoi atof a rest r =
     (case r of (st, n) \<Rightarrow>
      if NETWORK b \<and> a = arg ''-l'' then ASSERT (rest \<noteq> []) (Inr (st\<lparr>rely := atof (hd rest)\<rparr>, 2))
      else if NETWORK b \<and> a = arg ''-m'' then ASSERT (rest \<noteq> []) (Inr (st\<lparr>netname := atoi (hd rest)\<rparr>, 2))
      else Inr (st, n))"

definition init_option :: "build \<Rightarrow> (argument \<Rightarrow> int) \<Rightarrow> (argument \<Rightarrow> real) \<Rightarrow> argument \<Rightarrow> argument list \<Rightarrow> settings \<Rightarrow>
    (settings \<times> nat) res" where
  "init_option b atoi atof a rest st =
     bindR (common_flags atoi a rest st) (\<lambda>(st, n).
     network_flags b atoi atof a rest (filesys_flags b a (user_flags b a st), n))"

lemma init_option_count: "init_option b atoi atof a rest st = Inr (st', n) \<Longrightarrow> 0 < n"
  by (auto simp: init_option_def common_flags_def network_flags_def bindR_eq_Inr ASSERT_eq_Inr split: if_splits prod.splits)

function init_loop :: "build \<Rightarrow> (argument \<Rightarrow> int) \<Rightarrow> (argument \<Rightarrow> real) \<Rightarrow> argument list \<Rightarrow> settings \<Rightarrow> settings res" where
  "init_loop b atoi atof [] st = Inr st"
| "init_loop b atoi atof (a # rest) st =
     (case init_option b atoi atof a rest st of
        Inl e \<Rightarrow> Inl e
      | Inr (st, n) \<Rightarrow> init_loop b atoi atof (drop n (a # rest)) st)"
  by pat_completeness auto
termination
  by (relation "measure (\<lambda>(b, atoi, atof, args, st). length args)") (auto dest: init_option_count)

section \<open>The commands\<close>

datatype command = Copyright | CallThreadTest int | CallStartProcess argument
  | CallConsoleTest "(argument \<times> argument) option" | CallHalt
  | CallCopy argument argument | CallPrint argument | CallRemove argument | CallList | CallPrintAll
  | CallPerformanceTest | CallMailTest int

text \<open>One round of the loop of \<open>main\<close>: the calls it makes and \<open>argCount\<close>.\<close>

definition user_option :: "build \<Rightarrow> argument \<Rightarrow> argument list \<Rightarrow> nat \<Rightarrow> (command list \<times> nat) res" where
  "user_option b a rest n =
     (if \<not> USER_PROGRAM b then Inr ([], n)
      else if a = arg ''-x'' then ASSERT (rest \<noteq> []) (Inr ([CallStartProcess (hd rest)], 2))
      else if a = arg ''-c'' then
        if rest = [] then Inr ([CallConsoleTest None, CallHalt], n)
        else ASSERT (length rest > 1) (Inr ([CallConsoleTest (Some (rest ! 0, rest ! 1)), CallHalt], 3))
      else Inr ([], n))"

definition filesys_option :: "build \<Rightarrow> argument \<Rightarrow> argument list \<Rightarrow> nat \<Rightarrow> (command list \<times> nat) res" where
  "filesys_option b a rest n =
     (if \<not> FILESYS b then Inr ([], n)
      else if a = arg ''-cp'' then ASSERT (length rest > 1) (Inr ([CallCopy (rest ! 0) (rest ! 1)], 3))
      else if a = arg ''-p'' then ASSERT (rest \<noteq> []) (Inr ([CallPrint (hd rest)], 2))
      else if a = arg ''-r'' then ASSERT (rest \<noteq> []) (Inr ([CallRemove (hd rest)], 2))
      else if a = arg ''-l'' then Inr ([CallList], n)
      else if a = arg ''-D'' then Inr ([CallPrintAll], n)
      else if a = arg ''-t'' then Inr ([CallPerformanceTest], n)
      else Inr ([], n))"

definition network_option :: "build \<Rightarrow> (argument \<Rightarrow> int) \<Rightarrow> argument \<Rightarrow> argument list \<Rightarrow> nat \<Rightarrow> (command list \<times> nat) res" where
  "network_option b atoi a rest n =
     (if NETWORK b \<and> a = arg ''-o'' then ASSERT (rest \<noteq> []) (Inr ([CallMailTest (atoi (hd rest))], 2)) else Inr ([], n))"

definition main_option :: "build \<Rightarrow> (argument \<Rightarrow> int) \<Rightarrow> argument \<Rightarrow> argument list \<Rightarrow> (command list \<times> nat) res" where
  "main_option b atoi a rest =
     bindR (user_option b a rest 1) (\<lambda>(c1, n).
     bindR (filesys_option b a rest n) (\<lambda>(c2, n).
     bindR (network_option b atoi a rest n) (\<lambda>(c3, n).
     Inr ((if a = arg ''-z'' then [Copyright] else []) @ c1 @ c2 @ c3, n))))"

lemma main_option_count: "main_option b atoi a rest = Inr (cs, n) \<Longrightarrow> 0 < n"
  by (auto simp: main_option_def user_option_def filesys_option_def network_option_def bindR_eq_Inr ASSERT_eq_Inr split: if_splits)

text \<open>A command runs by \<open>exec\<close>, which says whether it returned.\<close>

primrec run_commands :: "(command \<Rightarrow> 's \<Rightarrow> ('s \<times> bool) res) \<Rightarrow> command list \<Rightarrow> 's \<Rightarrow> ('s \<times> bool) res" where
  "run_commands exec [] s = Inr (s, True)"
| "run_commands exec (c # cs) s = bindR (exec c s) (\<lambda>(s, returned). if returned then run_commands exec cs s else Inr (s, False))"

function main_loop :: "build \<Rightarrow> (argument \<Rightarrow> int) \<Rightarrow> (command \<Rightarrow> 's \<Rightarrow> ('s \<times> bool) res) \<Rightarrow> argument list \<Rightarrow> 's \<Rightarrow> ('s \<times> bool) res" where
  "main_loop b atoi exec [] s = Inr (s, True)"
| "main_loop b atoi exec (a # rest) s =
     (case main_option b atoi a rest of
        Inl e \<Rightarrow> Inl e
      | Inr (cs, n) \<Rightarrow> bindR (run_commands exec cs s) (\<lambda>(s, returned).
          if returned then main_loop b atoi exec (drop n (a # rest)) s else Inr (s, False)))"
  by pat_completeness auto
termination
  by (relation "measure (\<lambda>(b, atoi, exec, args, s). length args)") (auto dest: main_option_count)

text \<open>
  In a build with \<open>THREADS\<close> a first loop looks for \<open>-q\<close>; it goes through all the arguments, and the second
  loop goes on behind it.
\<close>

fun thread_args :: "(argument \<Rightarrow> int) \<Rightarrow> int \<Rightarrow> argument list \<Rightarrow> (int \<times> argument list) res" where
  "thread_args atoi testnum [] = Inr (testnum, [])"
| "thread_args atoi testnum (a # rest) =
     bindR (aget (a @ [0]) 1) (\<lambda>c.
     if c = 113 then
       case rest of [] \<Rightarrow> Inl BadAccess | n # rest' \<Rightarrow> thread_args atoi (atoi n) rest'
     else thread_args atoi 1 rest)"

definition main_program :: "build \<Rightarrow> (argument \<Rightarrow> int) \<Rightarrow> (command \<Rightarrow> 's \<Rightarrow> ('s \<times> bool) res) \<Rightarrow> argument list \<Rightarrow> 's \<Rightarrow> ('s \<times> bool) res" where
  "main_program b atoi exec argv s =
     (if THREADS b then
        bindR (thread_args atoi 1 (tl argv)) (\<lambda>(testnum, rest).
        bindR (exec (CallThreadTest testnum) s) (\<lambda>(s, returned).
        if returned then main_loop b atoi exec (tl rest) s else Inr (s, False)))
      else main_loop b atoi exec (tl argv) s)"

section \<open>The commands of the file system\<close>

datatype shell_line = Shown test_line | Listed printed

record shell =
  sh_disk :: synch_disk
  sh_out :: "shell_line list"

definition printing :: "('a \<Rightarrow> shell_line) \<Rightarrow> (synch_disk \<times> 'a list) res \<Rightarrow> shell \<Rightarrow> (shell \<times> bool) res" where
  "printing f r s = bindR r (\<lambda>(d, out). Inr (s\<lparr>sh_disk := d, sh_out := sh_out s @ map f out\<rparr>, True))"

definition exec_filesys :: "garbage \<Rightarrow> (argument \<Rightarrow> 8 word list option) \<Rightarrow> file_system \<Rightarrow> (command \<Rightarrow> shell \<Rightarrow> (shell \<times> bool) res) \<Rightarrow>
    command \<Rightarrow> shell \<Rightarrow> (shell \<times> bool) res" where
  "exec_filesys g unix fs others c s =
     (case c of
        CallCopy src dst \<Rightarrow> printing Shown (Copy g unix fs (sh_disk s) src dst) s
      | CallPrint nm \<Rightarrow> printing Shown (Print g fs (sh_disk s) nm) s
      | CallRemove nm \<Rightarrow> bindR (fs_Remove g fs (sh_disk s) nm) (\<lambda>(d, _). Inr (s\<lparr>sh_disk := d\<rparr>, True))
      | CallList \<Rightarrow> printing Listed (fs_List g fs (sh_disk s)) s
      | CallPrintAll \<Rightarrow> printing Listed (fs_Print g fs (sh_disk s)) s
      | CallPerformanceTest \<Rightarrow> printing Shown (PerformanceTest g fs (sh_disk s)) s
      | _ \<Rightarrow> others c s)"

text \<open>The program in a build with the file system, on the UNIX file \<open>DISK\<close> of its disk.\<close>

definition nachos :: "build \<Rightarrow> (argument \<Rightarrow> int) \<Rightarrow> (argument \<Rightarrow> real) \<Rightarrow> garbage \<Rightarrow> (argument \<Rightarrow> 8 word list option) \<Rightarrow>
    (command \<Rightarrow> shell \<Rightarrow> (shell \<times> bool) res) \<Rightarrow> 8 word list option \<Rightarrow> argument list \<Rightarrow> (shell \<times> bool) res" where
  "nachos b atoi atof g unix others DISK argv =
     bindR (init_loop b atoi atof (tl argv) default_settings) (\<lambda>st.
     bindR (SynchDisk_new DISK Statistics_new) (\<lambda>d.
     bindR (FileSystem_new g (format st) d) (\<lambda>(d, fs).
     main_program b atoi (exec_filesys g unix fs others) argv \<lparr>sh_disk = d, sh_out = []\<rparr>)))"

end
