(* ===== verification/Commands.thy ===== *)
theory Commands
  imports CommandLine
begin

text \<open>
  Properties of the command line: a session of the commands of the file system does what an abstract file
  system says, from the options to the printed bytes, in a build in which \<open>main\<close> gets to them.
\<close>

section \<open>The commands one by one\<close>

datatype shell_cmd = Cp argument argument | Pr argument | Rm argument

type_synonym shell_op = "(garbage \<times> (argument \<Rightarrow> 8 word list option)) \<times> shell_cmd"

definition shell_step :: "file_system \<Rightarrow> synch_disk \<Rightarrow> shell_op \<Rightarrow> (synch_disk \<times> test_line list) res" where
  "shell_step fs s op = (case op of ((g, unix), c) \<Rightarrow>
     (case c of
        Cp src dst \<Rightarrow> Copy g unix fs s src dst
      | Pr nm \<Rightarrow> Print g fs s nm
      | Rm nm \<Rightarrow> bindR (fs_Remove g fs s nm) (\<lambda>(s, _). Inr (s, []))))"

text \<open>The specification: the bytes of each file by its truncated name, and the number of free sectors.\<close>

type_synonym shell_spec = "(argument \<Rightarrow> 8 word list option) \<times> int"

fun spec_shell :: "shell_spec \<Rightarrow> shell_op \<Rightarrow> shell_spec \<times> test_line list" where
  "spec_shell (files, free) ((g, unix), Cp src dst) =
     (case unix src of
        None \<Rightarrow> ((files, free), [Message ''Copy: couldn't open input file'' src])
      | Some bs \<Rightarrow>
          if files (name_key dst) = None \<and> card (dom files) < 10 \<and> sectors_for (int (length bs)) \<le> free
          then ((files(name_key dst \<mapsto> bs), free - sectors_for (int (length bs))), [])
          else ((files, free), [Message ''Copy: couldn't create output file'' dst]))"
| "spec_shell (files, free) ((g, unix), Pr nm) =
     ((files, free), case files (name_key nm) of None \<Rightarrow> [Message ''Print: unable to open file'' nm] | Some bs \<Rightarrow> map Character bs)"
| "spec_shell (files, free) ((g, unix), Rm nm) =
     (case files (name_key nm) of
        None \<Rightarrow> ((files, free), [])
      | Some bs \<Rightarrow> ((files(name_key nm := None), free + sectors_for (int (length bs))), []))"

definition shell_rel :: "file_system \<Rightarrow> synch_disk \<Rightarrow> shell_spec \<Rightarrow> bool" where
  "shell_rel fs s a \<longleftrightarrow> (\<exists>d fm. fs_inv fs s d fm \<and> sizes_ok s d \<and> a = (file_bytes s d, free_left fm))"

definition shell_allowed :: "shell_op \<Rightarrow> bool" where
  "shell_allowed op \<longleftrightarrow> garbage_ok (fst (fst op)) \<and> (\<forall>a bs. snd (fst op) a = Some bs \<longrightarrow> int (length bs) \<le> MaxFileSize)"

lemma shell_relI: "fs_inv fs s d fm \<Longrightarrow> sizes_ok s d \<Longrightarrow> a = (file_bytes s d, free_left fm) \<Longrightarrow> shell_rel fs s a"
  unfolding shell_rel_def by blast

lemma shell_copies:
  assumes i: "fs_inv fs s d fm" "sizes_ok s d" and ok: "garbage_ok g" "\<And>bs. unix src = Some bs \<Longrightarrow> int (length bs) \<le> MaxFileSize"
  shows "\<exists>s'. Copy g unix fs s src dst = Inr (s', snd (spec_shell (file_bytes s d, free_left fm) ((g, unix), Cp src dst))) \<and>
    shell_rel fs s' (fst (spec_shell (file_bytes s d, free_left fm) ((g, unix), Cp src dst)))"
proof (cases "unix src")
  case None
  then show ?thesis using shell_relI [OF i refl] by (simp add: Copy_def)
next
  case (Some bs)
  show ?thesis
  proof (cases "fits s d fm dst (int (length bs))")
    case True
    obtain s' d' fm' where "Copy g unix fs s src dst = Inr (s', [])" "fs_inv fs s' d' fm'" "sizes_ok s' d'"
        "file_bytes s' d' = (file_bytes s d)(name_key dst \<mapsto> bs)" "free_left fm' = free_left fm - sectors_for (int (length bs))"
      using Copy_done [where unix = unix and src = src, OF i(1) ok(1) Some ok(2) [OF Some] True] i(2) by blast
    then show ?thesis using True Some shell_relI [of fs s' d' fm'] by simp
  next
    case False
    obtain s' where "Create g fs s dst (int (length bs)) = Inr (s', False)" "fs_inv fs s' d fm" "file_bytes s' d = file_bytes s d" "sizes_ok s' d"
      using Create_refused [OF i(1) ok(1) _ ok(2) [OF Some] False] i(2) by auto
    then show ?thesis using False Some shell_relI [of fs s' d fm] by (auto simp: Copy_def)
  qed
qed

lemma shell_prints:
  assumes i: "fs_inv fs s d fm" "sizes_ok s d" and ok: "garbage_ok g"
  shows "\<exists>s'. Print g fs s nm = Inr (s', snd (spec_shell (file_bytes s d, free_left fm) ((g, unix), Pr nm))) \<and>
    shell_rel fs s' (file_bytes s d, free_left fm)"
  proof -
  obtain s' where s': "Print g fs s nm = Inr (s', snd (spec_shell (file_bytes s d, free_left fm) ((g, unix), Pr nm)))"
      "fs_inv fs s' d fm" "file_bytes s' d = file_bytes s d" "sizes_ok s' d"
    using Print_ok [OF i(1) ok, of nm] i(2) by auto
  have "shell_rel fs s' (file_bytes s d, free_left fm)" using shell_relI [OF s'(2,4)] s'(3) by simp
  then show ?thesis using s'(1) by blast
qed

lemma shell_removes:
  assumes i: "fs_inv fs s d fm" "sizes_ok s d" and ok: "garbage_ok g"
  shows "\<exists>s' b. fs_Remove g fs s nm = Inr (s', b) \<and>
    shell_rel fs s' (fst (spec_shell (file_bytes s d, free_left fm) ((g, unix), Rm nm)))"
proof (cases "dmap (dtable d) (name_key nm)")
  case None
  then obtain s' where s': "fs_Remove g fs s nm = Inr (s', False)" "fs_inv fs s' d fm" "same_sectors s s'"
    using fs_Remove_ok [OF i(1) ok, of nm] by auto
  have "sizes_ok s' d" using sizes_ok_same [OF i(1) s'(3)] i(2) by blast
  then have "shell_rel fs s' (file_bytes s d, free_left fm)"
    using shell_relI [OF s'(2)] file_bytes_same [OF i(1) s'(3)] by metis
  moreover have "file_bytes s d (name_key nm) = None" using None by (simp add: file_bytes_def)
  ultimately show ?thesis using s'(1) by auto
next
  case (Some sec)
  have n: "numBytes (fhdr s sec) = int (length (contents s (fhdr s sec)))" using i(2) dmap_ran [OF Some] by (simp add: sizes_ok_def)
  obtain s' d' fm' where "fs_Remove g fs s nm = Inr (s', True)" "fs_inv fs s' d' fm'"
      "file_bytes s' d' = (file_bytes s d)(name_key nm := None)" "sizes_ok s' d'"
      "free_left fm' = free_left fm + sectors_for (int (length (contents s (fhdr s sec))))"
    using Remove_done [OF i(1) ok Some] i(2) unfolding n by blast
  moreover have "file_bytes s d (name_key nm) = Some (contents s (fhdr s sec))" using Some by (simp add: file_bytes_def)
  ultimately show ?thesis using shell_relI [of fs s' d' fm'] by auto
qed

interpretation shell: simulation "shell_step fs" spec_shell "shell_rel fs" shell_allowed for fs
proof
  fix s a op
  assume "shell_rel fs s a" "shell_allowed op"
  moreover obtain g unix c where op: "op = ((g, unix), c)" by (cases op) auto
  ultimately obtain d fm where i: "fs_inv fs s d fm" "sizes_ok s d" "a = (file_bytes s d, free_left fm)" "garbage_ok g"
      "\<And>x bs. unix x = Some bs \<Longrightarrow> int (length bs) \<le> MaxFileSize"
    by (auto simp: shell_rel_def shell_allowed_def)
  show "\<exists>s'. shell_step fs s op = Inr (s', snd (spec_shell a op)) \<and> shell_rel fs s' (fst (spec_shell a op))"
  proof (cases c)
    case (Cp src dst)
    then show ?thesis using shell_copies [OF i(1,2,4), of unix src dst] i(5) unfolding op i(3) by (auto simp: shell_step_def)
  next
    case (Pr nm)
    then show ?thesis using shell_prints [OF i(1,2,4), of nm unix] unfolding op i(3) by (auto simp: shell_step_def)
  next
    case (Rm nm)
    have "snd (spec_shell a op) = []" unfolding op i(3) Rm by (simp split: option.split)
    then show ?thesis using Rm shell_removes [OF i(1,2,4), of nm unix] unfolding op i(3) by (auto simp: shell_step_def)
  qed
qed

section \<open>The options\<close>

text \<open>How a command is written on the command line.\<close>

primrec written :: "shell_cmd \<Rightarrow> argument list" where
  "written (Cp src dst) = [arg ''-cp'', src, dst]"
| "written (Pr nm) = [arg ''-p'', nm]"
| "written (Rm nm) = [arg ''-r'', nm]"

lemma arg_simps:
  "arg ''-cp'' = [45, 99, 112]" "arg ''-p'' = [45, 112]" "arg ''-r'' = [45, 114]" "arg ''-z'' = [45, 122]" "arg ''-x'' = [45, 120]"
  "arg ''-c'' = [45, 99]" "arg ''-l'' = [45, 108]" "arg ''-D'' = [45, 68]" "arg ''-t'' = [45, 116]" "arg ''-o'' = [45, 111]"
  "arg ''-d'' = [45, 100]" "arg ''-rs'' = [45, 114, 115]" "arg ''-s'' = [45, 115]" "arg ''-f'' = [45, 102]" "arg ''-m'' = [45, 109]"
  by (simp_all add: arg_def)

lemma init_loop_skips:
  "\<forall>a \<in> set args. a \<notin> {arg ''-d'', arg ''-rs'', arg ''-s'', arg ''-f'', arg ''-l'', arg ''-m''} \<Longrightarrow> init_loop b atoi atof args st = Inr st"
  by (induction args)
    (simp_all add: init_option_def common_flags_def user_flags_def filesys_flags_def network_flags_def)

lemma main_loop_commands:
  assumes b: "FILESYS b"
  shows "main_loop b atoi (exec_filesys g unix fs others) (concat (map written cmds)) s =
    bindR (run_ops (shell_step fs) (sh_disk s) (map (Pair (g, unix)) cmds))
      (\<lambda>(d, outs). Inr (s\<lparr>sh_disk := d, sh_out := sh_out s @ map Shown (concat outs)\<rparr>, True))"
proof (induction cmds arbitrary: s)
  case (Cons c cmds)
  let ?exec = "exec_filesys g unix fs others"
  have one: "main_loop b atoi ?exec (written c @ rest) s = bindR (shell_step fs (sh_disk s) ((g, unix), c))
      (\<lambda>(d, out). main_loop b atoi ?exec rest (s\<lparr>sh_disk := d, sh_out := sh_out s @ map Shown out\<rparr>))" for rest
    using b by (cases c) (auto simp: arg_simps main_option_def user_option_def filesys_option_def network_option_def shell_step_def
        exec_filesys_def printing_def bindR_assoc split_def intro!: bindR_cong)
  show ?case by (simp add: one Cons.IH bindR_assoc split_def)
qed simp

section \<open>Sessions\<close>

text \<open>
  C7: \<open>nachos -f\<close> followed by any commands \<open>-cp\<close>, \<open>-p\<close> and \<open>-r\<close>, in a build with the file system and without \<open>THREADS\<close>, formats
  the disk and prints exactly what the specification prints from the empty file system: the bytes of the
  copied files, and the messages for files that do not exist or do not fit. The names do not begin with a dash,
  and no UNIX file is longer than \<open>MaxFileSize\<close>.
\<close>

theorem sessions_of_commands:
  assumes "\<not> THREADS b" and "FILESYS_NEEDED b" and "FILESYS b" and "garbage_ok g"
    and "\<forall>a bs. unix a = Some bs \<longrightarrow> int (length bs) \<le> MaxFileSize"
    and "\<forall>c \<in> set cmds. \<forall>a \<in> set (tl (written c)). a = [] \<or> hd a \<noteq> 45"
  shows "\<exists>s. nachos b atoi atof g unix others None (prog # arg ''-f'' # concat (map written cmds)) = Inr (s, True) \<and>
    sh_out s = map Shown (concat (snd (spec_ops spec_shell (Map.empty, 1019) (map (Pair (g, unix)) cmds))))"
proof -
  let ?ops = "map (Pair (g, unix)) cmds" and ?args = "concat (map written cmds)"
  obtain d0 where d0: "SynchDisk_new None Statistics_new = Inr d0" "synch_ok d0" using new_disk_ok by blast
  obtain d1 fs dir fm where f: "FileSystem_new g True d0 = Inr (d1, fs)" "fs_inv fs d1 dir fm" "dmap (dtable dir) = Map.empty" "card (marked fm) = 5"
    using FileSystem_format_ok [OF d0(2) assms(4)] by blast
  have rel: "shell_rel fs d1 (Map.empty, 1019)"
  proof (intro shell_relI [OF f(2)])
    show "sizes_ok d1 dir" using f(3) by (simp add: sizes_ok_def)
    show "(Map.empty, 1019) = (file_bytes d1 dir, free_left fm)" using f(3,4) by (simp add: file_bytes_def free_left_def fun_eq_iff)
  qed
  have "\<forall>op \<in> set ?ops. shell_allowed op" using assms(4,5) by (auto simp: shell_allowed_def)
  then obtain d2 where d2: "run_ops (shell_step fs) d1 ?ops = Inr (d2, snd (spec_ops spec_shell (Map.empty, 1019) ?ops))"
    using shell.simulates_run [OF rel] by blast
  have words: "a \<in> {arg ''-cp'', arg ''-p'', arg ''-r''} \<or> a = [] \<or> hd a \<noteq> 45" if "a \<in> set (written c)" "c \<in> set cmds" for a c
    using that assms(6) by (cases c) auto
  have "\<forall>a \<in> set ?args. a \<notin> {arg ''-d'', arg ''-rs'', arg ''-s'', arg ''-f'', arg ''-l'', arg ''-m''}"
    using words by (fastforce simp: arg_simps)
  note skip = init_loop_skips [OF this]
  have init: "init_loop b atoi atof (arg ''-f'' # ?args) default_settings = Inr (default_settings\<lparr>format := True\<rparr>)"
    using assms(2) skip by (simp add: init_option_def common_flags_def user_flags_def filesys_flags_def network_flags_def arg_simps)
  have "main_option b atoi (arg ''-f'') ?args = Inr ([], 1)"
    by (simp add: main_option_def user_option_def filesys_option_def network_option_def arg_simps)
  then have "main_loop b atoi exec (arg ''-f'' # ?args) s = main_loop b atoi exec ?args s" for exec :: "command \<Rightarrow> shell \<Rightarrow> (shell \<times> bool) res" and s
    by simp
  then show ?thesis using assms(1) init d0(1) f(1) d2 main_loop_commands [OF assms(3)]
    by (simp add: nachos_def main_program_def)
qed

definition filesys_build :: build where
  "filesys_build = \<lparr>THREADS = False, USER_PROGRAM = True, FILESYS_NEEDED = True, FILESYS = True, NETWORK = True\<rparr>"

theorem sessions_of_commands_witness:
  "\<exists>s. nachos filesys_build (\<lambda>_. 0) (\<lambda>_. 1) zero_garbage [[97] \<mapsto> [104, 105]] (\<lambda>_ s. Inr (s, False)) None
      ([] # arg ''-f'' # concat (map written [Cp [97] [98], Pr [98], Rm [98], Pr [98]])) = Inr (s, True) \<and>
    sh_out s = [Shown (Character 104), Shown (Character 105), Shown (Message ''Print: unable to open file'' [98])]"
proof -
  let ?cmds = "[Cp [97] [98], Pr [98], Rm [98], Pr [98]]" and ?unix = "[[97] \<mapsto> [104, 105 :: 8 word]]"
  have b: "\<not> THREADS filesys_build" "FILESYS_NEEDED filesys_build" "FILESYS filesys_build" by (simp_all add: filesys_build_def)
  have u: "\<forall>a bs. ?unix a = Some bs \<longrightarrow> int (length bs) \<le> MaxFileSize" by (simp add: MaxFileSize_def NumDirect_def SecSize_def)
  have n: "\<forall>c \<in> set ?cmds. \<forall>a \<in> set (tl (written c)). a = [] \<or> hd a \<noteq> 45" by simp
  have "concat (snd (spec_ops spec_shell (Map.empty, 1019) (map (Pair (zero_garbage, ?unix)) ?cmds))) =
      [Character 104, Character 105, Message ''Print: unable to open file'' [98]]"
    by (simp add: sectors_for_def)
  note e = this
  show ?thesis
    using sessions_of_commands [OF b zero_garbage_ok u n, of "\<lambda>_. 0" "\<lambda>_. 1" "\<lambda>_ s. Inr (s, False)" "[]"]
    by (simp only: e list.map(1-2) [of Shown])
qed

lemma thread_args_rest: "\<forall>t' rest. thread_args atoi t args = Inr (t', rest) \<longrightarrow> rest = []"
proof (induction atoi t args rule: thread_args.induct)
  case (2 atoi t a rest)
  show ?case
  proof (cases "aget (a @ [0]) 1")
    case (Inr c)
    show ?thesis
    proof (cases "c = 113")
      case True
      then show ?thesis using 2(1) [OF Inr True] Inr by (cases rest) simp_all
    next
      case False
      then show ?thesis using 2(2) [OF Inr False] Inr by simp
    qed
  qed simp
qed simp

text \<open>
  C31: in a build with \<open>THREADS\<close>, such as that of the file system assignment, \<open>main\<close> calls nothing but \<open>ThreadTest\<close>: the
  first loop uses up the arguments, so that no other option is ever looked at.
\<close>

theorem threads_build_ignores_commands:
  assumes "THREADS b"
  shows "main_program b atoi exec argv s = bindR (thread_args atoi 1 (tl argv)) (\<lambda>(testnum, _). exec (CallThreadTest testnum) s)"
proof -
  have "rest = []" if "thread_args atoi 1 (tl argv) = Inr (t', rest)" for t' rest
    using thread_args_rest that by fast
  then have "bindR (exec (CallThreadTest t') s) (\<lambda>(s, r). if r then main_loop b atoi exec (tl rest) s else Inr (s, False)) = exec (CallThreadTest t') s"
    if "thread_args atoi 1 (tl argv) = Inr (t', rest)" for t' rest
    using that by (auto simp: bindR_def split: sum.splits)
  then show ?thesis using assms by (auto simp: main_program_def bindR_def split: sum.splits)
qed

theorem threads_build_ignores_commands_witness:
  "THREADS (filesys_build\<lparr>THREADS := True\<rparr>) \<and>
    main_program (filesys_build\<lparr>THREADS := True\<rparr>) (\<lambda>_. 0) (\<lambda>c cs. Inr (cs @ [c], True)) [[], arg ''-cp'', [97], [98]] [] = Inr ([CallThreadTest 1], True)"
proof -
  have t: "THREADS (filesys_build\<lparr>THREADS := True\<rparr>)" by simp
  have "thread_args (\<lambda>_. 0) 1 (tl [[], arg ''-cp'', [97], [98]]) = Inr (1, [])" by (simp add: arg_simps aget_def)
  then show ?thesis
    using threads_build_ignores_commands [OF t, of "\<lambda>_. 0" "\<lambda>c cs. Inr (cs @ [c], True)" "[[], arg ''-cp'', [97], [98]]" "[]"] by simp
qed

end
