(* ===== verification/Network.thy ===== *)
theory Network
  imports Complex_Main Interrupts
begin

text \<open>
  The network device \<open>machine/network.cc\<close> and the post office \<open>network/post.cc\<close> on it, for several machines
  that exchange packets through UNIX sockets. Each machine is an interrupt simulation (\<open>isys\<close>) whose
  handlers are those of the network device.
\<close>

section \<open>Packets\<close>

definition MaxWireSize :: nat where "MaxWireSize = 64"
definition MaxPacketSize :: nat where "MaxPacketSize = MaxWireSize - 12"
definition MaxMailSize :: nat where "MaxMailSize = MaxPacketSize - 12"
definition NetworkTime :: int where "NetworkTime = 100"

record packet_header =
  pkt_to :: int
  pkt_from :: int
  pkt_length :: "32 word"

record mail_header =
  mail_to :: int
  mail_from :: int
  mail_length :: "32 word"

text \<open>The headers in memory: two \<open>int\<close>s and an \<open>unsigned\<close>.\<close>

definition packet_bytes :: "packet_header \<Rightarrow> 8 word list" where
  "packet_bytes h = int_bytes (pkt_to h) @ int_bytes (pkt_from h) @ le_bytes 4 (pkt_length h)"

definition packet_of :: "8 word list \<Rightarrow> packet_header" where
  "packet_of bs = \<lparr>pkt_to = int_of (slice bs 0 4), pkt_from = int_of (slice bs 4 4), pkt_length = le_word (slice bs 8 4)\<rparr>"

definition mail_bytes :: "mail_header \<Rightarrow> 8 word list" where
  "mail_bytes h = int_bytes (mail_to h) @ int_bytes (mail_from h) @ le_bytes 4 (mail_length h)"

definition mail_of :: "8 word list \<Rightarrow> mail_header" where
  "mail_of bs = \<lparr>mail_to = int_of (slice bs 0 4), mail_from = int_of (slice bs 4 4), mail_length = le_word (slice bs 8 4)\<rparr>"

text \<open>\<open>bcopy\<close> of the first \<open>n\<close> bytes of a buffer.\<close>

definition first_bytes :: "8 word list \<Rightarrow> nat \<Rightarrow> 8 word list res" where
  "first_bytes bs n = (if n \<le> length bs then Inr (take n bs) else Inl BadAccess)"

section \<open>State\<close>

text \<open>
  \<open>sock\<close> are the packets that have arrived at the socket and were not read yet. \<open>chanceToWork\<close> is a real
  number; the rounding of \<open>double\<close> is not modelled.
\<close>

record network =
  ident :: int
  chanceToWork :: real
  sendBusy :: bool
  inHdr :: packet_header
  inbox :: "8 word list"
  sock :: "8 word list list"
  net_randoms :: nat

record mail =
  pktHdr :: packet_header
  mailHdr :: mail_header
  mail_data :: "8 word list"

text \<open>
  The semaphores and the lock of the post office appear by their values; \<open>Semaphores\<close> and \<open>Locks\<close> have what
  they do to threads. A mailbox is the queue of its \<open>SynchList\<close>. \<open>buffer\<close> is the local variable of the postal worker.
\<close>

record post_office =
  netAddr :: int
  numBoxes :: int
  boxes :: "mail list list"
  messageAvailable :: nat
  messageSent :: nat
  sendLock :: bool
  worker_buffer :: "8 word list"

record net_kernel =
  net :: network
  post :: post_office

datatype net_handler = NetworkReadPoll | NetworkSendDone

type_synonym node = "(net_handler, net_kernel) isys"

definition upd_net :: "(network \<Rightarrow> network) \<Rightarrow> node \<Rightarrow> node" where
  "upd_net f s = s\<lparr>ikernel := (ikernel s)\<lparr>net := f (net (ikernel s))\<rparr>\<rparr>"

definition upd_post :: "(post_office \<Rightarrow> post_office) \<Rightarrow> node \<Rightarrow> node" where
  "upd_post f s = s\<lparr>ikernel := (ikernel s)\<lparr>post := f (post (ikernel s))\<rparr>\<rparr>"

section \<open>The interrupt handlers of the post office\<close>

definition IncomingPacket :: "node \<Rightarrow> node" where
  "IncomingPacket s = upd_post (\<lambda>p. p\<lparr>messageAvailable := Suc (messageAvailable p)\<rparr>) s"

definition PacketSent :: "node \<Rightarrow> node" where
  "PacketSent s = upd_post (\<lambda>p. p\<lparr>messageSent := Suc (messageSent p)\<rparr>) s"

section \<open>The device\<close>

definition clamp_reliability :: "real \<Rightarrow> real" where
  "clamp_reliability r = (if r < 0 then 0 else if r > 1 then 1 else r)"

text \<open>\<open>junk\<close> is what the new object held.\<close>

definition Network_new :: "network \<Rightarrow> int \<Rightarrow> real \<Rightarrow> node \<Rightarrow> node res" where
  "Network_new junk addr reliability s =
     Schedule NetworkReadPoll addr NetworkTime NetworkRecvInt
       (upd_net (\<lambda>_. junk\<lparr>ident := addr, chanceToWork := clamp_reliability reliability, sendBusy := False,
          inHdr := (inHdr junk)\<lparr>pkt_length := 0\<rparr>, sock := []\<rparr>) s)"

definition CheckPktAvail :: "int \<Rightarrow> node \<Rightarrow> node res" where
  "CheckPktAvail self s =
     bindR (Schedule NetworkReadPoll self NetworkTime NetworkRecvInt s) (\<lambda>s.
     let n = net (ikernel s) in
     if pkt_length (inHdr n) \<noteq> 0 then Inr s
     else case sock n of
       [] \<Rightarrow> Inr s
     | wire # rest \<Rightarrow>
         ASSERT (length wire = MaxWireSize) (
         let hdr = packet_of wire in
         ASSERT (pkt_to hdr = ident n \<and> unat (pkt_length hdr) \<le> MaxPacketSize) (
         Inr (IncomingPacket (upd_net (\<lambda>n. n\<lparr>inHdr := hdr, inbox := blit (inbox n) 0 (slice wire 12 (unat (pkt_length hdr))),
           sock := rest\<rparr>) (s\<lparr>istats := (istats s)\<lparr>numPacketsRecvd := numPacketsRecvd (istats s) + 1\<rparr>\<rparr>))))))"

definition SendDone :: "node \<Rightarrow> node" where
  "SendDone s = PacketSent (upd_net (\<lambda>n. n\<lparr>sendBusy := False\<rparr>)
     (s\<lparr>istats := (istats s)\<lparr>numPacketsSent := numPacketsSent (istats s) + 1\<rparr>\<rparr>))"

text \<open>
  The packet that goes out, with the number of the machine it goes to; none when it is lost. \<open>random\<close> are
  the results of \<open>Random()\<close>, \<open>junk\<close> is the new buffer.
\<close>

definition Network_Send :: "(nat \<Rightarrow> nat) \<Rightarrow> 8 word list \<Rightarrow> packet_header \<Rightarrow> 8 word list \<Rightarrow> node \<Rightarrow>
    (node \<times> (int \<times> 8 word list) option) res" where
  "Network_Send random junk hdr data s =
     (let n = net (ikernel s) in
      ASSERT (sendBusy n = False \<and> pkt_length hdr > 0 \<and> unat (pkt_length hdr) \<le> MaxPacketSize \<and> pkt_from hdr = ident n) (
      bindR (Schedule NetworkSendDone (ident n) NetworkTime NetworkSendInt s) (\<lambda>s.
      let draw = random (net_randoms n) mod 100;
          s = upd_net (\<lambda>n. n\<lparr>net_randoms := Suc (net_randoms n)\<rparr>) s in
      if real draw \<ge> chanceToWork n * 100 then Inr (s, None)
      else
        bindR (first_bytes data (unat (pkt_length hdr))) (\<lambda>bs.
        Inr (s, Some (pkt_to hdr, blit (blit junk 0 (packet_bytes hdr)) 12 bs))))))"

definition Network_Receive :: "node \<Rightarrow> node \<times> packet_header \<times> 8 word list" where
  "Network_Receive s =
     (let n = net (ikernel s); hdr = inHdr n in
      (upd_net (\<lambda>n. n\<lparr>inHdr := hdr\<lparr>pkt_length := 0\<rparr>\<rparr>) s, hdr, take (unat (pkt_length hdr)) (inbox n)))"

section \<open>The post office\<close>

definition PostOffice_new :: "network \<Rightarrow> 8 word list \<Rightarrow> int \<Rightarrow> real \<Rightarrow> int \<Rightarrow> node \<Rightarrow> node res" where
  "PostOffice_new junk buf addr reliability nBoxes s =
     Network_new junk addr reliability (upd_post (\<lambda>_. \<lparr>netAddr = addr, numBoxes = nBoxes, boxes = replicate (nat nBoxes) [],
       messageAvailable = 0, messageSent = 0, sendLock = False, worker_buffer = buf\<rparr>) s)"

definition Mail_new :: "packet_header \<Rightarrow> mail_header \<Rightarrow> 8 word list \<Rightarrow> mail res" where
  "Mail_new pktH mailH msgData =
     ASSERT (unat (mail_length mailH) \<le> MaxMailSize) (
     bindR (first_bytes msgData (unat (mail_length mailH))) (\<lambda>bs. Inr \<lparr>pktHdr = pktH, mailHdr = mailH, mail_data = bs\<rparr>))"

definition MailBox_Put :: "mail list \<Rightarrow> packet_header \<Rightarrow> mail_header \<Rightarrow> 8 word list \<Rightarrow> mail list res" where
  "MailBox_Put box pktH mailH data = bindR (Mail_new pktH mailH data) (\<lambda>m. Inr (box @ [m]))"

text \<open>\<open>Get\<close> waits while the mailbox is empty.\<close>

definition MailBox_Get :: "mail list \<Rightarrow> (mail list \<times> mail) res" where
  "MailBox_Get box = (case box of [] \<Rightarrow> Inl Blocked | m # ms \<Rightarrow> Inr (ms, m))"

text \<open>One round of the loop of the postal worker, which waits when no packet has been announced.\<close>

definition PostalDelivery :: "node \<Rightarrow> node res" where
  "PostalDelivery s =
     (if messageAvailable (post (ikernel s)) = 0 then Inl Blocked
      else
        let s = upd_post (\<lambda>p. p\<lparr>messageAvailable := messageAvailable p - 1\<rparr>) s in
        case Network_Receive s of (s, pktH, data) \<Rightarrow>
          let p = post (ikernel s); buf = blit (worker_buffer p) 0 data; mailH = mail_of (slice buf 0 12) in
          ASSERT (0 \<le> mail_to mailH \<and> mail_to mailH < numBoxes p) (
          ASSERT (unat (mail_length mailH) \<le> MaxMailSize) (
          bindR (aget (boxes p) (mail_to mailH)) (\<lambda>box.
          bindR (MailBox_Put box pktH mailH (drop 12 buf)) (\<lambda>box.
          bindR (aset (boxes p) (mail_to mailH) box) (\<lambda>bs.
          Inr (upd_post (\<lambda>p. p\<lparr>boxes := bs, worker_buffer := buf\<rparr>) s)))))))"

text \<open>\<open>PostOffice::Send\<close> up to the wait for the interrupt, with the lock taken, and from there on.\<close>

definition Post_Send :: "(nat \<Rightarrow> nat) \<Rightarrow> 8 word list \<Rightarrow> 8 word list \<Rightarrow> packet_header \<Rightarrow> mail_header \<Rightarrow> 8 word list \<Rightarrow> node \<Rightarrow>
    (node \<times> (int \<times> 8 word list) option) res" where
  "Post_Send random junk wire pktH mailH data s =
     (let p = post (ikernel s) in
      ASSERT (unat (mail_length mailH) \<le> MaxMailSize) (
      ASSERT (0 \<le> mail_to mailH \<and> mail_to mailH < numBoxes p) (
      let pktH = pktH\<lparr>pkt_from := netAddr p, pkt_length := mail_length mailH + 12\<rparr> in
      bindR (first_bytes data (unat (mail_length mailH))) (\<lambda>bs.
      let buffer = blit (blit junk 0 (mail_bytes mailH)) 12 bs in
      if sendLock p then Inl Blocked
      else Network_Send random wire pktH buffer (upd_post (\<lambda>p. p\<lparr>sendLock := True\<rparr>) s)))))"

definition Post_Sent :: "node \<Rightarrow> node res" where
  "Post_Sent s =
     (if \<not> sendLock (post (ikernel s)) \<or> messageSent (post (ikernel s)) = 0 then Inl Blocked
      else Inr (upd_post (\<lambda>p. p\<lparr>messageSent := messageSent p - 1, sendLock := False\<rparr>) s))"

definition Post_Receive :: "int \<Rightarrow> node \<Rightarrow> (node \<times> mail) res" where
  "Post_Receive box s =
     (let p = post (ikernel s) in
      ASSERT (0 \<le> box \<and> box < numBoxes p) (
      bindR (aget (boxes p) box) (\<lambda>b.
      bindR (MailBox_Get b) (\<lambda>(b, m).
      bindR (aset (boxes p) box b) (\<lambda>bs.
      ASSERT (unat (mail_length (mailHdr m)) \<le> MaxMailSize) (
      Inr (upd_post (\<lambda>p. p\<lparr>boxes := bs\<rparr>) s, m)))))))"

primrec net_dispatch :: "(net_handler, net_kernel) dispatch" where
  "net_dispatch NetworkReadPoll arg = CheckPktAvail arg"
| "net_dispatch NetworkSendDone arg = (\<lambda>s. Inr (SendDone s))"

section \<open>Several machines\<close>

text \<open>
  The machines, in the order of their addresses. A step of a machine is a call by one of its threads, a round
  of its postal worker, or its next interrupt; the clock moves to the time of the interrupt, as in
  \<open>Idle\<close>. A call that has to wait changes nothing and is made again later.
\<close>

datatype event =
    Send nat packet_header mail_header "8 word list"
  | Sent nat
  | Interrupt nat
  | Deliver nat
  | Receive nat int

datatype outcome = Waits | Goes | Accepted | Got mail

text \<open>\<open>SendToSocket\<close> stops the program when nobody has the address.\<close>

definition to_socket :: "(int \<times> 8 word list) option \<Rightarrow> node list \<Rightarrow> node list res" where
  "to_socket out ns = (case out of None \<Rightarrow> Inr ns
     | Some (dest, wire) \<Rightarrow>
         ASSERT (0 \<le> dest \<and> dest < int (length ns)) (
         Inr (ns[nat dest := upd_net (\<lambda>n. n\<lparr>sock := sock n @ [wire]\<rparr>) (ns ! nat dest)])))"

definition or_wait :: "node list \<Rightarrow> (node list \<times> outcome) res \<Rightarrow> (node list \<times> outcome) res" where
  "or_wait ns r = (case r of Inl Blocked \<Rightarrow> Inr (ns, Waits) | _ \<Rightarrow> r)"

definition at_node :: "node list \<Rightarrow> nat \<Rightarrow> (node \<Rightarrow> (node \<times> outcome) res) \<Rightarrow> (node list \<times> outcome) res" where
  "at_node ns i f = bindR (aget ns (int i)) (\<lambda>s. bindR (f s) (\<lambda>(s, out). Inr (ns[i := s], out)))"

fun net_step :: "(nat \<Rightarrow> nat \<Rightarrow> nat) \<Rightarrow> 8 word list \<Rightarrow> 8 word list \<Rightarrow> node list \<Rightarrow> event \<Rightarrow> (node list \<times> outcome) res" where
  "net_step random junk wire ns (Send i pktH mailH data) =
     or_wait ns (bindR (aget ns (int i)) (\<lambda>s.
       bindR (Post_Send (random i) junk wire pktH mailH data s) (\<lambda>(s, out).
       bindR (to_socket out (ns[i := s])) (\<lambda>ns. Inr (ns, if out = None then Goes else Accepted)))))"
| "net_step random junk wire ns (Sent i) = or_wait ns (at_node ns i (\<lambda>s. bindR (Post_Sent s) (\<lambda>s. Inr (s, Goes))))"
| "net_step random junk wire ns (Interrupt i) = or_wait ns (at_node ns i (\<lambda>s. bindR (CheckIfDue net_dispatch True s) (\<lambda>(s, _). Inr (s, Goes))))"
| "net_step random junk wire ns (Deliver i) = or_wait ns (at_node ns i (\<lambda>s. bindR (PostalDelivery s) (\<lambda>s. Inr (s, Goes))))"
| "net_step random junk wire ns (Receive i b) = or_wait ns (at_node ns i (\<lambda>s. bindR (Post_Receive b s) (\<lambda>(s, m). Inr (s, Got m))))"

end
