(* ===== verification/Devices.thy ===== *)
theory Devices
  imports Interrupts
begin

text \<open>
  What the devices that poll (network, console) have in common: the interrupts they have scheduled, and the
  next interrupt when the clock moves to its time, as in \<open>Idle\<close>.
\<close>

text \<open>The pending interrupts of a handler; \<open>t\<close> bounds the clock.\<close>

definition handlers :: "(int \<times> 'h PendingInterrupt option) list \<Rightarrow> 'h \<Rightarrow> nat" where
  "handlers es h = length (filter (\<lambda>e. case snd e of None \<Rightarrow> False | Some p \<Rightarrow> pi_handler p = h) es)"

definition clock_ok :: "int \<Rightarrow> ('h, 'k) isys \<Rightarrow> bool" where
  "clock_ok t s \<longleftrightarrow> int_sys_ok s \<and> level (intr s) = IntOff \<and> imachine s = None \<and> now s \<le> t \<and>
     (\<forall>e \<in> set (pend s). fst e \<le> t + 100 \<and> (\<exists>p. snd e = Some p \<and> pi_type p \<noteq> TimerInt))"

lemma clock_ok_later: "clock_ok t s \<Longrightarrow> t \<le> t' \<Longrightarrow> clock_ok t' s"
  by (fastforce simp: clock_ok_def)

lemma handlers_simps [simp]: "handlers [] h = 0" "handlers ((w, Some p) # es) h = (if pi_handler p = h then 1 else 0) + handlers es h"
  by (simp_all add: handlers_def)

lemma handlers_sorted_ins: "handlers (sorted_ins w (Some p) es) h = handlers ((w, Some p) # es) h"
proof -
  have size: "length (filter P xs) = size (filter_mset P (mset xs))" for P and xs :: "(int \<times> 'a PendingInterrupt option) list"
    by (simp flip: mset_filter)
  show ?thesis by (simp only: handlers_def size mset_sorted_ins mset.simps)
qed

text \<open>An interrupt that a device schedules for \<open>100\<close> ticks later.\<close>

lemma Schedule_100:
  assumes "clock_ok t s" "t + 100 < 2 ^ 31" "ty \<noteq> TimerInt"
  shows "\<exists>q. Schedule h a 100 ty s = Inr (set_pending q s) \<and> clock_ok t (set_pending q s) \<and>
    (\<forall>h'. handlers (lst_elems q) h' = (if h = h' then 1 else 0) + handlers (pend s) h')"
proof -
  have s: "int_sys_ok s" "now s \<le> t" using assms(1) by (simp_all add: clock_ok_def)
  obtain q where q: "Schedule h a 100 ty s = Inr (set_pending q s)" "int_sys_ok (set_pending q s)"
      "lst_elems q = sorted_ins (now s + 100) (Some \<lparr>pi_handler = h, pi_arg = a, pi_when = now s + 100, pi_type = ty\<rparr>) (pend s)"
    using Schedule_ok [OF s(1), of 100 h a ty] s(2) assms(2) by auto
  have "clock_ok t (set_pending q s)"
    using q(2,3) assms(1,3) s(2) by (auto simp: clock_ok_def set_sorted_ins)
  then show ?thesis using q by (intro exI [of _ q]) (simp add: handlers_sorted_ins)
qed

text \<open>The next interrupt, whatever its handler does.\<close>

lemma next_interrupt:
  assumes s: "clock_ok t s" "t + 100 < 2 ^ 31" and ne: "handlers (pend s) h \<noteq> 0"
  shows "\<exists>w p es s1. pend s = (w, Some p) # es \<and> CheckIfDue dispatch True s =
      bindR (dispatch (pi_handler p) (pi_arg p) s1) (\<lambda>s2. Inr (s2\<lparr>intr := (intr s2)\<lparr>int_status := int_status (intr s), inHandler := False\<rparr>\<rparr>, True)) \<and>
    clock_ok (t + 100) s1 \<and> pend s1 = es \<and> ikernel s1 = ikernel s"
proof -
  obtain e es where e: "pend s = e # es" using ne by (cases "pend s") (auto simp: handlers_def)
  obtain w p where p: "e = (w, Some p)" "pi_type p \<noteq> TimerInt" "w \<le> t + 100" using s(1) e by (cases e) (auto simp: clock_ok_def)
  have "int_sys_ok s" "level (intr s) = IntOff" "imachine s = None" "w < 2 ^ 31" using s p(3) by (simp_all add: clock_ok_def)
  then obtain s1 where s1: "CheckIfDue dispatch True s =
      bindR (dispatch (pi_handler p) (pi_arg p) s1) (\<lambda>s2. Inr (s2\<lparr>intr := (intr s2)\<lparr>int_status := int_status (intr s), inHandler := False\<rparr>\<rparr>, True))"
      "int_sys_ok s1" "pend s1 = es" "now s1 = max (now s) w" "ikernel s1 = ikernel s" "level (intr s1) = IntOff" "imachine s1 = None"
    using CheckIfDue_next [of s w p es dispatch] e p(1,2) by blast
  then have "clock_ok (t + 100) s1" using s(1) e p(3) by (auto simp: clock_ok_def)
  then show ?thesis using s1(1,3,5) e p(1) by blast
qed

text \<open>A handler returns to what the interrupt came into.\<close>

lemma clock_ok_status [simp]:
  "clock_ok t (s\<lparr>intr := (intr s)\<lparr>int_status := st, inHandler := b\<rparr>\<rparr>) = clock_ok t s"
  "pend (s\<lparr>intr := (intr s)\<lparr>int_status := st, inHandler := b\<rparr>\<rparr>) = pend s"
  by (simp_all add: clock_ok_def int_sys_ok_def pend_def)

text \<open>The hardware before any device is made.\<close>

definition power_on :: "'k \<Rightarrow> ('h, 'k) isys" where
  "power_on k = \<lparr>intr = Interrupt_new, istats = Statistics_new, imachine = None, ikernel = k\<rparr>"

lemma power_on_ok: "clock_ok 0 (power_on k)" "pend (power_on k) = []" "ikernel (power_on k) = k"
  by (simp_all add: clock_ok_def int_sys_ok_def pend_def now_def power_on_def Interrupt_new_def Statistics_new_def key_sorted_def)

end
