(* ===== verification/PostOffices.thy ===== *)
theory PostOffices
  imports Network Devices "HOL-Library.Sublist"
begin

text \<open>
  Properties of the network and the post office: mail that the device accepts arrives unchanged and in
  order at the mailbox it is for. The definitions are those of \<open>Network\<close>.
\<close>

section \<open>Headers in packets\<close>

lemmas net_sizes = MaxWireSize_def MaxPacketSize_def MaxMailSize_def NetworkTime_def

lemma length_headers [simp]: "length (packet_bytes h) = 12" "length (mail_bytes m) = 12"
  by (simp_all add: packet_bytes_def mail_bytes_def)

lemma packet_of_bytes: "int32 (pkt_to h) \<Longrightarrow> int32 (pkt_from h) \<Longrightarrow> packet_of (packet_bytes h @ bs) = h"
  by (simp add: packet_of_def packet_bytes_def slice_append1 slice_append2 slice_all)

lemma mail_of_bytes: "int32 (mail_to m) \<Longrightarrow> int32 (mail_from m) \<Longrightarrow> mail_of (mail_bytes m @ bs) = m"
  by (simp add: mail_of_def mail_bytes_def slice_append1 slice_append2 slice_all)

lemma packet_of_prefix: "12 \<le> n \<Longrightarrow> packet_of (take n bs) = packet_of bs"
  by (simp add: packet_of_def slice_def take_drop min_def)

lemma mail_of_prefix: "12 \<le> n \<Longrightarrow> mail_of (take n bs) = mail_of bs"
  by (simp add: mail_of_def slice_def take_drop min_def)

section \<open>Mail on its way\<close>

text \<open>The mail in the bytes that follow a packet header: first the mail header, then the data.\<close>

definition mail_in :: "packet_header \<Rightarrow> 8 word list \<Rightarrow> mail" where
  "mail_in h bs = \<lparr>pktHdr = h, mailHdr = mail_of bs, mail_data = slice bs 12 (unat (mail_length (mail_of bs)))\<rparr>"

definition payload_ok :: "nat \<Rightarrow> nat \<Rightarrow> packet_header \<Rightarrow> 8 word list \<Rightarrow> bool" where
  "payload_ok B j h bs \<longleftrightarrow> pkt_to h = int j \<and> unat (mail_length (mail_of bs)) \<le> 40 \<and>
     unat (pkt_length h) = unat (mail_length (mail_of bs)) + 12 \<and> 0 \<le> mail_to (mail_of bs) \<and> mail_to (mail_of bs) < int B"

definition wire_mail :: "8 word list \<Rightarrow> mail" where
  "wire_mail w = mail_in (packet_of w) (drop 12 w)"

definition wire_ok :: "nat \<Rightarrow> nat \<Rightarrow> 8 word list \<Rightarrow> bool" where
  "wire_ok B j w \<longleftrightarrow> length w = 64 \<and> payload_ok B j (packet_of w) (drop 12 w)"

text \<open>The mail that a machine has received and not delivered yet.\<close>

definition transit :: "network \<Rightarrow> mail list" where
  "transit n = (if pkt_length (inHdr n) = 0 then [] else [mail_in (inHdr n) (inbox n)]) @ map wire_mail (sock n)"

definition net_ok :: "nat \<Rightarrow> nat \<Rightarrow> network \<Rightarrow> bool" where
  "net_ok B j n \<longleftrightarrow> ident n = int j \<and> \<not> sendBusy n \<and> length (inbox n) = 52 \<and>
     (pkt_length (inHdr n) \<noteq> 0 \<longrightarrow> payload_ok B j (inHdr n) (inbox n)) \<and> (\<forall>w \<in> set (sock n). wire_ok B j w)"

definition kernel_ok :: "nat \<Rightarrow> nat \<Rightarrow> net_kernel \<Rightarrow> bool" where
  "kernel_ok B j k \<longleftrightarrow> net_ok B j (net k) \<and> netAddr (post k) = int j \<and> numBoxes (post k) = int B \<and> length (boxes (post k)) = B \<and>
     length (worker_buffer (post k)) = 52 \<and> messageAvailable (post k) = (if pkt_length (inHdr (net k)) = 0 then 0 else 1) \<and>
     (\<forall>box \<in> set (boxes (post k)). \<forall>m \<in> set box. unat (mail_length (mailHdr m)) \<le> 40)"

text \<open>The interrupts: one poll, and the end of the send that is going on.\<close>

definition node_ok :: "int \<Rightarrow> nat \<Rightarrow> nat \<Rightarrow> node \<Rightarrow> bool" where
  "node_ok t B j s \<longleftrightarrow> clock_ok t s \<and> kernel_ok B j (ikernel s) \<and> handlers (pend s) NetworkReadPoll = 1 \<and>
     handlers (pend s) NetworkSendDone + messageSent (post (ikernel s)) = (if sendLock (post (ikernel s)) then 1 else 0)"

lemma upd_simps [simp]:
  "ikernel (upd_net f s) = (ikernel s)\<lparr>net := f (net (ikernel s))\<rparr>" "ikernel (upd_post g s) = (ikernel s)\<lparr>post := g (post (ikernel s))\<rparr>"
  "intr (upd_net f s) = intr s" "intr (upd_post g s) = intr s" "istats (upd_net f s) = istats s" "istats (upd_post g s) = istats s"
  "imachine (upd_net f s) = imachine s" "imachine (upd_post g s) = imachine s"
  "pend (upd_net f s) = pend s" "pend (upd_post g s) = pend s" "now (upd_net f s) = now s" "now (upd_post g s) = now s"
  by (simp_all add: upd_net_def upd_post_def pend_def now_def)

lemma int_sys_ok_upd [simp]: "int_sys_ok (upd_net f s) = int_sys_ok s" "int_sys_ok (upd_post g s) = int_sys_ok s"
  by (simp_all add: int_sys_ok_def)

lemma clock_ok_upd [simp]: "clock_ok t (upd_net f s) = clock_ok t s" "clock_ok t (upd_post g s) = clock_ok t s"
  by (simp_all add: clock_ok_def)

section \<open>The operations\<close>

lemma mail_in_prefix:
  assumes "n \<le> length bs" "12 \<le> n"
  shows "mail_of (take n bs @ rest) = mail_of bs"
    "unat (mail_length (mail_of bs)) + 12 \<le> n \<Longrightarrow> mail_in h (take n bs @ rest) = mail_in h bs"
proof -
  have "take n (take n bs @ rest) = take n bs" using assms(1) by simp
  then show m: "mail_of (take n bs @ rest) = mail_of bs" using mail_of_prefix [OF assms(2)] by metis
  show "mail_in h (take n bs @ rest) = mail_in h bs" if "unat (mail_length (mail_of bs)) + 12 \<le> n"
  proof -
    let ?m = "unat (mail_length (mail_of bs))"
    have "slice (take n bs @ rest) 12 ?m = slice bs 12 ?m"
      using that assms(1) by (intro nth_equalityI) (auto simp: nth_append)
    then show ?thesis by (simp add: mail_in_def m)
  qed
qed

text \<open>The mail for one mailbox: delivered and on its way.\<close>

definition queue :: "net_kernel \<Rightarrow> nat \<Rightarrow> mail list" where
  "queue k b = boxes (post k) ! b @ filter (\<lambda>m. mail_to (mailHdr m) = int b) (transit (net k))"

lemma kernel_ok_queue: "net k' = net k \<Longrightarrow> boxes (post k') = boxes (post k) \<Longrightarrow> queue k' = queue k"
  by (simp add: queue_def fun_eq_iff)

lemma CheckPktAvail_ok:
  assumes c: "clock_ok t s" "t + 100 < 2 ^ 31" and k: "kernel_ok B j (ikernel s)"
  shows "\<exists>s'. CheckPktAvail a s = Inr s' \<and> clock_ok t s' \<and> kernel_ok B j (ikernel s') \<and>
    (\<forall>h. handlers (pend s') h = (if h = NetworkReadPoll then 1 else 0) + handlers (pend s) h) \<and>
    boxes (post (ikernel s')) = boxes (post (ikernel s)) \<and> transit (net (ikernel s')) = transit (net (ikernel s)) \<and>
    sendLock (post (ikernel s')) = sendLock (post (ikernel s)) \<and> messageSent (post (ikernel s')) = messageSent (post (ikernel s)) \<and>
    (transit (net (ikernel s)) \<noteq> [] \<longrightarrow> pkt_length (inHdr (net (ikernel s'))) \<noteq> 0)"
proof -
  let ?n = "net (ikernel s)"
  obtain q where q: "Schedule NetworkReadPoll a NetworkTime NetworkRecvInt s = Inr (set_pending q s)" "clock_ok t (set_pending q s)"
      "\<And>h. handlers (lst_elems q) h = (if h = NetworkReadPoll then 1 else 0) + handlers (pend s) h"
    using Schedule_100 [OF c, of NetworkRecvInt NetworkReadPoll a] by (auto simp: NetworkTime_def)
  have n: "net_ok B j ?n" using k by (simp add: kernel_ok_def)
  show ?thesis
  proof (cases "pkt_length (inHdr ?n) \<noteq> 0 \<or> sock ?n = []")
    case True
    then have "CheckPktAvail a s = Inr (set_pending q s)" using q(1) by (auto simp: CheckPktAvail_def Let_def)
    then show ?thesis using q(2,3) k True by (auto simp: transit_def)
  next
    case False
    then obtain w ws where w: "sock ?n = w # ws" "pkt_length (inHdr ?n) = 0" by (cases "sock ?n") auto
    let ?h = "packet_of w" and ?bs = "drop 12 w"
    let ?l = "unat (pkt_length ?h)"
    have wok: "length w = 64" "payload_ok B j ?h ?bs" using n w(1) by (simp_all add: net_ok_def wire_ok_def)
    have l: "?l = unat (mail_length (mail_of ?bs)) + 12" "?l \<le> 52" "pkt_to ?h = int j" "pkt_length ?h \<noteq> 0"
      using wok(2) by (auto simp: payload_ok_def)
    let ?box = "blit (inbox ?n) 0 (slice w 12 ?l)"
    let ?s' = "IncomingPacket (upd_net (\<lambda>n. n\<lparr>inHdr := ?h, inbox := ?box, sock := ws\<rparr>)
        ((set_pending q s)\<lparr>istats := (istats s)\<lparr>numPacketsRecvd := numPacketsRecvd (istats s) + 1\<rparr>\<rparr>))"
    have run: "CheckPktAvail a s = Inr ?s'"
      using q(1) w n wok(1) l(2,3) by (simp add: CheckPktAvail_def Let_def net_ok_def net_sizes IncomingPacket_def upd_net_def upd_post_def cong: if_cong)
    have b: "?box = take ?l ?bs @ drop ?l (inbox ?n)" using wok(1) l(2) by (simp add: blit_def slice_def)
    have tl: "?l \<le> length ?bs" "12 \<le> ?l" using l(1,2) wok(1) by simp_all
    have m: "mail_of ?box = mail_of ?bs" "mail_in ?h ?box = mail_in ?h ?bs"
      unfolding b using mail_in_prefix [OF tl] l(1) by simp_all
    have "clock_ok t ?s'" using q(2) by (simp add: IncomingPacket_def clock_ok_def int_sys_ok_def pend_def now_def)
    moreover have "net_ok B j (net (ikernel ?s'))"
      using n w wok l b m(1) by (simp add: IncomingPacket_def net_ok_def payload_ok_def)
    then have "kernel_ok B j (ikernel ?s')" using k w(2) l(4) by (simp add: kernel_ok_def IncomingPacket_def)
    moreover have "transit (net (ikernel ?s')) = transit ?n" using w l(4) m(2) by (simp add: transit_def IncomingPacket_def wire_mail_def)
    moreover have "pend ?s' = lst_elems q" by (simp add: IncomingPacket_def)
    ultimately show ?thesis using run q(3) l(4) by (intro exI [of _ ?s']) (simp add: IncomingPacket_def)
  qed
qed

lemma PostalDelivery_ok:
  assumes k: "kernel_ok B j (ikernel s)" and ne: "pkt_length (inHdr (net (ikernel s))) \<noteq> 0"
  shows "\<exists>k'. PostalDelivery s = Inr (s\<lparr>ikernel := k'\<rparr>) \<and> kernel_ok B j k' \<and> queue k' = queue (ikernel s) \<and>
    transit (net k') = tl (transit (net (ikernel s))) \<and> sendLock (post k') = sendLock (post (ikernel s)) \<and>
    messageSent (post k') = messageSent (post (ikernel s))"
proof -
  let ?n = "net (ikernel s)" and ?p = "post (ikernel s)"
  let ?h = "inHdr ?n"
  let ?l = "unat (pkt_length ?h)"
  have n: "net_ok B j ?n" and p: "numBoxes ?p = int B" "length (boxes ?p) = B" "length (worker_buffer ?p) = 52" "messageAvailable ?p = 1"
    using k ne by (simp_all add: kernel_ok_def)
  have pl: "payload_ok B j ?h (inbox ?n)" "length (inbox ?n) = 52" using n ne by (simp_all add: net_ok_def)
  let ?mh = "mail_of (inbox ?n)"
  have l: "?l = unat (mail_length ?mh) + 12" "?l \<le> 52" "unat (mail_length ?mh) \<le> 40" using pl(1) by (auto simp: payload_ok_def)
  define buf where "buf = blit (worker_buffer ?p) 0 (take ?l (inbox ?n))"
  have b: "buf = take ?l (inbox ?n) @ drop ?l (worker_buffer ?p)" "length buf = 52" using l(2) pl(2) p(3) by (simp_all add: buf_def blit_def)
  have tl: "?l \<le> length (inbox ?n)" "12 \<le> ?l" using l(1,2) pl(2) by simp_all
  have m: "mail_of (slice buf 0 12) = ?mh" "mail_in ?h buf = mail_in ?h (inbox ?n)"
    using mail_in_prefix [OF tl, where rest = "drop ?l (worker_buffer ?p)"] l(1) mail_of_prefix [of 12 buf] by (simp_all add: b(1) slice_def)
  obtain b where to: "mail_to ?mh = int b" "b < B" using pl(1) by (auto simp: payload_ok_def intro: nonneg_int_cases)
  let ?m = "mail_in ?h (inbox ?n)"
  have data: "take (unat (mail_length ?mh)) (drop 12 buf) = mail_data ?m" "mailHdr ?m = ?mh"
    using m(2) mail_in_prefix(1) [OF tl, where rest = "drop ?l (worker_buffer ?p)", folded b(1)] by (simp_all add: mail_in_def slice_def)
  have put: "MailBox_Put box ?h ?mh (drop 12 buf) = Inr (box @ [?m])" for box
    using l(3) b(2) data(1) by (simp add: MailBox_Put_def Mail_new_def first_bytes_def net_sizes) (simp add: mail_in_def)
  let ?k = "(ikernel s)\<lparr>net := ?n\<lparr>inHdr := ?h\<lparr>pkt_length := 0\<rparr>\<rparr>, post := ?p\<lparr>messageAvailable := 0,
      boxes := (boxes ?p)[b := boxes ?p ! b @ [?m]], worker_buffer := buf\<rparr>\<rparr>"
  have run: "PostalDelivery s = Inr (s\<lparr>ikernel := ?k\<rparr>)"
    using p to m(1) l(3) put
    by (simp add: PostalDelivery_def Network_Receive_def Let_def upd_net_def upd_post_def net_sizes buf_def [symmetric])
  have bm: "boxes ?p ! b \<in> set (boxes ?p)" using to(2) p(2) by simp
  have "net_ok B j (net ?k)" using n by (simp add: net_ok_def)
  moreover have "\<forall>box \<in> set (boxes (post ?k)). \<forall>m \<in> set box. unat (mail_length (mailHdr m)) \<le> 40"
    using k bm l(3) data(2) by (auto simp: kernel_ok_def dest!: subsetD [OF set_update_subset_insert])
  ultimately have "kernel_ok B j ?k" using k p b(2) by (simp add: kernel_ok_def)
  moreover have "queue ?k = queue (ikernel s)"
    using ne to p(2) data(2) by (auto simp: queue_def transit_def fun_eq_iff nth_list_update)
  moreover have "transit (net ?k) = tl (transit ?n)" using ne by (simp add: transit_def)
  ultimately show ?thesis using run by (intro exI [of _ ?k]) simp
qed

text \<open>What a legal call of \<open>Send\<close> puts on the wire.\<close>

definition posted :: "nat \<Rightarrow> packet_header \<Rightarrow> mail_header \<Rightarrow> 8 word list \<Rightarrow> mail" where
  "posted i pktH mailH data = \<lparr>pktHdr = pktH\<lparr>pkt_from := int i, pkt_length := mail_length mailH + 12\<rparr>, mailHdr = mailH,
     mail_data = take (unat (mail_length mailH)) data\<rparr>"

definition legal_send :: "nat \<Rightarrow> nat \<Rightarrow> packet_header \<Rightarrow> mail_header \<Rightarrow> 8 word list \<Rightarrow> bool" where
  "legal_send N B pktH mailH data \<longleftrightarrow> 0 \<le> pkt_to pktH \<and> pkt_to pktH < int N \<and> 0 \<le> mail_to mailH \<and> mail_to mailH < int B \<and>
     int32 (mail_from mailH) \<and> unat (mail_length mailH) \<le> 40 \<and> unat (mail_length mailH) \<le> length data"

definition the_wire :: "8 word list \<Rightarrow> 8 word list \<Rightarrow> nat \<Rightarrow> packet_header \<Rightarrow> mail_header \<Rightarrow> 8 word list \<Rightarrow> 8 word list" where
  "the_wire junk wire i pktH mailH data =
     (let h = pktH\<lparr>pkt_from := int i, pkt_length := mail_length mailH + 12\<rparr>; n = unat (mail_length mailH) in
      blit (blit wire 0 (packet_bytes h)) 12 (take (n + 12) (blit (blit junk 0 (mail_bytes mailH)) 12 (take n data))))"

lemma mail_length_12: "unat (l :: 32 word) \<le> 40 \<Longrightarrow> unat (l + 12) = unat l + 12"
  by (simp add: unat_word_ariths)

lemma the_wire_ok:
  assumes send: "legal_send N B pktH mailH data" and sz: "i < N" "N \<le> 2 ^ 31" "B \<le> 2 ^ 31" "length junk = 52" "length wire = 64"
  shows "wire_ok B (nat (pkt_to pktH)) (the_wire junk wire i pktH mailH data)"
    "wire_mail (the_wire junk wire i pktH mailH data) = posted i pktH mailH data"
proof -
  define h where "h = pktH\<lparr>pkt_from := int i, pkt_length := mail_length mailH + 12\<rparr>"
  define n where "n = unat (mail_length mailH)"
  define pay where "pay = mail_bytes mailH @ take n data"
  have l: "n \<le> 40" "n \<le> length data" "0 \<le> pkt_to pktH" "0 \<le> mail_to mailH" "mail_to mailH < int B"
    using send by (simp_all add: legal_send_def n_def)
  have h32: "int32 (pkt_to h)" "int32 (pkt_from h)" and m32: "int32 (mail_to mailH)" "int32 (mail_from mailH)"
    using send sz by (auto simp: h_def int32_def legal_send_def)
  have len: "length pay = n + 12" using l(2) by (simp add: pay_def)
  have p: "blit (blit junk 0 (mail_bytes mailH)) 12 (take n data) = pay @ drop (12 + n) junk"
    using sz(4) l(1,2) by (simp add: blit_def pay_def min_def add.commute)
  have w: "the_wire junk wire i pktH mailH data = packet_bytes h @ pay @ drop (24 + n) wire"
    using sz(5) l(1) len by (simp add: the_wire_def Let_def p flip: h_def n_def) (simp add: blit_def)
  have d: "drop 12 (the_wire junk wire i pktH mailH data) = pay @ drop (24 + n) wire" by (simp add: w)
  have hp: "packet_of (the_wire junk wire i pktH mailH data) = h" unfolding w by (rule packet_of_bytes [OF h32])
  have hm: "mail_of (pay @ drop (24 + n) wire) = mailH" unfolding pay_def append_assoc by (rule mail_of_bytes [OF m32])
  have "slice (pay @ drop (24 + n) wire) 12 n = take n data" using l(2) by (simp add: pay_def slice_append2 slice_append1 slice_all)
  then show "wire_mail (the_wire junk wire i pktH mailH data) = posted i pktH mailH data"
    by (simp add: wire_mail_def hp d mail_in_def hm posted_def flip: n_def) (simp add: h_def)
  have "length (the_wire junk wire i pktH mailH data) = 64" using sz(5) l(1) len by (simp add: w)
  moreover have "unat (pkt_length h) = n + 12" using mail_length_12 l(1) by (simp add: h_def n_def)
  ultimately show "wire_ok B (nat (pkt_to pktH)) (the_wire junk wire i pktH mailH data)"
    using l by (simp add: wire_ok_def payload_ok_def hp d hm flip: n_def) (simp add: h_def)
qed

lemma Post_Send_ok:
  assumes s: "node_ok t B i s" "t + 100 < 2 ^ 31" and send: "legal_send N B pktH mailH data" and sz: "length junk = 52" "length wire = 64"
  shows "if sendLock (post (ikernel s)) then Post_Send random junk wire pktH mailH data s = Inl Blocked
    else \<exists>s' lost. Post_Send random junk wire pktH mailH data s =
        Inr (s', if lost then None else Some (pkt_to pktH, the_wire junk wire i pktH mailH data)) \<and>
      node_ok t B i s' \<and> queue (ikernel s') = queue (ikernel s) \<and> transit (net (ikernel s')) = transit (net (ikernel s))"
proof -
  let ?p = "post (ikernel s)" and ?n = "net (ikernel s)"
  define h where "h = pktH\<lparr>pkt_from := int i, pkt_length := mail_length mailH + 12\<rparr>"
  have k: "kernel_ok B i (ikernel s)" and c: "clock_ok t s" using s(1) by (simp_all add: node_ok_def)
  have p: "netAddr ?p = int i" "numBoxes ?p = int B" "ident ?n = int i" "\<not> sendBusy ?n" using k by (simp_all add: kernel_ok_def net_ok_def)
  have l: "unat (mail_length mailH) \<le> 40" "unat (mail_length mailH) \<le> length data" "0 \<le> mail_to mailH" "mail_to mailH < int B"
    using send by (simp_all add: legal_send_def)
  have hl: "unat (pkt_length h) = unat (mail_length mailH) + 12" "pkt_from h = int i" "pkt_to h = pkt_to pktH"
    using mail_length_12 [OF l(1)] by (simp_all add: h_def)
  have hz: "pkt_length h > 0" using hl(1) by (auto simp: word_gt_0)
  show ?thesis
  proof (cases "sendLock ?p")
    case True
    then show ?thesis using p l by (simp add: Post_Send_def Let_def net_sizes first_bytes_def)
  next
    case False
    let ?s1 = "upd_post (\<lambda>p. p\<lparr>sendLock := True\<rparr>) s"
    have c1: "clock_ok t ?s1" using c by simp
    obtain q where q: "Schedule NetworkSendDone (int i) 100 NetworkSendInt ?s1 = Inr (set_pending q ?s1)" "clock_ok t (set_pending q ?s1)"
        "\<And>h. handlers (lst_elems q) h = (if NetworkSendDone = h then 1 else 0) + handlers (pend s) h"
      using Schedule_100 [OF c1 s(2), of NetworkSendInt NetworkSendDone "int i"] by auto
    let ?lost = "chanceToWork ?n * 100 \<le> real (random (net_randoms ?n) mod 100)"
    let ?s2 = "upd_net (\<lambda>n. n\<lparr>net_randoms := Suc (net_randoms n)\<rparr>) (set_pending q ?s1)"
    have fb: "first_bytes (blit (blit junk 0 (mail_bytes mailH)) 12 (take (unat (mail_length mailH)) data)) (unat (pkt_length h)) =
        Inr (take (unat (mail_length mailH) + 12) (blit (blit junk 0 (mail_bytes mailH)) 12 (take (unat (mail_length mailH)) data)))"
      using l(1,2) hl(1) sz(1) by (simp add: first_bytes_def blit_def)
    have "Post_Send random junk wire pktH mailH data s = Network_Send random wire h
        (blit (blit junk 0 (mail_bytes mailH)) 12 (take (unat (mail_length mailH)) data)) ?s1"
      using False p l by (simp add: Post_Send_def Let_def net_sizes first_bytes_def h_def)
    also have "\<dots> = Inr (?s2, if ?lost then None else Some (pkt_to pktH, the_wire junk wire i pktH mailH data))"
      using p l(1) hl hz q(1) fb by (simp add: Network_Send_def Let_def net_sizes) (simp add: the_wire_def Let_def h_def)
    finally have run: "Post_Send random junk wire pktH mailH data s =
        Inr (?s2, if ?lost then None else Some (pkt_to pktH, the_wire junk wire i pktH mailH data))" .
    have tr: "transit (net (ikernel ?s2)) = transit ?n" "queue (ikernel ?s2) = queue (ikernel s)"
      by (simp_all add: transit_def queue_def fun_eq_iff cong: if_cong)
    have "kernel_ok B i (ikernel ?s2)" using k by (simp add: kernel_ok_def net_ok_def)
    then have "node_ok t B i ?s2" using q(2,3) s(1) False by (simp add: node_ok_def)
    then show ?thesis unfolding if_not_P [OF False] using run tr by (intro exI [of _ ?s2] exI [of _ ?lost] conjI)
  qed
qed

lemma Post_Sent_ok:
  assumes s: "node_ok t B i s"
  shows "Post_Sent s = Inl Blocked \<or> (\<exists>s'. Post_Sent s = Inr s' \<and> node_ok t B i s' \<and> queue (ikernel s') = queue (ikernel s))"
proof (cases "sendLock (post (ikernel s)) \<and> messageSent (post (ikernel s)) \<noteq> 0")
  case True
  let ?s = "upd_post (\<lambda>p. p\<lparr>messageSent := messageSent p - 1, sendLock := False\<rparr>) s"
  have "kernel_ok B i (ikernel ?s)" using s by (simp add: node_ok_def kernel_ok_def)
  then have "node_ok t B i ?s" using s True by (auto simp: node_ok_def)
  moreover have "queue (ikernel ?s) = queue (ikernel s)" by (rule kernel_ok_queue) simp_all
  moreover have "Post_Sent s = Inr ?s" using True by (simp add: Post_Sent_def)
  ultimately show ?thesis by blast
qed (auto simp: Post_Sent_def)

lemma Post_Receive_ok:
  assumes s: "node_ok t B i s" and b: "b < B"
  shows "case boxes (post (ikernel s)) ! b of [] \<Rightarrow> Post_Receive (int b) s = Inl Blocked
    | m # ms \<Rightarrow> \<exists>s'. Post_Receive (int b) s = Inr (s', m) \<and> node_ok t B i s' \<and>
        (\<forall>c < B. queue (ikernel s) c = (if c = b then m # queue (ikernel s') c else queue (ikernel s') c))"
proof (cases "boxes (post (ikernel s)) ! b")
  let ?p = "post (ikernel s)"
  have k: "kernel_ok B i (ikernel s)" using s by (simp add: node_ok_def)
  then have p: "numBoxes ?p = int B" "length (boxes ?p) = B" by (simp_all add: kernel_ok_def)
  {
    case Nil
    then show ?thesis using p b by (simp add: Post_Receive_def MailBox_Get_def Let_def)
  next
    case (Cons m ms)
    have "boxes ?p ! b \<in> set (boxes ?p)" using p(2) b by simp
    then have box: "\<forall>x \<in> set (m # ms). unat (mail_length (mailHdr x)) \<le> 40" using k Cons by (fastforce simp: kernel_ok_def)
    let ?s = "upd_post (\<lambda>p. p\<lparr>boxes := (boxes ?p)[b := ms]\<rparr>) s"
    have run: "Post_Receive (int b) s = Inr (?s, m)"
      using p b Cons box by (simp add: Post_Receive_def MailBox_Get_def Let_def net_sizes)
    have "\<forall>bx \<in> set (boxes (post (ikernel ?s))). \<forall>x \<in> set bx. unat (mail_length (mailHdr x)) \<le> 40"
      using k box by (auto simp: kernel_ok_def dest!: subsetD [OF set_update_subset_insert])
    then have "kernel_ok B i (ikernel ?s)" using k by (simp add: kernel_ok_def)
    then have "node_ok t B i ?s" using s by (simp add: node_ok_def)
    moreover have "\<forall>c < B. queue (ikernel s) c = (if c = b then m # queue (ikernel ?s) c else queue (ikernel ?s) c)"
      using Cons p(2) by (simp add: queue_def)
    ultimately show ?thesis using run Cons by auto
  }
qed

lemma node_ok_status [simp]:
  "node_ok t B i (s\<lparr>intr := (intr s)\<lparr>int_status := x, inHandler := y\<rparr>\<rparr>) = node_ok t B i s"
  by (simp add: node_ok_def clock_ok_def int_sys_ok_def pend_def now_def)

lemma SendDone_simps [simp]:
  "ikernel (SendDone s) = (ikernel s)\<lparr>net := (net (ikernel s))\<lparr>sendBusy := False\<rparr>, post := (post (ikernel s))\<lparr>messageSent := Suc (messageSent (post (ikernel s)))\<rparr>\<rparr>"
  "pend (SendDone s) = pend s" "clock_ok t (SendDone s) = clock_ok t s"
  by (simp_all add: SendDone_def PacketSent_def clock_ok_def int_sys_ok_def pend_def now_def)

text \<open>The next interrupt of a machine. It takes two at most until a waiting packet is in the device.\<close>

lemma Interrupt_ok:
  assumes s: "node_ok t B i s" and t: "t + 200 < 2 ^ 31"
  shows "\<exists>s'. CheckIfDue net_dispatch True s = Inr (s', True) \<and> node_ok (t + 100) B i s' \<and> queue (ikernel s') = queue (ikernel s) \<and>
    transit (net (ikernel s')) = transit (net (ikernel s)) \<and>
    (transit (net (ikernel s)) \<noteq> [] \<longrightarrow> pkt_length (inHdr (net (ikernel s'))) \<noteq> 0 \<or>
      pkt_length (inHdr (net (ikernel s))) = 0 \<and> handlers (pend s) NetworkSendDone = 1 \<and> handlers (pend s') NetworkSendDone = 0)"
proof -
  have c: "clock_ok t s" and k: "kernel_ok B i (ikernel s)" and h: "handlers (pend s) NetworkReadPoll = 1"
      "handlers (pend s) NetworkSendDone + messageSent (post (ikernel s)) = (if sendLock (post (ikernel s)) then 1 else 0)"
    using s by (simp_all add: node_ok_def)
  have "t + 100 < 2 ^ 31" "handlers (pend s) NetworkReadPoll \<noteq> 0" using t h(1) by simp_all
  then obtain w p es s1 where e: "pend s = (w, Some p) # es" and s1: "CheckIfDue net_dispatch True s =
      bindR (net_dispatch (pi_handler p) (pi_arg p) s1) (\<lambda>s2. Inr (s2\<lparr>intr := (intr s2)\<lparr>int_status := int_status (intr s), inHandler := False\<rparr>\<rparr>, True))"
      "pend s1 = es" "ikernel s1 = ikernel s" and c1: "clock_ok (t + 100) s1"
    using next_interrupt [OF c] by blast
  have k1: "kernel_ok B i (ikernel s1)" using k s1(3) by simp
  show ?thesis
  proof (cases "pi_handler p")
    case NetworkReadPoll
    obtain s2 where s2: "CheckPktAvail (pi_arg p) s1 = Inr s2" "clock_ok (t + 100) s2" "kernel_ok B i (ikernel s2)"
        "\<forall>h. handlers (pend s2) h = (if h = NetworkReadPoll then 1 else 0) + handlers (pend s1) h"
        "boxes (post (ikernel s2)) = boxes (post (ikernel s1))" "transit (net (ikernel s2)) = transit (net (ikernel s1))"
        "sendLock (post (ikernel s2)) = sendLock (post (ikernel s1))" "messageSent (post (ikernel s2)) = messageSent (post (ikernel s1))"
        "transit (net (ikernel s1)) \<noteq> [] \<longrightarrow> pkt_length (inHdr (net (ikernel s2))) \<noteq> 0"
      using CheckPktAvail_ok [OF c1 _ k1] t by auto
    let ?s = "s2\<lparr>intr := (intr s2)\<lparr>int_status := int_status (intr s), inHandler := False\<rparr>\<rparr>"
    have "node_ok (t + 100) B i s2" using s2(2-4,7,8) h e s1(2,3) NetworkReadPoll by (simp add: node_ok_def)
    moreover have "queue (ikernel ?s) = queue (ikernel s)" using s2(5,6) s1(3) by (simp add: queue_def fun_eq_iff)
    ultimately show ?thesis using s1(1,3) s2(1,6,9) NetworkReadPoll by (intro exI [of _ ?s]) simp
  next
    case NetworkSendDone
    let ?s = "(SendDone s1)\<lparr>intr := (intr (SendDone s1))\<lparr>int_status := int_status (intr s), inHandler := False\<rparr>\<rparr>"
    have "kernel_ok B i (ikernel (SendDone s1))" using k1 by (simp add: kernel_ok_def net_ok_def)
    then have "node_ok (t + 100) B i (SendDone s1)"
      using c1 h e s1(2,3) NetworkSendDone by (simp add: node_ok_def split: if_splits)
    moreover have "queue (ikernel ?s) = queue (ikernel s)" "transit (net (ikernel ?s)) = transit (net (ikernel s))"
      using s1(3) by (simp_all add: queue_def transit_def fun_eq_iff)
    moreover have "pend ?s = es" using s1(2) by (simp add: SendDone_def PacketSent_def pend_def)
    then have "handlers (pend s) NetworkSendDone = 1" "handlers (pend ?s) NetworkSendDone = 0"
      using h(2) e NetworkSendDone by (simp_all split: if_splits)
    ultimately show ?thesis using s1(1,3) NetworkSendDone by (intro exI [of _ ?s]) simp
  qed
qed

section \<open>The machines together\<close>

fun legal :: "nat \<Rightarrow> nat \<Rightarrow> event \<Rightarrow> bool" where
  "legal N B (Send i pktH mailH data) \<longleftrightarrow> i < N \<and> legal_send N B pktH mailH data"
| "legal N B (Receive i b) \<longleftrightarrow> i < N \<and> 0 \<le> b \<and> b < int B"
| "legal N B (Sent i) \<longleftrightarrow> i < N"
| "legal N B (Interrupt i) \<longleftrightarrow> i < N"
| "legal N B (Deliver i) \<longleftrightarrow> i < N"

definition network_ok :: "int \<Rightarrow> nat \<Rightarrow> node list \<Rightarrow> bool" where
  "network_ok t B ns \<longleftrightarrow> (\<forall>i < length ns. node_ok t B i (ns ! i))"

text \<open>The mail that a step sends to, and takes from, mailbox \<open>b\<close> of machine \<open>j\<close>.\<close>

fun sent_to :: "nat \<Rightarrow> nat \<Rightarrow> event \<times> outcome \<Rightarrow> mail list" where
  "sent_to j b (Send i pktH mailH data, Accepted) =
     (if pkt_to pktH = int j \<and> mail_to mailH = int b then [posted i pktH mailH data] else [])"
| "sent_to j b _ = []"

fun got_at :: "nat \<Rightarrow> nat \<Rightarrow> event \<times> outcome \<Rightarrow> mail list" where
  "got_at j b (Receive i c, Got m) = (if i = j \<and> c = int b then [m] else [])"
| "got_at j b _ = []"

definition mail_for :: "node list \<Rightarrow> nat \<Rightarrow> nat \<Rightarrow> mail list" where
  "mail_for ns j b = queue (ikernel (ns ! j)) b"

lemma node_ok_later: "node_ok t B i s \<Longrightarrow> t \<le> t' \<Longrightarrow> node_ok t' B i s"
  by (auto simp: node_ok_def intro: clock_ok_later)

lemma network_ok_later: "network_ok t B ns \<Longrightarrow> t \<le> t' \<Longrightarrow> network_ok t' B ns"
  by (auto simp: network_ok_def intro: node_ok_later)

lemma network_ok_update: "network_ok t B ns \<Longrightarrow> node_ok t B i s \<Longrightarrow> network_ok t B (ns[i := s])"
  by (cases "i < length ns") (auto simp: network_ok_def nth_list_update)

text \<open>A step of one machine that leaves its mail alone.\<close>

lemma quiet_step:
  assumes ns: "network_ok t B ns" "t \<le> t'" "i < length ns" and s: "node_ok t' B i s" "\<And>b. b < B \<Longrightarrow> queue (ikernel s) b = queue (ikernel (ns ! i)) b"
    and none: "\<And>j b. sent_to j b (ev, out) = []" "\<And>j b. got_at j b (ev, out) = []"
  shows "network_ok t' B (ns[i := s]) \<and> length (ns[i := s]) = length ns \<and>
    (\<forall>j < length ns. \<forall>b < B. got_at j b (ev, out) @ mail_for (ns[i := s]) j b = mail_for ns j b @ sent_to j b (ev, out))"
  using network_ok_update [OF network_ok_later [OF ns(1,2)] s(1)] s(2) ns(3) by (auto simp: none mail_for_def nth_list_update)

lemma to_socket_ok:
  assumes ns: "network_ok t B ns" "length ns = N" and w: "wire_ok B (nat d) w" "0 \<le> d" "d < int N"
  shows "\<exists>ns'. to_socket (Some (d, w)) ns = Inr ns' \<and> network_ok t B ns' \<and> length ns' = N \<and>
    (\<forall>j < N. \<forall>b. mail_for ns' j b = mail_for ns j b @ (if int j = d \<and> mail_to (mailHdr (wire_mail w)) = int b then [wire_mail w] else []))"
proof -
  let ?j = "nat d"
  let ?s = "upd_net (\<lambda>n. n\<lparr>sock := sock n @ [w]\<rparr>) (ns ! ?j)"
  have j: "?j < length ns" using w(2,3) ns(2) by simp
  have "node_ok t B ?j (ns ! ?j)" using ns(1) j by (simp add: network_ok_def)
  then have "node_ok t B ?j ?s" using w(1) by (auto simp: node_ok_def kernel_ok_def net_ok_def)
  moreover have "queue (ikernel ?s) b = queue (ikernel (ns ! ?j)) b @ (if mail_to (mailHdr (wire_mail w)) = int b then [wire_mail w] else [])" for b
    by (simp add: queue_def transit_def)
  ultimately show ?thesis using network_ok_update [OF ns(1), of ?j ?s] w(2,3) ns(2) j
    by (auto simp: to_socket_def mail_for_def nth_list_update)
qed

text \<open>What every step has to show.\<close>

definition good_step :: "(node list \<times> outcome) res \<Rightarrow> int \<Rightarrow> nat \<Rightarrow> node list \<Rightarrow> event \<Rightarrow> bool" where
  "good_step r t B ns ev \<longleftrightarrow> (\<exists>ns' out. r = Inr (ns', out) \<and> network_ok (t + 100) B ns' \<and> length ns' = length ns \<and>
     (\<forall>j < length ns. \<forall>b < B. got_at j b (ev, out) @ mail_for ns' j b = mail_for ns j b @ sent_to j b (ev, out)))"

lemma waits_step: "network_ok t B ns \<Longrightarrow> r = Inr (ns, Waits) \<Longrightarrow> good_step r t B ns ev"
  unfolding good_step_def using network_ok_later [of t B ns "t + 100"]
  by (intro exI [of _ ns] exI [of _ Waits]) (cases ev, simp_all)

lemma goes_step:
  assumes "network_ok t B ns" "i < length ns" "r = Inr (ns[i := s], Goes)" "node_ok (t + 100) B i s"
    and "\<And>b. b < B \<Longrightarrow> queue (ikernel s) b = queue (ikernel (ns ! i)) b"
  shows "good_step r t B ns ev"
  unfolding good_step_def using quiet_step [OF assms(1) _ assms(2,4,5), of ev Goes] assms(3) by (cases ev) auto

lemma send_step:
  assumes ns: "network_ok t B ns" "length ns = N" and t: "t + 200 < 2 ^ 31" and i: "i < N" and l: "legal_send N B pktH mailH data"
    and sz: "N \<le> 2 ^ 31" "B \<le> 2 ^ 31" "length junk = 52" "length wire = 64"
  shows "good_step (net_step random junk wire ns (Send i pktH mailH data)) t B ns (Send i pktH mailH data)"
proof -
  have node: "node_ok t B i (ns ! i)" using ns i by (simp add: network_ok_def)
  let ?w = "the_wire junk wire i pktH mailH data" and ?ev = "Send i pktH mailH data"
  note post = Post_Send_ok [OF node _ l sz(3,4), of "random i"]
  show ?thesis
  proof (cases "sendLock (post (ikernel (ns ! i)))")
    case True
    then show ?thesis using post t i ns(2) by (intro waits_step [OF ns(1)]) (simp add: or_wait_def)
  next
    case False
    then obtain s' lost where s': "Post_Send (random i) junk wire pktH mailH data (ns ! i) = Inr (s', if lost then None else Some (pkt_to pktH, ?w))"
        "node_ok t B i s'" "queue (ikernel s') = queue (ikernel (ns ! i))"
      using post t by auto
    show ?thesis
    proof (cases lost)
      case True
      then show ?thesis using s' i ns(2) node_ok_later [OF s'(2)]
        by (intro goes_step [OF ns(1), of i _ s']) (simp_all add: or_wait_def to_socket_def)
    next
      case False
      note w = the_wire_ok [OF l i sz]
      have d: "0 \<le> pkt_to pktH" "pkt_to pktH < int N" using l by (simp_all add: legal_send_def)
      have n1: "network_ok t B (ns[i := s'])" "length (ns[i := s']) = N" using network_ok_update [OF ns(1) s'(2)] ns(2) by simp_all
      obtain ns' where n2: "to_socket (Some (pkt_to pktH, ?w)) (ns[i := s']) = Inr ns'" "network_ok t B ns'" "length ns' = N"
          "\<forall>j < N. \<forall>b. mail_for ns' j b = mail_for (ns[i := s']) j b @
            (if int j = pkt_to pktH \<and> mail_to (mailHdr (wire_mail ?w)) = int b then [wire_mail ?w] else [])"
        using to_socket_ok [OF n1 w(1) d] by blast
      have "mail_for (ns[i := s']) j b = mail_for ns j b" for j b using s'(3) i ns(2) by (cases "j = i") (simp_all add: mail_for_def)
      then have "\<forall>j < N. \<forall>b < B. mail_for ns' j b = mail_for ns j b @ sent_to j b (?ev, Accepted)"
        using n2(4) by (auto simp: w(2) posted_def)
      then show ?thesis unfolding good_step_def using s'(1) n2(1,3) False i ns(2) network_ok_later [OF n2(2)]
        by (intro exI [of _ ns'] exI [of _ Accepted]) (simp add: or_wait_def)
    qed
  qed
qed

lemma sent_step:
  assumes ns: "network_ok t B ns" and i: "i < length ns"
  shows "good_step (net_step random junk wire ns (Sent i)) t B ns (Sent i)"
proof -
  have node: "node_ok t B i (ns ! i)" using ns i by (simp add: network_ok_def)
  from Post_Sent_ok [OF node] show ?thesis
  proof
    assume "Post_Sent (ns ! i) = Inl Blocked"
    then show ?thesis using i by (intro waits_step [OF ns]) (simp add: or_wait_def at_node_def)
  next
    assume "\<exists>s'. Post_Sent (ns ! i) = Inr s' \<and> node_ok t B i s' \<and> queue (ikernel s') = queue (ikernel (ns ! i))"
    then obtain s' where s': "Post_Sent (ns ! i) = Inr s'" "node_ok t B i s'" "queue (ikernel s') = queue (ikernel (ns ! i))" by blast
    then show ?thesis using i node_ok_later [OF s'(2)] by (intro goes_step [OF ns, of i _ s']) (simp_all add: or_wait_def at_node_def)
  qed
qed

lemma deliver_step:
  assumes ns: "network_ok t B ns" and i: "i < length ns"
  shows "good_step (net_step random junk wire ns (Deliver i)) t B ns (Deliver i)"
proof -
  have node: "node_ok t B i (ns ! i)" and kern: "kernel_ok B i (ikernel (ns ! i))" using ns i by (simp_all add: network_ok_def node_ok_def)
  show ?thesis
  proof (cases "pkt_length (inHdr (net (ikernel (ns ! i)))) = 0")
    case True
    then have "PostalDelivery (ns ! i) = Inl Blocked" using kern by (simp add: PostalDelivery_def kernel_ok_def)
    then show ?thesis using i by (intro waits_step [OF ns]) (simp add: or_wait_def at_node_def)
  next
    case False
    obtain k' where k': "PostalDelivery (ns ! i) = Inr ((ns ! i)\<lparr>ikernel := k'\<rparr>)" "kernel_ok B i k'" "queue k' = queue (ikernel (ns ! i))"
        "sendLock (post k') = sendLock (post (ikernel (ns ! i)))" "messageSent (post k') = messageSent (post (ikernel (ns ! i)))"
      using PostalDelivery_ok [OF kern False] by blast
    let ?s = "(ns ! i)\<lparr>ikernel := k'\<rparr>"
    have "node_ok t B i ?s" using node k'(2,4,5) by (simp add: node_ok_def clock_ok_def int_sys_ok_def)
    then have "node_ok (t + 100) B i ?s" by (rule node_ok_later) simp
    then show ?thesis using k' i by (intro goes_step [OF ns, of i _ ?s]) (simp_all add: or_wait_def at_node_def)
  qed
qed

lemma receive_step:
  assumes ns: "network_ok t B ns" and i: "i < length ns" and b: "b < B"
  shows "good_step (net_step random junk wire ns (Receive i (int b))) t B ns (Receive i (int b))"
proof -
  have node: "node_ok t B i (ns ! i)" using ns i by (simp add: network_ok_def)
  note rec = Post_Receive_ok [OF node b]
  show ?thesis
  proof (cases "boxes (post (ikernel (ns ! i))) ! b")
    case Nil
    then show ?thesis using rec i by (intro waits_step [OF ns]) (simp add: or_wait_def at_node_def)
  next
    case (Cons m ms)
    then obtain s' where s': "Post_Receive (int b) (ns ! i) = Inr (s', m)" "node_ok t B i s'"
        "\<forall>c < B. queue (ikernel (ns ! i)) c = (if c = b then m # queue (ikernel s') c else queue (ikernel s') c)"
      using rec by auto
    have "\<forall>j < length ns. \<forall>d < B. got_at j d (Receive i (int b), Got m) @ mail_for (ns[i := s']) j d = mail_for ns j d"
      using s'(3) i b by (auto simp: mail_for_def nth_list_update)
    moreover have "network_ok (t + 100) B (ns[i := s'])"
      using network_ok_later [OF network_ok_update [OF ns s'(2)], of "t + 100"] by simp
    ultimately show ?thesis unfolding good_step_def using s'(1) i b
      by (intro exI [of _ "ns[i := s']"] exI [of _ "Got m"]) (simp add: or_wait_def at_node_def)
  qed
qed

lemma net_step_ok:
  assumes ns: "network_ok t B ns" "length ns = N" and t: "t + 200 < 2 ^ 31" and ev: "legal N B ev"
    and sz: "N \<le> 2 ^ 31" "B \<le> 2 ^ 31" "length junk = 52" "length wire = 64"
  shows "good_step (net_step random junk wire ns ev) t B ns ev"
proof (cases ev)
  case (Send i pktH mailH data)
  then show ?thesis using send_step [OF ns t _ _ sz] ev by simp
next
  case (Interrupt i)
  then have i: "i < length ns" "node_ok t B i (ns ! i)" using ev ns by (simp_all add: network_ok_def)
  obtain s' where s': "CheckIfDue net_dispatch True (ns ! i) = Inr (s', True)" "node_ok (t + 100) B i s'" "queue (ikernel s') = queue (ikernel (ns ! i))"
    using Interrupt_ok [OF i(2) t] by blast
  then show ?thesis using i Interrupt by (intro goes_step [OF ns(1) i(1), of _ s']) (simp_all add: or_wait_def at_node_def)
next
  case (Receive i c)
  then show ?thesis using receive_step [OF ns(1), of i "nat c" random junk wire] ev ns(2) by auto
qed (use sent_step [OF ns(1)] deliver_step [OF ns(1)] ev ns(2) in auto)

text \<open>Runs.\<close>

lemma net_run_ok:
  assumes "network_ok t B ns" "length ns = N" "t + 100 * int (length evs) + 100 < 2 ^ 31" "\<forall>ev \<in> set evs. legal N B ev"
    and sz: "N \<le> 2 ^ 31" "B \<le> 2 ^ 31" "length junk = 52" "length wire = 64"
  shows "\<exists>ns' outs. run_ops (net_step random junk wire) ns evs = Inr (ns', outs) \<and> network_ok (t + 100 * int (length evs)) B ns' \<and>
    length ns' = N \<and> length outs = length evs \<and>
    (\<forall>j < N. \<forall>b < B. concat (map (got_at j b) (zip evs outs)) @ mail_for ns' j b = mail_for ns j b @ concat (map (sent_to j b) (zip evs outs)))"
  using assms(1-4)
proof (induction evs arbitrary: ns t)
  case (Cons ev evs)
  have small: "t + 200 < 2 ^ 31" "legal N B ev" using Cons.prems(3,4) by simp_all
  obtain n1 out where n1: "net_step random junk wire ns ev = Inr (n1, out)" "network_ok (t + 100) B n1" "length n1 = N"
      "\<forall>j < N. \<forall>b < B. got_at j b (ev, out) @ mail_for n1 j b = mail_for ns j b @ sent_to j b (ev, out)"
    using net_step_ok [OF Cons.prems(1,2) small sz] Cons.prems(2) unfolding good_step_def by blast
  have late: "t + 100 + 100 * int (length evs) + 100 < 2 ^ 31" "\<forall>ev \<in> set evs. legal N B ev" using Cons.prems(3,4) by simp_all
  obtain n2 outs where n2: "run_ops (net_step random junk wire) n1 evs = Inr (n2, outs)" "network_ok (t + 100 + 100 * int (length evs)) B n2"
      "length n2 = N" "length outs = length evs"
      "\<forall>j < N. \<forall>b < B. concat (map (got_at j b) (zip evs outs)) @ mail_for n2 j b = mail_for n1 j b @ concat (map (sent_to j b) (zip evs outs))"
    using Cons.IH [OF n1(2,3) late] by blast
  have "(got_at j b (ev, out) @ concat (map (got_at j b) (zip evs outs))) @ mail_for n2 j b =
      mail_for ns j b @ sent_to j b (ev, out) @ concat (map (sent_to j b) (zip evs outs))" if "j < N" "b < B" for j b
    using n1(4) n2(5) that by (metis append_assoc)
  then show ?case using n1(1) n2(1-4) by (simp add: algebra_simps)
qed simp

section \<open>Mail arrives in order\<close>

definition booted :: "nat \<Rightarrow> (nat \<Rightarrow> real) \<Rightarrow> node list \<Rightarrow> bool" where
  "booted B reliability ns \<longleftrightarrow> (\<forall>i < length ns. \<exists>k dev buf. length (inbox dev) = 52 \<and> length buf = 52 \<and>
     PostOffice_new dev buf (int i) (reliability i) (int B) (power_on k) = Inr (ns ! i))"

lemma PostOffice_new_ok:
  assumes "length (inbox dev) = 52" "length buf = 52"
  shows "\<exists>s. PostOffice_new dev buf (int i) r (int B) (power_on k) = Inr s \<and> node_ok 0 B i s \<and> (\<forall>b < B. queue (ikernel s) b = [])"
proof -
  let ?p = "\<lparr>netAddr = int i, numBoxes = int B, boxes = replicate B [], messageAvailable = 0, messageSent = 0, sendLock = False, worker_buffer = buf\<rparr>"
  let ?n = "dev\<lparr>ident := int i, chanceToWork := clamp_reliability r, sendBusy := False, inHdr := (inHdr dev)\<lparr>pkt_length := 0\<rparr>, sock := []\<rparr>"
  let ?s = "upd_net (\<lambda>_. ?n) (upd_post (\<lambda>_. ?p) (power_on k))"
  have c: "clock_ok 0 ?s" by (simp add: power_on_ok)
  obtain q where q: "Schedule NetworkReadPoll (int i) 100 NetworkRecvInt ?s = Inr (set_pending q ?s)" "clock_ok 0 (set_pending q ?s)"
      "\<And>h. handlers (lst_elems q) h = (if NetworkReadPoll = h then 1 else 0) + handlers (pend ?s) h"
    using Schedule_100 [OF c, of NetworkRecvInt NetworkReadPoll "int i"] by auto
  have k: "kernel_ok B i (ikernel ?s)" using assms by (simp add: kernel_ok_def net_ok_def)
  have "node_ok 0 B i (set_pending q ?s)" using q(2,3) k by (simp add: node_ok_def power_on_ok)
  moreover have "PostOffice_new dev buf (int i) r (int B) (power_on k) = Inr (set_pending q ?s)"
    using q(1) by (simp add: PostOffice_new_def Network_new_def NetworkTime_def)
  ultimately show ?thesis by (auto simp: queue_def transit_def)
qed

lemma booted_ok:
  assumes "booted B rel ns"
  shows "network_ok 0 B ns" "i < length ns \<Longrightarrow> b < B \<Longrightarrow> mail_for ns i b = []"
  using assms PostOffice_new_ok unfolding booted_def network_ok_def mail_for_def by (metis Inr_inject)+

text \<open>The mail that the network accepted for a mailbox, and that was received from it.\<close>

definition mail_sent :: "nat \<Rightarrow> nat \<Rightarrow> event list \<Rightarrow> outcome list \<Rightarrow> mail list" where
  "mail_sent j b evs outs = concat (map (sent_to j b) (zip evs outs))"

definition mail_got :: "nat \<Rightarrow> nat \<Rightarrow> event list \<Rightarrow> outcome list \<Rightarrow> mail list" where
  "mail_got j b evs outs = concat (map (got_at j b) (zip evs outs))"

text \<open>
  C5: whatever the machines do (sends, interrupts, rounds of the postal workers, receives, in any order), no
  assertion fails as long as the calls are legal and time lasts, and the mail that is received from a mailbox
  is, in order and byte for byte, the first part of the mail that the network accepted for it: nothing is
  invented, changed, repeated or overtaken.
\<close>

theorem mail_in_order:
  assumes "booted B rel ns" and "\<forall>ev \<in> set evs. legal (length ns) B ev" and "100 * int (length evs) + 100 < 2 ^ 31"
    and "length ns \<le> 2 ^ 31" and "B \<le> 2 ^ 31" and "length junk = 52" and "length wire = 64"
  shows "\<exists>ns' outs. run_ops (net_step random junk wire) ns evs = Inr (ns', outs) \<and>
    (\<forall>j < length ns. \<forall>b < B. prefix (mail_got j b evs outs) (mail_sent j b evs outs))"
proof -
  have t: "0 + 100 * int (length evs) + 100 < 2 ^ 31" using assms(3) by simp
  obtain ns' outs where r: "run_ops (net_step random junk wire) ns evs = Inr (ns', outs)"
      "\<forall>j < length ns. \<forall>b < B. mail_got j b evs outs @ mail_for ns' j b = mail_for ns j b @ mail_sent j b evs outs"
    using net_run_ok [OF booted_ok(1) [OF assms(1)] refl t assms(2,4-7)] unfolding mail_got_def mail_sent_def by blast
  then show ?thesis using booted_ok(2) [OF assms(1)] by (metis append_Nil prefixI)
qed

section \<open>All mail arrives\<close>

lemma run_ops_append:
  "run_ops step s (xs @ ys) = bindR (run_ops step s xs) (\<lambda>(s, o1). bindR (run_ops step s ys) (\<lambda>(s, o2). Inr (s, o1 @ o2)))"
  by (induction xs arbitrary: s) (auto simp: bindR_def split: sum.splits prod.splits)

definition a_round :: "nat \<Rightarrow> event list" where
  "a_round j = [Interrupt j, Interrupt j, Deliver j]"

definition rounds :: "nat \<Rightarrow> nat \<Rightarrow> event list" where
  "rounds j k = concat (replicate k (a_round j))"

lemma set_rounds: "ev \<in> set (rounds j k) \<Longrightarrow> ev = Interrupt j \<or> ev = Deliver j"
  by (auto simp: rounds_def a_round_def set_replicate_conv_if split: if_splits)

lemma two_interrupts:
  assumes s: "node_ok t B i s" and t: "t + 300 < 2 ^ 31"
  shows "\<exists>s1 s2. CheckIfDue net_dispatch True s = Inr (s1, True) \<and> CheckIfDue net_dispatch True s1 = Inr (s2, True) \<and>
    node_ok (t + 200) B i s2 \<and> transit (net (ikernel s2)) = transit (net (ikernel s)) \<and>
    (transit (net (ikernel s)) \<noteq> [] \<longrightarrow> pkt_length (inHdr (net (ikernel s2))) \<noteq> 0)"
proof -
  obtain s1 where s1: "CheckIfDue net_dispatch True s = Inr (s1, True)" "node_ok (t + 100) B i s1"
      "transit (net (ikernel s1)) = transit (net (ikernel s))"
      "transit (net (ikernel s)) \<noteq> [] \<longrightarrow> pkt_length (inHdr (net (ikernel s1))) \<noteq> 0 \<or> handlers (pend s1) NetworkSendDone = 0"
    using Interrupt_ok [OF s] t by auto
  obtain s2 where s2: "CheckIfDue net_dispatch True s1 = Inr (s2, True)" "node_ok (t + 100 + 100) B i s2"
      "transit (net (ikernel s2)) = transit (net (ikernel s1))"
      "transit (net (ikernel s1)) \<noteq> [] \<longrightarrow> pkt_length (inHdr (net (ikernel s2))) \<noteq> 0 \<or>
        pkt_length (inHdr (net (ikernel s1))) = 0 \<and> handlers (pend s1) NetworkSendDone = 1"
    using Interrupt_ok [OF s1(2)] t by auto
  have n: "node_ok (t + 200) B i s2" using s2(2) by (simp add: add.assoc)
  show ?thesis by (intro exI [of _ s1] exI [of _ s2]) (use n s1 s2 in auto)
qed

lemma a_round_ok:
  assumes ns: "network_ok t B ns" "j < length ns" and t: "t + 400 < 2 ^ 31"
  shows "\<exists>ns' outs. run_ops (net_step random junk wire) ns (a_round j) = Inr (ns', outs) \<and> network_ok (t + 300) B ns' \<and>
    length ns' = length ns \<and> transit (net (ikernel (ns' ! j))) = tl (transit (net (ikernel (ns ! j))))"
proof -
  have node: "node_ok t B j (ns ! j)" using ns by (simp add: network_ok_def)
  obtain s1 s2 where s: "CheckIfDue net_dispatch True (ns ! j) = Inr (s1, True)" "CheckIfDue net_dispatch True s1 = Inr (s2, True)"
      "node_ok (t + 200) B j s2" "transit (net (ikernel s2)) = transit (net (ikernel (ns ! j)))"
      "transit (net (ikernel (ns ! j))) \<noteq> [] \<longrightarrow> pkt_length (inHdr (net (ikernel s2))) \<noteq> 0"
    using two_interrupts [OF node] t by auto
  let ?n2 = "ns[j := s2]"
  have n2: "network_ok (t + 200) B ?n2" using network_ok_update [OF network_ok_later [OF ns(1)] s(3)] by simp
  have run2: "run_ops (net_step random junk wire) ns (a_round j) =
      bindR (net_step random junk wire ?n2 (Deliver j)) (\<lambda>(n, out). Inr (n, [Goes, Goes, out]))"
    using ns(2) s(1,2) by (simp add: a_round_def or_wait_def at_node_def bindR_def split: sum.splits)
  have kern: "kernel_ok B j (ikernel s2)" using s(3) by (simp add: node_ok_def)
  show ?thesis
  proof (cases "pkt_length (inHdr (net (ikernel s2))) = 0")
    case True
    then have "PostalDelivery s2 = Inl Blocked" using kern by (simp add: PostalDelivery_def kernel_ok_def)
    then show ?thesis using True s(4,5) ns(2) run2 network_ok_later [OF n2, of "t + 300"] by (auto simp: or_wait_def at_node_def)
  next
    case False
    obtain k' where k': "PostalDelivery s2 = Inr (s2\<lparr>ikernel := k'\<rparr>)" "kernel_ok B j k'" "transit (net k') = tl (transit (net (ikernel s2)))"
        "sendLock (post k') = sendLock (post (ikernel s2))" "messageSent (post k') = messageSent (post (ikernel s2))"
      using PostalDelivery_ok [OF kern False] by blast
    have "node_ok (t + 200) B j (s2\<lparr>ikernel := k'\<rparr>)" using s(3) k'(2,4,5) by (simp add: node_ok_def clock_ok_def int_sys_ok_def)
    then have "network_ok (t + 300) B (?n2[j := s2\<lparr>ikernel := k'\<rparr>])" using network_ok_later [OF network_ok_update [OF n2], of j "s2\<lparr>ikernel := k'\<rparr>" "t + 300"] by simp
    then show ?thesis using run2 k'(1,3) s(4) ns(2) by (auto simp: or_wait_def at_node_def)
  qed
qed

lemma rounds_ok:
  "network_ok t B ns \<Longrightarrow> j < length ns \<Longrightarrow> t + 300 * int k + 100 < 2 ^ 31 \<Longrightarrow>
    \<exists>ns' outs. run_ops (net_step random junk wire) ns (rounds j k) = Inr (ns', outs) \<and> length ns' = length ns \<and>
      transit (net (ikernel (ns' ! j))) = drop k (transit (net (ikernel (ns ! j))))"
proof (induction k arbitrary: ns t)
  case (Suc k)
  obtain n1 o1 where n1: "run_ops (net_step random junk wire) ns (a_round j) = Inr (n1, o1)" "network_ok (t + 300) B n1"
      "length n1 = length ns" "transit (net (ikernel (n1 ! j))) = tl (transit (net (ikernel (ns ! j))))"
    using a_round_ok [OF Suc.prems(1,2), of random junk wire] Suc.prems(3) by fastforce
  have "j < length n1" "t + 300 + 300 * int k + 100 < 2 ^ 31" using n1(3) Suc.prems(2,3) by simp_all
  from Suc.IH [OF n1(2) this] obtain n2 o2 where "run_ops (net_step random junk wire) n1 (rounds j k) = Inr (n2, o2)"
      "length n2 = length n1" "transit (net (ikernel (n2 ! j))) = drop k (transit (net (ikernel (n1 ! j))))" by blast
  then show ?case using n1 by (simp add: rounds_def run_ops_append drop_Suc)
qed (simp add: rounds_def)

text \<open>No more mail is on its way than was sent.\<close>

lemma sum_filter:
  "\<forall>m \<in> set ms. 0 \<le> mail_to (mailHdr m) \<and> mail_to (mailHdr m) < int B \<Longrightarrow>
    (\<Sum>b < B. length (filter (\<lambda>m. mail_to (mailHdr m) = int b) ms)) = length ms"
proof (induction ms)
  case (Cons m ms)
  obtain c where c: "mail_to (mailHdr m) = int c" "c < B" using Cons.prems by (metis list.set_intros(1) nonneg_int_cases of_nat_less_iff)
  have "(\<Sum>b < B. length (filter (\<lambda>m. mail_to (mailHdr m) = int b) (m # ms))) =
      (\<Sum>b < B. (if b = c then 1 else 0) + length (filter (\<lambda>m. mail_to (mailHdr m) = int b) ms))"
    by (intro sum.cong) (auto simp: c(1))
  then show ?case using Cons c(2) by (simp add: sum.distrib)
qed simp

lemma sum_sent: "(\<Sum>b < B. length (sent_to j b x)) \<le> 1"
proof (cases "\<exists>i pktH mailH data. x = (Send i pktH mailH data, Accepted)")
  case True
  then obtain i pktH mailH data where x: "x = (Send i pktH mailH data, Accepted)" by blast
  have "(\<Sum>b < B. length (sent_to j b x)) \<le> (\<Sum>b < B. if b = nat (mail_to mailH) then 1 else 0)"
    by (intro sum_mono) (auto simp: x)
  also have "\<dots> \<le> 1" by simp
  finally show ?thesis .
next
  case False
  then have "sent_to j b x = []" for b by (cases "(j, b, x)" rule: sent_to.cases) auto
  then show ?thesis by simp
qed

lemma sum_mail_sent: "(\<Sum>b < B. length (mail_sent j b evs outs)) \<le> length evs"
proof (induction evs arbitrary: outs)
  case (Cons ev evs)
  show ?case
  proof (cases outs)
    case (Cons out outs')
    have "(\<Sum>b < B. length (mail_sent j b (ev # evs) outs)) = (\<Sum>b < B. length (sent_to j b (ev, out))) + (\<Sum>b < B. length (mail_sent j b evs outs'))"
      by (simp add: mail_sent_def Cons sum.distrib)
    then show ?thesis using sum_sent [of j "(ev, out)" B] Cons.IH [of outs'] by simp
  qed (simp add: mail_sent_def)
qed (simp add: mail_sent_def)

lemma transit_addresses: "net_ok B j n \<Longrightarrow> \<forall>m \<in> set (transit n). 0 \<le> mail_to (mailHdr m) \<and> mail_to (mailHdr m) < int B"
  by (auto simp: net_ok_def transit_def wire_ok_def payload_ok_def wire_mail_def mail_in_def)

lemma transit_bound:
  assumes "network_ok t B ns" "j < length ns" "\<forall>b < B. got b @ mail_for ns j b = mail_sent j b evs outs"
  shows "length (transit (net (ikernel (ns ! j)))) \<le> length evs"
proof -
  let ?tr = "transit (net (ikernel (ns ! j)))"
  have n: "net_ok B j (net (ikernel (ns ! j)))" using assms(1,2) by (simp add: network_ok_def node_ok_def kernel_ok_def)
  have "length ?tr = (\<Sum>b < B. length (filter (\<lambda>m. mail_to (mailHdr m) = int b) ?tr))"
    using sum_filter [OF transit_addresses [OF n]] by simp
  also have "\<dots> \<le> (\<Sum>b < B. length (mail_sent j b evs outs))"
  proof (rule sum_mono)
    fix b assume "b \<in> {..<B}"
    then have "mail_sent j b evs outs = got b @ mail_for ns j b" using assms(3) by simp
    then show "length (filter (\<lambda>m. mail_to (mailHdr m) = int b) ?tr) \<le> length (mail_sent j b evs outs)"
      by (simp add: mail_for_def queue_def)
  qed
  also have "\<dots> \<le> length evs" by (rule sum_mail_sent)
  finally show ?thesis .
qed

text \<open>
  C6: all the mail that was accepted arrives: after any run, as many rounds of two interrupts and one
  delivery at a machine as the run had steps put all mail for it that was not received yet into
  the mailboxes, in order. In between the machine keeps polling and never loses a packet.
\<close>

theorem all_mail_arrives:
  assumes "booted B rel ns" and "\<forall>ev \<in> set evs. legal (length ns) B ev" and "400 * int (length evs) + 100 < 2 ^ 31"
    and "length ns \<le> 2 ^ 31" and "B \<le> 2 ^ 31" and "length junk = 52" and "length wire = 64" and "j < length ns"
  shows "\<exists>ns' outs. run_ops (net_step random junk wire) ns (evs @ rounds j (length evs)) = Inr (ns', outs) \<and>
    (\<forall>b < B. mail_got j b evs outs @ boxes (post (ikernel (ns' ! j))) ! b = mail_sent j b evs outs)"
proof -
  let ?step = "net_step random junk wire" and ?n = "length ns" and ?k = "length evs"
  have t: "0 + 100 * int ?k + 100 < 2 ^ 31" using assms(3) by simp
  have zero: "mail_for ns j b = []" if "b < B" for b using booted_ok(2) [OF assms(1,8) that] .
  obtain n1 o1 where r: "run_ops ?step ns evs = Inr (n1, o1)" "network_ok (0 + 100 * int ?k) B n1" "length n1 = ?n" "length o1 = ?k"
      "\<forall>j < ?n. \<forall>b < B. mail_got j b evs o1 @ mail_for n1 j b = mail_for ns j b @ mail_sent j b evs o1"
    using net_run_ok [OF booted_ok(1) [OF assms(1)] refl t assms(2,4-7)] unfolding mail_got_def mail_sent_def by blast
  then have n1: "run_ops ?step ns evs = Inr (n1, o1)" "network_ok (100 * int ?k) B n1" "length n1 = ?n" "length o1 = ?k"
      "\<forall>b < B. mail_got j b evs o1 @ mail_for n1 j b = mail_sent j b evs o1"
    using assms(8) zero by simp_all
  have tr: "length (transit (net (ikernel (n1 ! j)))) \<le> ?k" using transit_bound [OF n1(2) _ n1(5)] n1(3) assms(8) by simp
  have j: "j < length n1" "100 * int ?k + 300 * int ?k + 100 < 2 ^ 31" using n1(3) assms(3,8) by simp_all
  obtain n2 o2 where n2: "run_ops ?step n1 (rounds j ?k) = Inr (n2, o2)" "transit (net (ikernel (n2 ! j))) = []"
    using rounds_ok [OF n1(2) j, of random junk wire] tr by auto
  have legal: "\<forall>ev \<in> set (rounds j ?k). legal ?n B ev" using assms(8) by (auto dest!: set_rounds)
  have t2: "100 * int ?k + 100 * int (length (rounds j ?k)) + 100 < 2 ^ 31"
    using assms(3) by (simp add: rounds_def a_round_def length_concat sum_list_replicate)
  obtain o3 where o3: "o2 = o3" "\<forall>b < B. concat (map (got_at j b) (zip (rounds j ?k) o2)) @ mail_for n2 j b = mail_for n1 j b @ concat (map (sent_to j b) (zip (rounds j ?k) o2))"
    using net_run_ok [OF n1(2,3) t2 legal assms(4-7), of random] n2(1) assms(8) by auto
  have none: "concat (map (got_at j b) (zip (rounds j k) outs)) = []" "concat (map (sent_to j b) (zip (rounds j k) outs)) = []" for b k outs
  proof -
    have "got_at j b x = [] \<and> sent_to j b x = []" if "fst x \<in> set (rounds j k)" for x
      using that by (cases x) (auto dest!: set_rounds)
    then show "concat (map (got_at j b) (zip (rounds j k) outs)) = []" "concat (map (sent_to j b) (zip (rounds j k) outs)) = []"
      by (auto simp: set_zip_leftD)
  qed
  have "mail_for n2 j b = boxes (post (ikernel (n2 ! j))) ! b" for b using n2(2) by (simp add: mail_for_def queue_def)
  then have box: "\<forall>b < B. mail_for n1 j b = boxes (post (ikernel (n2 ! j))) ! b" using o3(2) by (simp add: none)
  have z: "mail_got j b evs (o1 @ o2) = mail_got j b evs o1" "mail_sent j b evs (o1 @ o2) = mail_sent j b evs o1" for b
    using n1(4) zip_append [of evs o1 "[]" o2] by (simp_all add: mail_got_def mail_sent_def)
  show ?thesis using n1(1,5) n2(1) box z by (auto simp: run_ops_append)
qed

section \<open>A sample: two machines\<close>

definition sample_dev :: network where
  "sample_dev = \<lparr>ident = 5, chanceToWork = 0, sendBusy = True, inHdr = \<lparr>pkt_to = 7, pkt_from = 7, pkt_length = 7\<rparr>, inbox = replicate 52 7,
     sock = [], net_randoms = 0\<rparr>"

definition sample_post :: post_office where
  "sample_post = \<lparr>netAddr = 0, numBoxes = 0, boxes = [], messageAvailable = 0, messageSent = 0, sendLock = False, worker_buffer = []\<rparr>"

definition sample_fresh :: node where
  "sample_fresh = power_on \<lparr>net = sample_dev, post = sample_post\<rparr>"

definition sample_node :: "nat \<Rightarrow> node" where
  "sample_node i = (case PostOffice_new sample_dev (replicate 52 9) (int i) 1 1 sample_fresh of Inr s \<Rightarrow> s | Inl _ \<Rightarrow> sample_fresh)"

definition sample_nodes :: "node list" where
  "sample_nodes = [sample_node 0, sample_node 1]"

definition sample_letter :: event where
  "sample_letter = Send 0 \<lparr>pkt_to = 1, pkt_from = 5, pkt_length = 0\<rparr> \<lparr>mail_to = 0, mail_from = 0, mail_length = 2\<rparr> [104, 105]"

definition sample_mail :: mail where
  "sample_mail = posted 0 \<lparr>pkt_to = 1, pkt_from = 5, pkt_length = 0\<rparr> \<lparr>mail_to = 0, mail_from = 0, mail_length = 2\<rparr> [104, 105]"

definition outcomes :: "event list \<Rightarrow> outcome list" where
  "outcomes evs = (case run_ops (net_step (\<lambda>_ _. 0) (replicate 52 0) (replicate 64 0)) sample_nodes evs of Inr (_, outs) \<Rightarrow> outs | Inl _ \<Rightarrow> [])"

lemma sample_booted: "booted 1 (\<lambda>_. 1) sample_nodes"
proof -
  have l: "length (inbox sample_dev) = 52" "length (replicate 52 9 :: 8 word list) = 52" by (simp_all add: sample_dev_def)
  have "PostOffice_new sample_dev (replicate 52 9) (int i) 1 1 sample_fresh = Inr (sample_node i)" for i
    using PostOffice_new_ok [OF l, of i 1 1 "\<lparr>net = sample_dev, post = sample_post\<rparr>"]
    by (auto simp: sample_node_def sample_fresh_def)
  then have "\<exists>k dev buf. length (inbox dev) = 52 \<and> length buf = 52 \<and> PostOffice_new dev buf (int i) 1 (int 1) (power_on k) = Inr (sample_node i)" for i
    by (intro exI [of _ "\<lparr>net = sample_dev, post = sample_post\<rparr>"] exI [of _ sample_dev] exI [of _ "replicate 52 9"])
       (simp add: sample_fresh_def l(1))
  moreover have "sample_nodes ! i = sample_node i" if "i < length sample_nodes" for i
    using that by (auto simp: sample_nodes_def less_Suc_eq)
  ultimately show ?thesis by (simp add: booted_def)
qed

lemma sample_legal: "\<forall>ev \<in> set [sample_letter, Interrupt 1, Deliver 1, Receive 1 0]. legal (length sample_nodes) 1 ev"
  by (simp add: sample_letter_def sample_nodes_def legal_send_def int32_def)

theorem mail_in_order_witness:
  "\<exists>ns' outs. run_ops (net_step (\<lambda>_ _. 0) (replicate 52 0) (replicate 64 0)) sample_nodes [sample_letter, Interrupt 1, Deliver 1, Receive 1 0] =
     Inr (ns', outs) \<and> outs = [Accepted, Goes, Goes, Got sample_mail] \<and>
     prefix (mail_got 1 0 [sample_letter, Interrupt 1, Deliver 1, Receive 1 0] outs) (mail_sent 1 0 [sample_letter, Interrupt 1, Deliver 1, Receive 1 0] outs)"
proof -
  let ?evs = "[sample_letter, Interrupt 1, Deliver 1, Receive 1 0]"
  have o: "outcomes ?evs = [Accepted, Goes, Goes, Got sample_mail]" by code_simp
  obtain ns' outs where r: "run_ops (net_step (\<lambda>_ _. 0) (replicate 52 0) (replicate 64 0)) sample_nodes ?evs = Inr (ns', outs)"
      "\<forall>j < length sample_nodes. \<forall>b < 1. prefix (mail_got j b ?evs outs) (mail_sent j b ?evs outs)"
    using mail_in_order [OF sample_booted sample_legal, of "replicate 52 0" "replicate 64 0" "\<lambda>_ _. 0"] by (auto simp: sample_nodes_def)
  have "outs = [Accepted, Goes, Goes, Got sample_mail]" using o r(1) by (simp add: outcomes_def)
  then show ?thesis using r by (auto simp: sample_nodes_def)
qed

theorem all_mail_arrives_witness:
  "\<exists>ns' outs. run_ops (net_step (\<lambda>_ _. 0) (replicate 52 0) (replicate 64 0)) sample_nodes ([sample_letter] @ rounds 1 1) = Inr (ns', outs) \<and>
     boxes (post (ikernel (ns' ! 1))) ! 0 = [sample_mail]"
proof -
  have o: "outcomes ([sample_letter] @ rounds 1 1) = [Accepted, Goes, Goes, Goes]" by code_simp
  have l: "\<forall>ev \<in> set [sample_letter]. legal (length sample_nodes) 1 ev" using sample_legal by simp
  obtain ns' outs where r: "run_ops (net_step (\<lambda>_ _. 0) (replicate 52 0) (replicate 64 0)) sample_nodes ([sample_letter] @ rounds 1 1) = Inr (ns', outs)"
      "mail_got 1 0 [sample_letter] outs @ boxes (post (ikernel (ns' ! 1))) ! 0 = mail_sent 1 0 [sample_letter] outs"
    using all_mail_arrives [OF sample_booted l, of "replicate 52 0" "replicate 64 0" 1 "\<lambda>_ _. 0"] by (auto simp: sample_nodes_def)
  have "outs = [Accepted, Goes, Goes, Goes]" using o r(1) by (simp add: outcomes_def)
  then have "mail_got 1 0 [sample_letter] outs = []" "mail_sent 1 0 [sample_letter] outs = [sample_mail]"
    by (simp_all add: mail_got_def mail_sent_def sample_letter_def sample_mail_def)
  then show ?thesis using r by (intro exI [of _ ns'] exI [of _ outs]) simp
qed

end
