(* ===== verification/Consoles.thy ===== *)
theory Consoles
  imports Devices "HOL-Library.Sublist"
begin

text \<open>
  The console device \<open>machine/console.cc\<close>, the synchronous console \<open>userprog/synchconsole.cc\<close> on it, and
  the console test of \<open>userprog/progtest.cc\<close>. The handlers of the interrupt simulation are those of the device.
\<close>

section \<open>State\<close>

text \<open>\<open>EOF\<close> as a (signed) \<open>char\<close>.\<close>

definition EOF_char :: "8 word" where "EOF_char = - 1"
definition ConsoleTime :: int where "ConsoleTime = 100"

text \<open>\<open>keyboard\<close> is what was typed and not read yet, \<open>display\<close> what was written.\<close>

record console =
  keyboard :: "8 word list"
  display :: "8 word list"
  putBusy :: bool
  incoming :: "8 word"

text \<open>
  Semaphores appear by their values, as in \<open>Network\<close>; a lock by its flag and the name of the thread that took it, as
  \<open>Lock::Acquire\<close> compares names. \<open>doing\<close> says which routine a thread is inside of: between its two steps below.
\<close>

record named_lock =
  held_by_name :: bool
  holder_name :: string

record synch_console =
  readAvail :: nat
  writeDone :: nat
  readLock :: named_lock
  writeLock :: named_lock

datatype routine = Outside | In_getChar | In_putChar

record con_kernel =
  con :: console
  sync :: synch_console
  doing :: "nat \<Rightarrow> routine"

datatype con_handler = ConsoleReadPoll | ConsoleWriteDone

type_synonym con_sys = "(con_handler, con_kernel) isys"

definition upd_con :: "(console \<Rightarrow> console) \<Rightarrow> con_sys \<Rightarrow> con_sys" where
  "upd_con f s = s\<lparr>ikernel := (ikernel s)\<lparr>con := f (con (ikernel s))\<rparr>\<rparr>"

definition upd_sync :: "(synch_console \<Rightarrow> synch_console) \<Rightarrow> con_sys \<Rightarrow> con_sys" where
  "upd_sync f s = s\<lparr>ikernel := (ikernel s)\<lparr>sync := f (sync (ikernel s))\<rparr>\<rparr>"

section \<open>The device\<close>

text \<open>The two handlers of its user.\<close>

definition ReadAvail :: "con_sys \<Rightarrow> con_sys" where
  "ReadAvail s = upd_sync (\<lambda>c. c\<lparr>readAvail := Suc (readAvail c)\<rparr>) s"

definition WriteDone :: "con_sys \<Rightarrow> con_sys" where
  "WriteDone s = upd_sync (\<lambda>c. c\<lparr>writeDone := Suc (writeDone c)\<rparr>) s"

definition Console_new :: "int \<Rightarrow> con_sys \<Rightarrow> con_sys res" where
  "Console_new self s =
     Schedule ConsoleReadPoll self ConsoleTime ConsoleReadInt (upd_con (\<lambda>c. c\<lparr>putBusy := False, incoming := EOF_char\<rparr>) s)"

definition CheckCharAvail :: "int \<Rightarrow> con_sys \<Rightarrow> con_sys res" where
  "CheckCharAvail self s =
     bindR (Schedule ConsoleReadPoll self ConsoleTime ConsoleReadInt s) (\<lambda>s.
     let c = con (ikernel s) in
     if incoming c \<noteq> EOF_char then Inr s
     else case keyboard c of
       [] \<Rightarrow> Inr s
     | ch # rest \<Rightarrow> Inr (ReadAvail (upd_con (\<lambda>c. c\<lparr>incoming := ch, keyboard := rest\<rparr>)
         (s\<lparr>istats := (istats s)\<lparr>numConsoleCharsRead := numConsoleCharsRead (istats s) + 1\<rparr>\<rparr>))))"

definition Console_WriteDone :: "con_sys \<Rightarrow> con_sys" where
  "Console_WriteDone s = WriteDone (upd_con (\<lambda>c. c\<lparr>putBusy := False\<rparr>)
     (s\<lparr>istats := (istats s)\<lparr>numConsoleCharsWritten := numConsoleCharsWritten (istats s) + 1\<rparr>\<rparr>))"

definition GetChar :: "con_sys \<Rightarrow> con_sys \<times> 8 word" where
  "GetChar s = (upd_con (\<lambda>c. c\<lparr>incoming := EOF_char\<rparr>) s, incoming (con (ikernel s)))"

definition PutChar :: "int \<Rightarrow> 8 word \<Rightarrow> con_sys \<Rightarrow> con_sys res" where
  "PutChar self ch s =
     ASSERT (putBusy (con (ikernel s)) = False) (
     Schedule ConsoleWriteDone self ConsoleTime ConsoleWriteInt
       (upd_con (\<lambda>c. c\<lparr>display := display c @ [ch], putBusy := True\<rparr>) s))"

primrec con_dispatch :: "(con_handler, con_kernel) dispatch" where
  "con_dispatch ConsoleReadPoll arg = CheckCharAvail arg"
| "con_dispatch ConsoleWriteDone arg = (\<lambda>s. Inr (Console_WriteDone s))"

section \<open>The synchronous console\<close>

definition SynchConsole_new :: "int \<Rightarrow> con_sys \<Rightarrow> con_sys res" where
  "SynchConsole_new self s =
     bindR (Console_new self s) (\<lambda>s.
     Inr (upd_sync (\<lambda>c. c\<lparr>readAvail := 0, writeDone := 0, readLock := (readLock c)\<lparr>held_by_name := False\<rparr>,
       writeLock := (writeLock c)\<lparr>held_by_name := False\<rparr>\<rparr>) s))"

text \<open>
  \<open>Lock::Acquire\<close> and \<open>Lock::Release\<close> by a thread called \<open>me\<close> (\<open>threads/synch.cc\<close>): a thread with the name of the holder
  passes as if it were the holder. A step that has to wait is \<open>Blocked\<close>.
\<close>

definition Acquire_as :: "string \<Rightarrow> named_lock \<Rightarrow> named_lock res" where
  "Acquire_as me l =
     (if held_by_name l \<and> holder_name l = me then Inr l
      else if held_by_name l then Inl Blocked else Inr \<lparr>held_by_name = True, holder_name = me\<rparr>)"

definition Release_as :: "string \<Rightarrow> named_lock \<Rightarrow> named_lock res" where
  "Release_as me l = ASSERT (held_by_name l \<and> holder_name l = me) (Inr (l\<lparr>held_by_name := False\<rparr>))"

text \<open>\<open>getChar\<close> and \<open>putChar\<close> up to the wait for the device, and from there on.\<close>

definition getChar_lock :: "string \<Rightarrow> con_sys \<Rightarrow> con_sys res" where
  "getChar_lock me s = bindR (Acquire_as me (readLock (sync (ikernel s)))) (\<lambda>l. Inr (upd_sync (\<lambda>c. c\<lparr>readLock := l\<rparr>) s))"

definition getChar_rest :: "string \<Rightarrow> con_sys \<Rightarrow> (con_sys \<times> 8 word) res" where
  "getChar_rest me s =
     (if readAvail (sync (ikernel s)) = 0 then Inl Blocked
      else case GetChar (upd_sync (\<lambda>c. c\<lparr>readAvail := readAvail c - 1\<rparr>) s) of (s, value) \<Rightarrow>
        bindR (Release_as me (readLock (sync (ikernel s)))) (\<lambda>l. Inr (upd_sync (\<lambda>c. c\<lparr>readLock := l\<rparr>) s, value)))"

definition putChar_start :: "int \<Rightarrow> string \<Rightarrow> 8 word \<Rightarrow> con_sys \<Rightarrow> con_sys res" where
  "putChar_start self me ch s =
     bindR (Acquire_as me (writeLock (sync (ikernel s)))) (\<lambda>l. PutChar self ch (upd_sync (\<lambda>c. c\<lparr>writeLock := l\<rparr>) s))"

definition putChar_rest :: "string \<Rightarrow> con_sys \<Rightarrow> con_sys res" where
  "putChar_rest me s =
     (if writeDone (sync (ikernel s)) = 0 then Inl Blocked
      else bindR (Release_as me (writeLock (sync (ikernel s)))) (\<lambda>l.
        Inr (upd_sync (\<lambda>c. c\<lparr>writeDone := writeDone c - 1, writeLock := l\<rparr>) s)))"

section \<open>The console test\<close>

text \<open>
  Where the thread of \<open>ConsoleTest\<close> is: before the \<open>P\<close> of \<open>readAvail\<close>, before that of \<open>writeDone\<close>, or done. A
  step is what it does up to the next \<open>P\<close>.
\<close>

datatype test_phase = AwaitChar | AwaitWrite "8 word" | Quit

definition ConsoleTest_new :: "int \<Rightarrow> con_sys \<Rightarrow> con_sys res" where
  "ConsoleTest_new self s =
     bindR (Console_new self s) (\<lambda>s. Inr (upd_sync (\<lambda>c. c\<lparr>readAvail := 0, writeDone := 0\<rparr>) s))"

primrec ConsoleTest_step :: "int \<Rightarrow> test_phase \<Rightarrow> con_sys \<Rightarrow> (test_phase \<times> con_sys) res" where
  "ConsoleTest_step self AwaitChar s =
     (if readAvail (sync (ikernel s)) = 0 then Inl Blocked
      else case GetChar (upd_sync (\<lambda>c. c\<lparr>readAvail := readAvail c - 1\<rparr>) s) of (s, ch) \<Rightarrow>
        bindR (PutChar self ch s) (\<lambda>s. Inr (AwaitWrite ch, s)))"
| "ConsoleTest_step self (AwaitWrite ch) s =
     (if writeDone (sync (ikernel s)) = 0 then Inl Blocked
      else Inr (if ch = 113 then Quit else AwaitChar, upd_sync (\<lambda>c. c\<lparr>writeDone := writeDone c - 1\<rparr>) s))"
| "ConsoleTest_step self Quit s = Inl Blocked"

section \<open>Runs\<close>

text \<open>
  The user types, the next interrupt comes, or a thread goes on with \<open>getChar\<close> or \<open>putChar\<close>. \<open>names\<close> gives the names
  of the threads. A step that has to wait, or that the thread is not at, changes nothing.
\<close>

datatype con_event = Typed "8 word" | Tick | GetStart nat | GetEnd nat | PutStart nat "8 word" | PutEnd nat

datatype con_outcome = Later | Done | Taken "8 word"

definition unless_blocked :: "'s \<Rightarrow> ('s \<times> con_outcome) res \<Rightarrow> ('s \<times> con_outcome) res" where
  "unless_blocked s r = (case r of Inl Blocked \<Rightarrow> Inr (s, Later) | _ \<Rightarrow> r)"

definition enter :: "nat \<Rightarrow> routine \<Rightarrow> con_sys \<Rightarrow> con_sys" where
  "enter t r s = s\<lparr>ikernel := (ikernel s)\<lparr>doing := (doing (ikernel s))(t := r)\<rparr>\<rparr>"

definition step_of :: "nat \<Rightarrow> routine \<Rightarrow> con_sys \<Rightarrow> (con_sys \<times> con_outcome) res \<Rightarrow> (con_sys \<times> con_outcome) res" where
  "step_of t r s res = (if doing (ikernel s) t \<noteq> r then Inr (s, Later) else unless_blocked s res)"

fun con_step :: "int \<Rightarrow> (nat \<Rightarrow> string) \<Rightarrow> con_sys \<Rightarrow> con_event \<Rightarrow> (con_sys \<times> con_outcome) res" where
  "con_step self names s (Typed ch) = Inr (upd_con (\<lambda>c. c\<lparr>keyboard := keyboard c @ [ch]\<rparr>) s, Done)"
| "con_step self names s Tick = unless_blocked s (bindR (CheckIfDue con_dispatch True s) (\<lambda>(s, _). Inr (s, Done)))"
| "con_step self names s (GetStart t) =
     step_of t Outside s (bindR (getChar_lock (names t) s) (\<lambda>s. Inr (enter t In_getChar s, Done)))"
| "con_step self names s (GetEnd t) =
     step_of t In_getChar s (bindR (getChar_rest (names t) s) (\<lambda>(s, ch). Inr (enter t Outside s, Taken ch)))"
| "con_step self names s (PutStart t ch) =
     step_of t Outside s (bindR (putChar_start self (names t) ch s) (\<lambda>s. Inr (enter t In_putChar s, Done)))"
| "con_step self names s (PutEnd t) =
     step_of t In_putChar s (bindR (putChar_rest (names t) s) (\<lambda>s. Inr (enter t Outside s, Done)))"

datatype test_event = Types "8 word" | Interrupts | Thread

fun test_step :: "int \<Rightarrow> test_phase \<times> con_sys \<Rightarrow> test_event \<Rightarrow> ((test_phase \<times> con_sys) \<times> con_outcome) res" where
  "test_step self (ph, s) (Types ch) = Inr ((ph, upd_con (\<lambda>c. c\<lparr>keyboard := keyboard c @ [ch]\<rparr>) s), Done)"
| "test_step self (ph, s) Interrupts =
     unless_blocked (ph, s) (bindR (CheckIfDue con_dispatch True s) (\<lambda>(s, _). Inr ((ph, s), Done)))"
| "test_step self (ph, s) Thread =
     unless_blocked (ph, s) (bindR (ConsoleTest_step self ph s) (\<lambda>r. Inr (r, Done)))"

end
