(* ===== verification/ConsoleRuns.thy ===== *)
theory ConsoleRuns
  imports Consoles
begin

text \<open>
  Properties of the console: characters are taken in the order they were typed and displayed in the
  order they were put, as long as none of them is the \<open>char\<close> that the device uses for \<open>EOF\<close>
  and the threads that use the console have different names. What happens otherwise is stated too.
\<close>

section \<open>The device between two steps\<close>

text \<open>\<open>w\<close> is the number of writes that were started and not waited for.\<close>

definition dev_ok :: "int \<Rightarrow> nat \<Rightarrow> con_sys \<Rightarrow> bool" where
  "dev_ok t w s \<longleftrightarrow> clock_ok t s \<and> handlers (pend s) ConsoleReadPoll = 1 \<and>
     handlers (pend s) ConsoleWriteDone = (if putBusy (con (ikernel s)) then 1 else 0) \<and>
     readAvail (sync (ikernel s)) = (if incoming (con (ikernel s)) = EOF_char then 0 else 1) \<and>
     EOF_char \<notin> set (keyboard (con (ikernel s))) \<and>
     (if putBusy (con (ikernel s)) then 1 else 0) + writeDone (sync (ikernel s)) = w"

definition unread :: "con_kernel \<Rightarrow> 8 word list" where
  "unread k = (if incoming (con k) = EOF_char then [] else [incoming (con k)]) @ keyboard (con k)"

lemma con_upd_simps [simp]:
  "ikernel (upd_con f s) = (ikernel s)\<lparr>con := f (con (ikernel s))\<rparr>" "ikernel (upd_sync g s) = (ikernel s)\<lparr>sync := g (sync (ikernel s))\<rparr>"
  "ikernel (enter u r s) = (ikernel s)\<lparr>doing := (doing (ikernel s))(u := r)\<rparr>" "pend (enter u r s) = pend s" "clock_ok t (enter u r s) = clock_ok t s"
  "pend (upd_con f s) = pend s" "pend (upd_sync g s) = pend s"
  "clock_ok t (upd_con f s) = clock_ok t s" "clock_ok t (upd_sync g s) = clock_ok t s"
  by (simp_all add: upd_con_def upd_sync_def enter_def pend_def now_def clock_ok_def int_sys_ok_def)

lemma stats_simps [simp]: "clock_ok t (s\<lparr>istats := (istats s)\<lparr>numConsoleCharsRead := x\<rparr>\<rparr>) = clock_ok t s"
  "clock_ok t (s\<lparr>istats := (istats s)\<lparr>numConsoleCharsWritten := x\<rparr>\<rparr>) = clock_ok t s"
  by (simp_all add: clock_ok_def int_sys_ok_def pend_def now_def)

lemma dev_ok_later: "dev_ok t w s \<Longrightarrow> t \<le> t' \<Longrightarrow> dev_ok t' w s"
  by (auto simp: dev_ok_def intro: clock_ok_later)

lemma unread_simps [simp]: "unread (k\<lparr>sync := y\<rparr>) = unread k" "unread (k\<lparr>doing := d\<rparr>) = unread k"
  by (simp_all add: unread_def)

text \<open>A poll reads one character when there is one and the buffer is free.\<close>

definition polled :: "con_kernel \<Rightarrow> con_kernel" where
  "polled k = (if incoming (con k) \<noteq> EOF_char \<or> keyboard (con k) = [] then k
     else k\<lparr>con := (con k)\<lparr>incoming := hd (keyboard (con k)), keyboard := tl (keyboard (con k))\<rparr>,
            sync := (sync k)\<lparr>readAvail := Suc (readAvail (sync k))\<rparr>\<rparr>)"

lemma CheckCharAvail_ok:
  assumes c: "clock_ok t s" "t + 100 < 2 ^ 31"
  shows "\<exists>s'. CheckCharAvail a s = Inr s' \<and> clock_ok t s' \<and> ikernel s' = polled (ikernel s) \<and>
    (\<forall>h. handlers (pend s') h = (if h = ConsoleReadPoll then 1 else 0) + handlers (pend s) h)"
proof -
  let ?c = "con (ikernel s)"
  obtain q where q: "Schedule ConsoleReadPoll a ConsoleTime ConsoleReadInt s = Inr (set_pending q s)" "clock_ok t (set_pending q s)"
      "\<And>h. handlers (lst_elems q) h = (if h = ConsoleReadPoll then 1 else 0) + handlers (pend s) h"
    using Schedule_100 [OF c, of ConsoleReadInt ConsoleReadPoll a] by (auto simp: ConsoleTime_def)
  show ?thesis
  proof (cases "incoming ?c \<noteq> EOF_char \<or> keyboard ?c = []")
    case True
    then have "CheckCharAvail a s = Inr (set_pending q s)" using q(1) by (auto simp: CheckCharAvail_def Let_def)
    then show ?thesis using q(2,3) True by (auto simp: polled_def)
  next
    case False
    then obtain ch rest where k: "keyboard ?c = ch # rest" "incoming ?c = EOF_char" by (cases "keyboard ?c") auto
    let ?s = "set_pending q s"
    let ?s' = "ReadAvail (upd_con (\<lambda>c. c\<lparr>incoming := ch, keyboard := rest\<rparr>)
         (?s\<lparr>istats := (istats ?s)\<lparr>numConsoleCharsRead := numConsoleCharsRead (istats ?s) + 1\<rparr>\<rparr>))"
    have "CheckCharAvail a s = Inr ?s'" using q(1) k by (simp add: CheckCharAvail_def Let_def)
    moreover have "clock_ok t ?s'" using q(2) by (simp only: ReadAvail_def con_upd_simps stats_simps)
    moreover have "ikernel ?s' = polled (ikernel s)" using k by (simp add: polled_def ReadAvail_def)
    moreover have "pend ?s' = lst_elems q" by (simp add: ReadAvail_def)
    ultimately show ?thesis using q(3) by (intro exI [of _ ?s']) simp
  qed
qed

text \<open>The next interrupt: a poll, or the end of a write.\<close>

definition written :: "con_kernel \<Rightarrow> con_kernel" where
  "written k = k\<lparr>con := (con k)\<lparr>putBusy := False\<rparr>, sync := (sync k)\<lparr>writeDone := Suc (writeDone (sync k))\<rparr>\<rparr>"

lemma Tick_cases:
  assumes c: "clock_ok t s" "t + 200 < 2 ^ 31" and h: "handlers (pend s) ConsoleReadPoll = 1"
  shows "\<exists>s'. CheckIfDue con_dispatch True s = Inr (s', True) \<and> clock_ok (t + 100) s' \<and> handlers (pend s') ConsoleReadPoll = 1 \<and>
    (ikernel s' = polled (ikernel s) \<and> handlers (pend s') ConsoleWriteDone = handlers (pend s) ConsoleWriteDone \<or>
     ikernel s' = written (ikernel s) \<and> handlers (pend s) ConsoleWriteDone = Suc (handlers (pend s') ConsoleWriteDone))"
proof -
  have "t + 100 < 2 ^ 31" "handlers (pend s) ConsoleReadPoll \<noteq> 0" using c(2) h by simp_all
  then obtain w p es s1 where e: "pend s = (w, Some p) # es" and s1: "CheckIfDue con_dispatch True s =
      bindR (con_dispatch (pi_handler p) (pi_arg p) s1) (\<lambda>s2. Inr (s2\<lparr>intr := (intr s2)\<lparr>int_status := int_status (intr s), inHandler := False\<rparr>\<rparr>, True))"
      "clock_ok (t + 100) s1" "pend s1 = es" "ikernel s1 = ikernel s"
    using next_interrupt [OF c(1), where dispatch = con_dispatch] by blast
  show ?thesis
  proof (cases "pi_handler p")
    case ConsoleReadPoll
    obtain s2 where "CheckCharAvail (pi_arg p) s1 = Inr s2" "clock_ok (t + 100) s2" "ikernel s2 = polled (ikernel s1)"
        "\<forall>h. handlers (pend s2) h = (if h = ConsoleReadPoll then 1 else 0) + handlers (pend s1) h"
      using CheckCharAvail_ok [OF s1(2)] c(2) by auto
    then show ?thesis using s1 e h ConsoleReadPoll by (simp flip: pend_def)
  next
    case ConsoleWriteDone
    have "ikernel (Console_WriteDone s1) = written (ikernel s1)" "clock_ok t' (Console_WriteDone s1) = clock_ok t' s1" "pend (Console_WriteDone s1) = pend s1" for t'
      by (simp_all add: Console_WriteDone_def WriteDone_def written_def)
    then show ?thesis using s1 e h ConsoleWriteDone by (simp flip: pend_def)
  qed
qed

lemma Tick_ok:
  assumes s: "dev_ok t w s" "t + 200 < 2 ^ 31"
  shows "\<exists>s'. CheckIfDue con_dispatch True s = Inr (s', True) \<and> dev_ok (t + 100) w s' \<and> unread (ikernel s') = unread (ikernel s) \<and>
    display (con (ikernel s')) = display (con (ikernel s)) \<and> readLock (sync (ikernel s')) = readLock (sync (ikernel s)) \<and>
    writeLock (sync (ikernel s')) = writeLock (sync (ikernel s)) \<and> doing (ikernel s') = doing (ikernel s)"
proof -
  have d: "clock_ok t s" "handlers (pend s) ConsoleReadPoll = 1" "handlers (pend s) ConsoleWriteDone = (if putBusy (con (ikernel s)) then 1 else 0)"
      "readAvail (sync (ikernel s)) = (if incoming (con (ikernel s)) = EOF_char then 0 else 1)" "EOF_char \<notin> set (keyboard (con (ikernel s)))"
      "(if putBusy (con (ikernel s)) then 1 else 0) + writeDone (sync (ikernel s)) = w"
    using s(1) by (simp_all add: dev_ok_def)
  obtain s' where s': "CheckIfDue con_dispatch True s = Inr (s', True)" "clock_ok (t + 100) s'" "handlers (pend s') ConsoleReadPoll = 1"
    "ikernel s' = polled (ikernel s) \<and> handlers (pend s') ConsoleWriteDone = handlers (pend s) ConsoleWriteDone \<or>
     ikernel s' = written (ikernel s) \<and> handlers (pend s) ConsoleWriteDone = Suc (handlers (pend s') ConsoleWriteDone)"
    using Tick_cases [OF d(1) s(2) d(2)] by blast
  from s'(4) show ?thesis
  proof (elim disjE conjE)
    assume k: "ikernel s' = polled (ikernel s)" "handlers (pend s') ConsoleWriteDone = handlers (pend s) ConsoleWriteDone"
    have "dev_ok (t + 100) w s'" using s'(2,3) k d
      by (cases "keyboard (con (ikernel s))") (auto simp: dev_ok_def polled_def)
    moreover have "unread (polled (ikernel s)) = unread (ikernel s)" using d(5)
      by (cases "keyboard (con (ikernel s))") (auto simp: unread_def polled_def)
    ultimately show ?thesis using s'(1) k(1) by (auto simp: polled_def)
  next
    assume k: "ikernel s' = written (ikernel s)" "handlers (pend s) ConsoleWriteDone = Suc (handlers (pend s') ConsoleWriteDone)"
    have b: "putBusy (con (ikernel s))" using k(2) d(3) by (simp split: if_splits)
    then have "dev_ok (t + 100) w s'" using s'(2,3) k d by (auto simp: dev_ok_def written_def)
    then show ?thesis using s'(1) k(1) by (auto simp: written_def unread_def)
  qed
qed

lemma Typed_ok:
  assumes "dev_ok t w s" "ch \<noteq> EOF_char"
  defines "s' \<equiv> upd_con (\<lambda>c. c\<lparr>keyboard := keyboard c @ [ch]\<rparr>) s"
  shows "dev_ok t w s'" "unread (ikernel s') = unread (ikernel s) @ [ch]" "display (con (ikernel s')) = display (con (ikernel s))"
    "sync (ikernel s') = sync (ikernel s)" "doing (ikernel s') = doing (ikernel s)"
  using assms by (auto simp: dev_ok_def unread_def)

text \<open>Taking the character that was announced.\<close>

lemma GetChar_ok:
  assumes "dev_ok t w s" "readAvail (sync (ikernel s)) \<noteq> 0"
  shows "\<exists>s' ch. GetChar (upd_sync (\<lambda>c. c\<lparr>readAvail := readAvail c - 1\<rparr>) s) = (s', ch) \<and> dev_ok t w s' \<and>
    unread (ikernel s) = ch # unread (ikernel s') \<and> display (con (ikernel s')) = display (con (ikernel s)) \<and>
    sync (ikernel s') = (sync (ikernel s))\<lparr>readAvail := 0\<rparr> \<and> doing (ikernel s') = doing (ikernel s) \<and> putBusy (con (ikernel s')) = putBusy (con (ikernel s))"
  using assms by (auto simp: GetChar_def dev_ok_def unread_def split: if_splits)

lemma PutChar_ok:
  assumes "dev_ok t 0 s" "t + 100 < 2 ^ 31"
  shows "\<exists>s'. PutChar self ch s = Inr s' \<and> dev_ok t 1 s' \<and> unread (ikernel s') = unread (ikernel s) \<and>
    display (con (ikernel s')) = display (con (ikernel s)) @ [ch] \<and> sync (ikernel s') = sync (ikernel s) \<and>
    doing (ikernel s') = doing (ikernel s) \<and> putBusy (con (ikernel s'))"
proof -
  let ?s = "upd_con (\<lambda>c. c\<lparr>display := display c @ [ch], putBusy := True\<rparr>) s"
  have d: "clock_ok t ?s" "\<not> putBusy (con (ikernel s))" using assms(1) by (auto simp: dev_ok_def split: if_splits)
  obtain q where q: "Schedule ConsoleWriteDone self 100 ConsoleWriteInt ?s = Inr (set_pending q ?s)" "clock_ok t (set_pending q ?s)"
      "\<And>h. handlers (lst_elems q) h = (if ConsoleWriteDone = h then 1 else 0) + handlers (pend ?s) h"
    using Schedule_100 [OF d(1) assms(2), of ConsoleWriteInt ConsoleWriteDone self] by auto
  have "PutChar self ch s = Inr (set_pending q ?s)" using q(1) d(2) by (simp add: PutChar_def ConsoleTime_def)
  moreover have "dev_ok t 1 (set_pending q ?s)" using q(2,3) assms(1) d(2) by (simp add: dev_ok_def)
  ultimately show ?thesis by (auto simp: unread_def)
qed


section \<open>Runs of the synchronous console\<close>

text \<open>
  A lock is held by the one thread inside of its routine, under the name of that thread, if there is one.
\<close>

definition lock_agrees :: "(nat \<Rightarrow> string) \<Rightarrow> (nat \<Rightarrow> routine) \<Rightarrow> routine \<Rightarrow> named_lock \<Rightarrow> bool" where
  "lock_agrees names d r l \<longleftrightarrow>
     (if held_by_name l then \<exists>u. holder_name l = names u \<and> (\<forall>v. d v = r \<longleftrightarrow> v = u) else \<forall>v. d v \<noteq> r)"

definition console_ok :: "(nat \<Rightarrow> string) \<Rightarrow> int \<Rightarrow> con_sys \<Rightarrow> bool" where
  "console_ok names t s \<longleftrightarrow> dev_ok t (if held_by_name (writeLock (sync (ikernel s))) then 1 else 0) s \<and>
     lock_agrees names (doing (ikernel s)) In_getChar (readLock (sync (ikernel s))) \<and>
     lock_agrees names (doing (ikernel s)) In_putChar (writeLock (sync (ikernel s)))"

lemma Acquire_as_ok:
  assumes "inj names" "lock_agrees names d r l" "d t \<noteq> r"
  shows "Acquire_as (names t) l =
    (if held_by_name l then Inl Blocked else Inr \<lparr>held_by_name = True, holder_name = names t\<rparr>)"
    and "\<not> held_by_name l \<Longrightarrow> lock_agrees names (d(t := r)) r \<lparr>held_by_name = True, holder_name = names t\<rparr>"
  using assms by (auto simp: Acquire_as_def lock_agrees_def inj_def split: if_splits)

lemma Release_as_ok:
  assumes "lock_agrees names d r l" "d t = r" "r \<noteq> Outside"
  shows "Release_as (names t) l = Inr (l\<lparr>held_by_name := False\<rparr>)" "held_by_name l"
    "lock_agrees names (d(t := Outside)) r (l\<lparr>held_by_name := False\<rparr>)"
proof -
  have h: "held_by_name l" using assms(1,2) by (auto simp: lock_agrees_def split: if_splits)
  then obtain u where u: "holder_name l = names u" "\<And>v. d v = r \<longleftrightarrow> v = u" using assms(1) by (auto simp: lock_agrees_def)
  have "t = u" using u(2) [of t] assms(2) by simp
  then show "Release_as (names t) l = Inr (l\<lparr>held_by_name := False\<rparr>)" "held_by_name l"
    "lock_agrees names (d(t := Outside)) r (l\<lparr>held_by_name := False\<rparr>)"
    using h u assms(3) by (auto simp: Release_as_def lock_agrees_def)
qed

lemma lock_agrees_other: "d t \<noteq> r \<Longrightarrow> r' \<noteq> r \<Longrightarrow> lock_agrees names (d(t := r')) r l = lock_agrees names d r l"
  by (auto simp: lock_agrees_def)

text \<open>What the events type, display and take.\<close>

fun typed_by :: "con_event \<times> con_outcome \<Rightarrow> 8 word list" where
  "typed_by (Typed ch, _) = [ch]" | "typed_by _ = []"

fun put_by :: "con_event \<times> con_outcome \<Rightarrow> 8 word list" where
  "put_by (PutStart t ch, Done) = [ch]" | "put_by _ = []"

fun taken_by :: "con_event \<times> con_outcome \<Rightarrow> 8 word list" where
  "taken_by (_, Taken ch) = [ch]" | "taken_by _ = []"

definition all_of :: "(con_event \<times> con_outcome \<Rightarrow> 8 word list) \<Rightarrow> con_event list \<Rightarrow> con_outcome list \<Rightarrow> 8 word list" where
  "all_of f evs outs = concat (map f (zip evs outs))"

lemma all_of_simps [simp]: "all_of f [] outs = []" "all_of f (ev # evs) (out # outs) = f (ev, out) @ all_of f evs outs"
  by (simp_all add: all_of_def)

text \<open>A step takes what comes first, appends what is typed and displays what is put.\<close>

lemma con_step_ok:
  assumes s: "console_ok names t s" "t + 200 < 2 ^ 31" and ev: "ev \<noteq> Typed EOF_char" and n: "inj names"
  shows "\<exists>s' out. con_step self names s ev = Inr (s', out) \<and> console_ok names (t + 100) s' \<and>
    unread (ikernel s) @ typed_by (ev, out) = taken_by (ev, out) @ unread (ikernel s') \<and>
    display (con (ikernel s')) = display (con (ikernel s)) @ put_by (ev, out)"
proof -
  let ?y = "sync (ikernel s)" and ?d = "doing (ikernel s)"
  let ?w = "if held_by_name (writeLock ?y) then 1 else 0"
  have d: "dev_ok t ?w s" and rl: "lock_agrees names ?d In_getChar (readLock ?y)" and wl: "lock_agrees names ?d In_putChar (writeLock ?y)"
    using s(1) by (simp_all add: console_ok_def)
  have stay: "console_ok names (t + 100) s" using s(1) by (auto simp: console_ok_def intro: dev_ok_later)
  have later: "dev_ok t w s' \<Longrightarrow> dev_ok (t + 100) w s'" for w s' using dev_ok_later [of t w s' "t + 100"] by simp
  have sync: "dev_ok t' w (enter u r s') = dev_ok t' w s'" "dev_ok t' w (upd_sync (\<lambda>c. c\<lparr>readLock := l\<rparr>) s') = dev_ok t' w s'"
    "dev_ok t' w (upd_sync (\<lambda>c. c\<lparr>writeLock := l\<rparr>) s') = dev_ok t' w s'" for t' w u r s' l
    by (simp_all add: dev_ok_def)
  show ?thesis
  proof (cases ev)
    case (Typed ch)
    then show ?thesis using Typed_ok [OF d, of ch] ev later rl wl by (auto simp: console_ok_def simp del: con_upd_simps)
  next
    case Tick
    obtain s' where "CheckIfDue con_dispatch True s = Inr (s', True)" "dev_ok (t + 100) ?w s'"
        "unread (ikernel s') = unread (ikernel s)" "display (con (ikernel s')) = display (con (ikernel s))" "readLock (sync (ikernel s')) = readLock ?y"
        "writeLock (sync (ikernel s')) = writeLock ?y" "doing (ikernel s') = ?d"
      using Tick_ok [OF d s(2)] by blast
    then show ?thesis using Tick rl wl by (intro exI [of _ s'] exI [of _ Done]) (simp add: console_ok_def unless_blocked_def)
  next
    case (GetStart u)
    show ?thesis
    proof (cases "?d u \<noteq> Outside \<or> held_by_name (readLock ?y)")
      case True
      then show ?thesis using GetStart stay Acquire_as_ok(1) [OF n rl, of u]
        by (auto simp: getChar_lock_def step_of_def unless_blocked_def)
    next
      case False
      let ?s = "enter u In_getChar (upd_sync (\<lambda>c. c\<lparr>readLock := \<lparr>held_by_name = True, holder_name = names u\<rparr>\<rparr>) s)"
      have "console_ok names (t + 100) ?s"
        using False later [of ?w ?s] d wl Acquire_as_ok(2) [OF n rl, of u] by (simp add: console_ok_def sync lock_agrees_other)
      then show ?thesis using GetStart False Acquire_as_ok(1) [OF n rl, of u]
        by (simp add: getChar_lock_def step_of_def unless_blocked_def)
    qed
  next
    case (GetEnd u)
    show ?thesis
    proof (cases "?d u \<noteq> In_getChar \<or> readAvail ?y = 0")
      case False
      obtain s' ch where g: "GetChar (upd_sync (\<lambda>c. c\<lparr>readAvail := readAvail c - 1\<rparr>) s) = (s', ch)"
          "dev_ok t ?w s'" "unread (ikernel s) = ch # unread (ikernel s')"
          "display (con (ikernel s')) = display (con (ikernel s))" "sync (ikernel s') = ?y\<lparr>readAvail := 0\<rparr>" "doing (ikernel s') = ?d"
        using GetChar_ok [OF d] False by blast
      let ?s = "enter u Outside (upd_sync (\<lambda>c. c\<lparr>readLock := (readLock ?y)\<lparr>held_by_name := False\<rparr>\<rparr>) s')"
      have r: "Release_as (names u) (readLock ?y) = Inr ((readLock ?y)\<lparr>held_by_name := False\<rparr>)"
        "lock_agrees names (?d(u := Outside)) In_getChar ((readLock ?y)\<lparr>held_by_name := False\<rparr>)"
        using Release_as_ok [OF rl, of u] False by simp_all
      have "console_ok names (t + 100) ?s"
        using False later [of ?w ?s] g wl r(2) by (simp add: console_ok_def sync lock_agrees_other)
      then show ?thesis using GetEnd False g r(1) by (simp add: getChar_rest_def step_of_def unless_blocked_def)
    qed (use GetEnd stay in \<open>auto simp: getChar_rest_def step_of_def unless_blocked_def\<close>)
  next
    case (PutStart u ch)
    show ?thesis
    proof (cases "?d u \<noteq> Outside \<or> held_by_name (writeLock ?y)")
      case True
      then show ?thesis using PutStart stay Acquire_as_ok(1) [OF n wl, of u]
        by (auto simp: putChar_start_def step_of_def unless_blocked_def)
    next
      case False
      let ?l = "\<lparr>held_by_name = True, holder_name = names u\<rparr>"
      have "dev_ok t 0 (upd_sync (\<lambda>c. c\<lparr>writeLock := ?l\<rparr>) s)" using d False by (simp add: sync)
      then obtain s' where p: "PutChar self ch (upd_sync (\<lambda>c. c\<lparr>writeLock := ?l\<rparr>) s) = Inr s'" "dev_ok t 1 s'"
          "unread (ikernel s') = unread (ikernel s)" "display (con (ikernel s')) = display (con (ikernel s)) @ [ch]"
          "sync (ikernel s') = ?y\<lparr>writeLock := ?l\<rparr>" "doing (ikernel s') = ?d"
        using PutChar_ok [of t "upd_sync (\<lambda>c. c\<lparr>writeLock := ?l\<rparr>) s" self ch] s(2) by auto
      have "console_ok names (t + 100) (enter u In_putChar s')"
        using False later [OF p(2)] p(5,6) rl Acquire_as_ok(2) [OF n wl, of u]
        by (simp add: console_ok_def sync(1) lock_agrees_other)
      then show ?thesis using PutStart False p Acquire_as_ok(1) [OF n wl, of u]
        by (simp add: putChar_start_def step_of_def unless_blocked_def)
    qed
  next
    case (PutEnd u)
    show ?thesis
    proof (cases "?d u \<noteq> In_putChar \<or> writeDone ?y = 0")
      case False
      let ?s = "enter u Outside (upd_sync (\<lambda>c. c\<lparr>writeDone := writeDone c - 1, writeLock := (writeLock ?y)\<lparr>held_by_name := False\<rparr>\<rparr>) s)"
      have r: "Release_as (names u) (writeLock ?y) = Inr ((writeLock ?y)\<lparr>held_by_name := False\<rparr>)" "held_by_name (writeLock ?y)"
        "lock_agrees names (?d(u := Outside)) In_putChar ((writeLock ?y)\<lparr>held_by_name := False\<rparr>)"
        using Release_as_ok [OF wl, of u] False by simp_all
      have "dev_ok t 0 ?s" using d False r(2) by (auto simp: dev_ok_def)
      then have "console_ok names (t + 100) ?s"
        using False later [of 0 ?s] rl r(3) by (simp add: console_ok_def lock_agrees_other)
      then show ?thesis using PutEnd False r(1) by (simp add: putChar_rest_def step_of_def unless_blocked_def)
    qed (use PutEnd stay in \<open>auto simp: putChar_rest_def step_of_def unless_blocked_def\<close>)
  qed
qed

lemma con_run_ok:
  assumes "console_ok names t s" "t + 100 * int (length evs) + 100 < 2 ^ 31" "Typed EOF_char \<notin> set evs" "inj names"
  shows "\<exists>s' outs. run_ops (con_step self names) s evs = Inr (s', outs) \<and> length outs = length evs \<and>
    unread (ikernel s) @ all_of typed_by evs outs = all_of taken_by evs outs @ unread (ikernel s') \<and>
    display (con (ikernel s')) = display (con (ikernel s)) @ all_of put_by evs outs"
  using assms
proof (induction evs arbitrary: s t)
  case (Cons ev evs)
  obtain s1 out where s1: "con_step self names s ev = Inr (s1, out)" "console_ok names (t + 100) s1"
      "unread (ikernel s) @ typed_by (ev, out) = taken_by (ev, out) @ unread (ikernel s1)"
      "display (con (ikernel s1)) = display (con (ikernel s)) @ put_by (ev, out)"
    using con_step_ok [OF Cons.prems(1), of ev self] Cons.prems(2-4) by auto
  obtain s2 outs where s2: "run_ops (con_step self names) s1 evs = Inr (s2, outs)" "length outs = length evs"
      "unread (ikernel s1) @ all_of typed_by evs outs = all_of taken_by evs outs @ unread (ikernel s2)"
      "display (con (ikernel s2)) = display (con (ikernel s1)) @ all_of put_by evs outs"
    using Cons.IH [OF s1(2)] Cons.prems(2-4) by auto
  have "unread (ikernel s) @ all_of typed_by (ev # evs) (out # outs) = all_of taken_by (ev # evs) (out # outs) @ unread (ikernel s2)"
    using s1(3) s2(3) by (metis all_of_simps(2) append.assoc)
  then show ?case using s1(1,4) s2(1,2,4) by auto
qed simp

lemma SynchConsole_new_ok:
  assumes "keyboard (con k) = []"
  shows "\<exists>s. SynchConsole_new self (power_on k) = Inr s \<and> dev_ok 0 0 s \<and> unread (ikernel s) = [] \<and>
    display (con (ikernel s)) = display (con k) \<and> \<not> held_by_name (readLock (sync (ikernel s))) \<and>
    \<not> held_by_name (writeLock (sync (ikernel s))) \<and> doing (ikernel s) = doing k"
proof -
  let ?s = "upd_con (\<lambda>c. c\<lparr>putBusy := False, incoming := EOF_char\<rparr>) (power_on k)"
  have c: "clock_ok 0 ?s" by (simp add: power_on_ok)
  obtain q where q: "Schedule ConsoleReadPoll self 100 ConsoleReadInt ?s = Inr (set_pending q ?s)" "clock_ok 0 (set_pending q ?s)"
      "\<And>h. handlers (lst_elems q) h = (if ConsoleReadPoll = h then 1 else 0) + handlers (pend ?s) h"
    using Schedule_100 [OF c, of ConsoleReadInt ConsoleReadPoll self] by auto
  let ?s' = "upd_sync (\<lambda>c. c\<lparr>readAvail := 0, writeDone := 0, readLock := (readLock c)\<lparr>held_by_name := False\<rparr>,
       writeLock := (writeLock c)\<lparr>held_by_name := False\<rparr>\<rparr>) (set_pending q ?s)"
  have "SynchConsole_new self (power_on k) = Inr ?s'"
    using q(1) by (simp add: SynchConsole_new_def Console_new_def ConsoleTime_def)
  moreover have "dev_ok 0 0 ?s'" using q(2,3) assms by (simp add: dev_ok_def power_on_ok)
  ultimately show ?thesis using assms by (auto simp: unread_def power_on_ok)
qed

text \<open>
  C21: from a new \<open>SynchConsole\<close>, used by threads of different names, whatever is typed, and however interrupts and
  the steps of \<open>getChar\<close> and \<open>putChar\<close> of the threads come, no assertion fails, not those of the locks either; the
  characters taken, followed by those that are still there, are exactly those typed, and the display shows
  exactly those put, in order. Typed characters must differ from \<open>EOF\<close>, and the clock must not reach its largest value.
\<close>

theorem console_in_order:
  assumes "keyboard (con k) = []" and "SynchConsole_new self (power_on k) = Inr s"
    and "\<forall>t. doing k t = Outside" and "inj names"
    and "Typed EOF_char \<notin> set evs" and "100 * int (length evs) + 100 < 2 ^ 31"
  shows "\<exists>s' outs. run_ops (con_step self names) s evs = Inr (s', outs) \<and>
    all_of taken_by evs outs @ unread (ikernel s') = all_of typed_by evs outs \<and>
    display (con (ikernel s')) = display (con k) @ all_of put_by evs outs"
proof -
  have s: "console_ok names 0 s" "unread (ikernel s) = []" "display (con (ikernel s)) = display (con k)"
    using SynchConsole_new_ok [OF assms(1), of self] assms(2,3) by (auto simp: console_ok_def lock_agrees_def)
  show ?thesis using con_run_ok [OF s(1) _ assms(5,4), of self] assms(6) s(2,3) by auto
qed

text \<open>A console before the device is made, and names for any number of threads.\<close>

definition sample_console :: con_kernel where
  "sample_console = \<lparr>con = \<lparr>keyboard = [], display = [], putBusy = True, incoming = 7\<rparr>,
     sync = \<lparr>readAvail = 3, writeDone = 3, readLock = \<lparr>held_by_name = True, holder_name = ''x''\<rparr>,
       writeLock = \<lparr>held_by_name = True, holder_name = ''x''\<rparr>\<rparr>, doing = (\<lambda>_. Outside)\<rparr>"

definition sample_names :: "nat \<Rightarrow> string" where
  "sample_names t = replicate t CHR ''t''"

lemma inj_sample_names: "inj sample_names"
  by (auto simp: inj_def sample_names_def dest: arg_cong [of _ _ length])

theorem console_in_order_witness:
  "\<exists>s s' outs. keyboard (con sample_console) = [] \<and> SynchConsole_new 0 (power_on sample_console) = Inr s \<and>
    run_ops (con_step 0 sample_names) s [PutStart 1 104, Typed 97, PutStart 2 105, Tick, GetStart 2, Tick, GetEnd 2] = Inr (s', outs) \<and>
    outs = [Done, Done, Later, Done, Done, Done, Taken 97] \<and> display (con (ikernel s')) = [104]"
proof -
  let ?evs = "[PutStart 1 104, Typed 97, PutStart 2 105, Tick, GetStart 2, Tick, GetEnd 2]"
  have k: "keyboard (con sample_console) = []" "\<forall>t. doing sample_console t = Outside" by (simp_all add: sample_console_def)
  then obtain s where s: "SynchConsole_new 0 (power_on sample_console) = Inr s" using SynchConsole_new_ok by blast
  obtain s' outs where r: "run_ops (con_step 0 sample_names) s ?evs = Inr (s', outs)"
      "display (con (ikernel s')) = display (con sample_console) @ all_of put_by ?evs outs"
    using console_in_order [OF k(1) s k(2) inj_sample_names, of ?evs] by (auto simp: EOF_char_def)
  have "(case SynchConsole_new 0 (power_on sample_console) of Inl _ \<Rightarrow> [] | Inr s \<Rightarrow>
      case run_ops (con_step 0 sample_names) s ?evs of Inl _ \<Rightarrow> [] | Inr (_, outs) \<Rightarrow> outs) = [Done, Done, Later, Done, Done, Done, Taken 97]"
    by code_simp
  then have "outs = [Done, Done, Later, Done, Done, Done, Taken 97]" using s r(1) by simp
  then show ?thesis using k s r by (intro exI [of _ s] exI [of _ s'] exI [of _ outs]) (simp add: sample_console_def)
qed

text \<open>
  C28: a thread with the name of one that waits in \<open>putChar\<close> for its character to be written passes \<open>writeLock\<close>, and
  the machine stops at the assertion that the device is not busy. All threads that \<open>Exec\<close> makes have the
  same name, so two programs that write at the same time do this. A thread of another name has to wait, and the display shows the
  first character only.
\<close>

theorem same_name_stops_console:
  assumes "keyboard (con k) = []" and "SynchConsole_new self (power_on k) = Inr s"
    and "\<forall>t. doing k t = Outside" and "t \<noteq> u"
  shows "if names t = names u then run_ops (con_step self names) s [PutStart t a, PutStart u b] = Inl AssertFailed
    else \<exists>s'. run_ops (con_step self names) s [PutStart t a, PutStart u b] = Inr (s', [Done, Later]) \<and>
      display (con (ikernel s')) = display (con k) @ [a]"
proof -
  have s: "dev_ok 0 0 s" "display (con (ikernel s)) = display (con k)" "\<not> held_by_name (writeLock (sync (ikernel s)))" "doing (ikernel s) = doing k"
    using SynchConsole_new_ok [OF assms(1), of self] assms(2) by auto
  let ?l = "\<lparr>held_by_name = True, holder_name = names t\<rparr>" and ?w = "\<lambda>l. upd_sync (\<lambda>c. c\<lparr>writeLock := l\<rparr>)"
  have "dev_ok 0 0 (?w ?l s)" using s(1) by (simp add: dev_ok_def)
  then obtain s1 where s1: "PutChar self a (?w ?l s) = Inr s1" "putBusy (con (ikernel s1))" "display (con (ikernel s1)) = display (con k) @ [a]"
      "sync (ikernel s1) = (sync (ikernel s))\<lparr>writeLock := ?l\<rparr>" "doing (ikernel s1) = doing k"
    using PutChar_ok [of 0 "?w ?l s" self a] s(2,4) by auto
  let ?s1 = "enter t In_putChar s1"
  have first: "con_step self names s (PutStart t a) = Inr (?s1, Done)"
    using s(3,4) s1(1) assms(3) by (simp add: step_of_def unless_blocked_def putChar_start_def Acquire_as_def)
  have k1: "sync (ikernel ?s1) = (sync (ikernel s))\<lparr>writeLock := ?l\<rparr>" "doing (ikernel ?s1) u = Outside" "putBusy (con (ikernel ?s1))"
    using s1(2,4,5) assms(3,4) by simp_all
  show ?thesis
  proof (cases "names t = names u")
    case True
    then have "putChar_start self (names u) b ?s1 = Inl AssertFailed"
      using k1 by (simp add: putChar_start_def Acquire_as_def PutChar_def)
    then show ?thesis using first k1(2) True by (simp add: step_of_def unless_blocked_def)
  next
    case False
    then have "putChar_start self (names u) b ?s1 = Inl Blocked" using k1 by (simp add: putChar_start_def Acquire_as_def)
    then show ?thesis using first k1(2) False s1(3) by (simp add: step_of_def unless_blocked_def)
  qed
qed

theorem same_name_stops_console_witness:
  "\<exists>s. SynchConsole_new 0 (power_on sample_console) = Inr s \<and>
    run_ops (con_step 0 (\<lambda>_. ''new thread'')) s [PutStart 1 97, PutStart 2 98] = Inl AssertFailed"
proof -
  have k: "keyboard (con sample_console) = []" "\<forall>t. doing sample_console t = Outside" by (simp_all add: sample_console_def)
  then obtain s where s: "SynchConsole_new 0 (power_on sample_console) = Inr s" using SynchConsole_new_ok by blast
  have "(1::nat) \<noteq> 2" by simp
  from same_name_stops_console [OF k(1) s k(2) this, of "\<lambda>_. ''new thread''" 97 98] show ?thesis using s by simp
qed

text \<open>
  C30: a typed \<open>0xff\<close> equals \<open>EOF\<close>, so the device takes its own buffer for empty, reads the next character over
  it and announces both: the first \<open>getChar\<close> then returns the second character, and the next one \<open>EOF\<close>.
\<close>

theorem eof_char_overtaken:
  assumes "keyboard (con k) = []" and "SynchConsole_new self (power_on k) = Inr s" and "ch \<noteq> EOF_char" and "doing k t = Outside"
  shows "\<exists>s'. run_ops (con_step self names) s [Typed EOF_char, Typed ch, Tick, Tick, GetStart t, GetEnd t, GetStart t, GetEnd t] =
    Inr (s', [Done, Done, Done, Done, Done, Taken ch, Done, Taken EOF_char])"
proof -
  have s: "dev_ok 0 0 s" "unread (ikernel s) = []" "\<not> held_by_name (readLock (sync (ikernel s)))" "doing (ikernel s) t = Outside"
    using SynchConsole_new_ok [OF assms(1), of self] assms(2,4) by auto
  let ?k = "ikernel s"
  let ?s = "upd_con (\<lambda>c. c\<lparr>keyboard := [EOF_char, ch]\<rparr>) s"
  have d: "incoming (con ?k) = EOF_char" "keyboard (con ?k) = []" "readAvail (sync ?k) = 0" "clock_ok 0 ?s"
      "handlers (pend ?s) ConsoleReadPoll = 1" "handlers (pend ?s) ConsoleWriteDone = 0"
    using s by (auto simp: dev_ok_def unread_def split: if_splits)
  obtain s1 where s1: "CheckIfDue con_dispatch True ?s = Inr (s1, True)" "clock_ok 100 s1" "handlers (pend s1) ConsoleReadPoll = 1"
      "ikernel s1 = polled (ikernel ?s)" "handlers (pend s1) ConsoleWriteDone = 0"
    using Tick_cases [OF d(4) _ d(5)] d(6) by auto
  obtain s2 where s2: "CheckIfDue con_dispatch True s1 = Inr (s2, True)" "ikernel s2 = polled (ikernel s1)"
    using Tick_cases [OF s1(2) _ s1(3)] s1(5) by auto
  have k2: "incoming (con (ikernel s2)) = ch" "readAvail (sync (ikernel s2)) = 2" "\<not> held_by_name (readLock (sync (ikernel s2)))"
    "doing (ikernel s2) t = Outside"
    using s2(2) s1(4) d(1-3) s(3,4) assms(3) by (simp_all add: polled_def)
  have ty: "con_step self names (upd_con (\<lambda>c. c\<lparr>keyboard := keyboard c @ [EOF_char]\<rparr>) s) (Typed ch) = Inr (?s, Done)"
    using d(2) by (simp add: upd_con_def)
  show ?thesis using ty s1(1) s2(1) k2
    by (simp add: step_of_def unless_blocked_def getChar_lock_def getChar_rest_def GetChar_def Acquire_as_def Release_as_def)
qed

theorem eof_char_overtaken_witness:
  "\<exists>s s'. keyboard (con sample_console) = [] \<and> SynchConsole_new 0 (power_on sample_console) = Inr s \<and> (97 :: 8 word) \<noteq> EOF_char \<and>
    run_ops (con_step 0 sample_names) s [Typed EOF_char, Typed 97, Tick, Tick, GetStart 5, GetEnd 5, GetStart 5, GetEnd 5] =
    Inr (s', [Done, Done, Done, Done, Done, Taken 97, Done, Taken EOF_char])"
proof -
  have k: "keyboard (con sample_console) = []" "(97 :: 8 word) \<noteq> EOF_char" "doing sample_console 5 = Outside" by (simp_all add: sample_console_def EOF_char_def)
  then obtain s where s: "SynchConsole_new 0 (power_on sample_console) = Inr s" using SynchConsole_new_ok by blast
  then show ?thesis using eof_char_overtaken [OF k(1) s k(2,3)] k by blast
qed

section \<open>The console test\<close>

definition writes_of :: "test_phase \<Rightarrow> nat" where
  "writes_of ph = (case ph of AwaitWrite _ \<Rightarrow> 1 | _ \<Rightarrow> 0)"

text \<open>What the thread has echoed: no \<open>q\<close>, but for the last character.\<close>

definition echoed :: "test_phase \<Rightarrow> 8 word list \<Rightarrow> bool" where
  "echoed ph d = (case ph of AwaitChar \<Rightarrow> 113 \<notin> set d
     | AwaitWrite ch \<Rightarrow> d \<noteq> [] \<and> last d = ch \<and> 113 \<notin> set (butlast d)
     | Quit \<Rightarrow> d \<noteq> [] \<and> last d = 113 \<and> 113 \<notin> set (butlast d))"

fun types :: "test_event \<Rightarrow> 8 word list" where
  "types (Types ch) = [ch]" | "types _ = []"

definition test_ok :: "int \<Rightarrow> test_phase \<Rightarrow> con_sys \<Rightarrow> bool" where
  "test_ok t ph s \<longleftrightarrow> dev_ok t (writes_of ph) s \<and> echoed ph (display (con (ikernel s)))"

definition shown :: "con_sys \<Rightarrow> 8 word list" where
  "shown s = display (con (ikernel s)) @ unread (ikernel s)"

lemma test_step_ok:
  assumes s: "test_ok t ph s" "t + 200 < 2 ^ 31" and ev: "ev \<noteq> Types EOF_char"
  shows "\<exists>ph' s' out. test_step self (ph, s) ev = Inr ((ph', s'), out) \<and> test_ok (t + 100) ph' s' \<and> shown s' = shown s @ types ev"
proof -
  have d: "dev_ok t (writes_of ph) s" "echoed ph (display (con (ikernel s)))" using s(1) by (simp_all add: test_ok_def)
  have later: "dev_ok t w s' \<Longrightarrow> dev_ok (t + 100) w s'" for w s' using dev_ok_later [of t w s' "t + 100"] by simp
  have stay: "test_ok (t + 100) ph s" using d later by (simp add: test_ok_def)
  show ?thesis
  proof (cases ev)
    case (Types ch)
    then show ?thesis using Typed_ok [OF d(1), of ch] d(2) ev later by (simp add: test_ok_def shown_def del: con_upd_simps)
  next
    case Interrupts
    obtain s' where "CheckIfDue con_dispatch True s = Inr (s', True)" "dev_ok (t + 100) (writes_of ph) s'"
        "unread (ikernel s') = unread (ikernel s)" "display (con (ikernel s')) = display (con (ikernel s))"
      using Tick_ok [OF d(1) s(2)] by blast
    then show ?thesis using Interrupts d(2) by (simp add: test_ok_def shown_def unless_blocked_def)
  next
    case Thread
    show ?thesis
    proof (cases ph)
      case AwaitChar
      show ?thesis
      proof (cases "readAvail (sync (ikernel s)) = 0")
        case False
        obtain s1 ch where g: "GetChar (upd_sync (\<lambda>c. c\<lparr>readAvail := readAvail c - 1\<rparr>) s) = (s1, ch)" "dev_ok t 0 s1"
            "unread (ikernel s) = ch # unread (ikernel s1)" "display (con (ikernel s1)) = display (con (ikernel s))"
          using GetChar_ok [OF d(1) False] AwaitChar by (auto simp: writes_of_def)
        obtain s2 where "PutChar self ch s1 = Inr s2" "dev_ok t 1 s2" "unread (ikernel s2) = unread (ikernel s1)"
            "display (con (ikernel s2)) = display (con (ikernel s1)) @ [ch]"
          using PutChar_ok [OF g(2)] s(2) by fastforce
        then show ?thesis using Thread AwaitChar False g d(2) later
          by (simp add: unless_blocked_def test_ok_def shown_def writes_of_def echoed_def)
      qed (use Thread AwaitChar stay in \<open>simp add: unless_blocked_def\<close>)
    next
      case (AwaitWrite ch)
      show ?thesis
      proof (cases "writeDone (sync (ikernel s)) = 0")
        case False
        let ?s = "upd_sync (\<lambda>c. c\<lparr>writeDone := writeDone c - 1\<rparr>) s" and ?ph = "if ch = 113 then Quit else AwaitChar"
        have "dev_ok t 0 ?s" using d(1) AwaitWrite False by (auto simp: dev_ok_def writes_of_def split: if_splits)
        moreover have "echoed ?ph (display (con (ikernel s)))"
          using d(2) AwaitWrite by (cases "display (con (ikernel s))" rule: rev_cases) (auto simp: echoed_def)
        ultimately show ?thesis using Thread AwaitWrite False later
          by (intro exI [of _ ?ph] exI [of _ ?s] exI [of _ Done]) (simp add: unless_blocked_def test_ok_def shown_def writes_of_def)
      qed (use Thread AwaitWrite stay in \<open>simp add: unless_blocked_def\<close>)
    qed (use Thread stay in \<open>simp add: unless_blocked_def\<close>)
  qed
qed

lemma test_run_ok:
  assumes "test_ok t ph s" "t + 100 * int (length evs) + 100 < 2 ^ 31" "Types EOF_char \<notin> set evs"
  shows "\<exists>ph' s' outs. run_ops (test_step self) (ph, s) evs = Inr ((ph', s'), outs) \<and>
    test_ok (t + 100 * int (length evs)) ph' s' \<and> shown s' = shown s @ concat (map types evs)"
  using assms
proof (induction evs arbitrary: ph s t)
  case (Cons ev evs)
  obtain ph1 s1 out where s1: "test_step self (ph, s) ev = Inr ((ph1, s1), out)" "test_ok (t + 100) ph1 s1" "shown s1 = shown s @ types ev"
    using test_step_ok [OF Cons.prems(1), of ev self] Cons.prems(2,3) by auto
  then show ?case using Cons.IH [OF s1(2)] Cons.prems(2,3) by (fastforce simp: algebra_simps)
qed simp

text \<open>
  \<open>ConsoleTest\<close> echoes: however typing, interrupts and the thread interleave, no assertion fails, what the
  display shows, followed by what was not read yet, is what was typed, and nothing is shown after the first \<open>q\<close>:
  the thread has returned only if the display ends in it.
\<close>

theorem console_test_echoes:
  assumes "keyboard (con k) = []" and "display (con k) = []" and "ConsoleTest_new self (power_on k) = Inr s"
    and "Types EOF_char \<notin> set evs" and "100 * int (length evs) + 100 < 2 ^ 31"
  shows "\<exists>ph s' outs. run_ops (test_step self) (AwaitChar, s) evs = Inr ((ph, s'), outs) \<and>
    display (con (ikernel s')) @ unread (ikernel s') = concat (map types evs) \<and>
    113 \<notin> set (butlast (display (con (ikernel s')))) \<and>
    (ph = Quit \<longrightarrow> display (con (ikernel s')) \<noteq> [] \<and> last (display (con (ikernel s'))) = 113)"
proof -
  obtain q where "Console_new self (power_on k) = Inr q" "s = upd_sync (\<lambda>c. c\<lparr>readAvail := 0, writeDone := 0\<rparr>) q"
    using assms(3) by (auto simp: ConsoleTest_new_def bindR_eq_Inr)
  moreover obtain s0 where "SynchConsole_new self (power_on k) = Inr s0" "dev_ok 0 0 s0" "unread (ikernel s0) = []"
      "display (con (ikernel s0)) = display (con k)"
    using SynchConsole_new_ok [OF assms(1), of self] by auto
  ultimately have s: "test_ok 0 AwaitChar s" "shown s = []"
    using assms(2) by (auto simp: SynchConsole_new_def dev_ok_def test_ok_def shown_def unread_def writes_of_def echoed_def split: if_splits)
  obtain ph s' outs where r: "run_ops (test_step self) (AwaitChar, s) evs = Inr ((ph, s'), outs)"
      "test_ok (100 * int (length evs)) ph s'" "shown s' = concat (map types evs)"
    using test_run_ok [OF s(1) _ assms(4), of self] assms(5) s(2) by auto
  have "echoed ph (display (con (ikernel s')))" using r(2) by (simp add: test_ok_def)
  then have "113 \<notin> set (butlast (display (con (ikernel s'))))"
    "ph = Quit \<longrightarrow> display (con (ikernel s')) \<noteq> [] \<and> last (display (con (ikernel s'))) = 113"
    by (auto simp: echoed_def dest: in_set_butlastD split: test_phase.splits)
  then show ?thesis using r(1,3) by (auto simp: shown_def)
qed

theorem console_test_echoes_witness:
  "\<exists>s ph s' outs. keyboard (con sample_console) = [] \<and> display (con sample_console) = [] \<and>
    ConsoleTest_new 0 (power_on sample_console) = Inr s \<and>
    run_ops (test_step 0) (AwaitChar, s) [Types 97, Types 98, Interrupts, Thread] = Inr ((ph, s'), outs) \<and>
    display (con (ikernel s')) @ unread (ikernel s') = [97, 98]"
proof -
  let ?evs = "[Types 97, Types 98, Interrupts, Thread]"
  have k: "keyboard (con sample_console) = []" "display (con sample_console) = []" by (simp_all add: sample_console_def)
  obtain s0 where "SynchConsole_new 0 (power_on sample_console) = Inr s0" using SynchConsole_new_ok [OF k(1)] by blast
  then obtain s where s: "ConsoleTest_new 0 (power_on sample_console) = Inr s"
    by (auto simp: SynchConsole_new_def ConsoleTest_new_def bindR_eq_Inr)
  obtain ph s' outs where "run_ops (test_step 0) (AwaitChar, s) ?evs = Inr ((ph, s'), outs)"
      "display (con (ikernel s')) @ unread (ikernel s') = [97, 98]"
    using console_test_echoes [OF k s, of ?evs] by (auto simp: EOF_char_def)
  then show ?thesis using k s by blast
qed


end
