(* ===== verification/Stacks.thy ===== *)
theory Stacks
  imports Nachos_Prelude
begin

text \<open>
  The stacks of \<open>c++example/inheritstack.cc\<close>: an abstract class with two implementations, an array and the
  linked list of \<open>c++example/list.cc\<close>, and the test that all implementations share.
\<close>

section \<open>The abstract class\<close>

text \<open>The virtual functions of an object with state \<open>'s\<close>.\<close>

record 's stack_class =
  Push :: "'s \<Rightarrow> int \<Rightarrow> 's res"
  Pop :: "'s \<Rightarrow> ('s \<times> int) res"
  Full :: "'s \<Rightarrow> bool"
  Empty :: "'s \<Rightarrow> bool"

datatype test_print = Pushing int | Popping int

text \<open>\<open>SelfTest\<close>: the loop that pushes, and the loop that pops until the stack is empty, at most \<open>fuel\<close> times.\<close>

primrec push_numbers :: "'s stack_class \<Rightarrow> nat \<Rightarrow> int \<Rightarrow> 's \<Rightarrow> ('s \<times> test_print list) res" where
  "push_numbers cl 0 count s = Inr (s, [])"
| "push_numbers cl (Suc n) count s =
     ASSERT (\<not> Full cl s) (
     bindR (Push cl s count) (\<lambda>s.
     bindR (push_numbers cl n (count + 1) s) (\<lambda>(s, out). Inr (s, Pushing count # out))))"

primrec pop_numbers :: "'s stack_class \<Rightarrow> nat \<Rightarrow> 's \<Rightarrow> ('s \<times> test_print list) res" where
  "pop_numbers cl 0 s = (if Empty cl s then Inr (s, []) else Inl OutOfFuel)"
| "pop_numbers cl (Suc fuel) s =
     (if Empty cl s then Inr (s, [])
      else bindR (Pop cl s) (\<lambda>(s, v). bindR (pop_numbers cl fuel s) (\<lambda>(s, out). Inr (s, Popping v # out))))"

definition SelfTest :: "'s stack_class \<Rightarrow> nat \<Rightarrow> int \<Rightarrow> 's \<Rightarrow> ('s \<times> test_print list) res" where
  "SelfTest cl fuel numToPush s =
     bindR (push_numbers cl (nat numToPush) 17 s) (\<lambda>(s, out1).
     bindR (pop_numbers cl fuel s) (\<lambda>(s, out2). Inr (s, out1 @ out2)))"

section \<open>The array\<close>

text \<open>\<open>junk\<close> is what the new array holds.\<close>

record array_stack =
  capacity :: int
  top :: int
  stack :: "int list"

definition ArrayStack_new :: "(nat \<Rightarrow> int) \<Rightarrow> int \<Rightarrow> array_stack res" where
  "ArrayStack_new junk sz = ASSERT (sz \<ge> 1) (Inr \<lparr>capacity = sz, top = 0, stack = map junk [0..<nat sz]\<rparr>)"

definition ArrayStack_Full :: "array_stack \<Rightarrow> bool" where
  "ArrayStack_Full s \<longleftrightarrow> top s = capacity s"

definition ArrayStack_Empty :: "array_stack \<Rightarrow> bool" where
  "ArrayStack_Empty s \<longleftrightarrow> top s = 0"

definition ArrayStack_Push :: "array_stack \<Rightarrow> int \<Rightarrow> array_stack res" where
  "ArrayStack_Push s v =
     ASSERT (\<not> ArrayStack_Full s) (bindR (aset (stack s) (top s) v) (\<lambda>a. Inr (s\<lparr>stack := a, top := top s + 1\<rparr>)))"

definition ArrayStack_Pop :: "array_stack \<Rightarrow> (array_stack \<times> int) res" where
  "ArrayStack_Pop s =
     ASSERT (\<not> ArrayStack_Empty s) (bindR (aget (stack s) (top s - 1)) (\<lambda>v. Inr (s\<lparr>top := top s - 1\<rparr>, v)))"

definition ArrayStack :: "array_stack stack_class" where
  "ArrayStack = \<lparr>Push = ArrayStack_Push, Pop = ArrayStack_Pop, Full = ArrayStack_Full, Empty = ArrayStack_Empty\<rparr>"

section \<open>The list\<close>

text \<open>
  The list elements in a store that allocates addresses upwards: \<open>elements a\<close> is the element at \<open>a\<close>, if it is
  allocated. Elements that were deleted are not there any more.
\<close>

record list_element =
  next_el :: "nat option"
  item_el :: int

record list_stack =
  elements :: "nat \<Rightarrow> list_element option"
  fresh :: nat
  first_el :: "nat option"
  last_el :: "nat option"

definition List_new :: list_stack where
  "List_new = \<lparr>elements = (\<lambda>_. None), fresh = 0, first_el = None, last_el = None\<rparr>"

definition List_Empty :: "list_stack \<Rightarrow> bool" where
  "List_Empty s \<longleftrightarrow> first_el s = None"

definition ListElement_new :: "int \<Rightarrow> list_stack \<Rightarrow> list_stack \<times> nat" where
  "ListElement_new value s =
     (s\<lparr>elements := (elements s)(fresh s \<mapsto> \<lparr>next_el = None, item_el = value\<rparr>), fresh := Suc (fresh s)\<rparr>, fresh s)"

definition deref_el :: "list_stack \<Rightarrow> nat option \<Rightarrow> list_element res" where
  "deref_el s p = (case p of None \<Rightarrow> Inl BadAccess | Some a \<Rightarrow> (case elements s a of None \<Rightarrow> Inl BadAccess | Some e \<Rightarrow> Inr e))"

definition List_Prepend :: "list_stack \<Rightarrow> int \<Rightarrow> list_stack res" where
  "List_Prepend s value =
     (case ListElement_new value s of (s, a) \<Rightarrow>
      if List_Empty s then Inr (s\<lparr>first_el := Some a, last_el := Some a\<rparr>)
      else bindR (deref_el s (Some a)) (\<lambda>e.
        Inr (s\<lparr>elements := (elements s)(a \<mapsto> e\<lparr>next_el := first_el s\<rparr>), first_el := Some a\<rparr>)))"

definition List_Remove :: "list_stack \<Rightarrow> (list_stack \<times> int) res" where
  "List_Remove s =
     ASSERT (\<not> List_Empty s) (
     bindR (deref_el s (first_el s)) (\<lambda>e.
     let s' = (if first_el s = last_el s then s\<lparr>first_el := None, last_el := None\<rparr> else s\<lparr>first_el := next_el e\<rparr>) in
     Inr (s'\<lparr>elements := (elements s')(the (first_el s) := None)\<rparr>, item_el e)))"

definition ListStack_Push :: "list_stack \<Rightarrow> int \<Rightarrow> list_stack res" where
  "ListStack_Push s v = List_Prepend s v"

definition ListStack_Pop :: "list_stack \<Rightarrow> (list_stack \<times> int) res" where
  "ListStack_Pop s = ASSERT (\<not> List_Empty s) (List_Remove s)"

definition ListStack :: "list_stack stack_class" where
  "ListStack = \<lparr>Push = ListStack_Push, Pop = ListStack_Pop, Full = (\<lambda>_. False), Empty = List_Empty\<rparr>"

section \<open>What a stack promises\<close>

text \<open>
  \<open>holds s xs\<close>: the object \<open>s\<close> is a stack of \<open>xs\<close>, the top first; \<open>limit s\<close> is how many it has room for.
\<close>

locale stack_contract =
  fixes cl :: "'s stack_class"
    and holds :: "'s \<Rightarrow> int list \<Rightarrow> bool"
    and limit :: "'s \<Rightarrow> nat option"
  assumes push_ok: "holds s xs \<Longrightarrow> \<not> Full cl s \<Longrightarrow> \<exists>s'. Push cl s v = Inr s' \<and> holds s' (v # xs) \<and> limit s' = limit s"
    and push_full: "holds s xs \<Longrightarrow> Full cl s \<Longrightarrow> Push cl s v = Inl AssertFailed"
    and pop_ok: "holds s (v # vs) \<Longrightarrow> \<exists>s'. Pop cl s = Inr (s', v) \<and> holds s' vs \<and> limit s' = limit s"
    and pop_none: "holds s [] \<Longrightarrow> Pop cl s = Inl AssertFailed"
    and full_iff: "holds s xs \<Longrightarrow> Full cl s \<longleftrightarrow> limit s = Some (length xs)"
    and empty_iff: "holds s xs \<Longrightarrow> Empty cl s \<longleftrightarrow> xs = []"

datatype stack_op = OpPush int | OpPop

primrec stack_step :: "'s stack_class \<Rightarrow> 's \<Rightarrow> stack_op \<Rightarrow> ('s \<times> int option) res" where
  "stack_step cl s (OpPush v) = bindR (Push cl s v) (\<lambda>s. Inr (s, None))"
| "stack_step cl s OpPop = bindR (Pop cl s) (\<lambda>(s, v). Inr (s, Some v))"

text \<open>The results on a stack without limit; none when a pop finds nothing.\<close>

fun stack_spec :: "int list \<Rightarrow> stack_op list \<Rightarrow> int option list option" where
  "stack_spec xs [] = Some []"
| "stack_spec xs (OpPush v # l) = map_option (Cons None) (stack_spec (v # xs) l)"
| "stack_spec (x # xs) (OpPop # l) = map_option (Cons (Some x)) (stack_spec xs l)"
| "stack_spec [] (OpPop # l) = None"

context stack_contract
begin

lemma run_sound:
  "holds s xs \<Longrightarrow> run_ops (stack_step cl) s l = Inr (s', outs) \<Longrightarrow> stack_spec xs l = Some outs"
proof (induction xs l arbitrary: s outs rule: stack_spec.induct)
  case (2 xs v l)
  have "\<not> Full cl s" using 2(2,3) push_full by (auto simp: bindR_eq_Inr)
  then obtain s1 where "Push cl s v = Inr s1" "holds s1 (v # xs)" using push_ok [OF 2(2)] by blast
  then show ?case using 2(1,3) by (fastforce simp: bindR_eq_Inr)
next
  case (3 x xs l)
  obtain s1 where "Pop cl s = Inr (s1, x)" "holds s1 xs" using pop_ok [OF 3(2)] by blast
  then show ?case using 3(1,3) by (fastforce simp: bindR_eq_Inr)
next
  case (4 l)
  then show ?case using pop_none by (simp add: bindR_eq_Inr)
qed simp

lemma run_complete:
  "holds s xs \<Longrightarrow> limit s = None \<Longrightarrow> stack_spec xs l = Some outs \<Longrightarrow> \<exists>s'. run_ops (stack_step cl) s l = Inr (s', outs)"
proof (induction xs l arbitrary: s outs rule: stack_spec.induct)
  case (2 xs v l)
  have "\<not> Full cl s" using 2(2,3) full_iff by simp
  then obtain s1 where "Push cl s v = Inr s1" "holds s1 (v # xs)" "limit s1 = None" using push_ok [OF 2(2)] 2(3) by fastforce
  then show ?case using 2(1) 2(4) by fastforce
next
  case (3 x xs l)
  obtain s1 where "Pop cl s = Inr (s1, x)" "holds s1 xs" "limit s1 = None" using pop_ok [OF 3(2)] 3(3) by fastforce
  then show ?case using 3(1) 3(4) by fastforce
qed auto

lemma pop_numbers_ok:
  "holds s xs \<Longrightarrow> length xs \<le> fuel \<Longrightarrow> \<exists>s'. pop_numbers cl fuel s = Inr (s', map Popping xs) \<and> holds s' [] \<and> limit s' = limit s"
proof (induction fuel arbitrary: s xs)
  case (Suc fuel)
  show ?case
  proof (cases xs)
    case Nil
    then show ?thesis using Suc.prems(1) empty_iff by auto
  next
    case (Cons v vs)
    then obtain s1 where s1: "Pop cl s = Inr (s1, v)" "holds s1 vs" "limit s1 = limit s" using pop_ok Suc.prems(1) by blast
    have "\<not> Empty cl s" using empty_iff [OF Suc.prems(1)] Cons by simp
    then show ?thesis using s1 Suc.IH [OF s1(2)] Suc.prems(2) Cons by auto
  qed
qed (use empty_iff in auto)

lemma push_numbers_ok:
  "holds s xs \<Longrightarrow> \<forall>m. limit s = Some m \<longrightarrow> length xs + n \<le> m \<Longrightarrow>
    \<exists>s'. push_numbers cl n k s = Inr (s', map Pushing [k..k + int n - 1]) \<and> holds s' (rev [k..k + int n - 1] @ xs) \<and> limit s' = limit s"
proof (induction n arbitrary: s xs k)
  case (Suc n)
  have "\<not> Full cl s" using full_iff [OF Suc.prems(1)] Suc.prems(2) by auto
  then obtain s1 where s1: "Push cl s k = Inr s1" "holds s1 (k # xs)" "limit s1 = limit s" using push_ok [OF Suc.prems(1)] by blast
  obtain s2 where "push_numbers cl n (k + 1) s1 = Inr (s2, map Pushing [k + 1..k + 1 + int n - 1])"
      "holds s2 (rev [k + 1..k + 1 + int n - 1] @ k # xs)" "limit s2 = limit s1"
    using Suc.IH [OF s1(2), of "k + 1"] Suc.prems(2) s1(3) by auto
  moreover have "[k..k + int (Suc n) - 1] = k # [k + 1..k + 1 + int n - 1]" by (simp add: upto_rec1)
  ultimately show ?case using s1 \<open>\<not> Full cl s\<close> by auto
qed simp

lemma SelfTest_ok:
  assumes "holds s []" "\<forall>m. limit s = Some m \<longrightarrow> nat n \<le> m" "nat n \<le> fuel" "0 \<le> n"
  shows "\<exists>s'. SelfTest cl fuel n s = Inr (s', map Pushing [17..16 + n] @ map Popping (rev [17..16 + n]))"
proof -
  have e: "17 + int (nat n) - 1 = 16 + n" using assms(4) by simp
  obtain s1 where s1: "push_numbers cl (nat n) 17 s = Inr (s1, map Pushing [17..16 + n])" "holds s1 (rev [17..16 + n])"
    using push_numbers_ok [OF assms(1), of "nat n" 17] assms(2) unfolding e by auto
  have "length (rev [17..16 + n]) \<le> fuel" using assms(3,4) by simp
  then obtain s2 where "pop_numbers cl fuel s1 = Inr (s2, map Popping (rev [17..16 + n]))" using pop_numbers_ok [OF s1(2)] by blast
  then show ?thesis using s1(1) by (simp add: SelfTest_def)
qed

end

section \<open>The array keeps the contract\<close>

definition array_holds :: "array_stack \<Rightarrow> int list \<Rightarrow> bool" where
  "array_holds s xs \<longleftrightarrow> 0 \<le> top s \<and> top s \<le> capacity s \<and> length (stack s) = nat (capacity s) \<and> xs = rev (take (nat (top s)) (stack s))"

interpretation arr: stack_contract ArrayStack array_holds "\<lambda>s. Some (nat (capacity s))"
proof
  fix s xs v
  assume h: "array_holds s xs" and f: "\<not> Full ArrayStack s"
  then have t: "0 \<le> top s" "top s < capacity s" "length (stack s) = nat (capacity s)"
    by (auto simp: array_holds_def ArrayStack_def ArrayStack_Full_def)
  have "nat (top s + 1) = Suc (nat (top s))" using t(1) by simp
  then have "rev (take (nat (top s + 1)) ((stack s)[nat (top s) := v])) = v # xs"
    using h t by (simp add: array_holds_def take_Suc_conv_app_nth)
  then show "\<exists>s'. Push ArrayStack s v = Inr s' \<and> array_holds s' (v # xs) \<and> Some (nat (capacity s')) = Some (nat (capacity s))"
    using f t by (simp add: ArrayStack_def ArrayStack_Push_def array_holds_def)
next
  fix s v vs
  assume h: "array_holds s (v # vs)"
  then have t: "0 < top s" "top s \<le> capacity s" "length (stack s) = nat (capacity s)"
    by (auto simp: array_holds_def dest: order_le_imp_less_or_eq)
  have "nat (top s) = Suc (nat (top s - 1))" using t(1) by simp
  then have "v # vs = (stack s ! nat (top s - 1)) # rev (take (nat (top s - 1)) (stack s))"
    using h t by (simp add: array_holds_def take_Suc_conv_app_nth)
  then show "\<exists>s'. Pop ArrayStack s = Inr (s', v) \<and> array_holds s' vs \<and> Some (nat (capacity s')) = Some (nat (capacity s))"
    using t by (simp add: ArrayStack_def ArrayStack_Pop_def ArrayStack_Empty_def array_holds_def)
qed (auto simp: ArrayStack_def ArrayStack_Push_def ArrayStack_Pop_def ArrayStack_Full_def ArrayStack_Empty_def array_holds_def)

section \<open>The list keeps the contract\<close>

text \<open>The elements from \<open>p\<close> on are at the addresses \<open>as\<close> and hold \<open>xs\<close>.\<close>

fun linked :: "(nat \<Rightarrow> list_element option) \<Rightarrow> nat option \<Rightarrow> nat list \<Rightarrow> int list \<Rightarrow> bool" where
  "linked h p [] xs \<longleftrightarrow> p = None \<and> xs = []"
| "linked h p (a # as) [] \<longleftrightarrow> False"
| "linked h p (a # as) (x # xs) \<longleftrightarrow> p = Some a \<and> (\<exists>q. h a = Some \<lparr>next_el = q, item_el = x\<rparr> \<and> linked h q as xs)"

lemma linked_upd [simp]: "a \<notin> set as \<Longrightarrow> linked (h(a := e)) p as xs = linked h p as xs"
  by (induction h p as xs rule: linked.induct) auto

definition list_holds :: "list_stack \<Rightarrow> int list \<Rightarrow> bool" where
  "list_holds s xs \<longleftrightarrow> (\<exists>as. linked (elements s) (first_el s) as xs \<and> distinct as \<and> (\<forall>a \<in> set as. a < fresh s) \<and>
     last_el s = (if as = [] then None else Some (last as)))"

lemma linked_first: "linked h p as xs \<Longrightarrow> (p = None) = (as = []) \<and> (xs = []) = (as = [])"
  by (cases as; cases xs) auto

interpretation lst: stack_contract ListStack list_holds "\<lambda>_. None"
proof
  fix s xs v
  assume "list_holds s xs"
  then obtain as where a: "linked (elements s) (first_el s) as xs" "distinct as" "\<forall>a \<in> set as. a < fresh s"
      "last_el s = (if as = [] then None else Some (last as))"
    by (auto simp: list_holds_def)
  have n: "fresh s \<notin> set as" "\<forall>a \<in> set as. a < Suc (fresh s)" using a(3) by (auto intro: less_SucI)
  have "list_holds s' (v # xs)" if "Push ListStack s v = Inr s'" for s'
    using that a n linked_first [OF a(1)] unfolding list_holds_def
    by (intro exI [of _ "fresh s # as"])
      (auto simp: ListStack_def ListStack_Push_def List_Prepend_def ListElement_new_def List_Empty_def deref_el_def)
  moreover have "\<exists>s'. Push ListStack s v = Inr s'"
    by (simp add: ListStack_def ListStack_Push_def List_Prepend_def ListElement_new_def List_Empty_def deref_el_def)
  ultimately show "\<exists>s'. Push ListStack s v = Inr s' \<and> list_holds s' (v # xs) \<and> None = (None :: nat option)" by blast
next
  fix s v vs
  assume "list_holds s (v # vs)"
  then obtain a as q where a: "first_el s = Some a" "elements s a = Some \<lparr>next_el = q, item_el = v\<rparr>" "linked (elements s) q as vs"
      "distinct (a # as)" "\<forall>x \<in> set (a # as). x < fresh s" "last_el s = Some (last (a # as))"
    unfolding list_holds_def by (metis linked.simps(1) linked.simps(3) list.distinct(1) neq_Nil_conv)
  have one: "first_el s = last_el s \<longleftrightarrow> as = []" using a(1,4,6) by (auto split: if_splits)
  have "list_holds s' vs" if "Pop ListStack s = Inr (s', v)" for s'
    using that a one linked_first [OF a(3)] unfolding list_holds_def
    by (intro exI [of _ as]) (auto simp: ListStack_def ListStack_Pop_def List_Remove_def List_Empty_def deref_el_def split: if_splits)
  moreover have "\<exists>s'. Pop ListStack s = Inr (s', v)"
    using a by (simp add: ListStack_def ListStack_Pop_def List_Remove_def List_Empty_def deref_el_def Let_def)
  ultimately show "\<exists>s'. Pop ListStack s = Inr (s', v) \<and> list_holds s' vs \<and> None = (None :: nat option)" by blast
qed (auto simp: ListStack_def ListStack_Pop_def List_Empty_def list_holds_def dest: linked_first)

section \<open>Properties\<close>

lemma ArrayStack_new_holds: "ArrayStack_new junk sz = Inr s \<Longrightarrow> array_holds s [] \<and> capacity s = sz \<and> 1 \<le> sz"
  by (auto simp: ArrayStack_new_def array_holds_def ASSERT_eq_Inr)

lemma List_new_holds: "list_holds List_new []"
  by (simp add: list_holds_def List_new_def)

text \<open>
  C32: the two implementations agree: every sequence of pushes and pops that an array stack of any size accepts
  is accepted by the list stack, with the same results.
\<close>

theorem stacks_agree:
  assumes "ArrayStack_new junk sz = Inr s" and "run_ops (stack_step ArrayStack) s ops = Inr (s', outs)"
  shows "\<exists>l. run_ops (stack_step ListStack) List_new ops = Inr (l, outs)"
  using arr.run_sound [OF _ assms(2)] ArrayStack_new_holds [OF assms(1)] lst.run_complete [OF List_new_holds] by blast

theorem stacks_agree_witness:
  "\<exists>s s' l. ArrayStack_new (\<lambda>_. 9) 2 = Inr s \<and>
    run_ops (stack_step ArrayStack) s [OpPush 5, OpPush 6, OpPop, OpPush 7, OpPop, OpPop] = Inr (s', [None, None, Some 6, None, Some 7, Some 5]) \<and>
    run_ops (stack_step ListStack) List_new [OpPush 5, OpPush 6, OpPop, OpPush 7, OpPop, OpPop] = Inr (l, [None, None, Some 6, None, Some 7, Some 5])"
proof -
  let ?ops = "[OpPush 5, OpPush 6, OpPop, OpPush 7, OpPop, OpPop]"
  obtain s where s: "ArrayStack_new (\<lambda>_. 9) 2 = Inr s" by (simp add: ArrayStack_new_def)
  then obtain s' where s': "run_ops (stack_step ArrayStack) s ?ops = Inr (s', [None, None, Some 6, None, Some 7, Some 5])"
    by (auto simp: ArrayStack_new_def ArrayStack_def ArrayStack_Push_def ArrayStack_Pop_def ArrayStack_Full_def ArrayStack_Empty_def numeral_2_eq_2)
  show ?thesis using s s' stacks_agree [OF s s'] by blast
qed

text \<open>
  \<open>SelfTest\<close> prints the numbers it pushes and then the same numbers in reverse, for both implementations, when the
  array has room for them.
\<close>

theorem self_test_reverses:
  assumes "ArrayStack_new junk sz = Inr s" and "0 \<le> n" and "n \<le> sz"
  shows "\<exists>s' l. SelfTest ArrayStack (nat n) n s = Inr (s', map Pushing [17..16 + n] @ map Popping (rev [17..16 + n])) \<and>
    SelfTest ListStack (nat n) n List_new = Inr (l, map Pushing [17..16 + n] @ map Popping (rev [17..16 + n]))"
  using arr.SelfTest_ok [of s n "nat n"] lst.SelfTest_ok [OF List_new_holds, of n "nat n"] ArrayStack_new_holds [OF assms(1)] assms(2,3) by auto

end
