(* ===== verification/Spec2Isabelle.thy ===== *)
theory Spec2Isabelle
  imports LinkedList BitMaps Memory Machine Mips DiskDev FileHdr OpenFiles Directories FileSys FileSessions
    Interrupts Kernel KernelInv Scheduling Locks Semaphores AddrSpaces Paging
    PageFaults Exceptions VirtualMemory Processes Coff Executables
    FsTest CommandLine Commands Network PostOffices Consoles ConsoleRuns Stacks
begin

text \<open>
  A verification library for the Nachos instructional operating system in \<open>src/nachos/code\<close>: a MIPS
  machine and its devices simulated in C++, and a small kernel (threads, synchronization, a file
  system) that runs on the host beside the simulation.

  \<^bold>\<open>Parts of the program and how they interact.\<close> The machine (\<open>machine/machine.cc\<close>, \<open>machine/translate.cc\<close>,
  \<open>machine/mipssim.cc\<close>) executes user instructions on registers and a memory behind a page table or a
  TLB and calls the kernel at an exception. Time is simulated by \<open>machine/interrupt.cc\<close>: devices (timer,
  disk) schedule interrupts on a sorted list, and \<open>OneTick\<close> runs the handlers that are due. The kernel
  switches threads (\<open>threads/thread.cc\<close>, \<open>threads/scheduler.cc\<close>) when they yield, sleep or are preempted;
  semaphores, locks, conditions, mailboxes, synchronized lists and the whale problem
  (\<open>threads/synch.cc\<close>, \<open>threads/synchlist.cc\<close>, \<open>threads/Whale.cc\<close>) build on that. All queues are the linked
  lists of \<open>threads/list.cc\<close>. The file system (\<open>filesys/\<close>) keeps a bitmap of free sectors, file headers and
  one directory on a disk of 1024 sectors, through \<open>SynchDisk\<close>. The memory manager and the table of
  \<open>userprog/\<close> hand out page frames and process numbers. A process has an address space
  (\<open>userprog/addrspace.cc\<close>) whose pages are loaded when they are first used, from the executable or from
  its backing store (\<open>userprog/backingstore.cc\<close>); \<open>ExceptionHandler\<close> (\<open>userprog/exception.cc\<close>) serves page
  faults and system calls, and reaches user memory through the same \<open>ReadMem\<close> and \<open>WriteMem\<close>, so that the
  kernel's own accesses fault as well. Machines exchange packets through a network device
  (\<open>machine/network.cc\<close>), on which \<open>network/post.cc\<close> builds mailboxes.

  \<^bold>\<open>Theories.\<close>
  \<^item> \<open>Nachos_Prelude\<close>: faults and results (\<open>'a res\<close>: a fault or a value), \<open>ASSERT\<close> and the rounding macros of
    \<open>threads/utility.h\<close>, arrays with bounds, runs of operations and the locale \<open>simulation\<close>.
  \<^item> \<open>LinkedList\<close>: \<open>threads/list.cc\<close> on an explicit store of list elements, refined to lists of keys and
    items; the locale \<open>ordered_queue\<close>, interpreted as \<open>lq\<close>, is what the scheduler, the semaphores and the
    interrupt simulation use.
  \<^item> \<open>BitMaps\<close>, \<open>Memory\<close>: \<open>userprog/bitmap.cc\<close> and the memory manager and table that use it.
  \<^item> \<open>Machine\<close>, \<open>Mips\<close>: registers, memory, translation and exceptions; decoding and execution of every
    instruction, split in the groups \<open>exec_*\<close> in the order of the cases of \<open>OneInstruction\<close>.
  \<^item> \<open>DiskDev\<close>: \<open>machine/disk.cc\<close>, \<open>machine/stats.cc\<close> and \<open>filesys/synchdisk.cc\<close>; the UNIX file under the disk
    is a list of bytes.
  \<^item> \<open>FileHdr\<close>, \<open>OpenFiles\<close>, \<open>Directories\<close>, \<open>FileSys\<close>: the files of \<open>filesys/\<close> of the same names, with the layout
    of the structures in bytes as the disk holds them. \<open>FileSessions\<close> has what a client sees, \<open>FsTest\<close> the
    commands of \<open>filesys/fstest.cc\<close> that are its clients.
  \<^item> \<open>CommandLine\<close>: the options that \<open>Initialize\<close> (\<open>threads/system.cc\<close>) and \<open>main\<close> (\<open>threads/main.cc\<close>) read, for
    every build; \<open>Commands\<close> has sessions of the commands of the file system.
  \<^item> \<open>Interrupts\<close>: \<open>machine/interrupt.cc\<close>, \<open>machine/timer.cc\<close> and the timer handler of \<open>threads/system.cc\<close>.
  \<^item> \<open>Kernel\<close>: threads, scheduler and synchronization. A routine is a list of sections (\<open>frame\<close>), each of
    which runs with interrupts off or touches one object; a thread that is switched out keeps the
    sections it still has to do. \<open>kstep\<close> is one event (the next section, a call, a preemption, a device
    handler's \<open>V\<close>), \<open>reachable\<close> what follows from the boot state. \<open>KernelInv\<close> has the invariant and its
    preservation by every section, \<open>Sections\<close> the locale for facts that hold between sections;
    \<open>Scheduling\<close>, \<open>Locks\<close> and \<open>Semaphores\<close> have the properties.
  \<^item> \<open>AddrSpaces\<close>: address spaces, the backing store and the page-fault handler. \<open>Paging\<close> has the lemmas on its
    steps, \<open>PageFaults\<close> the properties of a whole fault.
  \<^item> \<open>Exceptions\<close>: the handler, the system calls and \<open>StartProcess\<close> (\<open>userprog/progtest.cc\<close>). \<open>VirtualMemory\<close>
    shows that demand paging implements an array of bytes (\<open>flat\<close>), by the locale \<open>weak_simulation\<close>
    interpreted as \<open>vm\<close>; \<open>Processes\<close> has the properties of the start of a process and of the system calls.
  \<^item> \<open>Coff\<close>: the converter \<open>bin/coff2noff.c\<close> that makes the executables. \<open>Executables\<close> puts the converter, the
    loader and demand paging together.
  \<^item> \<open>Network\<close>: the network device \<open>machine/network.cc\<close> over the interrupt simulation, the post office
    \<open>network/post.cc\<close> on it, and several machines that send each other packets (\<open>net_step\<close>). \<open>PostOffices\<close>
    shows that the mail arrives.
  \<^item> \<open>Consoles\<close>: the console device \<open>machine/console.cc\<close>, \<open>userprog/synchconsole.cc\<close> and \<open>ConsoleTest\<close>, with their
    properties in \<open>ConsoleRuns\<close>. \<open>Devices\<close> has what it shares with the network.
  \<^item> \<open>Stacks\<close>: the stack of \<open>c++example/inheritstack.cc\<close> with its two implementations, as the locale \<open>stack_contract\<close>
    and its interpretations \<open>arr\<close> and \<open>lst\<close>.

  \<^bold>\<open>What the lemmas show.\<close> For the data structures: each operation refines an abstract one (lists sorted
  by key, sets of bits, finite maps of truncated names, bytes of a file), on every branch, with the
  asserts and out-of-bounds accesses as faults. For the machine: translation gives exactly the
  documented exceptions, multiplication and the overflow tests are exact, no instruction indexes outside the
  registers, the memory or a table. For the disk and the file system: data read is data written, a write
  changes the addressed bytes only; a session of commands on the command line prints what an abstract file
  system prints, and runs of \<open>Create\<close> (up to the largest size), \<open>Open\<close> and \<open>Remove\<close> return what an abstract
  state (lengths of files, number of free sectors) says. For the interrupts: the handlers of the timer run once each when due, in
  order of time, and an idle machine halts or goes on with the next interrupt. For the kernel: every thread is in the queues its status allows, dispatching never
  fails and goes by priority, locks exclude threads of other names, and no wakeup of a semaphore is lost. For processes: a page fault changes no other
  valid page, a saved page comes back as it was, and so every byte that a process has written or that
  its executable determines is the one that it and the system calls read; a program converted from COFF
  has the bytes of its last text and data sections at their addresses, if the flags of its backing store happen to be clear. For the network: however the steps of the machines,
  their devices and their postal workers interleave, mail that the network does not lose reaches its
  mailbox unchanged and in order, and the machines always go on until all of it is there. For the console:
  characters are taken in the order they were typed and displayed in the order they were put, as long as the threads
  that use it have different names. Where the code falls short of
  this (pages that are not cleared, flags that are not initialised, locks that go by the name of a thread, the search for a page to evict, the
  name of \<open>Exec\<close>, the exit of the first process), a theorem states what happens.

  \<^bold>\<open>Conventions.\<close> Registers and memory are words of their width; the \<open>int\<close>s of the file system and the
  kernel are integers, with the wrap-around written out where the code tests for it (\<open>wrap32\<close>). Memory
  that the code leaves uninitialised is an argument (\<open>junk\<close>, \<open>garbage\<close>). Objects of the kernel are
  numbered instead of having addresses. A preemption may come whenever interrupts are on, which allows
  more interleavings than the timer causes. The locks around the memory manager and the table are taken
  as held, and \<open>SynchDisk\<close> waits for the interrupt of its own request. The executable and the backing
  store are UNIX files (\<open>stub_ReadAt\<close>, \<open>stub_WriteAt\<close>), as in the build with user programs. What other threads
  do while a process yields is the argument \<open>others\<close>; a read from the console without input does not return
  (\<open>Blocked\<close>). The post office and the console have the values of their semaphores; the locks of the post office are
  taken as those of threads with different names, and those of the console go by the names of the threads, as in \<open>Lock::Acquire\<close>. A call that waits is made again later; the clock of a machine moves to its next interrupt, as in \<open>Idle\<close>, and the reliability of the network is a real number.
  \<open>ExceptionType\<close> has no value for \<open>NumExceptionTypes\<close>, which is never raised.

  \<^bold>\<open>Bounds on loops.\<close> \<open>sorted_walk\<close> and \<open>Mapcar\<close> run at most as often as the store has elements (its \<open>brk\<close>);
  \<open>List_destroy\<close> likewise; \<open>fire_due n\<close> needs \<open>n\<close> above the number of pending interrupts; \<open>wake_all\<close> gets one
  round more than the wait list has threads; \<open>mult_loop\<close> runs 32 times; \<open>pop_numbers\<close> needs the size of the stack. The theorems show that these suffice.
  \<open>pick_victim n\<close> looks at the first \<open>n\<close> numbers of \<open>random\<close>, the results of \<open>Random()\<close>; \<open>eviction_ends_iff\<close> says
  when some \<open>n\<close> suffices, and \<open>draws_all n\<close> that among any \<open>n\<close> successive numbers every page is drawn.

  \<^bold>\<open>Not modelled.\<close> The host (\<open>machine/sysdep.cc\<close>), the assembly of \<open>SWITCH\<close>, debug output
  (\<open>threads/utility.cc\<close>) and the test drivers of the threads and of the network only call
  the host or print. The system calls see the console as the characters it takes and gives, in order, which
  is what \<open>ConsoleRuns\<close> shows of it for threads of different names. Of the modelled parts are left out: the destructors of kernel objects, the stack fence and the saving of user
  registers in \<open>Scheduler::Run\<close>, \<open>Halt\<close>, and the debugger of the machine.
\<close>

end
